(* ===== verification/Prelude.thy ===== *)
theory Prelude
  imports Main "HOL-Library.Word"
begin

text \<open>
  Shared vocabulary of the development.

  \<^item> Names for the machine integers of \<^verbatim>\<open>kernel/types.h\<close>.
  \<^item> The outcome of running a piece of kernel code: it returns a value in a new
    state, it panics, or it has to wait (it spins on a lock or sleeps on a channel).
  \<^item> The identities of the kernel's spin locks, sleep locks and sleep channels. The C code
    identifies them by address; only equality of addresses matters to it.
  \<^item> Generic lemmas on words, lists and step systems that the component theories share.
\<close>

section \<open>Machine integers\<close>

type_synonym u8 = "8 word"
type_synonym u16 = "16 word"
type_synonym u32 = "32 word"
type_synonym u64 = "64 word"

section \<open>Identities of locks and channels\<close>

datatype sleeplockid = BufLock nat | InodeLock nat

datatype lockid =
    KmemLock
  | PrLock
  | PidLock
  | WaitLock
  | ProcLock nat
  | TicksLock
  | UartTxLock
  | ConsLock
  | VdiskLock
  | BcacheLock
  | LogLock
  | ItableLock
  | FtableLock
  | PipeLock u64
  | SleepLk sleeplockid

datatype chan =
    SpinOn lockid
  | UartIdle
  | Frozen
  | NoFuel
  | Switched
  | ProcChan nat
  | TicksChan
  | UartTxChan
  | ConsChan
  | DiskFreeChan
  | DiskBufChan nat
  | LogChan
  | PipeReadChan u64
  | PipeWriteChan u64
  | SleepLockChan sleeplockid

section \<open>Outcomes\<close>

text \<open>
  \<^term>\<open>Done x s\<close>: the code returned \<open>x\<close> and left the state \<open>s\<close>.
  \<^term>\<open>Panic msg\<close>: the code called \<^verbatim>\<open>panic(msg)\<close>, which never returns.
  \<^term>\<open>Waits c s\<close>: the code cannot go on before some other hart, process or device
  acts; \<open>s\<close> is the state at the point where it waits.
\<close>

datatype ('a, 's) out = Done 'a 's | Panic string | Waits chan 's

primrec bnd :: "('a, 's) out \<Rightarrow> ('a \<Rightarrow> 's \<Rightarrow> ('b, 's) out) \<Rightarrow> ('b, 's) out" where
  "bnd (Done x s) f = f x s"
| "bnd (Panic m) f = Panic m"
| "bnd (Waits c s) f = Waits c s"

primrec returns :: "('a, 's) out \<Rightarrow> bool" where
  "returns (Done x s) = True"
| "returns (Panic m) = False"
| "returns (Waits c s) = False"

named_theorems layout \<open>values of the constants and macros of the headers\<close>
named_theorems out_conv \<open>when a composed outcome is a given outcome\<close>

lemma bnd_eq_Done [out_conv]:
  "bnd m f = Done y t \<longleftrightarrow> (\<exists>x s. m = Done x s \<and> f x s = Done y t)"
  by (cases m) auto

lemma bnd_eq_Panic [out_conv]:
  "bnd m f = Panic e \<longleftrightarrow> m = Panic e \<or> (\<exists>x s. m = Done x s \<and> f x s = Panic e)"
  by (cases m) auto

lemma bnd_eq_Waits [out_conv]:
  "bnd m f = Waits c t \<longleftrightarrow> m = Waits c t \<or> (\<exists>x s. m = Done x s \<and> f x s = Waits c t)"
  by (cases m) auto

lemma bnd_assoc: "bnd (bnd m f) g = bnd m (\<lambda>x s. bnd (f x s) g)"
  by (cases m) auto

lemma bnd_Done [simp]: "bnd m Done = m"
  by (cases m) auto

lemma returns_iff: "returns m \<longleftrightarrow> (\<exists>x s. m = Done x s)"
  by (cases m) auto

lemma bnd_cong [fundef_cong]:
  "m = m' \<Longrightarrow> (\<And>x s. m' = Done x s \<Longrightarrow> f x s = f' x s) \<Longrightarrow> bnd m f = bnd m' f'"
  by (cases m') auto

section \<open>Step systems and their invariants\<close>

inductive reach :: "('s \<Rightarrow> bool) \<Rightarrow> ('s \<Rightarrow> 's \<Rightarrow> bool) \<Rightarrow> 's \<Rightarrow> bool"
  for init :: "'s \<Rightarrow> bool" and step :: "'s \<Rightarrow> 's \<Rightarrow> bool" where
  reach_init: "init s \<Longrightarrow> reach init step s"
| reach_step: "reach init step s \<Longrightarrow> step s t \<Longrightarrow> reach init step t"

locale step_invariant =
  fixes init :: "'s \<Rightarrow> bool"
    and step :: "'s \<Rightarrow> 's \<Rightarrow> bool"
    and inv :: "'s \<Rightarrow> bool"
  assumes inv_init: "init s \<Longrightarrow> inv s"
    and inv_step: "inv s \<Longrightarrow> step s t \<Longrightarrow> inv t"
begin

lemma reach_inv: "reach init step s \<Longrightarrow> inv s"
  by (induction rule: reach.induct) (auto intro: inv_init inv_step)

end

section \<open>Words\<close>

lemma word_unat_eqI: "unat a = unat b \<Longrightarrow> a = (b :: 'w::len word)"
  by (simp add: unsigned_word_eqI)

lemma unat_neq_cases: "(a :: 'w::len word) \<noteq> b \<Longrightarrow> unat a < unat b \<or> unat b < unat a"
  by (metis nat_neq_iff word_unat_eqI)

lemma unat_le_iff: "(a :: 'w::len word) \<le> b \<longleftrightarrow> unat a \<le> unat b"
  by (simp add: word_le_nat_alt)

lemma unat_less_iff: "(a :: 'w::len word) < b \<longleftrightarrow> unat a < unat b"
  by (simp add: word_less_nat_alt)

lemma unat_add_small:
  "unat (a :: 'w::len word) + unat b < 2 ^ LENGTH('w) \<Longrightarrow> unat (a + b) = unat a + unat b"
  by (simp add: unat_word_ariths)

lemma unat_of_nat_small: "n < 2 ^ LENGTH('w) \<Longrightarrow> unat (of_nat n :: 'w::len word) = n"
  by (simp add: unat_of_nat take_bit_nat_eq_self)

lemma unat_sub_le: "(b :: 'w::len word) \<le> a \<Longrightarrow> unat (a - b) = unat a - unat b"
  by (rule unat_sub)

section \<open>Multiples\<close>

lemma multiple_gap:
  assumes "x mod d = 0" "y mod d = 0" "x < y"
  shows "x + d \<le> (y :: nat)"
proof -
  have "d dvd y - x" using assms(1,2) by (intro dvd_diff_nat) (auto simp: dvd_eq_mod_eq_0)
  with assms(3) have "d \<le> y - x" by (intro dvd_imp_le) auto
  with assms(3) show ?thesis by simp
qed

section \<open>Lists\<close>

lemma remove_nth:
  assumes "i < length xs" "distinct xs"
  shows "distinct (take i xs @ drop (Suc i) xs)" "xs ! i \<notin> set (take i xs @ drop (Suc i) xs)"
    "set xs = insert (xs ! i) (set (take i xs @ drop (Suc i) xs))"
proof -
  obtain ys zs where xs: "xs = ys @ xs ! i # zs" "ys = take i xs" "zs = drop (Suc i) xs"
    using id_take_nth_drop [OF assms(1)] by blast
  have "distinct (ys @ xs ! i # zs)" using assms(2) xs(1) by simp
  then show "distinct (take i xs @ drop (Suc i) xs)" "xs ! i \<notin> set (take i xs @ drop (Suc i) xs)"
    using xs(2,3) by auto
  have "set xs = set (ys @ xs ! i # zs)" using xs(1) by simp
  then show "set xs = insert (xs ! i) (set (take i xs @ drop (Suc i) xs))"
    using xs(2,3) by auto
qed

end
