(* ===== verification/Layout.thy ===== *)
theory Layout
  imports Prelude
begin

text \<open>
  The constants and macros of \<^verbatim>\<open>kernel/param.h\<close>, \<^verbatim>\<open>kernel/memlayout.h\<close> and of the
  paging part of \<^verbatim>\<open>kernel/riscv.h\<close>, at 64 bits, with the arithmetic facts about rounding,
  page-table indices and page-table entries that the virtual-memory proofs use.
\<close>

unbundle bit_operations_syntax

section \<open>kernel/param.h\<close>

definition NPROC :: nat where [layout]: "NPROC = 64"
definition NCPU :: nat where [layout]: "NCPU = 8"
definition NOFILE :: nat where [layout]: "NOFILE = 16"
definition NFILE :: nat where [layout]: "NFILE = 100"
definition NINODE :: nat where [layout]: "NINODE = 50"
definition NDEV :: nat where [layout]: "NDEV = 10"
definition ROOTDEV :: u32 where [layout]: "ROOTDEV = 1"
definition MAXARG :: nat where [layout]: "MAXARG = 32"
definition MAXOPBLOCKS :: nat where [layout]: "MAXOPBLOCKS = 10"
definition LOGSIZE :: nat where [layout]: "LOGSIZE = MAXOPBLOCKS * 3"
definition NBUF :: nat where [layout]: "NBUF = MAXOPBLOCKS * 3"
definition FSSIZE :: nat where [layout]: "FSSIZE = 2000"
definition MAXPATH :: nat where [layout]: "MAXPATH = 128"

section \<open>Paging macros of kernel/riscv.h\<close>

definition PGSIZE :: u64 where [layout]: "PGSIZE = 4096"
definition PGSHIFT :: nat where [layout]: "PGSHIFT = 12"

definition PGROUNDUP :: "u64 \<Rightarrow> u64" where
  "PGROUNDUP sz = (sz + PGSIZE - 1) AND NOT (PGSIZE - 1)"

definition PGROUNDDOWN :: "u64 \<Rightarrow> u64" where
  "PGROUNDDOWN a = a AND NOT (PGSIZE - 1)"

definition PTE_V :: u64 where [layout]: "PTE_V = 1"
definition PTE_R :: u64 where [layout]: "PTE_R = 2"
definition PTE_W :: u64 where [layout]: "PTE_W = 4"
definition PTE_X :: u64 where [layout]: "PTE_X = 8"
definition PTE_U :: u64 where [layout]: "PTE_U = 16"

definition PA2PTE :: "u64 \<Rightarrow> u64" where
  "PA2PTE pa = push_bit 10 (drop_bit 12 pa)"

definition PTE2PA :: "u64 \<Rightarrow> u64" where
  "PTE2PA pte = push_bit 12 (drop_bit 10 pte)"

definition PTE_FLAGS :: "u64 \<Rightarrow> u64" where
  "PTE_FLAGS pte = pte AND 0x3FF"

definition PXSHIFT :: "nat \<Rightarrow> nat" where
  "PXSHIFT level = PGSHIFT + 9 * level"

definition PX :: "nat \<Rightarrow> u64 \<Rightarrow> u64" where
  "PX level va = drop_bit (PXSHIFT level) va AND 0x1FF"

definition MAXVA :: u64 where [layout]: "MAXVA = push_bit (9 + 9 + 9 + 12 - 1) 1"

definition SATP_SV39 :: u64 where [layout]: "SATP_SV39 = push_bit 60 8"

definition MAKE_SATP :: "u64 \<Rightarrow> u64" where
  "MAKE_SATP pagetable = SATP_SV39 OR drop_bit 12 pagetable"

definition SSTATUS_SPP :: u64 where [layout]: "SSTATUS_SPP = push_bit 8 1"
definition SSTATUS_SPIE :: u64 where [layout]: "SSTATUS_SPIE = push_bit 5 1"
definition SSTATUS_SIE :: u64 where [layout]: "SSTATUS_SIE = push_bit 1 1"

section \<open>kernel/memlayout.h\<close>

definition UART0 :: u64 where [layout]: "UART0 = 0x10000000"
definition UART0_IRQ :: int where [layout]: "UART0_IRQ = 10"
definition VIRTIO0 :: u64 where [layout]: "VIRTIO0 = 0x10001000"
definition VIRTIO0_IRQ :: int where [layout]: "VIRTIO0_IRQ = 1"
definition PLIC :: u64 where [layout]: "PLIC = 0x0c000000"
definition KERNBASE :: u64 where [layout]: "KERNBASE = 0x80000000"
definition PHYSTOP :: u64 where [layout]: "PHYSTOP = KERNBASE + 128 * 1024 * 1024"
definition TRAMPOLINE :: u64 where [layout]: "TRAMPOLINE = MAXVA - PGSIZE"
definition KSTACK :: "nat \<Rightarrow> u64" where
  "KSTACK p = TRAMPOLINE - (of_nat p + 1) * 2 * PGSIZE"
definition TRAPFRAME :: u64 where [layout]: "TRAPFRAME = TRAMPOLINE - PGSIZE"

section \<open>Rounding\<close>

lemma PGSIZE_minus_1: "PGSIZE - 1 = mask 12"
  by (simp add: PGSIZE_def mask_eq_exp_minus_1)

lemma and_not_mask: "(a :: 'w::len word) AND NOT (mask n) = a - take_bit n a"
proof -
  have "a AND NOT (mask n) = push_bit n (drop_bit n a)"
    by (rule bit_word_eqI) (auto simp: bit_simps)
  then show ?thesis
    by (metis add_diff_cancel_right' bits_ident)
qed

lemma unat_take_bit_word: "unat (take_bit n (a :: 'w::len word)) = unat a mod 2 ^ n"
  unfolding unsigned_take_bit_eq by (rule take_bit_eq_mod)

lemma unat_PGROUNDDOWN: "unat (PGROUNDDOWN a) = unat a div 4096 * 4096"
proof -
  have le: "take_bit 12 a \<le> a"
    by (simp add: word_le_nat_alt unat_take_bit_word)
  have "unat (PGROUNDDOWN a) = unat a - unat (take_bit 12 a)"
    using unat_sub [OF le] by (simp add: PGROUNDDOWN_def PGSIZE_minus_1 and_not_mask)
  also have "\<dots> = unat a div 4096 * 4096"
    by (simp add: unat_take_bit_word minus_mod_eq_div_mult)
  finally show ?thesis .
qed

lemma unat_PGROUNDUP:
  assumes "unat a + 4095 < 2 ^ 64"
  shows "unat (PGROUNDUP a) = (unat a + 4095) div 4096 * 4096"
proof -
  have "PGROUNDUP a = PGROUNDDOWN (a + 4095)"
    by (simp add: PGROUNDUP_def PGROUNDDOWN_def PGSIZE_def add.commute)
  moreover have "unat (a + 4095) = unat a + 4095"
    using assms by (subst unat_add_small) simp_all
  ultimately show ?thesis by (simp add: unat_PGROUNDDOWN)
qed

lemma PGROUNDDOWN_aligned: "unat a mod 4096 = 0 \<Longrightarrow> PGROUNDDOWN a = a"
  by (rule word_unat_eqI) (auto simp: unat_PGROUNDDOWN mult.commute)

lemma PGROUNDDOWN_mod: "unat (PGROUNDDOWN a) mod 4096 = 0"
  by (simp add: unat_PGROUNDDOWN)

lemma PGROUNDDOWN_le: "PGROUNDDOWN a \<le> a"
  by (simp add: unat_le_iff unat_PGROUNDDOWN)

lemma PGROUNDDOWN_offset: "unat (a - PGROUNDDOWN a) = unat a mod 4096"
  by (simp add: unat_sub [OF PGROUNDDOWN_le] unat_PGROUNDDOWN minus_div_mult_eq_mod)

section \<open>Page-table indices\<close>

lemma unat_PX: "unat (PX l va) = unat va div 2 ^ (12 + 9 * l) mod 512"
proof -
  have "PX l va = take_bit 9 (drop_bit (12 + 9 * l) va)"
    by (simp add: PX_def PXSHIFT_def PGSHIFT_def take_bit_eq_mask mask_eq_exp_minus_1)
  then show ?thesis
    by (simp only: unat_take_bit_word unat_drop_bit_eq) (simp add: drop_bit_eq_div)
qed

lemma PX_bound: "unat (PX l va) < 512"
  by (simp add: unat_PX)

text \<open>Below \<^const>\<open>MAXVA\<close> the three indices determine the page of an address.\<close>

lemma PX_inj:
  assumes "va < MAXVA" "vb < MAXVA"
    and "PX 0 va = PX 0 vb" "PX 1 va = PX 1 vb" "PX 2 va = PX 2 vb"
  shows "PGROUNDDOWN va = PGROUNDDOWN vb"
proof -
  let ?p = "unat va div 4096" and ?q = "unat vb div 4096"
  have bound: "?p < 512 * 512 * 512" "?q < 512 * 512 * 512"
    using assms(1,2) by (auto simp: unat_less_iff MAXVA_def)
  have div1: "n div 2097152 = n div 4096 div 512" "n div 1073741824 = n div 4096 div 512 div 512"
    for n :: nat by (simp_all add: div_mult2_eq [symmetric])
  have "?p mod 512 = ?q mod 512" "?p div 512 mod 512 = ?q div 512 mod 512"
    "?p div 512 div 512 mod 512 = ?q div 512 div 512 mod 512"
    using assms(3-5)[THEN arg_cong [where f = unat]] by (simp_all add: unat_PX div1)
  moreover have "?p div 512 div 512 < 512" "?q div 512 div 512 < 512"
    using bound by (auto simp: div_mult2_eq [symmetric] less_mult_imp_div_less)
  ultimately have "?p = ?q"
    by (metis div_mult_mod_eq mod_less)
  then show ?thesis
    by (intro word_unat_eqI) (simp add: unat_PGROUNDDOWN)
qed

section \<open>Page-table entries\<close>

lemma PTE2PA_PA2PTE:
  assumes "unat pa mod 4096 = 0" and "unat f < 1024"
  shows "PTE2PA (PA2PTE pa OR f) = pa"
proof -
  have f: "drop_bit 10 f = 0"
    by (rule word_unat_eqI) (use assms(2) in \<open>simp add: unat_drop_bit_eq drop_bit_nat_def del: drop_bit_eq_div\<close>)
  have "PTE2PA (PA2PTE pa OR f) = push_bit 12 (drop_bit 12 pa)"
    unfolding PTE2PA_def PA2PTE_def
    by (rule bit_word_eqI) (use f in \<open>auto simp: bit_simps drop_bit_or\<close>)
  also have "\<dots> = PGROUNDDOWN pa"
    by (rule bit_word_eqI) (auto simp: bit_simps PGROUNDDOWN_def PGSIZE_minus_1)
  finally show ?thesis by (simp add: PGROUNDDOWN_aligned assms(1))
qed

lemma PTE2PA_aligned: "unat (PTE2PA pte) mod 4096 = 0"
proof -
  have "take_bit 12 (PTE2PA pte) = 0"
    by (rule bit_word_eqI) (auto simp: bit_simps PTE2PA_def)
  then show ?thesis
    using unat_take_bit_word [of 12 "PTE2PA pte"] by simp
qed

lemma PTE_FLAGS_PA2PTE:
  assumes "unat f < 1024"
  shows "PTE_FLAGS (PA2PTE pa OR f) = f"
proof -
  have f: "take_bit 10 f = f"
    by (rule word_unat_eqI) (use assms in \<open>simp add: unat_take_bit_word\<close>)
  have "PTE_FLAGS (PA2PTE pa OR f) = take_bit 10 (push_bit 10 (drop_bit 12 pa)) OR take_bit 10 f"
    by (simp add: PTE_FLAGS_def PA2PTE_def take_bit_eq_mask mask_eq_exp_minus_1 bit.conj_disj_distrib2)
  also have "take_bit 10 (push_bit 10 (drop_bit 12 pa)) = (0::u64)"
    by (rule bit_word_eqI) (auto simp: bit_simps)
  finally show ?thesis using f by simp
qed

lemma PA2PTE_and_flag:
  assumes "unat f < 1024"
  shows "(PA2PTE pa OR g) AND f = g AND f"
proof -
  have "PA2PTE pa AND f = 0"
  proof (rule bit_word_eqI)
    fix n
    have "take_bit 10 f = f"
      by (rule word_unat_eqI) (use assms in \<open>simp add: unat_take_bit_word\<close>)
    then have "bit f n \<Longrightarrow> n < 10" by (metis bit_take_bit_iff)
    then show "bit (PA2PTE pa AND f) n \<longleftrightarrow> bit (0::u64) n"
      by (auto simp: bit_simps PA2PTE_def)
  qed
  then show ?thesis by (simp add: bit.conj_disj_distrib2)
qed

end
