(* ===== verification/Spinlock.thy ===== *)
theory Spinlock
  imports Layout
begin

text \<open>
  Harts, interrupt masking and spin locks: \<^verbatim>\<open>kernel/spinlock.c\<close>, \<^verbatim>\<open>kernel/spinlock.h\<close>,
  \<^verbatim>\<open>struct cpu\<close> of \<^verbatim>\<open>kernel/proc.h\<close> and the \<^verbatim>\<open>sstatus\<close> accessors of \<^verbatim>\<open>kernel/riscv.h\<close>.

  The record \<open>machine\<close> is the bottom of the kernel state; every other component extends it.
  \<open>tp\<close> is the hart that executes (the thread pointer register that \<^verbatim>\<open>cpuid()\<close> reads).
  Code that runs on another hart runs in the same state with another \<open>tp\<close>.

  The sequential \<open>acquire\<close> is the composition of the three accesses that other harts can
  interleave with: masking interrupts, the atomic swap and recording the owner; \<open>release\<close>
  is composed in the same way. The step system at the end interleaves these pieces.
\<close>

unbundle bit_operations_syntax

section \<open>State\<close>

record spinlock =
  lk_locked :: bool
  lk_name :: string
  lk_cpu :: "nat option"

record cpu =
  c_proc :: "nat option"
  noff :: int
  intena :: bool

record csr =
  sstatus :: u64
  sepc :: u64
  scause :: u64
  stval :: u64
  stvec :: u64
  satp :: u64
  sip :: u64

record machine =
  tp :: nat
  cpus :: "nat \<Rightarrow> cpu"
  csrs :: "nat \<Rightarrow> csr"
  locks :: "lockid \<Rightarrow> spinlock"

section \<open>Control registers and interrupts\<close>

definition r_sstatus :: "'a machine_scheme \<Rightarrow> u64" where
  "r_sstatus s = sstatus (csrs s (tp s))"

definition w_sstatus :: "u64 \<Rightarrow> 'a machine_scheme \<Rightarrow> 'a machine_scheme" where
  "w_sstatus x s = s\<lparr>csrs := (csrs s)(tp s := (csrs s (tp s))\<lparr>sstatus := x\<rparr>)\<rparr>"

definition intr_on :: "'a machine_scheme \<Rightarrow> 'a machine_scheme" where
  "intr_on s = w_sstatus (r_sstatus s OR SSTATUS_SIE) s"

definition intr_off :: "'a machine_scheme \<Rightarrow> 'a machine_scheme" where
  "intr_off s = w_sstatus (r_sstatus s AND NOT SSTATUS_SIE) s"

definition intr_get :: "'a machine_scheme \<Rightarrow> bool" where
  "intr_get s \<longleftrightarrow> r_sstatus s AND SSTATUS_SIE \<noteq> 0"

section \<open>The current hart\<close>

definition cpuid :: "'a machine_scheme \<Rightarrow> nat" where
  "cpuid s = tp s"

definition mycpu :: "'a machine_scheme \<Rightarrow> cpu" where
  "mycpu s = cpus s (cpuid s)"

definition set_mycpu :: "cpu \<Rightarrow> 'a machine_scheme \<Rightarrow> 'a machine_scheme" where
  "set_mycpu c s = s\<lparr>cpus := (cpus s)(cpuid s := c)\<rparr>"

section \<open>kernel/spinlock.c\<close>

definition initlock :: "lockid \<Rightarrow> string \<Rightarrow> 'a machine_scheme \<Rightarrow> 'a machine_scheme" where
  "initlock lk name s =
     s\<lparr>locks := (locks s)(lk := \<lparr>lk_locked = False, lk_name = name, lk_cpu = None\<rparr>)\<rparr>"

definition holding :: "lockid \<Rightarrow> 'a machine_scheme \<Rightarrow> bool" where
  "holding lk s \<longleftrightarrow> lk_locked (locks s lk) \<and> lk_cpu (locks s lk) = Some (cpuid s)"

definition push_off :: "'a machine_scheme \<Rightarrow> 'a machine_scheme" where
  "push_off s =
     (let old = intr_get s;
          s1 = intr_off s;
          s2 = (if noff (mycpu s1) = 0 then set_mycpu ((mycpu s1)\<lparr>intena := old\<rparr>) s1 else s1)
      in set_mycpu ((mycpu s2)\<lparr>noff := noff (mycpu s2) + 1\<rparr>) s2)"

definition pop_off :: "'a machine_scheme \<Rightarrow> (unit, 'a machine_scheme) out" where
  "pop_off s =
     (if intr_get s then Panic ''pop_off - interruptible''
      else if noff (mycpu s) < 1 then Panic ''pop_off''
      else let s1 = set_mycpu ((mycpu s)\<lparr>noff := noff (mycpu s) - 1\<rparr>) s
           in Done () (if noff (mycpu s1) = 0 \<and> intena (mycpu s1) then intr_on s1 else s1))"

definition acquire_enter :: "lockid \<Rightarrow> 'a machine_scheme \<Rightarrow> (unit, 'a machine_scheme) out" where
  "acquire_enter lk s =
     (let s1 = push_off s
      in if holding lk s1 then Panic ''acquire'' else Done () s1)"

text \<open>\<^verbatim>\<open>__sync_lock_test_and_set(&lk->locked, 1)\<close>: the old value and the new state.\<close>

definition acquire_swap :: "lockid \<Rightarrow> 'a machine_scheme \<Rightarrow> bool \<times> 'a machine_scheme" where
  "acquire_swap lk s =
     (lk_locked (locks s lk),
      s\<lparr>locks := (locks s)(lk := (locks s lk)\<lparr>lk_locked := True\<rparr>)\<rparr>)"

definition acquire_own :: "lockid \<Rightarrow> 'a machine_scheme \<Rightarrow> 'a machine_scheme" where
  "acquire_own lk s =
     s\<lparr>locks := (locks s)(lk := (locks s lk)\<lparr>lk_cpu := Some (cpuid s)\<rparr>)\<rparr>"

definition acquire :: "lockid \<Rightarrow> 'a machine_scheme \<Rightarrow> (unit, 'a machine_scheme) out" where
  "acquire lk s =
     bnd (acquire_enter lk s) (\<lambda>_ s1.
       case acquire_swap lk s1 of (old, s2) \<Rightarrow>
         if old then Waits (SpinOn lk) s2 else Done () (acquire_own lk s2))"

definition release_disown :: "lockid \<Rightarrow> 'a machine_scheme \<Rightarrow> (unit, 'a machine_scheme) out" where
  "release_disown lk s =
     (if \<not> holding lk s then Panic ''release''
      else Done () (s\<lparr>locks := (locks s)(lk := (locks s lk)\<lparr>lk_cpu := None\<rparr>)\<rparr>))"

definition release_unlock :: "lockid \<Rightarrow> 'a machine_scheme \<Rightarrow> 'a machine_scheme" where
  "release_unlock lk s = s\<lparr>locks := (locks s)(lk := (locks s lk)\<lparr>lk_locked := False\<rparr>)\<rparr>"

definition release :: "lockid \<Rightarrow> 'a machine_scheme \<Rightarrow> (unit, 'a machine_scheme) out" where
  "release lk s = bnd (release_disown lk s) (\<lambda>_ s1. pop_off (release_unlock lk s1))"

section \<open>Interrupt masking\<close>

text \<open>The condition \<^verbatim>\<open>pop_off\<close> relies on: inside a masked region interrupts are off.\<close>

definition cpu_ok :: "'a machine_scheme \<Rightarrow> bool" where
  "cpu_ok s \<longleftrightarrow> 0 \<le> noff (mycpu s) \<and> (0 < noff (mycpu s) \<longrightarrow> \<not> intr_get s)"

lemmas intr_defs = intr_on_def intr_off_def intr_get_def r_sstatus_def w_sstatus_def
lemmas cpu_defs = cpuid_def mycpu_def set_mycpu_def

lemma SIE_bits:
  "(x AND NOT SSTATUS_SIE) AND SSTATUS_SIE = 0" "(x OR SSTATUS_SIE) AND SSTATUS_SIE = SSTATUS_SIE"
  "SSTATUS_SIE \<noteq> 0"
  by (simp_all add: SSTATUS_SIE_def and.assoc bit.conj_disj_distrib2)

lemma intr_get_simps [simp]:
  "intr_get (intr_on s)" "\<not> intr_get (intr_off s)"
  "intr_get (set_mycpu c s) = intr_get s"
  "intr_get (locks_update f s) = intr_get s"
  by (simp_all add: intr_defs cpu_defs SIE_bits)

lemma mycpu_simps [simp]:
  "mycpu (intr_on s) = mycpu s" "mycpu (intr_off s) = mycpu s"
  "mycpu (set_mycpu c s) = c" "mycpu (locks_update f s) = mycpu s"
  "cpuid (intr_on s) = cpuid s" "cpuid (intr_off s) = cpuid s"
  "cpuid (set_mycpu c s) = cpuid s" "cpuid (locks_update f s) = cpuid s"
  "locks (intr_on s) = locks s" "locks (intr_off s) = locks s" "locks (set_mycpu c s) = locks s"
  "tp (intr_on s) = tp s" "tp (intr_off s) = tp s" "tp (set_mycpu c s) = tp s"
  by (simp_all add: intr_defs cpu_defs)

lemma push_off_simps [simp]:
  "locks (push_off s) = locks s" "cpuid (push_off s) = cpuid s" "tp (push_off s) = tp s"
  "noff (mycpu (push_off s)) = noff (mycpu s) + 1"
  "intena (mycpu (push_off s)) = (if noff (mycpu s) = 0 then intr_get s else intena (mycpu s))"
  "c_proc (mycpu (push_off s)) = c_proc (mycpu s)"
  "\<not> intr_get (push_off s)"
  by (simp_all add: push_off_def Let_def)

lemma pop_off_Done:
  assumes "\<not> intr_get s" "1 \<le> noff (mycpu s)"
  obtains t where "pop_off s = Done () t"
    "noff (mycpu t) = noff (mycpu s) - 1"
    "intena (mycpu t) = intena (mycpu s)"
    "intr_get t \<longleftrightarrow> noff (mycpu s) = 1 \<and> intena (mycpu s)"
    "locks t = locks s" "cpuid t = cpuid s" "c_proc (mycpu t) = c_proc (mycpu s)"
  using assms by (auto simp: pop_off_def Let_def)

text \<open>A run of matched and unmatched maskings, as nested calls produce them.\<close>

datatype off_op = Push | Pop

primrec run_off :: "off_op list \<Rightarrow> 'a machine_scheme \<Rightarrow> (unit, 'a machine_scheme) out" where
  "run_off [] s = Done () s"
| "run_off (x # xs) s =
     (case x of Push \<Rightarrow> run_off xs (push_off s)
              | Pop \<Rightarrow> bnd (pop_off s) (\<lambda>_ s'. run_off xs s'))"

text \<open>Nesting depth after a run that starts at depth \<open>d\<close>; \<open>None\<close> if a pop has no push.\<close>

primrec off_depth :: "nat \<Rightarrow> off_op list \<Rightarrow> nat option" where
  "off_depth d [] = Some d"
| "off_depth d (x # xs) =
     (case x of Push \<Rightarrow> off_depth (Suc d) xs
              | Pop \<Rightarrow> (case d of 0 \<Rightarrow> None | Suc d' \<Rightarrow> off_depth d' xs))"

definition masked_at :: "bool \<Rightarrow> nat \<Rightarrow> 'a machine_scheme \<Rightarrow> bool" where
  "masked_at on d s \<longleftrightarrow> noff (mycpu s) = int d \<and>
     (if d = 0 then intr_get s = on else \<not> intr_get s \<and> intena (mycpu s) = on)"

lemma masked_push: "masked_at on d s \<Longrightarrow> masked_at on (Suc d) (push_off s)"
  by (auto simp: masked_at_def split: if_splits)

lemma masked_pop:
  assumes "masked_at on (Suc d) s"
  obtains t where "pop_off s = Done () t" "masked_at on d t"
proof -
  have "\<not> intr_get s" "1 \<le> noff (mycpu s)" using assms by (auto simp: masked_at_def)
  then show ?thesis
    by (rule pop_off_Done) (use assms that in \<open>auto simp: masked_at_def split: if_splits\<close>)
qed

lemma run_off_masked:
  "masked_at on d s \<Longrightarrow> off_depth d ops = Some e \<Longrightarrow> \<exists>t. run_off ops s = Done () t \<and> masked_at on e t"
proof (induction ops arbitrary: d s)
  case Nil
  then show ?case by simp
next
  case (Cons x xs)
  show ?case
  proof (cases x)
    case Push
    with Cons masked_push show ?thesis by fastforce
  next
    case Pop
    with Cons.prems obtain d' where d: "d = Suc d'" "off_depth d' xs = Some e"
      by (auto split: nat.splits)
    with Cons.prems(1) obtain t where "pop_off s = Done () t" "masked_at on d' t"
      using masked_pop by blast
    with Cons.IH d Pop show ?thesis by fastforce
  qed
qed

section \<open>Critical sections\<close>

text \<open>
  \<open>lock_on lk s\<close> is the state in which a critical section runs and \<open>settle s\<close> the state that a
  matched \<^verbatim>\<open>push_off\<close> and \<^verbatim>\<open>pop_off\<close> leave: \<open>s\<close> itself, except that at depth 0 the saved
  interrupt flag is refreshed. Both commute with updates of every component above this one,
  which is how the other theories step through their critical sections.
\<close>

definition free_lock :: "'a machine_scheme \<Rightarrow> lockid \<Rightarrow> bool" where
  "free_lock s lk \<longleftrightarrow> \<not> lk_locked (locks s lk) \<and> lk_cpu (locks s lk) = None"

definition lock_on :: "lockid \<Rightarrow> 'a machine_scheme \<Rightarrow> 'a machine_scheme" where
  "lock_on lk s = acquire_own lk (snd (acquire_swap lk (push_off s)))"

definition settle :: "'a machine_scheme \<Rightarrow> 'a machine_scheme" where
  "settle s =
     (if noff (mycpu s) = 0 then set_mycpu ((mycpu s)\<lparr>intena := intr_get s\<rparr>) s else s)"

lemma acquire_free: "free_lock s lk \<Longrightarrow> acquire lk s = Done () (lock_on lk s)"
  by (simp add: acquire_def acquire_enter_def acquire_swap_def lock_on_def holding_def
      free_lock_def Let_def)

lemma SIE_restore:
  "x AND SSTATUS_SIE \<noteq> 0 \<Longrightarrow> (x AND NOT SSTATUS_SIE) OR SSTATUS_SIE = x"
  "x AND SSTATUS_SIE = 0 \<Longrightarrow> x AND NOT SSTATUS_SIE = x"
proof -
  have sie: "bit SSTATUS_SIE n \<longleftrightarrow> n = 1" for n
    by (auto simp: SSTATUS_SIE_def bit_simps)
  have x: "x AND SSTATUS_SIE = 0 \<longleftrightarrow> \<not> bit x 1"
  proof
    assume "x AND SSTATUS_SIE = 0"
    then have "\<not> bit (x AND SSTATUS_SIE) 1" by simp
    then show "\<not> bit x 1" by (simp only: bit_and_iff sie) simp
  next
    assume "\<not> bit x 1"
    then show "x AND SSTATUS_SIE = 0" by (intro bit_word_eqI) (auto simp: bit_and_iff sie)
  qed
  show "x AND SSTATUS_SIE \<noteq> 0 \<Longrightarrow> (x AND NOT SSTATUS_SIE) OR SSTATUS_SIE = x"
    unfolding x by (rule bit_word_eqI) (auto simp: bit_simps sie)
  show "x AND SSTATUS_SIE = 0 \<Longrightarrow> x AND NOT SSTATUS_SIE = x"
    unfolding x by (rule bit_word_eqI) (auto simp: bit_simps sie)
qed

lemma cpu_noff_same: "noff c = n \<Longrightarrow> c\<lparr>intena := b, noff := n\<rparr> = c\<lparr>intena := b\<rparr>"
  by (cases c) simp

lemma release_lock_on:
  assumes "cpu_ok s" and "free_lock s lk"
  shows "release lk (lock_on lk s) = Done () (settle s)"
proof -
  have lk: "(locks s lk)\<lparr>lk_cpu := None, lk_locked := False\<rparr> = locks s lk"
    using assms(2) by (cases "locks s lk") (simp add: free_lock_def)
  have hold: "holding lk (lock_on lk s)"
    by (simp add: lock_on_def acquire_own_def acquire_swap_def holding_def)
  have same: "(push_off s)\<lparr>locks := locks s\<rparr> = push_off s"
    using push_off_simps(1) [of s] by (metis (no_types, lifting) machine.surjective machine.update_convs(4))
  have rel: "release lk (lock_on lk s) = pop_off (push_off s)"
    by (simp add: release_def release_disown_def release_unlock_def hold)
       (simp add: lock_on_def acquire_own_def acquire_swap_def lk fun_upd_idem same)
  show ?thesis
  proof (cases "noff (mycpu s) = 0")
    case True
    then show ?thesis
      by (cases "intr_get s")
         (auto simp: rel pop_off_def push_off_def settle_def intr_defs cpu_defs Let_def SIE_bits
            SIE_restore cpu_noff_same)
  next
    case False
    then show ?thesis using assms(1)
      by (auto simp: rel pop_off_def push_off_def settle_def cpu_ok_def intr_defs cpu_defs Let_def
          SIE_bits SIE_restore)
  qed
qed

lemma lock_on_simps [simp]:
  "locks (lock_on lk s) = (locks s)(lk := (locks s lk)\<lparr>lk_locked := True, lk_cpu := Some (cpuid s)\<rparr>)"
  "cpuid (lock_on lk s) = cpuid s" "tp (lock_on lk s) = tp s"
  "noff (mycpu (lock_on lk s)) = noff (mycpu s) + 1"
  "c_proc (mycpu (lock_on lk s)) = c_proc (mycpu s)"
  "\<not> intr_get (lock_on lk s)"
  by (simp_all add: lock_on_def acquire_own_def acquire_swap_def)

lemma settle_simps [simp]:
  "locks (settle s) = locks s" "cpuid (settle s) = cpuid s" "tp (settle s) = tp s"
  "noff (mycpu (settle s)) = noff (mycpu s)" "c_proc (mycpu (settle s)) = c_proc (mycpu s)"
  "intr_get (settle s) = intr_get s" "settle (settle s) = settle s"
  "csrs (settle s) = csrs s"
  by (auto simp: settle_def intr_defs cpu_defs)

lemma free_lock_settle [simp]: "free_lock (settle s) lk = free_lock s lk"
  by (simp add: free_lock_def)

lemma cpu_ok_settle [simp]: "cpu_ok (settle s) = cpu_ok s"
  by (simp add: cpu_ok_def)

lemma cpu_ok_lock_on: "cpu_ok s \<Longrightarrow> cpu_ok (lock_on lk s)"
  by (simp add: cpu_ok_def)

lemma free_lock_lock_on [simp]: "lk' \<noteq> lk \<Longrightarrow> free_lock (lock_on lk s) lk' = free_lock s lk'"
  by (simp add: free_lock_def)

section \<open>Mutual exclusion between harts\<close>

text \<open>
  Any number of harts run \<^verbatim>\<open>acquire(lk)\<close> and \<^verbatim>\<open>release(lk)\<close> on one lock; every access of the
  two routines to shared state is one step, and steps of different harts interleave freely.
\<close>

datatype phase = Outside | Spinning | Swapped | Inside | Disowned

definition on_hart :: "nat \<Rightarrow> 'a machine_scheme \<Rightarrow> 'a machine_scheme" where
  "on_hart i s = s\<lparr>tp := i\<rparr>"

inductive lk_step :: "lockid \<Rightarrow> machine \<times> (nat \<Rightarrow> phase) \<Rightarrow> machine \<times> (nat \<Rightarrow> phase) \<Rightarrow> bool"
  for lk :: lockid where
  enter: "ph i = Outside \<Longrightarrow> acquire_enter lk (on_hart i s) = Done () s' \<Longrightarrow>
     lk_step lk (s, ph) (s', ph(i := Spinning))"
| spin: "ph i = Spinning \<Longrightarrow> acquire_swap lk (on_hart i s) = (True, s') \<Longrightarrow>
     lk_step lk (s, ph) (s', ph)"
| swap: "ph i = Spinning \<Longrightarrow> acquire_swap lk (on_hart i s) = (False, s') \<Longrightarrow>
     lk_step lk (s, ph) (s', ph(i := Swapped))"
| own: "ph i = Swapped \<Longrightarrow>
     lk_step lk (s, ph) (acquire_own lk (on_hart i s), ph(i := Inside))"
| disown: "ph i = Inside \<Longrightarrow> release_disown lk (on_hart i s) = Done () s' \<Longrightarrow>
     lk_step lk (s, ph) (s', ph(i := Disowned))"
| unlock: "ph i = Disowned \<Longrightarrow> pop_off (release_unlock lk (on_hart i s)) = Done () s' \<Longrightarrow>
     lk_step lk (s, ph) (s', ph(i := Outside))"

definition lk_init :: "lockid \<Rightarrow> machine \<times> (nat \<Rightarrow> phase) \<Rightarrow> bool" where
  "lk_init lk = (\<lambda>(s, ph). (\<forall>i. ph i = Outside) \<and> free_lock s lk \<and> (\<forall>i. noff (cpus s i) = 0))"

definition critical :: "phase \<Rightarrow> bool" where
  "critical p \<longleftrightarrow> p = Swapped \<or> p = Inside \<or> p = Disowned"

definition hart_ok :: "machine \<Rightarrow> phase \<Rightarrow> nat \<Rightarrow> bool" where
  "hart_ok s p i \<longleftrightarrow>
     (if p = Outside then noff (cpus s i) = 0
      else noff (cpus s i) = 1 \<and> sstatus (csrs s i) AND SSTATUS_SIE = 0)"

definition lock_part :: "spinlock \<Rightarrow> (nat \<Rightarrow> phase) \<Rightarrow> bool" where
  "lock_part l ph \<longleftrightarrow>
     (\<forall>i. critical (ph i) \<longrightarrow> lk_locked l) \<and>
     (\<forall>i j. critical (ph i) \<longrightarrow> critical (ph j) \<longrightarrow> i = j) \<and>
     (\<forall>i. ph i = Inside \<longleftrightarrow> lk_cpu l = Some i)"

definition lk_inv :: "lockid \<Rightarrow> machine \<times> (nat \<Rightarrow> phase) \<Rightarrow> bool" where
  "lk_inv lk = (\<lambda>(s, ph). lock_part (locks s lk) ph \<and> (\<forall>i. hart_ok s (ph i) i))"

lemma push_off_others [simp]:
  "j \<noteq> tp s \<Longrightarrow> cpus (push_off s) j = cpus s j"
  "j \<noteq> tp s \<Longrightarrow> csrs (push_off s) j = csrs s j"
  by (simp_all add: push_off_def Let_def intr_defs cpu_defs)

lemma push_off_self [simp]:
  "noff (cpus (push_off s) (tp s)) = noff (cpus s (tp s)) + 1"
  "sstatus (csrs (push_off s) (tp s)) AND SSTATUS_SIE = 0"
  by (simp_all add: push_off_def Let_def intr_defs cpu_defs SIE_bits)

lemma pop_off_parts:
  assumes "pop_off s = Done () t"
  shows "locks t = locks s" "noff (cpus t (tp s)) = noff (cpus s (tp s)) - 1"
    "j \<noteq> tp s \<Longrightarrow> cpus t j = cpus s j" "j \<noteq> tp s \<Longrightarrow> csrs t j = csrs s j"
  using assms by (auto simp: pop_off_def Let_def intr_defs cpu_defs split: if_splits)

lemmas lk_pieces = acquire_enter_def acquire_swap_def acquire_own_def release_disown_def
  release_unlock_def on_hart_def

lemma hart_ok_frame [simp]:
  "hart_ok (locks_update f s) p j = hart_ok s p j" "hart_ok (tp_update g s) p j = hart_ok s p j"
  by (simp_all add: hart_ok_def)

lemma hart_ok_phase:
  "\<forall>i. hart_ok s (ph i) i \<Longrightarrow> ph i \<noteq> Outside \<Longrightarrow> q \<noteq> Outside \<Longrightarrow> hart_ok s ((ph(i := q)) j) j"
  by (auto simp: hart_ok_def dest: spec [of _ i])

lemma lock_part_only: "lock_part l ph \<Longrightarrow> critical (ph i) \<Longrightarrow> critical (ph j) \<Longrightarrow> j = i"
  by (auto simp: lock_part_def)

lemma lock_part_ownerless: "lock_part l ph \<Longrightarrow> (\<And>j. ph j \<noteq> Inside) \<Longrightarrow> lk_cpu l = None"
  by (cases "lk_cpu l") (auto simp: lock_part_def)

lemma lock_part_outside:
  assumes "lock_part l ph" "\<not> critical (ph i)" "\<not> critical q"
  shows "lock_part l (ph(i := q))"
proof -
  have "ph i \<noteq> Inside" "q \<noteq> Inside" using assms(2,3) by (auto simp: critical_def)
  then have "(ph(i := q)) j = Inside \<longleftrightarrow> ph j = Inside" for j by simp
  moreover have "critical ((ph(i := q)) j) \<longleftrightarrow> critical (ph j)" for j using assms(2,3) by simp
  ultimately show ?thesis using assms(1) unfolding lock_part_def by presburger
qed

lemma lock_part_own:
  assumes "\<And>j. critical (ph j) \<Longrightarrow> j = i" "lk_locked l" "critical q"
    and "lk_cpu l = (if q = Inside then Some i else None)"
  shows "lock_part l (ph(i := q))"
proof -
  have "critical ((ph(i := q)) j) \<longleftrightarrow> j = i" for j using assms(1,3) by auto
  moreover have "(ph(i := q)) j = Inside \<longleftrightarrow> j = i \<and> q = Inside" for j
    using assms(1) [of j] by (cases "j = i") (simp, fastforce simp: critical_def)
  ultimately show ?thesis using assms(2,4) by (auto simp: lock_part_def)
qed

lemma lock_part_leave:
  assumes "\<And>j. critical (ph j) \<Longrightarrow> j = i" "\<not> lk_locked l" "lk_cpu l = None"
  shows "lock_part l (ph(i := Outside))"
proof -
  have "\<not> critical ((ph(i := Outside)) j)" for j using assms(1) by (auto simp: critical_def)
  then show ?thesis using assms(2,3) by (auto simp: lock_part_def critical_def)
qed

lemma lk_inv_init: "lk_init lk x \<Longrightarrow> lk_inv lk x"
  by (auto simp: lk_init_def lk_inv_def lock_part_def critical_def free_lock_def hart_ok_def
      split: prod.splits)

lemma lk_inv_enter:
  assumes "lk_inv lk (s, ph)" "ph i = Outside" "acquire_enter lk (on_hart i s) = Done () s'"
  shows "lk_inv lk (s', ph(i := Spinning))"
proof -
  have s': "s' = push_off (s\<lparr>tp := i\<rparr>)"
    using assms(3) by (auto simp: lk_pieces Let_def split: if_splits)
  have "hart_ok s' ((ph(i := Spinning)) j) j" for j
  proof (cases "j = i")
    case True
    have "noff (cpus s i) = 0"
      using assms(1,2) by (auto simp: lk_inv_def hart_ok_def dest: spec [of _ i])
    with True push_off_self [of "s\<lparr>tp := i\<rparr>"] show ?thesis by (simp add: hart_ok_def s')
  next
    case False
    with assms(1) show ?thesis by (simp add: lk_inv_def hart_ok_def s')
  qed
  with assms(1,2) show ?thesis
    by (auto simp: lk_inv_def s' intro: lock_part_outside simp: critical_def)
qed

lemma lk_inv_spin:
  assumes "lk_inv lk (s, ph)" "ph i = Spinning" "acquire_swap lk (on_hart i s) = (True, s')"
  shows "lk_inv lk (s', ph)"
  using assms by (auto simp: lk_inv_def lock_part_def lk_pieces)

lemma lk_inv_swap:
  assumes "lk_inv lk (s, ph)" "ph i = Spinning" "acquire_swap lk (on_hart i s) = (False, s')"
  shows "lk_inv lk (s', ph(i := Swapped))"
proof -
  have free: "\<not> lk_locked (locks s lk)"
    and s': "s' = s\<lparr>tp := i, locks := (locks s)(lk := (locks s lk)\<lparr>lk_locked := True\<rparr>)\<rparr>"
    using assms(3) by (auto simp: lk_pieces)
  have none: "\<not> critical (ph j)" for j
    using assms(1) free by (auto simp: lk_inv_def lock_part_def)
  have "lk_cpu (locks s lk) = None"
    by (rule lock_part_ownerless [of _ ph]) (use assms(1) none in \<open>auto simp: lk_inv_def critical_def\<close>)
  then have "lock_part (locks s' lk) (ph(i := Swapped))"
    using none by (intro lock_part_own) (auto simp: s', simp add: critical_def)
  with assms(1,2) show ?thesis
    using hart_ok_phase [of s ph i Swapped] by (simp add: lk_inv_def s')
qed

lemma lk_inv_own:
  assumes "lk_inv lk (s, ph)" "ph i = Swapped"
  shows "lk_inv lk (acquire_own lk (on_hart i s), ph(i := Inside))"
proof -
  have crit: "critical (ph i)" using assms(2) by (simp add: critical_def)
  have part: "lock_part (locks s lk) ph" using assms(1) by (simp add: lk_inv_def)
  have "lk_locked (locks s lk)" using part crit by (auto simp: lock_part_def)
  then have "lock_part (locks (acquire_own lk (on_hart i s)) lk) (ph(i := Inside))"
    by (intro lock_part_own lock_part_only [OF part crit])
       (simp_all add: lk_pieces cpuid_def critical_def)
  with assms show ?thesis
    using hart_ok_phase [of s ph i Inside] by (simp add: lk_inv_def lk_pieces)
qed

lemma lk_inv_disown:
  assumes "lk_inv lk (s, ph)" "ph i = Inside" "release_disown lk (on_hart i s) = Done () s'"
  shows "lk_inv lk (s', ph(i := Disowned))"
proof -
  have s': "s' = (on_hart i s)\<lparr>locks := (locks s)(lk := (locks s lk)\<lparr>lk_cpu := None\<rparr>)\<rparr>"
    using assms(3) by (auto simp: lk_pieces split: if_splits)
  have crit: "critical (ph i)" using assms(2) by (simp add: critical_def)
  have part: "lock_part (locks s lk) ph" using assms(1) by (simp add: lk_inv_def)
  have "lk_locked (locks s lk)" using part crit by (auto simp: lock_part_def)
  then have "lock_part (locks s' lk) (ph(i := Disowned))"
    by (intro lock_part_own lock_part_only [OF part crit])
       (simp_all add: lk_pieces s' critical_def)
  with assms(1,2) show ?thesis
    using hart_ok_phase [of s ph i Disowned] by (simp add: lk_inv_def lk_pieces s')
qed

lemma lk_inv_unlock:
  assumes "lk_inv lk (s, ph)" "ph i = Disowned"
    and "pop_off (release_unlock lk (on_hart i s)) = Done () s'"
  shows "lk_inv lk (s', ph(i := Outside))"
proof -
  note s' = pop_off_parts [OF assms(3)]
  have crit: "critical (ph i)" using assms(2) by (simp add: critical_def)
  have part: "lock_part (locks s lk) ph" using assms(1) by (simp add: lk_inv_def)
  have only: "critical (ph j) \<Longrightarrow> j = i" for j using lock_part_only [OF part crit] .
  then have "ph j \<noteq> Inside" for j using assms(2) by (force simp: critical_def)
  then have "lk_cpu (locks s lk) = None" by (rule lock_part_ownerless [OF part])
  then have "lock_part (locks s' lk) (ph(i := Outside))"
    using only by (intro lock_part_leave) (auto simp: s'(1) lk_pieces)
  moreover have "hart_ok s' ((ph(i := Outside)) j) j" for j
  proof (cases "j = i")
    case True
    have "noff (cpus s i) = 1"
      using assms(1,2) by (auto simp: lk_inv_def hart_ok_def dest: spec [of _ i])
    with True s'(2) show ?thesis by (simp add: hart_ok_def lk_pieces)
  next
    case False
    with assms(1) s'(3,4) show ?thesis by (simp add: lk_inv_def hart_ok_def lk_pieces)
  qed
  ultimately show ?thesis by (simp add: lk_inv_def)
qed

lemma lk_inv_step:
  assumes "lk_inv lk x" "lk_step lk x y"
  shows "lk_inv lk y"
  using assms(2,1)
  by cases (blast intro: lk_inv_enter lk_inv_spin lk_inv_swap lk_inv_own lk_inv_disown
      lk_inv_unlock)+

interpretation spin: step_invariant "lk_init lk" "lk_step lk" "lk_inv lk" for lk
  by unfold_locales (auto intro: lk_inv_init lk_inv_step)

lemma on_hart_cpu:
  "mycpu (on_hart i s) = cpus s i" "cpuid (on_hart i s) = i" "locks (on_hart i s) = locks s"
  "intr_get (on_hart i s) \<longleftrightarrow> sstatus (csrs s i) AND SSTATUS_SIE \<noteq> 0"
  by (simp_all add: on_hart_def cpu_defs intr_defs)

lemma lk_inv_locked:
  "lk_inv lk (s, ph) \<Longrightarrow> critical (ph i) \<Longrightarrow> lk_locked (locks s lk)"
  "lk_inv lk (s, ph) \<Longrightarrow> ph i = Inside \<longleftrightarrow> lk_cpu (locks s lk) = Some i"
  by (auto simp: lk_inv_def lock_part_def)

text \<open>
  Property C8. Spin locks exclude each other on every interleaving of the harts: when one
  hart is between its successful swap and its unlock, no other hart is, and another hart
  that calls \<^verbatim>\<open>acquire\<close> spins instead of entering.
\<close>

theorem spinlock_mutual_exclusion:
  assumes "reach (lk_init lk) (lk_step lk) (s, ph)"
    and "critical (ph i)"
  shows "(\<forall>k. critical (ph k) \<longrightarrow> k = i) \<and>
    (\<forall>j. ph j = Outside \<longrightarrow> (\<exists>t. acquire lk (on_hart j s) = Waits (SpinOn lk) t))"
proof -
  have inv: "lk_inv lk (s, ph)" using assms(1) by (rule spin.reach_inv)
  have "\<exists>t. acquire lk (on_hart j s) = Waits (SpinOn lk) t" if "ph j = Outside" for j
  proof -
    have "\<not> holding lk (push_off (on_hart j s))"
      using lk_inv_locked(2) [OF inv, of j] that by (simp add: holding_def on_hart_cpu)
    moreover have "lk_locked (locks s lk)" using lk_inv_locked(1) [OF inv assms(2)] .
    ultimately show ?thesis
      by (simp add: acquire_def acquire_enter_def acquire_swap_def Let_def on_hart_cpu)
  qed
  moreover have "\<forall>k. critical (ph k) \<longrightarrow> k = i"
    using inv assms(2) by (auto simp: lk_inv_def dest: lock_part_only)
  ultimately show ?thesis by blast
qed

definition quiet_cpu :: cpu where
  "quiet_cpu = \<lparr>c_proc = None, noff = 0, intena = False\<rparr>"

definition zero_csr :: csr where
  "zero_csr = \<lparr>sstatus = 0, sepc = 0, scause = 0, stval = 0, stvec = 0, satp = 0, sip = 0\<rparr>"

definition boot_machine :: machine where
  "boot_machine = \<lparr>tp = 0, cpus = (\<lambda>_. quiet_cpu), csrs = (\<lambda>_. zero_csr),
     locks = (\<lambda>_. \<lparr>lk_locked = False, lk_name = '''', lk_cpu = None\<rparr>)\<rparr>"

lemma boot_machine_free [simp]: "free_lock boot_machine lk" "cpu_ok boot_machine"
  "tp boot_machine = 0" "noff (mycpu boot_machine) = 0" "\<not> intr_get boot_machine"
  by (simp_all add: boot_machine_def free_lock_def cpu_ok_def cpu_defs quiet_cpu_def intr_defs
      zero_csr_def)

lemma reach_inside:
  "reach (lk_init lk) (lk_step lk) (lock_on lk boot_machine, (\<lambda>_. Outside)(0 := Inside))"
proof -
  let ?ph = "\<lambda>_. Outside" and ?s = boot_machine
  have on0: "on_hart 0 t = t" if "tp t = 0" for t :: machine
    using that by (simp add: on_hart_def)
  have 0: "reach (lk_init lk) (lk_step lk) (?s, ?ph)"
    by (rule reach_init) (simp add: lk_init_def boot_machine_def free_lock_def quiet_cpu_def)
  have 1: "reach (lk_init lk) (lk_step lk) (push_off ?s, ?ph(0 := Spinning))"
    by (rule reach_step [OF 0], rule lk_step.enter)
       (simp_all add: on0 acquire_enter_def Let_def holding_def, simp add: boot_machine_def)
  have 2: "reach (lk_init lk) (lk_step lk)
      (snd (acquire_swap lk (push_off ?s)), (?ph(0 := Spinning))(0 := Swapped))"
    by (rule reach_step [OF 1], rule lk_step.swap)
       (simp_all add: on0 acquire_swap_def, simp add: boot_machine_def)
  have 3: "reach (lk_init lk) (lk_step lk)
      (acquire_own lk (on_hart 0 (snd (acquire_swap lk (push_off ?s)))),
       (?ph(0 := Spinning, 0 := Swapped))(0 := Inside))"
    by (rule reach_step [OF 2], rule lk_step.own) simp
  then show ?thesis by (simp add: lock_on_def on0 acquire_swap_def)
qed

theorem spinlock_mutual_exclusion_witness:
  "(\<exists>t. acquire KmemLock (on_hart 1 (lock_on KmemLock boot_machine)) = Waits (SpinOn KmemLock) t)
   \<and> {k. critical (((\<lambda>_. Outside)(0 := Inside)) k)} = {0::nat}"
proof -
  let ?ph = "(\<lambda>_. Outside)(0 := Inside) :: nat \<Rightarrow> phase"
  have inside: "critical (?ph 0)" and outside: "?ph 1 = Outside"
    by (simp_all add: critical_def)
  from spinlock_mutual_exclusion [OF reach_inside inside, of KmemLock] outside inside show ?thesis by blast
qed





end
