(* ===== verification/Memory.thy ===== *)
theory Memory
  imports Prelude
begin

text \<open>
  Byte-addressed memory and the little-endian layout of integers in it, as the RISC-V kernel
  sees its direct-mapped RAM. Structures on disk use the same byte order, so the encoding
  lemmas also serve the file system. The locale \<open>word_store\<close> is the interface through which
  page tables and the free list see memory: aligned 64-bit loads and stores.
\<close>

unbundle bit_operations_syntax

type_synonym memory = "u64 \<Rightarrow> u8"

section \<open>Little-endian integers\<close>

definition le_bytes :: "nat \<Rightarrow> 'w::len word \<Rightarrow> u8 list" where
  "le_bytes k v = map (\<lambda>i. ucast (drop_bit (8 * i) v)) [0..<k]"

fun of_le :: "u8 list \<Rightarrow> 'w::len word" where
  "of_le [] = 0"
| "of_le (b # bs) = ucast b OR push_bit 8 (of_le bs)"

lemma length_le_bytes [simp]: "length (le_bytes k v) = k"
  by (simp add: le_bytes_def)

lemma bit_of_le:
  "n < LENGTH('w) \<Longrightarrow>
   bit (of_le bs :: 'w::len word) n \<longleftrightarrow> n div 8 < length bs \<and> bit (bs ! (n div 8)) (n mod 8)"
proof (induction bs arbitrary: n)
  case Nil
  then show ?case by simp
next
  case (Cons b bs)
  show ?case
  proof (cases "n < 8")
    case True
    with Cons.prems show ?thesis by (auto simp: bit_simps)
  next
    case False
    then have step: "n div 8 = Suc ((n - 8) div 8)" "n mod 8 = (n - 8) mod 8"
      by (auto simp: le_div_geq le_mod_geq)
    have "\<not> bit b n" using False bit_imp_le_length [of b n] by auto
    then show ?thesis
      using False Cons.prems Cons.IH [of "n - 8"] by (auto simp: bit_simps step)
  qed
qed

lemma nth_le_bytes:
  "i < k \<Longrightarrow> j < 8 \<Longrightarrow> 8 * k \<le> LENGTH('w) \<Longrightarrow>
   bit (le_bytes k (v :: 'w::len word) ! i) j \<longleftrightarrow> bit v (8 * i + j)"
  by (auto simp: le_bytes_def bit_simps add.commute)

lemma of_le_le_bytes:
  assumes "LENGTH('w) = 8 * k"
  shows "of_le (le_bytes k (v :: 'w::len word)) = v"
proof (rule bit_word_eqI)
  fix n assume n: "n < LENGTH('w)"
  with assms have "n div 8 < k" by auto
  with n assms show "bit (of_le (le_bytes k v) :: 'w word) n \<longleftrightarrow> bit v n"
    by (simp add: bit_of_le nth_le_bytes)
qed

lemma le_bytes_of_le:
  assumes "length bs = k" and "8 * k \<le> LENGTH('w)"
  shows "le_bytes k (of_le bs :: 'w::len word) = bs"
proof (rule nth_equalityI)
  show "length (le_bytes k (of_le bs :: 'w word)) = length bs" using assms by simp
  fix i assume "i < length (le_bytes k (of_le bs :: 'w word))"
  then have i: "i < k" by simp
  show "le_bytes k (of_le bs :: 'w word) ! i = bs ! i"
  proof (rule bit_word_eqI)
    fix j assume "j < LENGTH(8)"
    then have j: "j < 8" by simp
    with i assms(2) have "8 * i + j < LENGTH('w)" by linarith
    with i j assms show "bit (le_bytes k (of_le bs :: 'w word) ! i) j \<longleftrightarrow> bit (bs ! i) j"
      by (simp add: nth_le_bytes bit_of_le)
  qed
qed

section \<open>Ranges of memory\<close>

definition read_bytes :: "memory \<Rightarrow> u64 \<Rightarrow> nat \<Rightarrow> u8 list" where
  "read_bytes m a n = map (\<lambda>i. m (a + of_nat i)) [0..<n]"

definition write_bytes :: "memory \<Rightarrow> u64 \<Rightarrow> u8 list \<Rightarrow> memory" where
  "write_bytes m a bs = (\<lambda>x. if unat (x - a) < length bs then bs ! unat (x - a) else m x)"

lemma length_read_bytes [simp]: "length (read_bytes m a n) = n"
  by (simp add: read_bytes_def)

lemma nth_read_bytes: "i < n \<Longrightarrow> read_bytes m a n ! i = m (a + of_nat i)"
  by (simp add: read_bytes_def)

lemma read_bytes_Suc: "read_bytes m a (Suc n) = m a # read_bytes m (a + 1) n"
  by (simp add: read_bytes_def upt_conv_Cons map_Suc_upt [symmetric] comp_def add.assoc
      del: upt_Suc map_Suc_upt)

lemma offset_iff: "n < 2 ^ 64 \<Longrightarrow> x = a + of_nat n \<longleftrightarrow> unat (x - a :: u64) = n"
proof -
  assume "n < 2 ^ 64"
  then have n: "unat (of_nat n :: u64) = n" by (simp add: unat_of_nat_small)
  have "x = a + of_nat n \<longleftrightarrow> x - a = of_nat n" by (auto simp: algebra_simps)
  also have "\<dots> \<longleftrightarrow> unat (x - a) = unat (of_nat n :: u64)" by (auto dest: word_unat_eqI)
  finally show ?thesis by (simp only: n)
qed

lemma write_bytes_Nil [simp]: "write_bytes m a [] = m"
  by (simp add: write_bytes_def)

lemma write_bytes_in:
  "i < length bs \<Longrightarrow> length bs \<le> 2 ^ 64 \<Longrightarrow> write_bytes m a bs (a + of_nat i) = bs ! i"
  by (simp add: write_bytes_def unat_of_nat_small)

lemma read_write_same: "length bs \<le> 2 ^ 64 \<Longrightarrow> read_bytes (write_bytes m a bs) a (length bs) = bs"
  by (rule nth_equalityI) (auto simp: nth_read_bytes write_bytes_in)

text \<open>Two ranges are apart when no byte of the second lies in the first.\<close>

definition apart :: "u64 \<Rightarrow> nat \<Rightarrow> u64 \<Rightarrow> nat \<Rightarrow> bool" where
  "apart a n b k \<longleftrightarrow> (\<forall>j < k. n \<le> unat (b + of_nat j - a))"

lemma read_write_apart:
  "apart a (length bs) b k \<Longrightarrow> read_bytes (write_bytes m a bs) b k = read_bytes m b k"
  by (rule nth_equalityI) (auto simp: nth_read_bytes write_bytes_def apart_def not_less)

lemma apart_nat:
  assumes "unat a + n \<le> unat b \<or> unat b + k \<le> unat a" "unat a + n \<le> 2 ^ 64" "unat b + k \<le> 2 ^ 64"
  shows "apart a n b k"
  unfolding apart_def
proof (intro allI impI)
  fix j assume j: "j < k"
  with assms(3) have bj: "unat (b + of_nat j) = unat b + j"
    by (subst unat_add_small) (auto simp: unat_of_nat_small)
  show "n \<le> unat (b + of_nat j - a)"
  proof (cases "unat a + n \<le> unat b")
    case True
    then have "a \<le> b + of_nat j" by (simp add: unat_le_iff bj)
    with True show ?thesis by (simp add: unat_sub bj)
  next
    case False
    with assms(1) j have lt: "unat (b + of_nat j) < unat a" by (simp add: bj)
    then have "unat (b + of_nat j - a) = 2 ^ 64 - (unat a - unat (b + of_nat j))"
      by (simp add: unat_sub_if_size size_word.rep_eq)
    with lt assms(2) bj show ?thesis by simp
  qed
qed

section \<open>Aligned 64-bit loads and stores\<close>

definition load64 :: "memory \<Rightarrow> u64 \<Rightarrow> u64" where
  "load64 m a = of_le (read_bytes m a 8)"

definition store64 :: "memory \<Rightarrow> u64 \<Rightarrow> u64 \<Rightarrow> memory" where
  "store64 m a v = write_bytes m a (le_bytes 8 v)"

definition aligned8 :: "u64 \<Rightarrow> bool" where
  "aligned8 a \<longleftrightarrow> unat a mod 8 = 0"

locale word_store =
  fixes load :: "'m \<Rightarrow> 'a \<Rightarrow> 'v"
    and store :: "'m \<Rightarrow> 'a \<Rightarrow> 'v \<Rightarrow> 'm"
    and ok :: "'a \<Rightarrow> bool"
  assumes load_store_same: "load (store m a v) a = v"
    and load_store_other: "ok a \<Longrightarrow> ok b \<Longrightarrow> a \<noteq> b \<Longrightarrow> load (store m a v) b = load m b"
begin

lemma load_store: "ok a \<Longrightarrow> ok b \<Longrightarrow> load (store m a v) b = (if a = b then v else load m b)"
  by (simp add: load_store_same load_store_other)

lemma load_store_store:
  "ok a \<Longrightarrow> ok b \<Longrightarrow> ok c \<Longrightarrow> a \<noteq> b \<Longrightarrow>
   load (store (store m a v) b w) c = load (store (store m b w) a v) c"
  by (auto simp: load_store)

end

lemma unat_less_2p64: "unat (a :: u64) < 2 ^ 64"
  using unsigned_less [of a, where 'a = nat] by simp

lemma apart_aligned8: "aligned8 a \<Longrightarrow> aligned8 b \<Longrightarrow> a \<noteq> b \<Longrightarrow> apart a 8 b 8"
proof -
  assume al: "aligned8 a" "aligned8 b" "a \<noteq> b"
  then have "unat a < unat b \<or> unat b < unat a" by (intro unat_neq_cases)
  then have "unat a + 8 \<le> unat b \<or> unat b + 8 \<le> unat a"
    using al(1,2) multiple_gap [of "unat a" 8 "unat b"] multiple_gap [of "unat b" 8 "unat a"]
    unfolding aligned8_def by linarith
  moreover have "unat a + 8 \<le> 2 ^ 64" "unat b + 8 \<le> 2 ^ 64"
    by (rule multiple_gap; use al(1,2) unat_less_2p64 in \<open>simp add: aligned8_def\<close>)+
  ultimately show ?thesis by (intro apart_nat) auto
qed

interpretation dword: word_store load64 store64 aligned8
proof
  show "load64 (store64 m a v) a = v" for m a v
    using read_write_same [of "le_bytes 8 v" m a] of_le_le_bytes [where k = 8 and v = v]
    by (simp add: load64_def store64_def)
  show "load64 (store64 m a v) b = load64 m b" if "aligned8 a" "aligned8 b" "a \<noteq> b" for m a b v
    using read_write_apart [of a "le_bytes 8 v" b 8 m] apart_aligned8 [OF that]
    by (simp add: load64_def store64_def)
qed

end
