(* ===== verification/Kstring.thy ===== *)
theory Kstring
  imports Memory
begin

text \<open>
  \<^verbatim>\<open>kernel/string.c\<close>. The block operations act on the byte memory; the string operations
  read through a C pointer, which is a function from offsets to bytes (\<open>cstr xs\<close> points at the
  bytes \<open>xs\<close> followed by NULs), and write into an array, which is a byte list.
\<close>

type_synonym cptr = "nat \<Rightarrow> u8"

definition cstr :: "u8 list \<Rightarrow> cptr" where
  "cstr xs = (\<lambda>i. if i < length xs then xs ! i else 0)"

definition nxt :: "cptr \<Rightarrow> cptr" where
  "nxt p = (\<lambda>i. p (Suc i))"

section \<open>Block operations\<close>

definition memset :: "u64 \<Rightarrow> u8 \<Rightarrow> nat \<Rightarrow> memory \<Rightarrow> memory" where
  "memset dst c n m = fold (\<lambda>i m. m(dst + of_nat i := c)) [0..<n] m"

fun memcmp :: "u64 \<Rightarrow> u64 \<Rightarrow> nat \<Rightarrow> memory \<Rightarrow> int" where
  "memcmp s1 s2 0 m = 0"
| "memcmp s1 s2 (Suc n) m =
     (if m s1 \<noteq> m s2 then int (unat (m s1)) - int (unat (m s2))
      else memcmp (s1 + 1) (s2 + 1) n m)"

fun move_up :: "u64 \<Rightarrow> u64 \<Rightarrow> nat \<Rightarrow> memory \<Rightarrow> memory" where
  "move_up d s 0 m = m"
| "move_up d s (Suc n) m = move_up (d + 1) (s + 1) n (m(d := m s))"

fun move_down :: "u64 \<Rightarrow> u64 \<Rightarrow> nat \<Rightarrow> memory \<Rightarrow> memory" where
  "move_down d s 0 m = m"
| "move_down d s (Suc n) m = move_down (d - 1) (s - 1) n (m(d - 1 := m (s - 1)))"

definition memmove :: "u64 \<Rightarrow> u64 \<Rightarrow> nat \<Rightarrow> memory \<Rightarrow> memory" where
  "memmove dst src n m =
     (if n = 0 then m
      else if src < dst \<and> src + of_nat n > dst
      then move_down (dst + of_nat n) (src + of_nat n) n m
      else move_up dst src n m)"

definition memcpy :: "u64 \<Rightarrow> u64 \<Rightarrow> nat \<Rightarrow> memory \<Rightarrow> memory" where
  "memcpy dst src n m = memmove dst src n m"

section \<open>String operations\<close>

fun strncmp :: "cptr \<Rightarrow> cptr \<Rightarrow> nat \<Rightarrow> int" where
  "strncmp p q 0 = 0"
| "strncmp p q (Suc n) =
     (if p 0 \<noteq> 0 \<and> p 0 = q 0 then strncmp (nxt p) (nxt q) n
      else int (unat (p 0)) - int (unat (q 0)))"

text \<open>The bytes that \<^verbatim>\<open>strncpy(s, t, n)\<close> stores into \<open>s\<close>.\<close>

fun strncpy_bytes :: "cptr \<Rightarrow> nat \<Rightarrow> u8 list" where
  "strncpy_bytes t 0 = []"
| "strncpy_bytes t (Suc n) =
     (if t 0 \<noteq> 0 then t 0 # strncpy_bytes (nxt t) n else 0 # replicate n 0)"

definition strncpy :: "u8 list \<Rightarrow> cptr \<Rightarrow> nat \<Rightarrow> u8 list" where
  "strncpy s t n = strncpy_bytes t n @ drop n s"

text \<open>The bytes that \<^verbatim>\<open>safestrcpy(s, t, n)\<close> stores into \<open>s\<close>; \<open>n\<close> counts the bytes left.\<close>

fun safestrcpy_bytes :: "cptr \<Rightarrow> nat \<Rightarrow> u8 list" where
  "safestrcpy_bytes t 0 = []"
| "safestrcpy_bytes t (Suc 0) = [0]"
| "safestrcpy_bytes t (Suc (Suc n)) =
     (if t 0 \<noteq> 0 then t 0 # safestrcpy_bytes (nxt t) (Suc n) else [0, 0])"

definition safestrcpy :: "u8 list \<Rightarrow> cptr \<Rightarrow> int \<Rightarrow> u8 list" where
  "safestrcpy s t n =
     (if n \<le> 0 then s
      else let bs = safestrcpy_bytes t (nat n) in bs @ drop (length bs) s)"

text \<open>\<^verbatim>\<open>strlen\<close> scans for the first NUL; the result is \<open>None\<close> if there is none.\<close>

partial_function (option) strlen_from :: "cptr \<Rightarrow> nat \<Rightarrow> nat option" where
  "strlen_from s n = (if s n \<noteq> 0 then strlen_from s (Suc n) else Some n)"

definition strlen :: "cptr \<Rightarrow> nat option" where
  "strlen s = strlen_from s 0"

section \<open>Block operations: what they write\<close>

lemma memset_Suc: "memset dst c (Suc n) m = (memset dst c n m)(dst + of_nat n := c)"
  by (simp add: memset_def)

lemma memset_eq: "n \<le> 2 ^ 64 \<Longrightarrow> memset dst c n m = write_bytes m dst (replicate n c)"
proof (induction n)
  case 0
  then show ?case by (simp add: memset_def)
next
  case (Suc n)
  then have n: "n < 2 ^ 64" by simp
  show ?case
  proof
    fix x
    have "x = dst + of_nat n \<longleftrightarrow> unat (x - dst) = n" using n by (rule offset_iff)
    then show "memset dst c (Suc n) m x = write_bytes m dst (replicate (Suc n) c) x"
      using Suc.IH n by (auto simp: memset_Suc write_bytes_def nth_Cons' less_Suc_eq)
  qed
qed

lemma memcmp_eq_0: "memcmp s1 s2 n m = 0 \<longleftrightarrow> read_bytes m s1 n = read_bytes m s2 n"
proof (induction n arbitrary: s1 s2)
  case 0
  then show ?case by (simp add: read_bytes_def)
next
  case (Suc n)
  then show ?case by (auto simp: read_bytes_Suc intro: unsigned_word_eqI)
qed

text \<open>Copying upwards is right unless the destination starts inside the source.\<close>

lemma move_up_eq:
  assumes "unat d + n \<le> 2 ^ 64" "unat s + n \<le> 2 ^ 64"
    and "unat d \<le> unat s \<or> unat s + n \<le> unat d"
  shows "move_up d s n m = write_bytes m d (read_bytes m s n)"
  using assms
proof (induction n arbitrary: d s m)
  case 0
  then show ?case by (simp add: read_bytes_def)
next
  case (Suc n)
  show ?case
  proof (cases "n = 0")
    case True
    then show ?thesis by (auto simp: read_bytes_Suc read_bytes_def write_bytes_def fun_eq_iff unat_eq_0)
  next
    case False
    have d1: "unat (d + 1) = unat d + 1" and s1: "unat (s + 1) = unat s + 1"
      using Suc.prems False by (simp_all add: unat_add_small)
    let ?m = "m(d := m s)"
    have "move_up d s (Suc n) m = write_bytes ?m (d + 1) (read_bytes ?m (s + 1) n)"
      unfolding move_up.simps by (rule Suc.IH) (use Suc.prems d1 s1 in auto)
    also have "read_bytes ?m (s + 1) n = read_bytes m (s + 1) n"
    proof (rule nth_equalityI)
      fix i assume "i < length (read_bytes ?m (s + 1) n)"
      then have i: "i < n" by simp
      then have "unat (s + 1 + of_nat i) = unat s + 1 + i"
        using Suc.prems s1 by (subst unat_add_small) (auto simp: unat_of_nat_small)
      then have "s + 1 + of_nat i \<noteq> d" using Suc.prems(3) i by auto
      with i show "read_bytes ?m (s + 1) n ! i = read_bytes m (s + 1) n ! i"
        by (simp add: nth_read_bytes)
    qed simp
    also have "write_bytes ?m (d + 1) (read_bytes m (s + 1) n) = write_bytes m d (read_bytes m s (Suc n))"
    proof
      fix x
      have "unat (x - d) = (if x = d then 0 else Suc (unat (x - (d + 1))))"
      proof (cases "x = d")
        case False
        then have "x - d \<noteq> 0" by simp
        then have "unat (x - d - 1) = unat (x - d) - 1" "unat (x - d) \<noteq> 0"
          by (simp_all add: unat_minus_one unat_eq_0)
        with False show ?thesis by (simp add: diff_diff_eq)
      qed simp
      then show "write_bytes ?m (d + 1) (read_bytes m (s + 1) n) x = write_bytes m d (read_bytes m s (Suc n)) x"
        using False Suc.prems
        by (auto simp: write_bytes_def read_bytes_Suc unsigned_minus_1_eq_mask mask_eq_exp_minus_1)
    qed
    finally show ?thesis .
  qed
qed

lemma move_down_eq:
  assumes "unat d + n < 2 ^ 64" "unat s + n < 2 ^ 64" and "unat s \<le> unat d"
  shows "move_down (d + of_nat n) (s + of_nat n) n m = write_bytes m d (read_bytes m s n)"
  using assms
proof (induction n arbitrary: m)
  case 0
  then show ?case by (simp add: read_bytes_def)
next
  case (Suc n)
  let ?m = "m(d + of_nat n := m (s + of_nat n))"
  have "move_down (d + of_nat (Suc n)) (s + of_nat (Suc n)) (Suc n) m =
      move_down (d + of_nat n) (s + of_nat n) n ?m"
    by simp
  also have "\<dots> = write_bytes ?m d (read_bytes ?m s n)"
    using Suc.prems by (intro Suc.IH) auto
  also have "read_bytes ?m s n = read_bytes m s n"
  proof (rule nth_equalityI)
    fix i assume "i < length (read_bytes ?m s n)"
    then have i: "i < n" by simp
    have "unat (s + of_nat i) = unat s + i" "unat (d + of_nat n) = unat d + n"
      using Suc.prems i by (auto simp: unat_add_small unat_of_nat_small)
    then have "s + of_nat i \<noteq> d + of_nat n" using Suc.prems(3) i by auto
    with i show "read_bytes ?m s n ! i = read_bytes m s n ! i"
      by (simp add: nth_read_bytes)
  qed simp
  also have "write_bytes ?m d (read_bytes m s n) = write_bytes m d (read_bytes m s (Suc n))"
  proof
    fix x
    have "x = d + of_nat n \<longleftrightarrow> unat (x - d) = n"
      using Suc.prems(1) by (intro offset_iff) simp
    then show "write_bytes ?m d (read_bytes m s n) x = write_bytes m d (read_bytes m s (Suc n)) x"
      by (auto simp: write_bytes_def read_bytes_def nth_append less_Suc_eq)
  qed
  finally show ?case .
qed

text \<open>
  Property C11. \<^verbatim>\<open>memmove\<close> moves correctly however its ranges overlap: afterwards the destination
  holds the bytes the source held before, and every other byte is unchanged. The two
  directions of its loop and the test that chooses between them are what makes this true.
\<close>

theorem memmove_correct:
  assumes "unat dst + n < 2 ^ 64" "unat src + n < 2 ^ 64"
  shows "memmove dst src n m = write_bytes m dst (read_bytes m src n)"
proof -
  have sum: "unat (src + of_nat n) = unat src + n"
    using assms(2) by (subst unat_add_small) (auto simp: unat_of_nat_small)
  consider "n = 0" | "n \<noteq> 0" "src < dst \<and> src + of_nat n > dst"
    | "n \<noteq> 0" "\<not> (src < dst \<and> src + of_nat n > dst)" by blast
  then show ?thesis
  proof cases
    case 1
    then show ?thesis by (simp add: memmove_def read_bytes_def)
  next
    case 2
    then have "unat src \<le> unat dst" by (simp add: unat_less_iff)
    with assms 2 show ?thesis by (simp add: memmove_def move_down_eq)
  next
    case 3
    then have "unat dst \<le> unat src \<or> unat src + n \<le> unat dst"
      by (simp add: unat_less_iff sum) linarith
    with assms have "move_up dst src n m = write_bytes m dst (read_bytes m src n)"
      by (intro move_up_eq) auto
    with 3 show ?thesis by (auto simp: memmove_def)
  qed
qed

theorem memmove_correct_witness:
  "memmove 101 100 3 (\<lambda>a. ucast a) 103 = (102 :: u8)"
proof -
  have "memmove 101 100 3 (\<lambda>a. ucast a :: u8) = write_bytes (\<lambda>a. ucast a) 101 (read_bytes (\<lambda>a. ucast a) 100 3)"
    by (rule memmove_correct) simp_all
  then show ?thesis by (simp add: write_bytes_def read_bytes_def upt_rec)
qed

section \<open>String operations: what they compute\<close>

text \<open>The string that a pointer denotes when at most \<open>n\<close> bytes are looked at.\<close>

fun str_upto :: "cptr \<Rightarrow> nat \<Rightarrow> u8 list" where
  "str_upto p 0 = []"
| "str_upto p (Suc n) = (if p 0 = 0 then [] else p 0 # str_upto (nxt p) n)"

lemma strncmp_eq_0: "strncmp p q n = 0 \<longleftrightarrow> str_upto p n = str_upto q n"
  by (induction p q n rule: strncmp.induct) (auto intro: unsigned_word_eqI)

lemma cstr_Cons: "cstr (x # xs) 0 = x" "nxt (cstr (x # xs)) = cstr xs"
  by (auto simp: cstr_def nxt_def fun_eq_iff)

lemma cstr_Nil: "cstr [] i = 0" "nxt (cstr []) = cstr []"
  by (auto simp: cstr_def nxt_def)

lemma length_strncpy_bytes [simp]: "length (strncpy_bytes t n) = n"
  by (induction t n rule: strncpy_bytes.induct) auto

lemma length_strncpy: "n \<le> length s \<Longrightarrow> length (strncpy s t n) = length s"
  by (simp add: strncpy_def)

lemma str_upto_zeros: "str_upto (cstr (0 # xs)) n = []"
  by (cases n) (simp_all add: cstr_Cons)

lemma strncpy_roundtrip: "str_upto (cstr (strncpy_bytes t n @ xs)) n = str_upto t n"
  by (induction t n rule: strncpy_bytes.induct) (auto simp: cstr_Cons str_upto_zeros)

lemma safestrcpy_bytes_bound: "0 < n \<Longrightarrow> length (safestrcpy_bytes t n) \<le> n"
  by (induction t n rule: safestrcpy_bytes.induct) auto

lemma safestrcpy_bytes_str:
  "0 < n \<Longrightarrow> str_upto (cstr (safestrcpy_bytes t n @ xs)) n = str_upto t (n - 1)"
  by (induction t n rule: safestrcpy_bytes.induct) (auto simp: cstr_Cons)

lemma safestrcpy_bytes_nul: "0 < n \<Longrightarrow> 0 \<in> set (safestrcpy_bytes t n)"
  by (induction t n rule: safestrcpy_bytes.induct) auto

lemma strlen_from_Some: "(\<forall>i<k. s (n + i) \<noteq> 0) \<Longrightarrow> s (n + k) = 0 \<Longrightarrow> strlen_from s n = Some (n + k)"
proof (induction k arbitrary: n)
  case 0
  then show ?case by (simp add: strlen_from.simps)
next
  case (Suc k)
  from Suc.prems(1) have "s n \<noteq> 0" by force
  moreover have "strlen_from s (Suc n) = Some (Suc n + k)"
    using Suc.prems by (intro Suc.IH) auto
  ultimately show ?case by (simp add: strlen_from.simps)
qed

lemma strlen_cstr: "0 \<notin> set xs \<Longrightarrow> strlen (cstr xs) = Some (length xs)"
  using strlen_from_Some [of "length xs" "cstr xs" 0]
  by (fastforce simp: strlen_def cstr_def in_set_conv_nth)

end
