(* ===== verification/Kalloc.thy ===== *)
theory Kalloc
  imports Spinlock Kstring
begin

text \<open>
  \<^verbatim>\<open>kernel/kalloc.c\<close>: the physical page allocator. The free list is threaded through the free
  pages themselves (\<^verbatim>\<open>struct run\<close>), so it lives in the byte memory \<open>mem\<close>, which is RAM as the
  kernel sees it through its direct map. \<open>kend\<close> is the linker symbol \<^verbatim>\<open>end\<close>.

  The locale \<open>page_allocator\<close> states what the rest of the kernel relies on.
\<close>

unbundle bit_operations_syntax

record kmem_st = machine +
  mem :: memory
  freelist :: u64
  kend :: u64

section \<open>kernel/kalloc.c\<close>

definition kfree :: "u64 \<Rightarrow> 'a kmem_st_scheme \<Rightarrow> (unit, 'a kmem_st_scheme) out" where
  "kfree pa s =
     (if pa mod PGSIZE \<noteq> 0 \<or> pa < kend s \<or> pa \<ge> PHYSTOP then Panic ''kfree''
      else let s1 = s\<lparr>mem := memset pa 1 4096 (mem s)\<rparr>
           in bnd (acquire KmemLock s1) (\<lambda>_ s2.
                release KmemLock (s2\<lparr>mem := store64 (mem s2) pa (freelist s2), freelist := pa\<rparr>)))"

definition kalloc :: "'a kmem_st_scheme \<Rightarrow> (u64, 'a kmem_st_scheme) out" where
  "kalloc s =
     bnd (acquire KmemLock s) (\<lambda>_ s1.
       let r = freelist s1;
           s2 = (if r \<noteq> 0 then s1\<lparr>freelist := load64 (mem s1) r\<rparr> else s1)
       in bnd (release KmemLock s2) (\<lambda>_ s3.
            Done r (if r \<noteq> 0 then s3\<lparr>mem := memset r 5 4096 (mem s3)\<rparr> else s3)))"

lemma kfree_Done_range: "kfree pa s = Done x t \<Longrightarrow> pa < PHYSTOP"
  by (auto simp: kfree_def split: if_splits)

function freerange_loop :: "u64 \<Rightarrow> u64 \<Rightarrow> 'a kmem_st_scheme \<Rightarrow> (unit, 'a kmem_st_scheme) out" where
  "freerange_loop p pa_end s =
     (if p + PGSIZE \<le> pa_end
      then bnd (kfree p s) (\<lambda>_ s'. freerange_loop (p + PGSIZE) pa_end s')
      else Done () s)"
  by pat_completeness auto
termination
proof (relation "measure (\<lambda>(p, e, s). 2 ^ 64 - unat p)", goal_cases)
  case (2 p e s x s')
  then have "unat p < 2281701376" "unat (p + PGSIZE) = unat p + 4096"
    using kfree_Done_range [OF 2(2)]
    by (auto simp: unat_less_iff layout unat_add_small)
  then show ?case by simp
qed simp

definition freerange :: "u64 \<Rightarrow> u64 \<Rightarrow> 'a kmem_st_scheme \<Rightarrow> (unit, 'a kmem_st_scheme) out" where
  "freerange pa_start pa_end s = freerange_loop (PGROUNDUP pa_start) pa_end s"

definition kinit :: "'a kmem_st_scheme \<Rightarrow> (unit, 'a kmem_st_scheme) out" where
  "kinit s = freerange (kend s) PHYSTOP (initlock KmemLock ''kmem'' s)"

declare freerange_loop.simps [simp del]

section \<open>Framing\<close>

lemma kmem_locks [simp]:
  "mem (lock_on lk s) = mem s" "freelist (lock_on lk s) = freelist s" "kend (lock_on lk s) = kend s"
  "mem_update f (lock_on lk s) = lock_on lk (mem_update f s)"
  "freelist_update g (lock_on lk s) = lock_on lk (freelist_update g s)"
  by (simp_all add: lock_on_def acquire_own_def acquire_swap_def push_off_def intr_defs cpu_defs Let_def)

lemma kmem_settle [simp]:
  "mem (settle s) = mem s" "freelist (settle s) = freelist s" "kend (settle s) = kend s"
  "settle (mem_update f s) = mem_update f (settle s)"
  "settle (freelist_update g s) = freelist_update g (settle s)"
  by (simp_all add: settle_def intr_defs cpu_defs)

lemma kmem_machine [simp]:
  "free_lock (mem_update f s) lk = free_lock s lk" "free_lock (freelist_update g s) lk = free_lock s lk"
  "cpu_ok (mem_update f s) = cpu_ok s" "cpu_ok (freelist_update g s) = cpu_ok s"
  by (simp_all add: free_lock_def cpu_ok_def cpu_defs intr_defs)

lemma kalloc_eq:
  assumes "cpu_ok s" "free_lock s KmemLock"
  shows "kalloc s =
    (if freelist s = 0 then Done 0 (settle s)
     else Done (freelist s) ((settle s)\<lparr>freelist := load64 (mem s) (freelist s),
       mem := memset (freelist s) 5 4096 (mem s)\<rparr>))"
  using assms by (simp add: kalloc_def acquire_free release_lock_on Let_def)

definition page_ok :: "'a kmem_st_scheme \<Rightarrow> u64 \<Rightarrow> bool" where
  "page_ok s pa \<longleftrightarrow> unat pa mod 4096 = 0 \<and> kend s \<le> pa \<and> pa < PHYSTOP"

lemma mod_PGSIZE: "pa mod PGSIZE = 0 \<longleftrightarrow> unat pa mod 4096 = 0"
  by (simp add: PGSIZE_def unat_mod flip: unat_eq_0)

lemma kfree_eq:
  assumes "cpu_ok s" "free_lock s KmemLock"
  shows "kfree pa s =
    (if page_ok s pa
     then Done () ((settle s)\<lparr>mem := store64 (memset pa 1 4096 (mem s)) pa (freelist s), freelist := pa\<rparr>)
     else Panic ''kfree'')"
proof -
  have ok: "page_ok s pa \<longleftrightarrow> \<not> (pa mod PGSIZE \<noteq> 0 \<or> pa < kend s \<or> pa \<ge> PHYSTOP)"
    by (auto simp: page_ok_def mod_PGSIZE)
  show ?thesis
    unfolding kfree_def Let_def ok
    using assms by (simp add: acquire_free release_lock_on)
qed

section \<open>The free list\<close>

fun chain :: "memory \<Rightarrow> u64 \<Rightarrow> u64 list \<Rightarrow> bool" where
  "chain m p [] \<longleftrightarrow> p = 0"
| "chain m p (x # xs) \<longleftrightarrow> p = x \<and> x \<noteq> 0 \<and> chain m (load64 m x) xs"

definition kmem_ok :: "u64 list \<Rightarrow> 'a kmem_st_scheme \<Rightarrow> bool" where
  "kmem_ok xs s \<longleftrightarrow> chain (mem s) (freelist s) xs \<and> distinct xs \<and> (\<forall>x \<in> set xs. page_ok s x)"

definition page_of :: "u64 \<Rightarrow> u64 \<Rightarrow> bool" where
  "page_of pa a \<longleftrightarrow> unat (a - pa) < 4096"

lemma chain_unique: "chain m p xs \<Longrightarrow> chain m p ys \<Longrightarrow> xs = ys"
proof (induction xs arbitrary: p ys)
  case Nil
  then show ?case by (cases ys) auto
next
  case (Cons x xs)
  then show ?case by (cases ys) auto
qed

lemma page_ok_bounds:
  "page_ok s pa \<Longrightarrow> unat pa + 4096 \<le> 2 ^ 64" "page_ok s pa \<Longrightarrow> aligned8 pa"
  by (auto simp: page_ok_def unat_less_iff layout aligned8_def)

lemma pages_apart:
  assumes "unat p mod 4096 = 0" "unat q mod 4096 = 0" "p \<noteq> q" "i < 4096"
    and "unat p + 4096 \<le> 2 ^ 64" "unat q + 4096 \<le> 2 ^ 64"
  shows "\<not> page_of p (q + of_nat i)"
proof -
  have "unat p < unat q \<or> unat q < unat p" using assms(3) by (rule unat_neq_cases)
  then have "unat p + 4096 \<le> unat q \<or> unat q + 4096 \<le> unat p"
    using multiple_gap [OF assms(1,2)] multiple_gap [OF assms(2,1)] by linarith
  then have "apart p 4096 q 4096" using assms(5,6) by (rule apart_nat)
  with assms(4) show ?thesis by (auto simp: apart_def page_of_def not_less)
qed

text \<open>Memory that agrees outside one page.\<close>

definition same_outside :: "u64 \<Rightarrow> memory \<Rightarrow> memory \<Rightarrow> bool" where
  "same_outside pa m m' \<longleftrightarrow> (\<forall>a. \<not> page_of pa a \<longrightarrow> m' a = m a)"

lemma same_outside_memset: "same_outside pa m (memset pa c 4096 m)"
  by (simp add: same_outside_def page_of_def memset_eq write_bytes_def)

lemma same_outside_store64: "i \<le> 4088 \<Longrightarrow> same_outside pa m m' \<Longrightarrow> same_outside pa m (store64 m' (pa + of_nat i) v)"
proof -
  assume i: "i \<le> 4088" and same: "same_outside pa m m'"
  have "page_of pa a" if near: "unat (a - (pa + of_nat i)) < 8" for a
  proof -
    have "a - pa = (a - (pa + of_nat i)) + of_nat i" by simp
    moreover have "unat ((a - (pa + of_nat i)) + of_nat i :: u64) = unat (a - (pa + of_nat i)) + i"
      using near i by (subst unat_add_small) (auto simp: unat_of_nat_small)
    ultimately show ?thesis using near i by (simp add: page_of_def)
  qed
  with same show ?thesis
    by (auto simp: same_outside_def store64_def write_bytes_def)
qed

lemma load64_same_outside:
  assumes "same_outside pa m m'" "unat pa mod 4096 = 0" "unat pa + 4096 \<le> 2 ^ 64"
    and "unat q mod 4096 = 0" "unat q + 4096 \<le> 2 ^ 64" "pa \<noteq> q" "i \<le> 4088"
  shows "load64 m' (q + of_nat i) = load64 m (q + of_nat i)"
proof -
  have "m' (q + of_nat i + of_nat j) = m (q + of_nat i + of_nat j)" if "j < 8" for j
    using pages_apart [of pa q "i + j"] assms that by (simp add: same_outside_def add.assoc)
  then have "read_bytes m' (q + of_nat i) 8 = read_bytes m (q + of_nat i) 8"
    by (intro nth_equalityI) (simp_all add: nth_read_bytes)
  then show ?thesis by (simp add: load64_def)
qed

lemma load64_page:
  assumes "same_outside pa m m'" "page_ok s pa" "page_ok s q" "pa \<noteq> q"
  shows "load64 m' q = load64 m q"
  using load64_same_outside [OF assms(1), of q 0] assms(4)
    page_ok_bounds(1) [OF assms(2)] page_ok_bounds(1) [OF assms(3)] assms(2,3)
  by (simp add: page_ok_def)

lemma chain_same_outside:
  assumes "same_outside pa m m'" "page_ok s pa" "pa \<notin> set xs" "\<forall>x \<in> set xs. page_ok s x"
  shows "chain m' p xs \<longleftrightarrow> chain m p xs"
  using assms(3,4)
proof (induction xs arbitrary: p)
  case (Cons x xs)
  then have "load64 m' x = load64 m x" using load64_page [OF assms(1,2), of x] by auto
  with Cons show ?case by auto
qed simp

section \<open>What kalloc and kfree do\<close>

lemma page_ok_same: "kend s = kend t \<Longrightarrow> page_ok s pa = page_ok t pa"
  by (simp add: page_ok_def)

lemma kfree_spec:
  assumes "kmem_ok xs s" "page_ok s pa" "pa \<notin> set xs" "pa \<noteq> 0" "cpu_ok s" "free_lock s KmemLock"
  obtains t where "kfree pa s = Done () t" "kmem_ok (pa # xs) t" "same_outside pa (mem s) (mem t)"
    "t = (settle s)\<lparr>mem := mem t, freelist := pa\<rparr>"
proof -
  let ?m = "store64 (memset pa 1 4096 (mem s)) pa (freelist s)"
  let ?t = "(settle s)\<lparr>mem := ?m, freelist := pa\<rparr>"
  have same: "same_outside pa (mem s) ?m"
    using same_outside_store64 [of 0 pa "mem s" "memset pa 1 4096 (mem s)" "freelist s"]
    by (simp add: same_outside_memset)
  have ok: "\<forall>x \<in> set xs. page_ok s x" using assms(1) by (simp add: kmem_ok_def)
  have "chain ?m (freelist s) xs"
    using assms(1) chain_same_outside [OF same assms(2,3) ok] by (simp add: kmem_ok_def)
  then have "kmem_ok (pa # xs) ?t"
    using assms(1-4) dword.load_store_same
    by (auto simp: kmem_ok_def page_ok_def)
  with same that [of ?t] kfree_eq [OF assms(5,6), of pa] assms(2) show ?thesis by simp
qed

lemma kalloc_spec:
  assumes "kmem_ok (pa # xs) s" "cpu_ok s" "free_lock s KmemLock"
  obtains t where "kalloc s = Done pa t" "kmem_ok xs t" "same_outside pa (mem s) (mem t)"
    "mem t = memset pa 5 4096 (mem s)"
    "t = (settle s)\<lparr>mem := mem t, freelist := freelist t\<rparr>"
proof -
  let ?m = "memset pa 5 4096 (mem s)"
  let ?t = "(settle s)\<lparr>freelist := load64 (mem s) pa, mem := ?m\<rparr>"
  have head: "freelist s = pa" "pa \<noteq> 0" using assms(1) by (auto simp: kmem_ok_def)
  have same: "same_outside pa (mem s) ?m" by (rule same_outside_memset)
  have "page_ok s pa" "pa \<notin> set xs" "\<forall>x \<in> set xs. page_ok s x"
    using assms(1) by (auto simp: kmem_ok_def)
  from chain_same_outside [OF same this] have "kmem_ok xs ?t"
    using assms(1) by (auto simp: kmem_ok_def page_ok_def)
  with same that [of ?t] kalloc_eq [OF assms(2,3)] head show ?thesis by simp
qed

lemma kalloc_empty:
  "kmem_ok [] s \<Longrightarrow> cpu_ok s \<Longrightarrow> free_lock s KmemLock \<Longrightarrow> kalloc s = Done 0 (settle s)"
  by (simp add: kalloc_eq kmem_ok_def)

section \<open>The allocator as an interface\<close>

datatype page_op = Get | Put nat

text \<open>A client that allocates pages and frees pages it holds; \<open>held\<close> are the pages it holds.\<close>

primrec use_pages :: "('s \<Rightarrow> (u64, 's) out) \<Rightarrow> (u64 \<Rightarrow> 's \<Rightarrow> (unit, 's) out) \<Rightarrow>
    page_op list \<Rightarrow> u64 list \<Rightarrow> 's \<Rightarrow> (u64 list, 's) out" where
  "use_pages alloc free [] held s = Done held s"
| "use_pages alloc free (x # xs) held s =
     (case x of
        Get \<Rightarrow> bnd (alloc s) (\<lambda>p s'. use_pages alloc free xs (if p = 0 then held else p # held) s')
      | Put i \<Rightarrow> if i < length held
                then bnd (free (held ! i) s)
                  (\<lambda>_ s'. use_pages alloc free xs (take i held @ drop (Suc i) held) s')
                else use_pages alloc free xs held s)"

locale page_allocator =
  fixes alloc :: "'s \<Rightarrow> (u64, 's) out"
    and free :: "u64 \<Rightarrow> 's \<Rightarrow> (unit, 's) out"
    and abs :: "u64 set \<Rightarrow> 's \<Rightarrow> bool"
    and managed :: "u64 \<Rightarrow> bool"
  assumes alloc_some: "abs P s \<Longrightarrow> P \<noteq> {} \<Longrightarrow> \<exists>p t. alloc s = Done p t \<and> p \<in> P \<and> abs (P - {p}) t"
    and alloc_none: "abs {} s \<Longrightarrow> \<exists>t. alloc s = Done 0 t \<and> abs {} t"
    and free_page: "abs P s \<Longrightarrow> managed p \<Longrightarrow> p \<notin> P \<Longrightarrow> \<exists>t. free p s = Done () t \<and> abs (insert p P) t"
    and abs_managed: "abs P s \<Longrightarrow> p \<in> P \<Longrightarrow> managed p \<and> p \<noteq> 0"
begin

lemma alloc_cases:
  assumes "abs P s"
  obtains p t where "alloc s = Done p t" "p \<noteq> 0" "p \<in> P" "abs (P - {p}) t"
  | t where "P = {}" "alloc s = Done 0 t" "abs {} t"
  using assms alloc_some alloc_none abs_managed by metis

text \<open>No page is lost, none is both free and held, none is handed out twice.\<close>

lemma use_pages_conserve:
  "abs P s \<Longrightarrow> distinct held \<Longrightarrow> set held \<inter> P = {} \<Longrightarrow> (\<forall>p \<in> set held. managed p) \<Longrightarrow>
   \<exists>held' P' t. use_pages alloc free ops held s = Done held' t \<and> abs P' t \<and> distinct held' \<and>
     set held' \<inter> P' = {} \<and> set held' \<union> P' = set held \<union> P"
proof (induction ops arbitrary: P s held)
  case Nil
  then show ?case by auto
next
  case (Cons x ops)
  show ?case
  proof (cases x)
    case Get
    from Cons.prems(1) show ?thesis
    proof (cases rule: alloc_cases)
      case (1 p t)
      have "\<exists>held' P' t'. use_pages alloc free ops (p # held) t = Done held' t' \<and> abs P' t' \<and>
          distinct held' \<and> set held' \<inter> P' = {} \<and> set held' \<union> P' = set (p # held) \<union> (P - {p})"
        using 1 Cons.prems abs_managed by (intro Cons.IH) auto
      moreover have "set (p # held) \<union> (P - {p}) = set held \<union> P" using 1(3) by auto
      ultimately show ?thesis using Get 1(1,2) by simp
    next
      case (2 t)
      with Get Cons.prems Cons.IH [of "{}" t held] show ?thesis by simp
    qed
  next
    case (Put i)
    show ?thesis
    proof (cases "i < length held")
      case True
      let ?rest = "take i held @ drop (Suc i) held"
      note d = remove_nth [OF True Cons.prems(2)]
      obtain t where t: "free (held ! i) s = Done () t" "abs (insert (held ! i) P) t"
        using free_page [of P s "held ! i"] Cons.prems True by (meson disjoint_iff nth_mem)
      have "\<exists>held' P' t'. use_pages alloc free ops ?rest t = Done held' t' \<and> abs P' t' \<and>
          distinct held' \<and> set held' \<inter> P' = {} \<and> set held' \<union> P' = set ?rest \<union> insert (held ! i) P"
        using t(2) d Cons.prems(3,4) by (intro Cons.IH) auto
      moreover have "set ?rest \<union> insert (held ! i) P = set held \<union> P" using d(3) by auto
      ultimately show ?thesis using Put True t(1) by simp
    next
      case False
      with Put Cons show ?thesis by simp
    qed
  qed
qed

end

definition kmem_abs :: "u64 \<Rightarrow> u64 set \<Rightarrow> 'a kmem_st_scheme \<Rightarrow> bool" where
  "kmem_abs e P s \<longleftrightarrow> kend s = e \<and> cpu_ok s \<and> free_lock s KmemLock \<and>
     (\<exists>xs. kmem_ok xs s \<and> set xs = P)"

definition ram_page :: "u64 \<Rightarrow> u64 \<Rightarrow> bool" where
  "ram_page e pa \<longleftrightarrow> unat pa mod 4096 = 0 \<and> e \<le> pa \<and> pa < PHYSTOP \<and> pa \<noteq> 0"

lemma kmem_abs_frame:
  assumes "t = (settle s)\<lparr>mem := m, freelist := f\<rparr>"
  shows "kend t = kend s" "cpu_ok t = cpu_ok s" "free_lock t lk = free_lock s lk"
  using assms by simp_all

lemma kmem_ok_nonzero: "kmem_ok xs s \<Longrightarrow> x \<in> set xs \<Longrightarrow> x \<noteq> 0"
proof -
  have "chain m p xs \<Longrightarrow> x \<in> set xs \<Longrightarrow> x \<noteq> 0" for m p
    by (induction xs arbitrary: p) auto
  then show "kmem_ok xs s \<Longrightarrow> x \<in> set xs \<Longrightarrow> x \<noteq> 0" by (auto simp: kmem_ok_def)
qed

interpretation kmem: page_allocator kalloc kfree "kmem_abs e" "ram_page e" for e
proof
  fix P and s :: "'a kmem_st_scheme" and p
  assume abs: "kmem_abs e P s"
  then obtain xs where xs: "kmem_ok xs s" "set xs = P" "kend s = e" "cpu_ok s" "free_lock s KmemLock"
    by (auto simp: kmem_abs_def)
  show "\<exists>p t. kalloc s = Done p t \<and> p \<in> P \<and> kmem_abs e (P - {p}) t" if ne: "P \<noteq> {}"
  proof -
    obtain y ys where ys: "xs = y # ys" using ne xs(2) by (cases xs) auto
    obtain t where t: "kalloc s = Done y t" "kmem_ok ys t"
      "t = (settle s)\<lparr>mem := mem t, freelist := freelist t\<rparr>"
      using kalloc_spec [of y ys s] xs ys by metis
    moreover have "set ys = P - {y}" using xs(1,2) ys by (auto simp: kmem_ok_def)
    ultimately have "kmem_abs e (P - {y}) t"
      using xs(3-5) kmem_abs_frame [OF t(3)] unfolding kmem_abs_def by blast
    with t ys xs(2) show ?thesis by auto
  qed
  show "\<exists>t. kfree p s = Done () t \<and> kmem_abs e (insert p P) t" if pg: "ram_page e p" "p \<notin> P"
  proof -
    have "page_ok s p" "p \<noteq> 0" using pg xs(3) by (auto simp: ram_page_def page_ok_def)
    then obtain t where t: "kfree p s = Done () t" "kmem_ok (p # xs) t"
      "t = (settle s)\<lparr>mem := mem t, freelist := p\<rparr>"
      using kfree_spec [of xs s p] xs pg by metis
    moreover have "set (p # xs) = insert p P" using xs(2) by simp
    ultimately show ?thesis
      using xs(3-5) kmem_abs_frame [OF t(3)] unfolding kmem_abs_def by blast
  qed
  show "ram_page e p \<and> p \<noteq> 0" if "p \<in> P"
    using that xs kmem_ok_nonzero [OF xs(1)] by (auto simp: kmem_ok_def page_ok_def ram_page_def)
next
  fix s :: "'a kmem_st_scheme"
  assume abs: "kmem_abs e {} s"
  then have ok: "kmem_ok [] s" "cpu_ok s" "free_lock s KmemLock" by (auto simp: kmem_abs_def)
  have "kmem_ok [] (settle s)" using ok(1) by (simp add: kmem_ok_def)
  with abs kalloc_empty [OF ok] show "\<exists>t. kalloc s = Done 0 t \<and> kmem_abs e {} t"
    by (auto simp: kmem_abs_def)
qed

section \<open>Boot\<close>

text \<open>All pages of \<open>[p, q)\<close>.\<close>

definition pages_between :: "u64 \<Rightarrow> u64 \<Rightarrow> u64 set" where
  "pages_between p q = {x. unat x mod 4096 = 0 \<and> p \<le> x \<and> unat x + 4096 \<le> unat q}"

lemma pages_between_step:
  assumes "unat p mod 4096 = 0" "unat p + 4096 \<le> unat q" "unat p + 4096 < 2 ^ 64"
  shows "pages_between p q = insert p (pages_between (p + 4096) q)"
proof -
  have p': "unat (p + 4096) = unat p + 4096" using assms(3) by (simp add: unat_add_small)
  have "x = p \<or> p + 4096 \<le> x" if "4096 dvd unat x" "p \<le> x" for x :: u64
  proof (cases "x = p")
    case False
    then have "unat p < unat x" using that(2) unat_neq_cases [of x p] by (auto simp: unat_le_iff)
    from multiple_gap [OF assms(1) _ this] that(1) show ?thesis by (simp add: unat_le_iff p')
  qed simp
  moreover have "p \<le> x" if "p + 4096 \<le> x" for x using that by (simp add: unat_le_iff p')
  ultimately show ?thesis using assms(1,2) by (auto simp: pages_between_def)
qed

lemma freerange_loop_spec:
  assumes "kmem_abs e P s" "unat p mod 4096 = 0" "e \<le> p" "p \<noteq> 0" "unat p \<le> unat PHYSTOP"
    and "P \<inter> pages_between p PHYSTOP = {}"
  shows "\<exists>t. freerange_loop p PHYSTOP s = Done () t \<and> kmem_abs e (P \<union> pages_between p PHYSTOP) t"
  using assms
proof (induction p PHYSTOP s arbitrary: P rule: freerange_loop.induct)
  case (1 p s)
  have small: "unat p \<le> 2281701376" using "1.prems"(5) by (simp add: layout)
  then have p': "unat (p + PGSIZE) = unat p + 4096" by (simp add: unat_add_small layout)
  show ?case
  proof (cases "p + PGSIZE \<le> PHYSTOP")
    case False
    then have "unat PHYSTOP < unat p + 4096" by (simp add: unat_le_iff p')
    then have "pages_between p PHYSTOP = {}"
      by (auto simp: pages_between_def unat_le_iff)
    with False "1.prems"(1) show ?thesis by (simp add: freerange_loop.simps)
  next
    case True
    then have le: "unat p + 4096 \<le> unat PHYSTOP" by (simp add: unat_le_iff p')
    have split: "pages_between p PHYSTOP = insert p (pages_between (p + PGSIZE) PHYSTOP)"
      using pages_between_step [of p PHYSTOP] "1.prems"(2) le small by (simp add: PGSIZE_def)
    have "ram_page e p" using "1.prems"(2-4) le by (simp add: ram_page_def unat_less_iff)
    moreover have "p \<notin> P" using "1.prems"(6) split by auto
    ultimately obtain t where t: "kfree p s = Done () t" "kmem_abs e (insert p P) t"
      using kmem.free_page [OF "1.prems"(1)] by blast
    have "p \<notin> pages_between (p + PGSIZE) PHYSTOP" by (auto simp: pages_between_def unat_le_iff p')
    with "1.hyps" [OF True t(1,2)] "1.prems" le p' split
    obtain u where "freerange_loop (p + PGSIZE) PHYSTOP t = Done () u"
      "kmem_abs e (insert p P \<union> pages_between (p + PGSIZE) PHYSTOP) u"
      by (auto simp: unat_le_iff unat_eq_0 [symmetric])
    with True t(1) split show ?thesis by (auto simp: freerange_loop.simps [of p])
  qed
qed

lemma initlock_simps [simp]:
  "mem (initlock lk n s) = mem s" "freelist (initlock lk n s) = freelist s"
  "kend (initlock lk n s) = kend s" "cpu_ok (initlock lk n s) = cpu_ok s"
  "free_lock (initlock lk n s) lk' = (lk' = lk \<or> free_lock s lk')"
  by (auto simp: initlock_def cpu_ok_def cpu_defs intr_defs free_lock_def)

text \<open>
  Property C12. Boot: \<^verbatim>\<open>kinit\<close> terminates without a panic and puts every whole page between the
  end of the kernel image and \<^verbatim>\<open>PHYSTOP\<close> on the free list, and nothing else.
\<close>

theorem kinit_frees_all:
  assumes "cpu_ok s" "freelist s = 0" "0 < kend s" "kend s \<le> PHYSTOP"
  shows "\<exists>t. kinit s = Done () t \<and>
    kmem_abs (kend s) (pages_between (PGROUNDUP (kend s)) PHYSTOP) t"
proof -
  let ?p = "PGROUNDUP (kend s)"
  have small: "unat (kend s) \<le> 2281701376" and pos: "0 < unat (kend s)"
    using assms(3,4) by (simp_all add: unat_le_iff unat_less_iff layout)
  then have p: "unat ?p = (unat (kend s) + 4095) div 4096 * 4096" by (simp add: unat_PGROUNDUP)
  have le: "unat (kend s) \<le> unat ?p" "unat ?p \<le> unat PHYSTOP" "unat ?p \<noteq> 0"
    using small pos by (auto simp: p layout)
  have "kmem_abs (kend s) {} (initlock KmemLock ''kmem'' s)"
    using assms(1,2) by (simp add: kmem_abs_def kmem_ok_def)
  moreover have "?p \<noteq> 0" using le(3) by auto
  ultimately have "\<exists>t. freerange_loop ?p PHYSTOP (initlock KmemLock ''kmem'' s) = Done () t \<and>
      kmem_abs (kend s) ({} \<union> pages_between ?p PHYSTOP) t"
    using le by (intro freerange_loop_spec) (auto simp: p unat_le_iff)
  then show ?thesis by (simp add: kinit_def freerange_def)
qed

definition boot_kmem :: kmem_st where
  "boot_kmem = machine.extend boot_machine \<lparr>mem = (\<lambda>_. 0), freelist = 0, kend = 0x80021D00\<rparr>"

lemma boot_kmem_simps [simp]:
  "cpu_ok boot_kmem" "free_lock boot_kmem lk" "freelist boot_kmem = 0" "kend boot_kmem = 0x80021D00"
  by (simp_all add: boot_kmem_def machine.defs boot_machine_def free_lock_def cpu_ok_def cpu_defs
      quiet_cpu_def)

theorem kinit_frees_all_witness:
  "\<exists>t. kinit boot_kmem = Done () t \<and>
     kmem_abs 0x80021D00 (pages_between (PGROUNDUP 0x80021D00) PHYSTOP) t"
  using kinit_frees_all [of boot_kmem] by (simp add: layout)

text \<open>
  Property C13. The page allocator never hands out a page twice, never panics and never loses a
  page: after any sequence of \<^verbatim>\<open>kalloc\<close>s and of \<^verbatim>\<open>kfree\<close>s of held pages, the held pages are
  distinct and disjoint from the free list, and held and free pages together are those of the start.
\<close>

theorem kalloc_kfree_conserve:
  assumes "kmem_abs e P s" "distinct held" "set held \<inter> P = {}" "\<forall>p \<in> set held. ram_page e p"
  shows "\<exists>held' P' t. use_pages kalloc kfree ops held s = Done held' t \<and> kmem_abs e P' t \<and>
    distinct held' \<and> set held' \<inter> P' = {} \<and> set held' \<union> P' = set held \<union> P"
  using kmem.use_pages_conserve [OF assms] .

theorem kalloc_kfree_conserve_witness:
  "\<exists>held' P' t. use_pages kalloc kfree [Put 0, Get, Put 1, Get] [0x80100000, 0x80200000] boot_kmem
     = Done held' t \<and> kmem_abs 0x80021D00 P' t \<and> distinct held' \<and> set held' \<inter> P' = {} \<and>
     set held' \<union> P' = {0x80100000, 0x80200000}"
proof -
  have "kmem_abs 0x80021D00 {} boot_kmem" by (simp add: kmem_abs_def kmem_ok_def)
  moreover have "\<forall>p \<in> set [0x80100000, 0x80200000]. ram_page 0x80021D00 p"
    by (simp add: ram_page_def layout)
  ultimately show ?thesis
    using kalloc_kfree_conserve [of "0x80021D00" "{}" boot_kmem "[0x80100000, 0x80200000]"]
    by (simp del: use_pages.simps)
qed

text \<open>
  Property C14. One \<^verbatim>\<open>kalloc\<close>: it returns the first page of the free list filled with the byte 5,
  writes no byte outside that page, and returns 0 exactly when the list is empty. One \<^verbatim>\<open>kfree\<close> of
  an aligned page of RAM puts it first on the list and writes no byte outside it; any other
  address panics.
\<close>

theorem kalloc_kfree_effect:
  assumes "kmem_ok xs s" "cpu_ok s" "free_lock s KmemLock"
  shows "(case xs of
      [] \<Rightarrow> kalloc s = Done 0 (settle s)
    | pa # ys \<Rightarrow> \<exists>t. kalloc s = Done pa t \<and> kmem_ok ys t \<and> same_outside pa (mem s) (mem t) \<and>
        read_bytes (mem t) pa 4096 = replicate 4096 5) \<and>
    (if page_ok s q then q \<noteq> 0 \<and> q \<notin> set xs \<longrightarrow>
       (\<exists>t. kfree q s = Done () t \<and> kmem_ok (q # xs) t \<and> same_outside q (mem s) (mem t))
     else kfree q s = Panic ''kfree'')"
proof
  show "case xs of
      [] \<Rightarrow> kalloc s = Done 0 (settle s)
    | pa # ys \<Rightarrow> \<exists>t. kalloc s = Done pa t \<and> kmem_ok ys t \<and> same_outside pa (mem s) (mem t) \<and>
        read_bytes (mem t) pa 4096 = replicate 4096 5"
  proof (cases xs)
    case Nil
    with assms show ?thesis by (simp add: kalloc_empty)
  next
    case (Cons pa ys)
    then obtain t where "kalloc s = Done pa t" "kmem_ok ys t" "same_outside pa (mem s) (mem t)"
      "mem t = memset pa 5 4096 (mem s)"
      using kalloc_spec [of pa ys s] assms by metis
    moreover from this(4) have "read_bytes (mem t) pa 4096 = replicate 4096 5"
      using read_write_same [of "replicate 4096 5" "mem s" pa] by (simp add: memset_eq)
    ultimately show ?thesis using Cons by simp
  qed
  show "if page_ok s q then q \<noteq> 0 \<and> q \<notin> set xs \<longrightarrow>
       (\<exists>t. kfree q s = Done () t \<and> kmem_ok (q # xs) t \<and> same_outside q (mem s) (mem t))
     else kfree q s = Panic ''kfree''"
    using kfree_spec [of xs s q] kfree_eq [OF assms(2,3), of q] assms
    by (metis (full_types))
qed

theorem kalloc_kfree_effect_witness:
  "kalloc boot_kmem = Done 0 (settle boot_kmem) \<and>
   (\<exists>t. kfree 0x80100000 boot_kmem = Done () t \<and> kmem_ok [0x80100000] t)"
proof -
  have "kmem_ok [] boot_kmem" "page_ok boot_kmem 0x80100000"
    by (simp_all add: kmem_ok_def page_ok_def layout)
  with kalloc_kfree_effect [of "[]" boot_kmem "0x80100000"] show ?thesis by auto
qed

end
