(* ===== verification/Vm.thy ===== *)
theory Vm
  imports Kalloc
begin

text \<open>
  \<^verbatim>\<open>kernel/vm.c\<close>: Sv39 page tables and the copies between user and kernel space. A page table
  is named by the physical address of its root page; entries are read and written in the
  byte memory. C's null pointers are the address 0, as in the source.

  \<open>freewalk\<close> recurses over the tree in memory without counting levels; the model gives it a
  depth bound and waits with \<^term>\<open>NoFuel\<close> below it. Three levels are enough for every
  table that \<open>walk\<close> builds.
\<close>

unbundle bit_operations_syntax

section \<open>walk and its callers\<close>

fun walk_level :: "nat \<Rightarrow> u64 \<Rightarrow> u64 \<Rightarrow> bool \<Rightarrow> 'a kmem_st_scheme \<Rightarrow> (u64, 'a kmem_st_scheme) out" where
  "walk_level 0 pagetable va alloc s = Done (pagetable + PX 0 va * 8) s"
| "walk_level (Suc level) pagetable va alloc s =
     (let pte = pagetable + PX (Suc level) va * 8;
          e = load64 (mem s) pte
      in if e AND PTE_V \<noteq> 0 then walk_level level (PTE2PA e) va alloc s
         else if \<not> alloc then Done 0 s
         else bnd (kalloc s) (\<lambda>pg s1.
           if pg = 0 then Done 0 s1
           else let s2 = s1\<lparr>mem := memset pg 0 4096 (mem s1)\<rparr>;
                    s3 = s2\<lparr>mem := store64 (mem s2) pte (PA2PTE pg OR PTE_V)\<rparr>
                in walk_level level pg va alloc s3))"

definition walk :: "u64 \<Rightarrow> u64 \<Rightarrow> bool \<Rightarrow> 'a kmem_st_scheme \<Rightarrow> (u64, 'a kmem_st_scheme) out" where
  "walk pagetable va alloc s =
     (if va \<ge> MAXVA then Panic ''walk'' else walk_level 2 pagetable va alloc s)"

definition walkaddr :: "u64 \<Rightarrow> u64 \<Rightarrow> 'a kmem_st_scheme \<Rightarrow> (u64, 'a kmem_st_scheme) out" where
  "walkaddr pagetable va s =
     (if va \<ge> MAXVA then Done 0 s
      else bnd (walk pagetable va False s) (\<lambda>pte s1.
        if pte = 0 then Done 0 s1
        else let e = load64 (mem s1) pte
             in if e AND PTE_V = 0 then Done 0 s1
                else if e AND PTE_U = 0 then Done 0 s1
                else Done (PTE2PA e) s1))"

lemma walk_Done_range: "walk pt va al s = Done x t \<Longrightarrow> va < MAXVA"
  by (auto simp: walk_def split: if_splits)

lemma MAXVA_step: "va < MAXVA \<Longrightarrow> unat (va + PGSIZE) = unat va + 4096"
  by (simp add: unat_less_iff layout unat_add_small)

function mappages_loop :: "u64 \<Rightarrow> u64 \<Rightarrow> u64 \<Rightarrow> u64 \<Rightarrow> u64 \<Rightarrow> 'a kmem_st_scheme \<Rightarrow>
    (int, 'a kmem_st_scheme) out" where
  "mappages_loop pagetable a lst pa perm s =
     bnd (walk pagetable a True s) (\<lambda>pte s1.
       if pte = 0 then Done (-1) s1
       else if load64 (mem s1) pte AND PTE_V \<noteq> 0 then Panic ''mappages: remap''
       else let s2 = s1\<lparr>mem := store64 (mem s1) pte (PA2PTE pa OR perm OR PTE_V)\<rparr>
            in if a = lst then Done 0 s2
               else mappages_loop pagetable (a + PGSIZE) lst (pa + PGSIZE) perm s2)"
  by pat_completeness auto
termination
  by (relation "measure (\<lambda>(pt, a, lst, pa, perm, s). 2 ^ 64 - unat a)")
     (auto dest!: walk_Done_range simp: MAXVA_step, simp add: unat_less_iff layout)

declare mappages_loop.simps [simp del]

definition mappages :: "u64 \<Rightarrow> u64 \<Rightarrow> u64 \<Rightarrow> u64 \<Rightarrow> u64 \<Rightarrow> 'a kmem_st_scheme \<Rightarrow>
    (int, 'a kmem_st_scheme) out" where
  "mappages pagetable va sz pa perm s =
     (if sz = 0 then Panic ''mappages: size''
      else mappages_loop pagetable (PGROUNDDOWN va) (PGROUNDDOWN (va + sz - 1)) pa perm s)"

definition kvmmap :: "u64 \<Rightarrow> u64 \<Rightarrow> u64 \<Rightarrow> u64 \<Rightarrow> u64 \<Rightarrow> 'a kmem_st_scheme \<Rightarrow>
    (unit, 'a kmem_st_scheme) out" where
  "kvmmap kpgtbl va pa sz perm s =
     bnd (mappages kpgtbl va sz pa perm s) (\<lambda>r s1. if r \<noteq> 0 then Panic ''kvmmap'' else Done () s1)"

function uvmunmap_loop :: "u64 \<Rightarrow> u64 \<Rightarrow> u64 \<Rightarrow> bool \<Rightarrow> 'a kmem_st_scheme \<Rightarrow>
    (unit, 'a kmem_st_scheme) out" where
  "uvmunmap_loop pagetable a lim do_free s =
     (if a < lim
      then bnd (walk pagetable a False s) (\<lambda>pte s1.
        if pte = 0 then Panic ''uvmunmap: walk''
        else let e = load64 (mem s1) pte
             in if e AND PTE_V = 0 then Panic ''uvmunmap: not mapped''
                else if PTE_FLAGS e = PTE_V then Panic ''uvmunmap: not a leaf''
                else bnd (if do_free then kfree (PTE2PA e) s1 else Done () s1) (\<lambda>_ s2.
                  uvmunmap_loop pagetable (a + PGSIZE) lim do_free
                    (s2\<lparr>mem := store64 (mem s2) pte 0\<rparr>)))
      else Done () s)"
  by pat_completeness auto
termination
  by (relation "measure (\<lambda>(pt, a, lim, f, s). 2 ^ 64 - unat a)")
     (auto dest!: walk_Done_range simp: MAXVA_step, simp add: unat_less_iff layout)

declare uvmunmap_loop.simps [simp del]

definition uvmunmap :: "u64 \<Rightarrow> u64 \<Rightarrow> u64 \<Rightarrow> bool \<Rightarrow> 'a kmem_st_scheme \<Rightarrow>
    (unit, 'a kmem_st_scheme) out" where
  "uvmunmap pagetable va npages do_free s =
     (if va mod PGSIZE \<noteq> 0 then Panic ''uvmunmap: not aligned''
      else uvmunmap_loop pagetable va (va + npages * PGSIZE) do_free s)"

definition uvmcreate :: "'a kmem_st_scheme \<Rightarrow> (u64, 'a kmem_st_scheme) out" where
  "uvmcreate s =
     bnd (kalloc s) (\<lambda>pg s1.
       if pg = 0 then Done 0 s1 else Done pg (s1\<lparr>mem := memset pg 0 4096 (mem s1)\<rparr>))"

text \<open>A store through the null pointer faults in the kernel, where \<^verbatim>\<open>kerneltrap\<close> panics.\<close>

definition uvmfirst :: "u64 \<Rightarrow> u8 list \<Rightarrow> 'a kmem_st_scheme \<Rightarrow> (unit, 'a kmem_st_scheme) out" where
  "uvmfirst pagetable src s =
     (if length src \<ge> 4096 then Panic ''uvmfirst: more than a page''
      else bnd (kalloc s) (\<lambda>pg s1.
        if pg = 0 then Panic ''kerneltrap''
        else bnd (mappages pagetable 0 PGSIZE pg (PTE_W OR PTE_R OR PTE_X OR PTE_U)
               (s1\<lparr>mem := memset pg 0 4096 (mem s1)\<rparr>)) (\<lambda>_ s2.
          Done () (s2\<lparr>mem := write_bytes (mem s2) pg src\<rparr>))))"

definition uvmdealloc :: "u64 \<Rightarrow> u64 \<Rightarrow> u64 \<Rightarrow> 'a kmem_st_scheme \<Rightarrow> (u64, 'a kmem_st_scheme) out" where
  "uvmdealloc pagetable oldsz newsz s =
     (if newsz \<ge> oldsz then Done oldsz s
      else if PGROUNDUP newsz < PGROUNDUP oldsz
      then bnd (uvmunmap pagetable (PGROUNDUP newsz)
             (scast (ucast ((PGROUNDUP oldsz - PGROUNDUP newsz) div PGSIZE) :: u32)) True s) (\<lambda>_ s1. Done newsz s1)
      else Done newsz s)"

lemma mappages_loop_Done_range: "mappages_loop pt a lst pa perm s = Done r t \<Longrightarrow> a < MAXVA"
  by (subst (asm) mappages_loop.simps) (auto simp: out_conv dest: walk_Done_range)

lemma mappages_Done_range:
  assumes "mappages pt va sz pa perm s = Done r t"
  shows "unat (va + PGSIZE) = unat va + 4096"
proof -
  have "PGROUNDDOWN va < MAXVA"
    using assms by (auto simp: mappages_def dest: mappages_loop_Done_range split: if_splits)
  moreover have "unat va < unat (PGROUNDDOWN va) + 4096"
    by (simp add: unat_PGROUNDDOWN)
  ultimately show ?thesis by (simp add: unat_less_iff layout unat_add_small)
qed

function uvmalloc_loop :: "u64 \<Rightarrow> u64 \<Rightarrow> u64 \<Rightarrow> u64 \<Rightarrow> u64 \<Rightarrow> 'a kmem_st_scheme \<Rightarrow>
    (u64, 'a kmem_st_scheme) out" where
  "uvmalloc_loop pagetable a oldsz newsz xperm s =
     (if a < newsz
      then bnd (kalloc s) (\<lambda>pg s1.
        if pg = 0 then bnd (uvmdealloc pagetable a oldsz s1) (\<lambda>_ s2. Done 0 s2)
        else bnd (mappages pagetable a PGSIZE pg (PTE_R OR PTE_U OR xperm)
                    (s1\<lparr>mem := memset pg 0 4096 (mem s1)\<rparr>)) (\<lambda>r s2.
          if r \<noteq> 0
          then bnd (kfree pg s2) (\<lambda>_ s3. bnd (uvmdealloc pagetable a oldsz s3) (\<lambda>_ s4. Done 0 s4))
          else uvmalloc_loop pagetable (a + PGSIZE) oldsz newsz xperm s2))
      else Done newsz s)"
  by pat_completeness auto
termination
proof (relation "measure (\<lambda>(pt, a, old, n, x, s). 2 ^ 64 - unat a)", goal_cases)
  case (2 pt a oldsz newsz xperm s pg s1 r s2)
  then show ?case using mappages_Done_range [OF 2(4)] unat_less_2p64 [of a] by simp
qed simp

declare uvmalloc_loop.simps [simp del]

definition uvmalloc :: "u64 \<Rightarrow> u64 \<Rightarrow> u64 \<Rightarrow> u64 \<Rightarrow> 'a kmem_st_scheme \<Rightarrow>
    (u64, 'a kmem_st_scheme) out" where
  "uvmalloc pagetable oldsz newsz xperm s =
     (if newsz < oldsz then Done oldsz s
      else uvmalloc_loop pagetable (PGROUNDUP oldsz) (PGROUNDUP oldsz) newsz xperm s)"

fun freewalk :: "nat \<Rightarrow> u64 \<Rightarrow> 'a kmem_st_scheme \<Rightarrow> (unit, 'a kmem_st_scheme) out"
  and freewalk_loop :: "nat \<Rightarrow> u64 \<Rightarrow> nat list \<Rightarrow> 'a kmem_st_scheme \<Rightarrow> (unit, 'a kmem_st_scheme) out"
where
  "freewalk 0 pagetable s = Waits NoFuel s"
| "freewalk (Suc n) pagetable s =
     bnd (freewalk_loop n pagetable [0..<512] s) (\<lambda>_ s1. kfree pagetable s1)"
| "freewalk_loop n pagetable [] s = Done () s"
| "freewalk_loop n pagetable (i # is) s =
     (let pte = load64 (mem s) (pagetable + of_nat i * 8)
      in if pte AND PTE_V \<noteq> 0 \<and> pte AND (PTE_R OR PTE_W OR PTE_X) = 0
         then bnd (freewalk n (PTE2PA pte) s) (\<lambda>_ s1.
           freewalk_loop n pagetable is
             (s1\<lparr>mem := store64 (mem s1) (pagetable + of_nat i * 8) 0\<rparr>))
         else if pte AND PTE_V \<noteq> 0 then Panic ''freewalk: leaf''
         else freewalk_loop n pagetable is s)"

definition uvmfree :: "u64 \<Rightarrow> u64 \<Rightarrow> 'a kmem_st_scheme \<Rightarrow> (unit, 'a kmem_st_scheme) out" where
  "uvmfree pagetable sz s =
     bnd (if sz > 0 then uvmunmap pagetable 0 (PGROUNDUP sz div PGSIZE) True s else Done () s)
       (\<lambda>_ s1. freewalk 3 pagetable s1)"

text \<open>The exit of \<^verbatim>\<open>uvmcopy\<close> through its label \<^verbatim>\<open>err\<close>.\<close>

definition uvmcopy_err :: "u64 \<Rightarrow> u64 \<Rightarrow> 'a kmem_st_scheme \<Rightarrow> (int, 'a kmem_st_scheme) out" where
  "uvmcopy_err new i s = bnd (uvmunmap new 0 (i div PGSIZE) True s) (\<lambda>_ s1. Done (-1) s1)"

function uvmcopy_loop :: "u64 \<Rightarrow> u64 \<Rightarrow> u64 \<Rightarrow> u64 \<Rightarrow> 'a kmem_st_scheme \<Rightarrow>
    (int, 'a kmem_st_scheme) out" where
  "uvmcopy_loop old new i sz s =
     (if i < sz
      then bnd (walk old i False s) (\<lambda>pte s1.
        if pte = 0 then Panic ''uvmcopy: pte should exist''
        else let e = load64 (mem s1) pte
             in if e AND PTE_V = 0 then Panic ''uvmcopy: page not present''
                else bnd (kalloc s1) (\<lambda>pg s2.
                  if pg = 0 then uvmcopy_err new i s2
                  else bnd (mappages new i PGSIZE pg (PTE_FLAGS e)
                              (s2\<lparr>mem := memmove pg (PTE2PA e) 4096 (mem s2)\<rparr>)) (\<lambda>r s3.
                    if r \<noteq> 0 then bnd (kfree pg s3) (\<lambda>_ s4. uvmcopy_err new i s4)
                    else uvmcopy_loop old new (i + PGSIZE) sz s3)))
      else Done 0 s)"
  by pat_completeness auto
termination
proof (relation "measure (\<lambda>(old, new, i, sz, s). 2 ^ 64 - unat i)", goal_cases)
  case (2 old new i sz s pte s1 e pg s2 r s3)
  then show ?case using mappages_Done_range [OF 2(8)] unat_less_2p64 [of i] by simp
qed simp

declare uvmcopy_loop.simps [simp del]

definition uvmcopy :: "u64 \<Rightarrow> u64 \<Rightarrow> u64 \<Rightarrow> 'a kmem_st_scheme \<Rightarrow> (int, 'a kmem_st_scheme) out" where
  "uvmcopy old new sz s = uvmcopy_loop old new 0 sz s"

definition uvmclear :: "u64 \<Rightarrow> u64 \<Rightarrow> 'a kmem_st_scheme \<Rightarrow> (unit, 'a kmem_st_scheme) out" where
  "uvmclear pagetable va s =
     bnd (walk pagetable va False s) (\<lambda>pte s1.
       if pte = 0 then Panic ''uvmclear''
       else Done () (s1\<lparr>mem := store64 (mem s1) pte (load64 (mem s1) pte AND NOT PTE_U)\<rparr>))"

section \<open>Copies between kernel and user space\<close>

text \<open>
  The kernel's side of a copy is a list of bytes: the source of \<open>copyout\<close>, and the bytes that
  \<open>copyin\<close> and \<open>copyinstr\<close> store at \<^verbatim>\<open>dst\<close>, in order, also when they fail midway.
\<close>

lemma page_room: "0 < m \<Longrightarrow> m - min (4096 - unat (va - PGROUNDDOWN va)) m < m"
  using PGROUNDDOWN_offset [of va] by simp

function copyout :: "u64 \<Rightarrow> u64 \<Rightarrow> u8 list \<Rightarrow> 'a kmem_st_scheme \<Rightarrow> (int, 'a kmem_st_scheme) out" where
  "copyout pagetable dstva src s =
     (if src \<noteq> []
      then let va0 = PGROUNDDOWN dstva
           in bnd (walkaddr pagetable va0 s) (\<lambda>pa0 s1.
                if pa0 = 0 then Done (-1) s1
                else let n = min (4096 - unat (dstva - va0)) (length src)
                     in copyout pagetable (va0 + PGSIZE) (drop n src)
                          (s1\<lparr>mem := write_bytes (mem s1) (pa0 + (dstva - va0)) (take n src)\<rparr>))
      else Done 0 s)"
  by pat_completeness auto
termination
  by (relation "measure (\<lambda>(pt, va, src, s). length src)") (auto simp: page_room)

declare copyout.simps [simp del]

function copyin :: "u64 \<Rightarrow> u64 \<Rightarrow> nat \<Rightarrow> 'a kmem_st_scheme \<Rightarrow> (int \<times> u8 list, 'a kmem_st_scheme) out" where
  "copyin pagetable srcva len s =
     (if len > 0
      then let va0 = PGROUNDDOWN srcva
           in bnd (walkaddr pagetable va0 s) (\<lambda>pa0 s1.
                if pa0 = 0 then Done (-1, []) s1
                else let n = min (4096 - unat (srcva - va0)) len;
                         bs = read_bytes (mem s1) (pa0 + (srcva - va0)) n
                     in bnd (copyin pagetable (va0 + PGSIZE) (len - n) s1) (\<lambda>r s2.
                          Done (fst r, bs @ snd r) s2))
      else Done (0, []) s)"
  by pat_completeness auto
termination
  by (relation "measure (\<lambda>(pt, va, len, s). len)") (auto simp: page_room)

declare copyin.simps [simp del]

text \<open>The inner loop of \<^verbatim>\<open>copyinstr\<close>: whether it met the nul, and the bytes it stored.\<close>

fun copyinstr_page :: "memory \<Rightarrow> u64 \<Rightarrow> nat \<Rightarrow> bool \<times> u8 list" where
  "copyinstr_page m p 0 = (False, [])"
| "copyinstr_page m p (Suc n) =
     (if m p = 0 then (True, [0])
      else let r = copyinstr_page m (p + 1) n in (fst r, m p # snd r))"

function copyinstr :: "u64 \<Rightarrow> u64 \<Rightarrow> nat \<Rightarrow> 'a kmem_st_scheme \<Rightarrow> (int \<times> u8 list, 'a kmem_st_scheme) out" where
  "copyinstr pagetable srcva maxlen s =
     (if maxlen > 0
      then let va0 = PGROUNDDOWN srcva
           in bnd (walkaddr pagetable va0 s) (\<lambda>pa0 s1.
                if pa0 = 0 then Done (-1, []) s1
                else let n = min (4096 - unat (srcva - va0)) maxlen;
                         r = copyinstr_page (mem s1) (pa0 + (srcva - va0)) n
                     in if fst r then Done (0, snd r) s1
                        else bnd (copyinstr pagetable (va0 + PGSIZE) (maxlen - n) s1) (\<lambda>q s2.
                          Done (fst q, snd r @ snd q) s2))
      else Done (-1, []) s)"
  by pat_completeness auto
termination
  by (relation "measure (\<lambda>(pt, va, n, s). n)") (auto simp: page_room)

declare copyinstr.simps [simp del]

section \<open>The kernel's page table\<close>

text \<open>
  \<open>etext\<close> and \<open>trampoline\<close> are linker symbols. \<open>proc_mapstacks\<close> is in \<^verbatim>\<open>kernel/proc.c\<close>.
\<close>

record vm_st = kmem_st +
  kernel_pagetable :: u64
  etext :: u64
  trampoline :: u64

primrec proc_mapstacks_loop :: "u64 \<Rightarrow> nat list \<Rightarrow> 'a kmem_st_scheme \<Rightarrow> (unit, 'a kmem_st_scheme) out" where
  "proc_mapstacks_loop kpgtbl [] s = Done () s"
| "proc_mapstacks_loop kpgtbl (p # ps) s =
     bnd (kalloc s) (\<lambda>pa s1.
       if pa = 0 then Panic ''kalloc''
       else bnd (kvmmap kpgtbl (KSTACK p) pa PGSIZE (PTE_R OR PTE_W) s1) (\<lambda>_ s2.
         proc_mapstacks_loop kpgtbl ps s2))"

definition proc_mapstacks :: "u64 \<Rightarrow> 'a kmem_st_scheme \<Rightarrow> (unit, 'a kmem_st_scheme) out" where
  "proc_mapstacks kpgtbl s = proc_mapstacks_loop kpgtbl [0..<NPROC] s"

definition kvmmake :: "'a vm_st_scheme \<Rightarrow> (u64, 'a vm_st_scheme) out" where
  "kvmmake s =
     bnd (kalloc s) (\<lambda>kpgtbl s0.
       if kpgtbl = 0 then Panic ''kerneltrap''
       else bnd (kvmmap kpgtbl UART0 UART0 PGSIZE (PTE_R OR PTE_W)
              (s0\<lparr>mem := memset kpgtbl 0 4096 (mem s0)\<rparr>)) (\<lambda>_ s1.
         bnd (kvmmap kpgtbl VIRTIO0 VIRTIO0 PGSIZE (PTE_R OR PTE_W) s1) (\<lambda>_ s2.
         bnd (kvmmap kpgtbl PLIC PLIC 0x400000 (PTE_R OR PTE_W) s2) (\<lambda>_ s3.
         bnd (kvmmap kpgtbl KERNBASE KERNBASE (etext s - KERNBASE) (PTE_R OR PTE_X) s3) (\<lambda>_ s4.
         bnd (kvmmap kpgtbl (etext s) (etext s) (PHYSTOP - etext s) (PTE_R OR PTE_W) s4) (\<lambda>_ s5.
         bnd (kvmmap kpgtbl TRAMPOLINE (trampoline s) PGSIZE (PTE_R OR PTE_X) s5) (\<lambda>_ s6.
         bnd (proc_mapstacks kpgtbl s6) (\<lambda>_ s7. Done kpgtbl s7))))))))"

definition kvminit :: "'a vm_st_scheme \<Rightarrow> (unit, 'a vm_st_scheme) out" where
  "kvminit s = bnd (kvmmake s) (\<lambda>pt s1. Done () (s1\<lparr>kernel_pagetable := pt\<rparr>))"

definition kvminithart :: "'a vm_st_scheme \<Rightarrow> 'a vm_st_scheme" where
  "kvminithart s =
     s\<lparr>csrs := (csrs s)(cpuid s := (csrs s (cpuid s))\<lparr>satp := MAKE_SATP (kernel_pagetable s)\<rparr>)\<rparr>"

end
