(* ===== verification/Pagetable.thy ===== *)
theory Pagetable
  imports Vm
begin

text \<open>
  What \<^verbatim>\<open>kernel/vm.c\<close> guarantees. A page table in memory is a tree of table pages
  (\<open>ptree\<close>, with its pages \<open>tables\<close>) that \<open>walk\<close> descends; its meaning is the function
  \<open>pte_of\<close> from virtual addresses to page-table entries. The lemmas say how each operation
  changes that function, the free pages and the memory.
\<close>

unbundle bit_operations_syntax

section \<open>Memory that changes only in some pages\<close>

definition page_addr :: "u64 \<Rightarrow> bool" where
  "page_addr p \<longleftrightarrow> unat p mod 4096 = 0 \<and> p \<noteq> 0 \<and> unat p + 4096 \<le> 2 ^ 64"

definition same_pages :: "u64 set \<Rightarrow> memory \<Rightarrow> memory \<Rightarrow> bool" where
  "same_pages Q m m' \<longleftrightarrow> (\<forall>a. (\<forall>p \<in> Q. \<not> page_of p a) \<longrightarrow> m' a = m a)"

lemma same_pages_refl [simp]: "same_pages Q m m"
  by (simp add: same_pages_def)

lemma same_pages_single: "same_pages {p} m m' = same_outside p m m'"
  by (simp add: same_pages_def same_outside_def)

lemma same_pages_mono: "same_pages Q m m' \<Longrightarrow> Q \<subseteq> R \<Longrightarrow> same_pages R m m'"
  by (auto simp: same_pages_def)

lemma same_pages_trans:
  "same_pages Q m m' \<Longrightarrow> same_pages R m' m'' \<Longrightarrow> same_pages (Q \<union> R) m m''"
  by (auto simp: same_pages_def)

lemma same_pages_trans_sub:
  "same_pages Q m m' \<Longrightarrow> same_pages R m' m'' \<Longrightarrow> Q \<subseteq> S \<Longrightarrow> R \<subseteq> S \<Longrightarrow> same_pages S m m''"
  unfolding same_pages_def by (metis subsetD)

lemma page_addr_ram: "ram_page e p \<Longrightarrow> page_addr p"
  by (auto simp: ram_page_def page_addr_def unat_less_iff layout)

lemma same_pages_at:
  assumes "same_pages Q m m'" "page_addr p" "p \<notin> Q" "\<forall>q \<in> Q. page_addr q" "i < 4096"
  shows "m' (p + of_nat i) = m (p + of_nat i)"
proof -
  have "\<not> page_of q (p + of_nat i)" if "q \<in> Q" for q
    using pages_apart [of q p i] assms that by (auto simp: page_addr_def)
  with assms(1) show ?thesis by (simp add: same_pages_def)
qed

lemma same_pages_read:
  assumes "same_pages Q m m'" "page_addr p" "p \<notin> Q" "\<forall>q \<in> Q. page_addr q" "i + n \<le> 4096"
  shows "read_bytes m' (p + of_nat i) n = read_bytes m (p + of_nat i) n"
  using same_pages_at [OF assms(1-4), of "i + _"] assms(5)
  by (intro nth_equalityI) (simp_all add: nth_read_bytes add.assoc)

section \<open>Page-table entries\<close>

definition ent :: "u64 \<Rightarrow> nat \<Rightarrow> u64" where
  "ent pt i = pt + of_nat (8 * i)"

abbreviation pte_valid :: "u64 \<Rightarrow> bool" where
  "pte_valid e \<equiv> e AND PTE_V \<noteq> 0"

lemma ent_PX: "pt + PX l va * 8 = ent pt (unat (PX l va))"
  by (simp add: ent_def)

lemma ent_of_nat: "pt + of_nat i * 8 = ent pt i"
  by (simp add: ent_def)

lemma load_ent_same:
  assumes "same_pages Q m m'" "page_addr p" "p \<notin> Q" "\<forall>q \<in> Q. page_addr q" "i < 512"
  shows "load64 m' (ent p i) = load64 m (ent p i)"
  using same_pages_read [OF assms(1-4), of "8 * i" 8] assms(5) by (simp add: ent_def load64_def)

lemma store_ent_pages: "i < 512 \<Longrightarrow> same_pages {p} m (store64 m (ent p i) v)"
  using same_outside_store64 [of "8 * i" p m m v]
  by (simp add: ent_def same_pages_single same_outside_def)

lemma unat_ent: "page_addr p \<Longrightarrow> i < 512 \<Longrightarrow> unat (ent p i) = unat p + 8 * i"
proof -
  assume p: "page_addr p" and i: "i < 512"
  then have "unat (of_nat (8 * i) :: u64) = 8 * i" by (intro unat_of_nat_small) simp
  with p i show ?thesis unfolding ent_def by (subst unat_add_small) (auto simp: page_addr_def)
qed

lemma ent_nonzero: "page_addr p \<Longrightarrow> i < 512 \<Longrightarrow> ent p i \<noteq> 0"
proof
  assume a: "page_addr p" "i < 512" "ent p i = 0"
  then have "unat p = 0" using unat_ent [of p i] by simp
  with a(1) show False by (simp add: page_addr_def unat_eq_0)
qed

lemma ent_inj_index: "page_addr p \<Longrightarrow> i < 512 \<Longrightarrow> j < 512 \<Longrightarrow> ent p i = ent p j \<Longrightarrow> i = j"
proof -
  assume a: "page_addr p" "i < 512" "j < 512" "ent p i = ent p j"
  have "unat p + 8 * i = unat p + 8 * j"
    unfolding unat_ent [OF a(1,2), symmetric] unat_ent [OF a(1,3), symmetric] a(4) ..
  then show ?thesis by simp
qed

lemma ent_inj_page:
  assumes "page_addr p" "page_addr q" "i < 512" "j < 512" "ent p i = ent q j"
  shows "p = q"
proof (rule ccontr)
  assume "p \<noteq> q"
  then have "unat p < unat q \<or> unat q < unat p" by (rule unat_neq_cases)
  then have "unat p + 4096 \<le> unat q \<or> unat q + 4096 \<le> unat p"
    using multiple_gap assms(1,2) by (auto simp: page_addr_def)
  moreover have "unat p + 8 * i = unat q + 8 * j" using assms unat_ent by metis
  ultimately show False using assms(3,4) by linarith
qed

lemma aligned8_ent: "page_addr p \<Longrightarrow> i < 512 \<Longrightarrow> aligned8 (ent p i)"
  by (simp add: aligned8_def unat_ent) (auto simp: page_addr_def)

lemma load_store_ent:
  assumes "page_addr p" "page_addr q" "i < 512" "j < 512"
  shows "load64 (store64 m (ent p i) v) (ent q j) = (if p = q \<and> i = j then v else load64 m (ent q j))"
proof (cases "ent p i = ent q j")
  case True
  with assms ent_inj_page [of p q i j] ent_inj_index [of p i j] show ?thesis
    by (auto simp: dword.load_store_same)
next
  case False
  with assms aligned8_ent dword.load_store_other [of "ent p i" "ent q j"] show ?thesis by auto
qed

lemma load_zero_page: "i < 512 \<Longrightarrow> load64 (memset p 0 4096 m) (ent p i) = 0"
proof -
  assume i: "i < 512"
  have "memset p 0 4096 m (ent p i + of_nat j) = 0" if j: "j < 8" for j
  proof -
    have "unat (of_nat (8 * i + j) :: u64) = 8 * i + j" using i j by (intro unat_of_nat_small) simp
    moreover have "ent p i + of_nat j - p = of_nat (8 * i + j)" by (simp add: ent_def)
    ultimately have "unat (ent p i + of_nat j - p) = 8 * i + j" by metis
    then show ?thesis using i j by (simp add: memset_eq write_bytes_def)
  qed
  then have "read_bytes (memset p 0 4096 m) (ent p i) 8 = replicate 8 0"
    by (intro nth_equalityI) (simp_all add: nth_read_bytes)
  then show ?thesis by (simp add: load64_def numeral_eq_Suc)
qed

section \<open>The tree in memory\<close>

definition child :: "memory \<Rightarrow> u64 \<Rightarrow> nat \<Rightarrow> u64 option" where
  "child m pt i =
     (let e = load64 m (ent pt i) in if pte_valid e then Some (PTE2PA e) else None)"

primrec slot :: "nat \<Rightarrow> memory \<Rightarrow> u64 \<Rightarrow> u64 \<Rightarrow> u64 option" where
  "slot 0 m pt va = Some (ent pt (unat (PX 0 va)))"
| "slot (Suc l) m pt va =
     (case child m pt (unat (PX (Suc l) va)) of None \<Rightarrow> None | Some c \<Rightarrow> slot l m c va)"

primrec tables :: "nat \<Rightarrow> memory \<Rightarrow> u64 \<Rightarrow> u64 set" where
  "tables 0 m pt = {pt}"
| "tables (Suc l) m pt = insert pt (\<Union>i \<in> {..<512}. case child m pt i of None \<Rightarrow> {} | Some c \<Rightarrow> tables l m c)"

primrec ptree :: "nat \<Rightarrow> memory \<Rightarrow> u64 \<Rightarrow> bool" where
  "ptree 0 m pt \<longleftrightarrow> page_addr pt"
| "ptree (Suc l) m pt \<longleftrightarrow> page_addr pt \<and>
     (\<forall>i c. i < 512 \<and> child m pt i = Some c \<longrightarrow> ptree l m c \<and> pt \<notin> tables l m c) \<and>
     (\<forall>i j c d. i < 512 \<and> j < 512 \<and> i \<noteq> j \<and> child m pt i = Some c \<and> child m pt j = Some d \<longrightarrow>
        tables l m c \<inter> tables l m d = {})"

definition pte_of :: "nat \<Rightarrow> memory \<Rightarrow> u64 \<Rightarrow> u64 \<Rightarrow> u64" where
  "pte_of l m pt va = (case slot l m pt va of None \<Rightarrow> 0 | Some a \<Rightarrow> load64 m a)"

definition same_slot :: "nat \<Rightarrow> u64 \<Rightarrow> u64 \<Rightarrow> bool" where
  "same_slot l va vb \<longleftrightarrow> (\<forall>k \<le> l. PX k va = PX k vb)"

lemma tables_root [simp]: "pt \<in> tables l m pt"
  by (cases l) auto

lemma tables_child: "child m pt i = Some c \<Longrightarrow> i < 512 \<Longrightarrow> tables l m c \<subseteq> tables (Suc l) m pt"
  by auto

lemma ptree_pages: "ptree l m pt \<Longrightarrow> p \<in> tables l m pt \<Longrightarrow> page_addr p"
proof (induction l arbitrary: pt)
  case (Suc l)
  show ?case
  proof (cases "p = pt")
    case False
    with Suc.prems(2) obtain i c where "i < 512" "child m pt i = Some c" "p \<in> tables l m c"
      by (auto split: option.splits)
    with Suc.prems(1) Suc.IH show ?thesis by auto
  qed (use Suc.prems in simp)
qed simp

lemma unat_PX_eq [simp]: "unat (PX k va) = unat (PX k vb) \<longleftrightarrow> PX k va = PX k vb"
  by (auto dest: word_unat_eqI)

lemma same_slot_0: "same_slot 0 va vb \<longleftrightarrow> PX 0 va = PX 0 vb"
  by (simp add: same_slot_def)

lemma same_slot_Suc: "same_slot (Suc l) va vb \<longleftrightarrow> PX (Suc l) va = PX (Suc l) vb \<and> same_slot l va vb"
  by (auto simp: same_slot_def le_Suc_eq)

lemma pte_of_0: "pte_of 0 m pt va = load64 m (ent pt (unat (PX 0 va)))"
  by (simp add: pte_of_def)

lemma pte_of_Suc:
  "pte_of (Suc l) m pt va =
     (case child m pt (unat (PX (Suc l) va)) of None \<Rightarrow> 0 | Some c \<Rightarrow> pte_of l m c va)"
  by (simp add: pte_of_def split: option.splits)

lemma slot_tables:
  "slot l m pt va = Some a \<Longrightarrow> \<exists>p \<in> tables l m pt. a = ent p (unat (PX 0 va))"
proof (induction l arbitrary: pt)
  case (Suc l)
  then obtain c where c: "child m pt (unat (PX (Suc l) va)) = Some c" "slot l m c va = Some a"
    by (auto split: option.splits)
  with Suc.IH tables_child [OF c(1) PX_bound] show ?case by blast
qed simp

text \<open>A tree none of whose pages is written is the same tree.\<close>

lemma tree_frame:
  assumes "ptree l m pt" "same_pages Q m m'" "tables l m pt \<inter> Q = {}" "\<forall>q \<in> Q. page_addr q"
  shows "ptree l m' pt" "tables l m' pt = tables l m pt" "slot l m' pt va = slot l m pt va"
    "pte_of l m' pt va = pte_of l m pt va"
proof -
  have *: "tables l m' pt = tables l m pt \<and> ptree l m' pt \<and>
      (\<forall>va. slot l m' pt va = slot l m pt va \<and> pte_of l m' pt va = pte_of l m pt va)"
    using assms(1,3)
  proof (induction l arbitrary: pt)
    case 0
    then have "page_addr pt" "pt \<notin> Q" by auto
    from load_ent_same [OF assms(2) this assms(4) PX_bound] 0 show ?case
      by (simp add: pte_of_def)
  next
    case (Suc l)
    then have "page_addr pt" "pt \<notin> Q" by auto
    then have ch: "child m' pt i = child m pt i" if "i < 512" for i
      using load_ent_same [OF assms(2) _ _ assms(4) that] by (simp add: child_def)
    have sub: "tables l m' c = tables l m c \<and> ptree l m' c \<and>
        (\<forall>va. slot l m' c va = slot l m c va \<and> pte_of l m' c va = pte_of l m c va)"
      if c: "child m pt i = Some c" "i < 512" for i c
      using Suc.prems tables_child [OF c, of l] c by (intro Suc.IH) auto
    have "tables (Suc l) m' pt = tables (Suc l) m pt"
      using ch sub by (auto split: option.splits)
    moreover have "ptree (Suc l) m' pt"
      using Suc.prems(1) ch sub by (simp cong: conj_cong) metis
    moreover have "slot (Suc l) m' pt va = slot (Suc l) m pt va \<and>
        pte_of (Suc l) m' pt va = pte_of (Suc l) m pt va" for va
      using ch [OF PX_bound] sub [OF _ PX_bound] by (auto simp: pte_of_Suc split: option.splits)
    ultimately show ?case by blast
  qed
  from * show "ptree l m' pt" "tables l m' pt = tables l m pt" "slot l m' pt va = slot l m pt va"
    "pte_of l m' pt va = pte_of l m pt va" by blast+
qed

lemma tables_split:
  "i < 512 \<Longrightarrow> child m pt i = Some c \<Longrightarrow> tables (Suc l) m pt =
     insert pt (tables l m c \<union> (\<Union>j \<in> {..<512} - {i}. case child m pt j of None \<Rightarrow> {} | Some c \<Rightarrow> tables l m c))"
  by (auto split: option.splits)

lemma ptree_sep:
  "ptree (Suc l) m pt \<Longrightarrow> i < 512 \<Longrightarrow> j < 512 \<Longrightarrow> i \<noteq> j \<Longrightarrow> child m pt i = Some c \<Longrightarrow>
   child m pt j = Some d \<Longrightarrow> tables l m c \<inter> tables l m d = {}"
  by simp

lemma ptree_child:
  "ptree (Suc l) m pt \<Longrightarrow> i < 512 \<Longrightarrow> child m pt i = Some c \<Longrightarrow> ptree l m c \<and> pt \<notin> tables l m c"
  by simp

text \<open>
  Changing one child of the root: the entries of the root other than \<open>i\<close> and the subtrees of
  the other children stay, entry \<open>i\<close> leads to the tree at \<open>c'\<close> in pages \<open>T\<close> that are its own.
\<close>

lemma tree_replace:
  assumes pt: "ptree (Suc l) m pt" and i: "i < 512"
    and sm: "same_pages Q m m'" and Q: "\<forall>q \<in> Q. page_addr q"
    and others: "\<forall>j c. j < 512 \<longrightarrow> j \<noteq> i \<longrightarrow> child m pt j = Some c \<longrightarrow> tables l m c \<inter> Q = {}"
    and root: "\<forall>j < 512. j \<noteq> i \<longrightarrow> load64 m' (ent pt j) = load64 m (ent pt j)"
    and c': "child m' pt i = Some c'" "ptree l m' c'" "tables l m' c' = T" "pt \<notin> T"
    and sep: "\<forall>j c. j < 512 \<longrightarrow> j \<noteq> i \<longrightarrow> child m pt j = Some c \<longrightarrow> tables l m c \<inter> T = {}"
  shows "ptree (Suc l) m' pt"
    and "tables (Suc l) m' pt = insert pt (T \<union> (\<Union>j \<in> {..<512} - {i}. case child m pt j of None \<Rightarrow> {} | Some c \<Rightarrow> tables l m c))"
    and "pte_of (Suc l) m' pt va =
      (if unat (PX (Suc l) va) = i then pte_of l m' c' va else pte_of (Suc l) m pt va)"
    and "unat (PX (Suc l) va) = i \<Longrightarrow> slot (Suc l) m' pt va = slot l m' c' va"
proof -
  have ch: "child m' pt j = child m pt j" if "j < 512" "j \<noteq> i" for j
    using root that by (simp add: child_def)
  have sub: "ptree l m' c" "tables l m' c = tables l m c" "pte_of l m' c v = pte_of l m c v"
    if "child m pt j = Some c" "j < 512" "j \<noteq> i" for j c v
  proof -
    have pc: "ptree l m c" using pt that by auto
    have "tables l m c \<inter> Q = {}" using others that by blast
    from tree_frame [OF pc sm this Q]
    show "ptree l m' c" "tables l m' c = tables l m c" "pte_of l m' c v = pte_of l m c v" by auto
  qed
  show "ptree (Suc l) m' pt"
  proof -
    have "ptree l m' c \<and> pt \<notin> tables l m' c" if "j < 512" "child m' pt j = Some c" for j c
      using that c' ch sub pt by (cases "j = i") auto
    moreover have "tables l m' c \<inter> tables l m' d = {}"
      if jk: "j < 512" "k < 512" "j \<noteq> k" "child m' pt j = Some c" "child m' pt k = Some d" for j k c d
    proof -
      consider "j = i" "k \<noteq> i" | "k = i" "j \<noteq> i" | "j \<noteq> i" "k \<noteq> i" using jk(3) by blast
      then show ?thesis
      proof cases
        case 1
        with jk c' ch sub sep show ?thesis by (auto simp: Int_commute)
      next
        case 2
        with jk c' ch sub sep show ?thesis by auto
      next
        case 3
        with jk ch sub(2) pt show ?thesis by auto
      qed
    qed
    moreover have "page_addr pt" using pt by simp
    ultimately show ?thesis by simp blast
  qed
  have rest: "(\<Union>j \<in> {..<512} - {i}. case child m' pt j of None \<Rightarrow> {} | Some c \<Rightarrow> tables l m' c) =
      (\<Union>j \<in> {..<512} - {i}. case child m pt j of None \<Rightarrow> {} | Some c \<Rightarrow> tables l m c)"
    using ch sub(2) by (intro SUP_cong) (auto split: option.splits)
  show "tables (Suc l) m' pt = insert pt (T \<union> (\<Union>j \<in> {..<512} - {i}. case child m pt j of None \<Rightarrow> {} | Some c \<Rightarrow> tables l m c))"
    using tables_split [OF i c'(1), of l] by (simp only: rest c'(3))
  show "pte_of (Suc l) m' pt va =
      (if unat (PX (Suc l) va) = i then pte_of l m' c' va else pte_of (Suc l) m pt va)"
    using c'(1) ch [OF PX_bound] sub(3) [OF _ PX_bound]
    by (auto simp: pte_of_Suc split: option.splits)
  show "unat (PX (Suc l) va) = i \<Longrightarrow> slot (Suc l) m' pt va = slot l m' c' va"
    using c'(1) by auto
qed

text \<open>Writing one leaf entry.\<close>

lemma set_leaf:
  assumes "ptree l m pt" "slot l m pt va = Some a"
  shows "ptree l (store64 m a v) pt \<and> tables l (store64 m a v) pt = tables l m pt \<and>
    (\<forall>vb. pte_of l (store64 m a v) pt vb = (if same_slot l va vb then v else pte_of l m pt vb)) \<and>
    slot l (store64 m a v) pt va = Some a \<and> same_pages (tables l m pt) m (store64 m a v)"
  using assms
proof (induction l arbitrary: pt)
  case 0
  then have a: "a = ent pt (unat (PX 0 va))" and p: "page_addr pt" by auto
  have "pte_of 0 (store64 m a v) pt vb = (if same_slot 0 va vb then v else pte_of 0 m pt vb)" for vb
    using load_store_ent [OF p p PX_bound PX_bound, of m 0 va v 0 vb]
    by (auto simp: pte_of_0 a same_slot_0)
  with 0 p store_ent_pages [OF PX_bound] show ?case by (simp add: a)
next
  case (Suc l)
  let ?i = "unat (PX (Suc l) va)" and ?m = "store64 m a v"
  from Suc.prems(2) obtain c where c: "child m pt ?i = Some c" "slot l m c va = Some a"
    by (auto split: option.splits)
  have pc: "ptree l m c" "pt \<notin> tables l m c" "page_addr pt"
    using Suc.prems(1) c(1) PX_bound by auto
  note IH = Suc.IH [OF pc(1) c(2)]
  have Q: "\<forall>q \<in> tables l m c. page_addr q" using ptree_pages [OF pc(1)] by blast
  have root: "load64 ?m (ent pt j) = load64 m (ent pt j)" if "j < 512" for j
    using load_ent_same [OF _ pc(3,2) Q that] IH by blast
  then have root': "\<forall>j < 512. j \<noteq> ?i \<longrightarrow> load64 ?m (ent pt j) = load64 m (ent pt j)" by blast
  have others: "\<forall>j d. j < 512 \<longrightarrow> j \<noteq> ?i \<longrightarrow> child m pt j = Some d \<longrightarrow> tables l m d \<inter> tables l m c = {}"
    using ptree_sep [OF Suc.prems(1) _ PX_bound _ _ c(1)] by blast
  have c': "child ?m pt ?i = Some c" using c(1) root [OF PX_bound] by (simp add: child_def)
  have sm: "same_pages (tables l m c) m ?m" and IH': "ptree l ?m c" "tables l ?m c = tables l m c"
    using IH by blast+
  note R = tree_replace [OF Suc.prems(1) PX_bound sm Q others root' c' IH' pc(2) others]
  have "tables (Suc l) ?m pt = tables (Suc l) m pt"
    using R(2) tables_split [OF PX_bound c(1)] by simp
  moreover have "pte_of (Suc l) ?m pt vb = (if same_slot (Suc l) va vb then v else pte_of (Suc l) m pt vb)" for vb
  proof (cases "unat (PX (Suc l) vb) = ?i")
    case True
    with R(3) [where va = vb] IH c(1) show ?thesis
      by (auto simp: same_slot_Suc pte_of_Suc)
  next
    case False
    with R(3) [where va = vb] show ?thesis by (auto simp: same_slot_Suc)
  qed
  moreover have "slot (Suc l) ?m pt va = Some a" using R(4) IH by simp
  moreover have "same_pages (tables (Suc l) m pt) m ?m"
    using same_pages_mono [OF sm tables_child [OF c(1) PX_bound]] .
  ultimately show ?case using R(1) by blast
qed

section \<open>The allocator over sets of pages\<close>

text \<open>What the operations of this file change of the state besides memory and the free list: nothing.\<close>

definition kframe :: "'a kmem_st_scheme \<Rightarrow> 'a kmem_st_scheme \<Rightarrow> bool" where
  "kframe s t \<longleftrightarrow> (\<exists>b m f. t = (if b then settle s else s)\<lparr>mem := m, freelist := f\<rparr>)"

lemma kframe_mem: "kframe s (s\<lparr>mem := m\<rparr>)"
proof -
  have "s\<lparr>mem := m\<rparr> = (if False then settle s else s)\<lparr>mem := m, freelist := freelist s\<rparr>" by simp
  then show ?thesis unfolding kframe_def by blast
qed

lemma kframe_refl [simp]: "kframe s s"
  using kframe_mem [of s "mem s"] by simp

lemma kframe_settle: "t = (settle s)\<lparr>mem := m, freelist := f\<rparr> \<Longrightarrow> kframe s t"
  unfolding kframe_def by (metis (full_types))

lemma kframe_trans: "kframe s t \<Longrightarrow> kframe t u \<Longrightarrow> kframe s u"
proof -
  assume "kframe s t" "kframe t u"
  then obtain b m f b' m' f' where t: "t = (if b then settle s else s)\<lparr>mem := m, freelist := f\<rparr>"
    and u: "u = (if b' then settle t else t)\<lparr>mem := m', freelist := f'\<rparr>"
    unfolding kframe_def by blast
  have "u = (if b \<or> b' then settle s else s)\<lparr>mem := m', freelist := f'\<rparr>"
    by (cases b; cases b') (simp_all add: t u)
  then show ?thesis unfolding kframe_def by blast
qed

lemma kalloc_pages:
  assumes "kmem_abs e P s"
  obtains p t where "kalloc s = Done p t" "p \<in> P" "p \<noteq> 0" "kmem_abs e (P - {p}) t"
      "same_pages {p} (mem s) (mem t)" "kframe s t"
  | t where "P = {}" "kalloc s = Done 0 t" "kmem_abs e {} t" "mem t = mem s" "kframe s t"
proof -
  from assms obtain xs where xs: "kmem_ok xs s" "set xs = P" and s: "kend s = e" "cpu_ok s" "free_lock s KmemLock"
    by (auto simp: kmem_abs_def)
  show thesis
  proof (cases xs)
    case Nil
    have fr: "kframe s (settle s)"
      by (rule kframe_settle [where m = "mem s" and f = "freelist s"]) simp
    from Nil xs have "kmem_abs e {} (settle s)" using s by (simp add: kmem_abs_def kmem_ok_def)
    with that(2) [of "settle s"] Nil xs kalloc_empty [of s] s fr show ?thesis by simp
  next
    case (Cons y ys)
    obtain t where t: "kalloc s = Done y t" "kmem_ok ys t" "same_outside y (mem s) (mem t)"
      "t = (settle s)\<lparr>mem := mem t, freelist := freelist t\<rparr>"
      using kalloc_spec [of y ys s] xs s Cons by metis
    have "set ys = P - {y}" using xs Cons by (auto simp: kmem_ok_def)
    then have "kmem_abs e (P - {y}) t"
      using t(2) s kmem_abs_frame [OF t(4)] unfolding kmem_abs_def by blast
    moreover have "y \<in> P" "y \<noteq> 0" using xs(2) Cons kmem_ok_nonzero [OF xs(1), of y] by auto
    ultimately show ?thesis
      using that(1) t(1,3) kframe_settle [OF t(4)] by (simp add: same_pages_single)
  qed
qed

lemma kfree_pages:
  assumes "kmem_abs e P s" "ram_page e p" "p \<notin> P"
  obtains t where "kfree p s = Done () t" "kmem_abs e (insert p P) t"
    "same_pages {p} (mem s) (mem t)" "kframe s t"
proof -
  from assms(1) obtain xs where xs: "kmem_ok xs s" "set xs = P" and s: "kend s = e" "cpu_ok s" "free_lock s KmemLock"
    by (auto simp: kmem_abs_def)
  have "page_ok s p" "p \<noteq> 0" using assms(2) s(1) by (auto simp: ram_page_def page_ok_def)
  then obtain t where t: "kfree p s = Done () t" "kmem_ok (p # xs) t" "same_outside p (mem s) (mem t)"
      "t = (settle s)\<lparr>mem := mem t, freelist := p\<rparr>"
    using kfree_spec [of xs s p] xs s assms(3) by metis
  have "set (p # xs) = insert p P" using xs(2) by simp
  then have "kmem_abs e (insert p P) t"
    using t(2) s kmem_abs_frame [OF t(4)] unfolding kmem_abs_def by blast
  with that t(1,3) kframe_settle [OF t(4)] show ?thesis by (simp add: same_pages_single)
qed

text \<open>Writing pages that are not free leaves the free list alone.\<close>

lemma chain_same_pages:
  assumes "same_pages Q m m'" "\<forall>q \<in> Q. page_addr q" "\<forall>x \<in> set xs. page_addr x \<and> x \<notin> Q"
  shows "chain m' p xs = chain m p xs"
  using assms(3)
proof (induction xs arbitrary: p)
  case (Cons x xs)
  then have "load64 m' x = load64 m x"
    using load_ent_same [OF assms(1) _ _ assms(2), of x 0] by (simp add: ent_def)
  with Cons show ?case by auto
qed simp

lemma kmem_abs_ram: "kmem_abs e P s \<Longrightarrow> p \<in> P \<Longrightarrow> ram_page e p"
  using kmem.abs_managed by blast

lemma kmem_abs_write:
  assumes "kmem_abs e P s" "same_pages Q (mem s) m'" "Q \<inter> P = {}" "\<forall>q \<in> Q. page_addr q"
  shows "kmem_abs e P (s\<lparr>mem := m'\<rparr>)"
proof -
  from assms(1) obtain xs where xs: "kmem_ok xs s" "set xs = P" by (auto simp: kmem_abs_def)
  have "\<forall>x \<in> set xs. page_addr x \<and> x \<notin> Q"
    using xs(2) assms(3) kmem_abs_ram [OF assms(1)] page_addr_ram by blast
  from chain_same_pages [OF assms(2,4) this] have "kmem_ok xs (s\<lparr>mem := m'\<rparr>)"
    using xs(1) by (simp add: kmem_ok_def page_ok_def)
  with assms(1) xs(2) show ?thesis by (auto simp: kmem_abs_def)
qed

section \<open>walk\<close>

lemma walk_level_lookup:
  "walk_level l pt va False s = Done (case slot l (mem s) pt va of None \<Rightarrow> 0 | Some a \<Rightarrow> a) s"
  by (induction l arbitrary: pt) (simp_all add: ent_PX child_def Let_def)

text \<open>
  The page table at \<open>pt\<close> is a tree of RAM pages apart from the free pages \<open>P\<close>.
\<close>

definition vm_ok :: "u64 \<Rightarrow> u64 set \<Rightarrow> nat \<Rightarrow> u64 \<Rightarrow> 'a kmem_st_scheme \<Rightarrow> bool" where
  "vm_ok e P l pt s \<longleftrightarrow> kmem_abs e P s \<and> ptree l (mem s) pt \<and>
     (\<forall>p \<in> tables l (mem s) pt. ram_page e p) \<and> tables l (mem s) pt \<inter> P = {}"

text \<open>
  What growing a tree may do: take pages from the free list for new, empty tables. No entry
  that \<open>pte_of\<close> sees changes, and no memory besides the tables.
\<close>

definition grown :: "u64 \<Rightarrow> u64 set \<Rightarrow> u64 set \<Rightarrow> nat \<Rightarrow> u64 \<Rightarrow> 'a kmem_st_scheme \<Rightarrow> 'a kmem_st_scheme \<Rightarrow> bool" where
  "grown e P P' l pt s t \<longleftrightarrow> vm_ok e P' l pt t \<and> P' \<subseteq> P \<and> kframe s t \<and>
     tables l (mem t) pt = tables l (mem s) pt \<union> (P - P') \<and>
     same_pages (tables l (mem s) pt \<union> (P - P')) (mem s) (mem t) \<and>
     (\<forall>vb. pte_of l (mem t) pt vb = pte_of l (mem s) pt vb)"

lemma grown_refl: "vm_ok e P l pt s \<Longrightarrow> grown e P P l pt s s"
  by (simp add: grown_def)

lemma PTE_V_small: "unat PTE_V < 1024"
  by (simp add: layout)

lemma table_pte: "pte_valid (PA2PTE p OR PTE_V)" "unat p mod 4096 = 0 \<Longrightarrow> PTE2PA (PA2PTE p OR PTE_V) = p"
  by (simp_all add: PA2PTE_and_flag [OF PTE_V_small] PTE2PA_PA2PTE PTE_V_small) (simp add: layout)

text \<open>A page of zeros is an empty table of every level.\<close>

lemma zero_table:
  assumes "\<forall>i < 512. load64 m (ent p i) = 0" "page_addr p"
  shows "ptree l m p" "tables l m p = {p}" "pte_of l m p va = 0"
proof -
  have ch: "child m p i = None" if "i < 512" for i using assms(1) that by (simp add: child_def)
  show "ptree l m p" using ch assms(2) by (cases l) auto
  show "tables l m p = {p}" using ch by (cases l) auto
  show "pte_of l m p va = 0"
    using ch [OF PX_bound] assms(1) PX_bound by (cases l) (simp_all add: pte_of_0 pte_of_Suc)
qed

text \<open>The step of \<open>walk\<close> that adds a table at entry \<open>i\<close>.\<close>

lemma vm_ok_child:
  assumes "vm_ok e P (Suc l) pt s" "child (mem s) pt i = Some c" "i < 512"
  shows "vm_ok e P l c s"
  using assms(1) tables_child [OF assms(2,3), of l] ptree_child [OF _ assms(3,2), of l]
  unfolding vm_ok_def by blast

lemma tables_split_None:
  "i < 512 \<Longrightarrow> child m pt i = None \<Longrightarrow> tables (Suc l) m pt =
     insert pt (\<Union>j \<in> {..<512} - {i}. case child m pt j of None \<Rightarrow> {} | Some c \<Rightarrow> tables l m c)"
  by (auto split: option.splits)

lemma grow_child:
  assumes ok: "vm_ok e P (Suc l) pt s" and i: "i < 512" and P: "P' \<subseteq> P"
    and t: "kmem_abs e P' t" "kframe s t"
    and c: "child (mem t) pt i = Some c" "ptree l (mem t) c" "tables l (mem t) c = T \<union> (P - P')"
    and T: "T = (case child (mem s) pt i of None \<Rightarrow> {} | Some d \<Rightarrow> tables l (mem s) d)"
    and root: "\<forall>j < 512. j \<noteq> i \<longrightarrow> load64 (mem t) (ent pt j) = load64 (mem s) (ent pt j)"
    and sm: "same_pages (insert pt (T \<union> (P - P'))) (mem s) (mem t)"
    and pte: "\<forall>vb. pte_of l (mem t) c vb = (case child (mem s) pt i of None \<Rightarrow> 0 | Some d \<Rightarrow> pte_of l (mem s) d vb)"
  shows "grown e P P' (Suc l) pt s t"
proof -
  let ?rest = "\<Union>j \<in> {..<512} - {i}. case child (mem s) pt j of None \<Rightarrow> {} | Some c \<Rightarrow> tables l (mem s) c"
  have pt: "ptree (Suc l) (mem s) pt" and ram: "\<forall>p \<in> tables (Suc l) (mem s) pt. ram_page e p"
    and disj: "tables (Suc l) (mem s) pt \<inter> P = {}" and abs: "kmem_abs e P s"
    using ok by (auto simp: vm_ok_def)
  have tabs: "tables (Suc l) (mem s) pt = insert pt (T \<union> ?rest)"
    using tables_split [OF i, of "mem s" pt _ l] tables_split_None [OF i, of "mem s" pt l] T
    by (cases "child (mem s) pt i") simp_all
  have Q: "\<forall>q \<in> insert pt (T \<union> (P - P')). page_addr q"
    using ram kmem_abs_ram [OF abs] tabs page_addr_ram by blast
  have notT: "pt \<notin> T \<union> (P - P')"
    using disj ptree_child [OF pt i] T by (auto split: option.splits)
  have sep: "tables l (mem s) d \<inter> insert pt (T \<union> (P - P')) = {}"
    if d: "j < 512" "j \<noteq> i" "child (mem s) pt j = Some d" for j d
  proof -
    have "pt \<notin> tables l (mem s) d" using ptree_child [OF pt d(1,3)] by blast
    moreover have "tables l (mem s) d \<inter> T = {}"
      using ptree_sep [OF pt d(1) i d(2,3)] T by (auto split: option.splits)
    moreover have "tables l (mem s) d \<inter> P = {}" using tables_child [OF d(3,1), of l] disj by blast
    ultimately show ?thesis by blast
  qed
  then have sep1: "\<forall>j d. j < 512 \<longrightarrow> j \<noteq> i \<longrightarrow> child (mem s) pt j = Some d \<longrightarrow>
      tables l (mem s) d \<inter> insert pt (T \<union> (P - P')) = {}"
    and sep2: "\<forall>j d. j < 512 \<longrightarrow> j \<noteq> i \<longrightarrow> child (mem s) pt j = Some d \<longrightarrow>
      tables l (mem s) d \<inter> (T \<union> (P - P')) = {}" by blast+
  note R = tree_replace [OF pt i sm Q sep1 root c notT sep2]
  have tabt: "tables (Suc l) (mem t) pt = tables (Suc l) (mem s) pt \<union> (P - P')"
    using R(2) tabs by auto
  have "pte_of (Suc l) (mem t) pt vb = pte_of (Suc l) (mem s) pt vb" for vb
  proof (cases "unat (PX (Suc l) vb) = i")
    case True
    with R(3) [where va = vb] pte show ?thesis
      by (simp add: pte_of_Suc split: option.splits)
  next
    case False
    with R(3) [where va = vb] show ?thesis by simp
  qed
  moreover have "vm_ok e P' (Suc l) pt t"
    using t(1) R(1) tabt ram kmem_abs_ram [OF abs] disj P by (auto simp: vm_ok_def)
  moreover have "same_pages (tables (Suc l) (mem s) pt \<union> (P - P')) (mem s) (mem t)"
    by (rule same_pages_mono [OF sm]) (use tabs in auto)
  ultimately show ?thesis using P t(2) tabt by (simp add: grown_def)
qed

lemma grow_old_child:
  assumes ok: "vm_ok e P (Suc l) pt s" and i: "i < 512" and c: "child (mem s) pt i = Some c"
    and g: "grown e P P' l c s t"
  shows "grown e P P' (Suc l) pt s t \<and> child (mem t) pt i = Some c"
proof -
  have pt: "ptree (Suc l) (mem s) pt" and disj: "tables (Suc l) (mem s) pt \<inter> P = {}"
    and abs: "kmem_abs e P s" using ok by (auto simp: vm_ok_def)
  let ?Q = "tables l (mem s) c \<union> (P - P')"
  have sm: "same_pages ?Q (mem s) (mem t)" using g by (simp add: grown_def)
  have "page_addr pt" "pt \<notin> ?Q" using pt ptree_child [OF pt i c] disj by auto
  moreover have "\<forall>q \<in> ?Q. page_addr q"
    using vm_ok_child [OF ok c i] ptree_pages kmem_abs_ram [OF abs] page_addr_ram
    unfolding vm_ok_def by blast
  ultimately have root: "\<forall>j < 512. load64 (mem t) (ent pt j) = load64 (mem s) (ent pt j)"
    using load_ent_same [OF sm] by blast
  then have ch: "child (mem t) pt i = Some c" using i c by (simp add: child_def)
  have "same_pages (insert pt ?Q) (mem s) (mem t)" by (rule same_pages_mono [OF sm]) blast
  then have "grown e P P' (Suc l) pt s t"
    by (rule grow_child [OF ok i _ _ _ ch, rotated -2])
       (use g c root in \<open>auto simp: grown_def vm_ok_def\<close>)
  with ch show ?thesis by blast
qed

lemma grow_new_child:
  assumes ok: "vm_ok e P (Suc l) pt s" and i: "i < 512" and none: "child (mem s) pt i = None"
    and p: "p \<in> P" and s1: "kmem_abs e (P - {p}) s1" "same_pages {p} (mem s) (mem s1)" "kframe s s1"
    and s3: "s3 = s1\<lparr>mem := store64 (memset p 0 4096 (mem s1)) (ent pt i) (PA2PTE p OR PTE_V)\<rparr>"
  shows "vm_ok e (P - {p}) l p s3"
    and "grown e (P - {p}) P' l p s3 t \<Longrightarrow>
      grown e P P' (Suc l) pt s t \<and> child (mem t) pt i = Some p"
proof -
  have pt: "ptree (Suc l) (mem s) pt" and disj: "tables (Suc l) (mem s) pt \<inter> P = {}"
    and abs: "kmem_abs e P s" using ok by (auto simp: vm_ok_def)
  have ap: "page_addr pt" "page_addr p" "pt \<noteq> p" "pt \<notin> P"
    using pt p kmem_abs_ram [OF abs p] page_addr_ram disj by auto
  let ?z = "memset p 0 4096 (mem s1)"
  have z: "same_pages {p} (mem s1) ?z" by (simp add: same_pages_single same_outside_memset)
  have st: "same_pages {pt} ?z (mem s3)" using store_ent_pages [OF i] by (simp add: s3)
  have m13: "same_pages {p, pt} (mem s1) (mem s3)"
    using same_pages_trans [OF z st] by (simp add: insert_commute)
  have m3: "same_pages {p, pt} (mem s) (mem s3)"
    by (rule same_pages_trans_sub [OF s1(2) m13]) auto
  have "kmem_abs e (P - {p}) s3"
    using kmem_abs_write [OF s1(1) m13] ap by (auto simp: s3)
  moreover have zero: "\<forall>j < 512. load64 (mem s3) (ent p j) = 0"
    using load_store_ent [OF ap(1,2) i] ap(3) load_zero_page by (simp add: s3)
  ultimately show "vm_ok e (P - {p}) l p s3"
    using zero_table [OF zero ap(2)] kmem_abs_ram [OF abs p] by (simp add: vm_ok_def)
  assume g: "grown e (P - {p}) P' l p s3 t"
  have tabs: "tables l (mem s3) p = {p}" using zero_table [OF zero ap(2)] by blast
  have PP: "insert p (P - {p} - P') = P - P'" "p \<notin> P'" "P' \<subseteq> P" using g p by (auto simp: grown_def)
  have sm: "same_pages (P - P') (mem s3) (mem t)" using g PP by (simp add: grown_def tabs)
  have Q: "\<forall>q \<in> P - P'. page_addr q" using kmem_abs_ram [OF abs] page_addr_ram by blast
  have root: "load64 (mem t) (ent pt j) = load64 (mem s3) (ent pt j)" if "j < 512" for j
    using load_ent_same [OF sm ap(1) _ Q that] ap(4) by blast
  have ch: "child (mem t) pt i = Some p"
    using root [OF i] table_pte [of p] ap(2)
    by (simp add: child_def s3 load_store_ent [OF ap(1,1) i i] page_addr_def)
  have "grown e P P' (Suc l) pt s t"
  proof (rule grow_child [OF ok i PP(3) _ _ ch, where T = "{}"])
    show "\<forall>j < 512. j \<noteq> i \<longrightarrow> load64 (mem t) (ent pt j) = load64 (mem s) (ent pt j)"
    proof (intro allI impI)
      fix j assume j: "j < 512" "j \<noteq> i"
      have "load64 (mem s3) (ent pt j) = load64 ?z (ent pt j)"
        using load_store_ent [OF ap(1,1) i j(1)] j(2) by (simp add: s3)
      also have "\<dots> = load64 (mem s1) (ent pt j)" using load_ent_same [OF z ap(1)] ap j by simp
      also have "\<dots> = load64 (mem s) (ent pt j)" using load_ent_same [OF s1(2) ap(1)] ap j by simp
      finally show "load64 (mem t) (ent pt j) = load64 (mem s) (ent pt j)" using root j by simp
    qed
    show "same_pages (insert pt ({} \<union> (P - P'))) (mem s) (mem t)"
      by (rule same_pages_trans_sub [OF m3 sm]) (use p PP in auto)
    show "kframe s t"
      using g kframe_trans [OF s1(3) kframe_trans [OF kframe_mem]] by (auto simp: grown_def s3)
    show "\<forall>vb. pte_of l (mem t) p vb =
        (case child (mem s) pt i of None \<Rightarrow> 0 | Some d \<Rightarrow> pte_of l (mem s) d vb)"
      using g zero_table [OF zero ap(2)] none by (simp add: grown_def)
  qed (use g none PP in \<open>auto simp: grown_def vm_ok_def tabs\<close>)
  with ch show "grown e P P' (Suc l) pt s t \<and> child (mem t) pt i = Some p" by blast
qed

lemma walk_level_alloc:
  "vm_ok e P l pt s \<Longrightarrow> \<exists>r t P'. walk_level l pt va True s = Done r t \<and> grown e P P' l pt s t \<and>
     (if r = 0 then P' = {} else slot l (mem t) pt va = Some r)"
proof (induction l arbitrary: pt s P)
  case 0
  then have "ent pt (unat (PX 0 va)) \<noteq> 0" by (intro ent_nonzero PX_bound) (simp add: vm_ok_def)
  with grown_refl [OF 0] show ?case by (auto simp: ent_PX)
next
  case (Suc l)
  let ?i = "unat (PX (Suc l) va)"
  show ?case
  proof (cases "child (mem s) pt ?i")
    case (Some c)
    from Suc.IH [OF vm_ok_child [OF Suc.prems Some PX_bound]] obtain r t P' where
      t: "walk_level l c va True s = Done r t" "grown e P P' l c s t"
        "if r = 0 then P' = {} else slot l (mem t) c va = Some r" by blast
    with grow_old_child [OF Suc.prems PX_bound Some t(2)] Some show ?thesis
      by (intro exI [of _ r] exI [of _ t] exI [of _ P'])
         (auto simp: ent_PX child_def Let_def split: if_splits)
  next
    case None
    then have inv: "\<not> pte_valid (load64 (mem s) (ent pt ?i))" by (auto simp: child_def Let_def split: if_splits)
    have abs: "kmem_abs e P s" using Suc.prems by (simp add: vm_ok_def)
    then show ?thesis
    proof (cases rule: kalloc_pages)
      case (1 p s1)
      let ?s3 = "s1\<lparr>mem := store64 (memset p 0 4096 (mem s1)) (ent pt ?i) (PA2PTE p OR PTE_V)\<rparr>"
      note new = grow_new_child [OF Suc.prems PX_bound None 1(2,4-6) refl]
      from Suc.IH [OF new(1)] obtain r t P' where
        t: "walk_level l p va True ?s3 = Done r t" "grown e (P - {p}) P' l p ?s3 t"
          "if r = 0 then P' = {} else slot l (mem t) p va = Some r" by blast
      have "walk_level (Suc l) pt va True s = Done r t"
        using inv 1(1,3) t(1) by (simp add: ent_PX Let_def)
      with new(2) [OF t(2)] t(3) show ?thesis by (auto split: if_splits)
    next
      case (2 t)
      have "grown e P P (Suc l) pt s t"
        using 2 Suc.prems by (auto simp: grown_def vm_ok_def)
      with inv 2 show ?thesis by (auto simp: ent_PX Let_def)
    qed
  qed
qed

end
