(* ===== verification/Vmspec.thy ===== *)
theory Vmspec
  imports Pagetable
begin

text \<open>
  The mappings that \<^verbatim>\<open>mappages\<close>, \<^verbatim>\<open>uvmunmap\<close>, \<^verbatim>\<open>uvmalloc\<close> and \<^verbatim>\<open>uvmdealloc\<close> make and remove, by page
  number, and the user memory that \<^verbatim>\<open>copyout\<close>, \<^verbatim>\<open>copyin\<close> and \<^verbatim>\<open>copyinstr\<close> see through a page table.
\<close>

unbundle bit_operations_syntax

section \<open>Page numbers\<close>

definition pgno :: "u64 \<Rightarrow> nat" where
  "pgno va = unat va div 4096"

abbreviation pte :: "memory \<Rightarrow> u64 \<Rightarrow> u64 \<Rightarrow> u64" where
  "pte m pt va \<equiv> pte_of 2 m pt va"

lemma pgno_MAXVA: "va < MAXVA \<longleftrightarrow> pgno va < 2 ^ 26"
proof -
  have "va < MAXVA \<longleftrightarrow> unat va < 2 ^ 38" by (simp add: unat_less_iff layout)
  also have "\<dots> \<longleftrightarrow> pgno va < 2 ^ 26" by (auto simp: pgno_def)
  finally show ?thesis .
qed

lemma PX_pgno: "pgno va = pgno vb \<Longrightarrow> PX k va = PX k vb"
proof (rule word_unat_eqI)
  assume eq: "pgno va = pgno vb"
  have "unat v div 2 ^ (12 + 9 * k) = pgno v div 2 ^ (9 * k)" for v :: u64
    by (simp add: power_add div_mult2_eq pgno_def)
  with eq show "unat (PX k va) = unat (PX k vb)" by (simp add: unat_PX)
qed

lemma same_slot_pgno: "va < MAXVA \<Longrightarrow> vb < MAXVA \<Longrightarrow> same_slot 2 va vb \<longleftrightarrow> pgno va = pgno vb"
proof
  assume lt: "va < MAXVA" "vb < MAXVA" and "same_slot 2 va vb"
  then have "PX 0 va = PX 0 vb" "PX 1 va = PX 1 vb" "PX 2 va = PX 2 vb" by (auto simp: same_slot_def)
  from PX_inj [OF lt this] have "unat (PGROUNDDOWN va) = unat (PGROUNDDOWN vb)" by simp
  then show "pgno va = pgno vb" by (simp add: unat_PGROUNDDOWN pgno_def)
next
  assume "pgno va = pgno vb"
  from PX_pgno [OF this] show "same_slot 2 va vb" by (simp add: same_slot_def)
qed

lemma pgno_add:
  assumes "unat a mod 4096 = 0" "unat a + 4096 * n < 2 ^ 64"
  shows "pgno (a + of_nat (4096 * n)) = pgno a + n" "unat (a + of_nat (4096 * n)) mod 4096 = 0"
    "unat (a + of_nat (4096 * n)) = unat a + 4096 * n"
proof -
  have "unat (of_nat (4096 * n) :: u64) = 4096 * n" using assms(2) by (intro unat_of_nat_small) simp
  with assms(2) show u: "unat (a + of_nat (4096 * n)) = unat a + 4096 * n"
    by (subst unat_add_small) auto
  show "unat (a + of_nat (4096 * n)) mod 4096 = 0" using assms(1) unfolding u by simp
  show "pgno (a + of_nat (4096 * n)) = pgno a + n" using assms(1) unfolding pgno_def u by simp
qed

lemma pgno_PGROUNDDOWN [simp]: "pgno (PGROUNDDOWN va) = pgno va"
  by (simp add: pgno_def unat_PGROUNDDOWN)

lemma pte_pgno: "pgno va = pgno vb \<Longrightarrow> pte m pt va = pte m pt vb"
proof -
  assume eq: "pgno va = pgno vb"
  have "slot l m pt va = slot l m pt vb" for l pt
    by (induction l arbitrary: pt) (simp_all add: PX_pgno [OF eq] split: option.splits)
  then show ?thesis by (simp add: pte_of_def)
qed

section \<open>One walk\<close>

lemma walk_lookup:
  "va < MAXVA \<Longrightarrow> walk pt va False s = Done (case slot 2 (mem s) pt va of None \<Rightarrow> 0 | Some a \<Rightarrow> a) s"
  by (simp add: walk_def walk_level_lookup)

lemma slot_nonzero: "ptree l m pt \<Longrightarrow> slot l m pt va = Some a \<Longrightarrow> a \<noteq> 0"
  by (auto dest!: slot_tables ptree_pages intro!: ent_nonzero PX_bound simp: ent_nonzero PX_bound)

lemma walk_alloc:
  assumes "vm_ok e P 2 pt s" "va < MAXVA"
  obtains r t P' where "walk pt va True s = Done r t" "grown e P P' 2 pt s t"
    "r \<noteq> 0" "slot 2 (mem t) pt va = Some r"
  | t where "walk pt va True s = Done 0 t" "grown e P {} 2 pt s t"
proof -
  from walk_level_alloc [OF assms(1), of va] obtain r t P' where
    *: "walk_level 2 pt va True s = Done r t" "grown e P P' 2 pt s t"
      "if r = 0 then P' = {} else slot 2 (mem t) pt va = Some r" by blast
  have "walk pt va True s = Done r t" using *(1) assms(2) by (simp add: walk_def)
  with * that show thesis by (cases "r = 0") auto
qed

text \<open>
  \<open>vmto e Q P' pt F s t\<close>: the run from \<open>s\<close> to \<open>t\<close> leaves the page table \<open>pt\<close> well-formed with the
  free pages \<open>P'\<close> and the mappings \<open>F\<close>, and wrote only pages of \<open>Q\<close>.
\<close>

definition vmto :: "u64 \<Rightarrow> u64 set \<Rightarrow> u64 set \<Rightarrow> u64 \<Rightarrow> (u64 \<Rightarrow> u64) \<Rightarrow> 'a kmem_st_scheme \<Rightarrow> 'a kmem_st_scheme \<Rightarrow> bool" where
  "vmto e Q P' pt F s t \<longleftrightarrow> vm_ok e P' 2 pt t \<and> kframe s t \<and> same_pages Q (mem s) (mem t) \<and>
     (\<forall>va < MAXVA. pte (mem t) pt va = F va)"

lemma vmto_grown:
  "grown e P P' 2 pt s t \<Longrightarrow> vmto e (tables 2 (mem s) pt \<union> (P - P')) P' pt (pte (mem s) pt) s t"
  by (simp add: grown_def vmto_def)

lemma vmto_refl: "vm_ok e P 2 pt s \<Longrightarrow> vmto e Q P pt (pte (mem s) pt) s s"
  by (simp add: vmto_def)

lemma vmto_trans:
  assumes "vmto e Q P1 pt F s t" "vmto e R P2 pt G t u" "Q \<subseteq> S" "R \<subseteq> S" "\<forall>va < MAXVA. G va = H va"
  shows "vmto e S P2 pt H s u"
proof -
  have "kframe s u" using assms(1,2) kframe_trans by (auto simp: vmto_def)
  moreover have "same_pages S (mem s) (mem u)"
    using same_pages_trans_sub [OF _ _ assms(3,4)] assms(1,2) by (auto simp: vmto_def)
  ultimately show ?thesis using assms(2,5) by (simp add: vmto_def)
qed

text \<open>Storing at the entry of \<open>va\<close>.\<close>

lemma vmto_store:
  assumes ok: "vm_ok e P 2 pt s" and a: "slot 2 (mem s) pt va = Some a" and va: "va < MAXVA"
  shows "vmto e (tables 2 (mem s) pt) P pt (\<lambda>vb. if pgno vb = pgno va then v else pte (mem s) pt vb)
      s (s\<lparr>mem := store64 (mem s) a v\<rparr>)"
    and "tables 2 (store64 (mem s) a v) pt = tables 2 (mem s) pt"
proof -
  have pt: "ptree 2 (mem s) pt" using ok by (simp add: vm_ok_def)
  note L = set_leaf [OF pt a, of v]
  then show "tables 2 (store64 (mem s) a v) pt = tables 2 (mem s) pt" by blast
  have "same_pages (tables 2 (mem s) pt) (mem s) (store64 (mem s) a v)" using L by blast
  then have "kmem_abs e P (s\<lparr>mem := store64 (mem s) a v\<rparr>)"
    using ok ptree_pages [OF pt] by (intro kmem_abs_write) (auto simp: vm_ok_def)
  with ok L kframe_mem same_slot_pgno [OF va] show
    "vmto e (tables 2 (mem s) pt) P pt (\<lambda>vb. if pgno vb = pgno va then v else pte (mem s) pt vb)
      s (s\<lparr>mem := store64 (mem s) a v\<rparr>)"
    by (auto simp: vmto_def vm_ok_def)
qed

section \<open>mappages\<close>

definition set_page :: "u64 \<Rightarrow> u64 \<Rightarrow> (u64 \<Rightarrow> u64) \<Rightarrow> u64 \<Rightarrow> u64" where
  "set_page va v F vb = (if pgno vb = pgno va then v else F vb)"

definition set_range :: "u64 \<Rightarrow> u64 \<Rightarrow> u64 \<Rightarrow> nat \<Rightarrow> (u64 \<Rightarrow> u64) \<Rightarrow> u64 \<Rightarrow> u64" where
  "set_range va pa perm k F vb =
     (if pgno va \<le> pgno vb \<and> pgno vb < pgno va + k
      then PA2PTE (pa + of_nat (4096 * (pgno vb - pgno va))) OR perm OR PTE_V else F vb)"

lemma pte_slot: "slot 2 m pt va = Some a \<Longrightarrow> load64 m a = pte m pt va"
  by (simp add: pte_of_def)

lemma walk_store:
  assumes ok: "vm_ok e P 2 pt s" and va: "va < MAXVA"
  obtains t where "walk pt va True s = Done 0 t" "vmto e (tables 2 (mem s) pt \<union> P) {} pt (pte (mem s) pt) s t"
      "tables 2 (mem t) pt = tables 2 (mem s) pt \<union> P"
  | r t P' where "walk pt va True s = Done r t" "r \<noteq> 0" "load64 (mem t) r = pte (mem s) pt va" "P' \<subseteq> P"
      "\<And>v. vmto e (tables 2 (mem s) pt \<union> (P - P')) P' pt (set_page va v (pte (mem s) pt)) s
         (t\<lparr>mem := store64 (mem t) r v\<rparr>)"
      "\<And>v. tables 2 (store64 (mem t) r v) pt = tables 2 (mem s) pt \<union> (P - P')"
  using ok va
proof (cases rule: walk_alloc)
  case (1 r t P')
  have okt: "vm_ok e P' 2 pt t" and tab: "tables 2 (mem t) pt = tables 2 (mem s) pt \<union> (P - P')"
    and same: "\<forall>vb. pte (mem t) pt vb = pte (mem s) pt vb" and sub: "P' \<subseteq> P"
    using 1(2) by (auto simp: grown_def)
  have "vmto e (tables 2 (mem s) pt \<union> (P - P')) P' pt (set_page va v (pte (mem s) pt)) s
      (t\<lparr>mem := store64 (mem t) r v\<rparr>)" for v
    by (rule vmto_trans [OF vmto_grown [OF 1(2)] vmto_store(1) [OF okt 1(4) va, of v]])
       (use tab same in \<open>auto simp: set_page_def\<close>)
  moreover have "load64 (mem t) r = pte (mem s) pt va" using pte_slot [OF 1(4)] same by simp
  ultimately show ?thesis
    using that(2) [OF 1(1,3) _ sub] vmto_store(2) [OF okt 1(4) va] tab by blast
next
  case (2 t)
  with that(1) [OF 2(1)] vmto_grown [OF 2(2)] show ?thesis by (simp add: grown_def)
qed

lemma mappages_loop_spec:
  assumes "vm_ok e P 2 pt s" "unat a mod 4096 = 0" "pgno a + n < 2 ^ 26"
    and "lst = a + of_nat (4096 * n)"
    and "\<forall>vb < MAXVA. pgno a \<le> pgno vb \<and> pgno vb \<le> pgno a + n \<longrightarrow> \<not> pte_valid (pte (mem s) pt vb)"
  shows "\<exists>r t P' k. mappages_loop pt a lst pa perm s = Done r t \<and> P' \<subseteq> P \<and>
    tables 2 (mem t) pt = tables 2 (mem s) pt \<union> (P - P') \<and>
    vmto e (tables 2 (mem s) pt \<union> (P - P')) P' pt (set_range a pa perm k (pte (mem s) pt)) s t \<and>
    (r = 0 \<and> k = Suc n \<or> r = -1 \<and> k \<le> n \<and> P' = {})"
  using assms
proof (induction n arbitrary: a pa s P)
  case (0 a pa s P)
  have va: "a < MAXVA" using 0(3) by (simp add: pgno_MAXVA)
  have one: "set_range a pa perm (Suc 0) F = set_page a (PA2PTE pa OR perm OR PTE_V) F"
    "set_range a pa perm 0 F = F" for F
    by (auto simp: set_range_def set_page_def fun_eq_iff)
  from 0(1) va show ?case
  proof (cases rule: walk_store)
    case (1 t)
    then have "mappages_loop pt a lst pa perm s = Done (-1) t"
      by (subst mappages_loop.simps) simp
    with 1 one show ?thesis by (intro exI [of _ "-1"] exI [of _ t] exI [of _ "{}"] exI [of _ 0]) simp
  next
    case (2 r t P')
    let ?t = "t\<lparr>mem := store64 (mem t) r (PA2PTE pa OR perm OR PTE_V)\<rparr>"
    have "mappages_loop pt a lst pa perm s = Done 0 ?t"
      using 2(1-3) 0(4,5) va by (subst mappages_loop.simps) simp
    with 2 one show ?thesis by (intro exI [of _ 0] exI [of _ ?t] exI [of _ P'] exI [of _ "Suc 0"]) simp
  qed
next
  case (Suc n a pa s P)
  have va: "a < MAXVA" using Suc.prems(3) by (simp add: pgno_MAXVA)
  have big: "unat a + 4096 * Suc n < 2 ^ 64"
    using Suc.prems(2,3) by (auto simp: pgno_def)
  have a1: "pgno (a + PGSIZE) = pgno a + 1" "unat (a + PGSIZE) mod 4096 = 0"
    using pgno_add [of a 1] Suc.prems(2) big by (simp_all add: PGSIZE_def)
  have lst: "lst = a + PGSIZE + of_nat (4096 * n)" using Suc.prems(4) by (simp add: PGSIZE_def)
  have ne: "a \<noteq> lst"
  proof
    assume "a = lst"
    then have "unat a = unat a + 4096 * Suc n"
      using pgno_add(3) [OF Suc.prems(2) big] Suc.prems(4) by simp
    then show False by simp
  qed
  from Suc.prems(1) va show ?case
  proof (cases rule: walk_store)
    case (1 t)
    then have "mappages_loop pt a lst pa perm s = Done (-1) t"
      by (subst mappages_loop.simps) simp
    moreover have "set_range a pa perm 0 F = F" for F by (auto simp: set_range_def fun_eq_iff)
    ultimately show ?thesis using 1
      by (intro exI [of _ "-1"] exI [of _ t] exI [of _ "{}"] exI [of _ 0]) simp
  next
    case (2 r t P1)
    let ?v = "PA2PTE pa OR perm OR PTE_V"
    let ?t = "t\<lparr>mem := store64 (mem t) r ?v\<rparr>"
    note V = 2(5) [of ?v] and T = 2(6) [of ?v]
    have step: "mappages_loop pt a lst pa perm s = mappages_loop pt (a + PGSIZE) lst (pa + PGSIZE) perm ?t"
      using 2(1-3) Suc.prems(5) va ne by (subst mappages_loop.simps) simp
    have pte1: "\<forall>vb < MAXVA. pte (mem ?t) pt vb = set_page a ?v (pte (mem s) pt) vb"
      using V by (simp add: vmto_def)
    have "\<exists>r u P' k. mappages_loop pt (a + PGSIZE) lst (pa + PGSIZE) perm ?t = Done r u \<and> P' \<subseteq> P1 \<and>
        tables 2 (mem u) pt = tables 2 (mem ?t) pt \<union> (P1 - P') \<and>
        vmto e (tables 2 (mem ?t) pt \<union> (P1 - P')) P' pt
          (set_range (a + PGSIZE) (pa + PGSIZE) perm k (pte (mem ?t) pt)) ?t u \<and>
        (r = 0 \<and> k = Suc n \<or> r = -1 \<and> k \<le> n \<and> P' = {})"
    proof (rule Suc.IH [OF _ a1(2) _ lst])
      show "vm_ok e P1 2 pt ?t" using V by (simp add: vmto_def)
      show "pgno (a + PGSIZE) + n < 2 ^ 26" using Suc.prems(3) a1 by simp
      show "\<forall>vb < MAXVA. pgno (a + PGSIZE) \<le> pgno vb \<and> pgno vb \<le> pgno (a + PGSIZE) + n \<longrightarrow>
          \<not> pte_valid (pte (mem ?t) pt vb)"
        using Suc.prems(5) pte1 a1 by (simp add: set_page_def)
    qed
    then obtain r' u P' k where u: "mappages_loop pt (a + PGSIZE) lst (pa + PGSIZE) perm ?t = Done r' u"
      "P' \<subseteq> P1" "tables 2 (mem u) pt = tables 2 (mem ?t) pt \<union> (P1 - P')"
      "vmto e (tables 2 (mem ?t) pt \<union> (P1 - P')) P' pt
          (set_range (a + PGSIZE) (pa + PGSIZE) perm k (pte (mem ?t) pt)) ?t u"
      "r' = 0 \<and> k = Suc n \<or> r' = -1 \<and> k \<le> n \<and> P' = {}" by blast
    have T': "tables 2 (mem ?t) pt = tables 2 (mem s) pt \<union> (P - P1)" using T by simp
    have shift: "pa + PGSIZE + of_nat (4096 * (pgno vb - pgno (a + PGSIZE))) = pa + of_nat (4096 * (pgno vb - pgno a))"
      if "pgno (a + PGSIZE) \<le> pgno vb" for vb
    proof -
      have "pgno vb - pgno a = Suc (pgno vb - pgno (a + PGSIZE))" using that a1 by simp
      then show ?thesis by (simp add: PGSIZE_def)
    qed
    have eq: "set_range (a + PGSIZE) (pa + PGSIZE) perm k (pte (mem ?t) pt) vb =
        set_range a pa perm (Suc k) (pte (mem s) pt) vb" if vb: "vb < MAXVA" for vb
    proof (cases "pgno (a + PGSIZE) \<le> pgno vb")
      case True
      then have "pgno a \<le> pgno vb" "pte (mem ?t) pt vb = pte (mem s) pt vb"
        "pgno vb < pgno (a + PGSIZE) + k \<longleftrightarrow> pgno vb < pgno a + Suc k"
        using a1 pte1 vb by (auto simp: set_page_def)
      with True show ?thesis unfolding set_range_def shift [OF True] by presburger
    next
      case False
      then show ?thesis using a1 pte1 vb by (auto simp: set_range_def set_page_def)
    qed
    have "vmto e (tables 2 (mem s) pt \<union> (P - P')) P' pt (set_range a pa perm (Suc k) (pte (mem s) pt)) s u"
      by (rule vmto_trans [OF V u(4)]) (use 2(4) u(2) T' eq in auto)
    moreover have "tables 2 (mem u) pt = tables 2 (mem s) pt \<union> (P - P')"
      using u(2,3) T' 2(4) by blast
    ultimately show ?thesis using u(1,2,5) step 2(4)
      by (intro exI [of _ r'] exI [of _ u] exI [of _ P'] exI [of _ "Suc k"]) auto
  qed
qed

section \<open>uvmunmap\<close>

definition clear_range :: "u64 \<Rightarrow> nat \<Rightarrow> (u64 \<Rightarrow> u64) \<Rightarrow> u64 \<Rightarrow> u64" where
  "clear_range va n F vb = (if pgno va \<le> pgno vb \<and> pgno vb < pgno va + n then 0 else F vb)"

text \<open>The physical pages that the \<open>n\<close> pages from \<open>va\<close> on map to.\<close>

definition range_frames :: "u64 \<Rightarrow> nat \<Rightarrow> (u64 \<Rightarrow> u64) \<Rightarrow> u64 set" where
  "range_frames va n F = {PTE2PA (F vb) | vb. vb < MAXVA \<and> pgno va \<le> pgno vb \<and> pgno vb < pgno va + n}"

text \<open>
  The \<open>n\<close> pages from \<open>va\<close> on are leaves; when they are to be freed, their frames are RAM pages that
  are neither free nor tables, each mapped once.
\<close>

definition leaf_range :: "u64 \<Rightarrow> nat \<Rightarrow> (u64 \<Rightarrow> u64) \<Rightarrow> bool" where
  "leaf_range va n F \<longleftrightarrow> (\<forall>vb < MAXVA. pgno va \<le> pgno vb \<and> pgno vb < pgno va + n \<longrightarrow>
     pte_valid (F vb) \<and> PTE_FLAGS (F vb) \<noteq> PTE_V)"

definition own_frames :: "u64 \<Rightarrow> u64 set \<Rightarrow> u64 \<Rightarrow> nat \<Rightarrow> (u64 \<Rightarrow> u64) \<Rightarrow> bool" where
  "own_frames e X va n F \<longleftrightarrow> (\<forall>f \<in> range_frames va n F. ram_page e f \<and> f \<notin> X) \<and>
     (\<forall>vb < MAXVA. \<forall>vc < MAXVA. pgno va \<le> pgno vb \<and> pgno vb < pgno va + n \<and> pgno va \<le> pgno vc \<and>
        pgno vc < pgno va + n \<and> PTE2PA (F vb) = PTE2PA (F vc) \<longrightarrow> pgno vb = pgno vc)"

lemma vm_ok_frame:
  assumes ok: "vm_ok e P 2 pt s" and t: "kmem_abs e P' t" "kframe s t" "same_pages Q (mem s) (mem t)"
    and Q: "tables 2 (mem s) pt \<inter> Q = {}" "\<forall>q \<in> Q. page_addr q" and P: "tables 2 (mem s) pt \<inter> P' = {}"
  shows "vmto e Q P' pt (pte (mem s) pt) s t" "tables 2 (mem t) pt = tables 2 (mem s) pt"
    "slot 2 (mem t) pt va = slot 2 (mem s) pt va"
proof -
  have pt: "ptree 2 (mem s) pt" using ok by (simp add: vm_ok_def)
  note F = tree_frame [OF pt t(3) Q]
  show "tables 2 (mem t) pt = tables 2 (mem s) pt" "slot 2 (mem t) pt va = slot 2 (mem s) pt va"
    using F by auto
  show "vmto e Q P' pt (pte (mem s) pt) s t"
    using F t P ok by (auto simp: vmto_def vm_ok_def)
qed

lemma vm_kfree:
  assumes ok: "vm_ok e P 2 pt s" and f: "ram_page e f" "f \<notin> P \<union> tables 2 (mem s) pt"
  obtains t where "kfree f s = Done () t" "vmto e {f} (insert f P) pt (pte (mem s) pt) s t"
    "tables 2 (mem t) pt = tables 2 (mem s) pt" "\<And>va. slot 2 (mem t) pt va = slot 2 (mem s) pt va"
proof -
  have "kmem_abs e P s" using ok by (simp add: vm_ok_def)
  then obtain t where t: "kfree f s = Done () t" "kmem_abs e (insert f P) t"
    "same_pages {f} (mem s) (mem t)" "kframe s t"
    using kfree_pages f by blast
  have "tables 2 (mem s) pt \<inter> {f} = {}" "tables 2 (mem s) pt \<inter> insert f P = {}" "\<forall>q \<in> {f}. page_addr q"
    using f ok page_addr_ram by (auto simp: vm_ok_def)
  from vm_ok_frame [OF ok t(2,4,3) this(1,3,2)] that t(1) show ?thesis by blast
qed

lemma unmap_one:
  assumes ok: "vm_ok e P 2 pt s" and va: "va < MAXVA" and leaf: "pte_valid (pte (mem s) pt va)"
    and f: "do_free \<longrightarrow> ram_page e (PTE2PA (pte (mem s) pt va)) \<and>
      PTE2PA (pte (mem s) pt va) \<notin> P \<union> tables 2 (mem s) pt"
  obtains r t where "walk pt va False s = Done r s" "r \<noteq> 0" "load64 (mem s) r = pte (mem s) pt va"
    "(if do_free then kfree (PTE2PA (pte (mem s) pt va)) s else Done () s) = Done () t"
    "vmto e (tables 2 (mem s) pt \<union> (if do_free then {PTE2PA (pte (mem s) pt va)} else {}))
       (P \<union> (if do_free then {PTE2PA (pte (mem s) pt va)} else {})) pt
       (set_page va 0 (pte (mem s) pt)) s (t\<lparr>mem := store64 (mem t) r 0\<rparr>)"
    "tables 2 (store64 (mem t) r 0) pt = tables 2 (mem s) pt"
proof -
  have pt: "ptree 2 (mem s) pt" using ok by (simp add: vm_ok_def)
  have "pte (mem s) pt va \<noteq> 0" using leaf by auto
  then obtain r where r: "slot 2 (mem s) pt va = Some r" by (auto simp: pte_of_def split: option.splits)
  have w: "walk pt va False s = Done r s" "r \<noteq> 0" "load64 (mem s) r = pte (mem s) pt va"
    using slot_nonzero [OF pt r] pte_slot [OF r] by (simp_all add: walk_lookup [OF va] r)
  let ?f = "PTE2PA (pte (mem s) pt va)" and ?F = "pte (mem s) pt"
  have "\<exists>t. (if do_free then kfree ?f s else Done () s) = Done () t \<and>
      vmto e (if do_free then {?f} else {}) (P \<union> (if do_free then {?f} else {})) pt ?F s t \<and>
      tables 2 (mem t) pt = tables 2 (mem s) pt \<and> slot 2 (mem t) pt va = Some r"
  proof (cases do_free)
    case True
    then show ?thesis using vm_kfree [OF ok, of ?f] f r by simp metis
  next
    case False
    then show ?thesis using vmto_refl [OF ok] r by simp
  qed
  then obtain t where t: "(if do_free then kfree ?f s else Done () s) = Done () t"
    and V: "vmto e (if do_free then {?f} else {}) (P \<union> (if do_free then {?f} else {})) pt ?F s t"
    and tt: "tables 2 (mem t) pt = tables 2 (mem s) pt" "slot 2 (mem t) pt va = Some r" by blast
  have okt: "vm_ok e (P \<union> (if do_free then {?f} else {})) 2 pt t"
    and pt': "\<forall>vb < MAXVA. pte (mem t) pt vb = ?F vb" using V by (simp_all add: vmto_def)
  have "vmto e (tables 2 (mem s) pt \<union> (if do_free then {?f} else {}))
       (P \<union> (if do_free then {?f} else {})) pt (set_page va 0 ?F) s (t\<lparr>mem := store64 (mem t) r 0\<rparr>)"
    by (rule vmto_trans [OF V vmto_store(1) [OF okt tt(2) va]])
       (use tt pt' in \<open>auto simp: set_page_def\<close>)
  with that [OF w t] vmto_store(2) [OF okt tt(2) va] tt show ?thesis by simp
qed

lemma range_framesI:
  "vb < MAXVA \<Longrightarrow> pgno va \<le> pgno vb \<Longrightarrow> pgno vb < pgno va + n \<Longrightarrow> PTE2PA (F vb) \<in> range_frames va n F"
  unfolding range_frames_def by auto

lemma range_framesE:
  assumes "f \<in> range_frames va n F"
  obtains vb where "vb < MAXVA" "pgno va \<le> pgno vb" "pgno vb < pgno va + n" "f = PTE2PA (F vb)"
  using assms unfolding range_frames_def by auto

lemma range_frames_step:
  assumes "va < MAXVA" "pgno vn = Suc (pgno va)" and same: "\<forall>vb. pgno vb = pgno va \<longrightarrow> F vb = F va"
  shows "range_frames va (Suc n) F = insert (PTE2PA (F va)) (range_frames vn n F)"
proof (intro equalityI subsetI)
  fix f assume "f \<in> range_frames va (Suc n) F"
  then obtain vb where vb: "vb < MAXVA" "pgno va \<le> pgno vb" "pgno vb < pgno va + Suc n" "f = PTE2PA (F vb)"
    by (rule range_framesE)
  show "f \<in> insert (PTE2PA (F va)) (range_frames vn n F)"
  proof (cases "pgno vb = pgno va")
    case False
    then have "pgno vn \<le> pgno vb" "pgno vb < pgno vn + n" using vb assms(2) by auto
    with range_framesI [of vb vn n F] vb show ?thesis by simp
  qed (use same [THEN spec, of vb] vb in simp)
next
  fix f assume "f \<in> insert (PTE2PA (F va)) (range_frames vn n F)"
  then consider "f = PTE2PA (F va)" | "f \<in> range_frames vn n F" by auto
  then show "f \<in> range_frames va (Suc n) F"
  proof cases
    case 1
    with assms(1) range_framesI [of va va "Suc n" F] show ?thesis by simp
  next
    case 2
    then obtain vb where "vb < MAXVA" "pgno vn \<le> pgno vb" "pgno vb < pgno vn + n" "f = PTE2PA (F vb)"
      by (rule range_framesE)
    with assms(2) range_framesI [of vb va "Suc n" F] show ?thesis by simp
  qed
qed

lemma range_frames_cong:
  assumes "\<forall>vb < MAXVA. pgno va \<le> pgno vb \<and> pgno vb < pgno va + n \<longrightarrow> F vb = G vb"
  shows "range_frames va n F = range_frames va n G"
proof (intro equalityI subsetI)
  show "f \<in> range_frames va n G" if "f \<in> range_frames va n F" for f
  proof -
    from that obtain vb where "vb < MAXVA" "pgno va \<le> pgno vb" "pgno vb < pgno va + n" "f = PTE2PA (F vb)"
      by (rule range_framesE)
    with assms range_framesI [of vb va n G] show ?thesis by simp
  qed
  show "f \<in> range_frames va n F" if "f \<in> range_frames va n G" for f
  proof -
    from that obtain vb where "vb < MAXVA" "pgno va \<le> pgno vb" "pgno vb < pgno va + n" "f = PTE2PA (G vb)"
      by (rule range_framesE)
    with assms range_framesI [of vb va n F] show ?thesis by simp
  qed
qed

lemma own_frames_step:
  assumes own: "own_frames e (P \<union> T) va (Suc n) F" and va: "va < MAXVA" "pgno vn = Suc (pgno va)"
    and fr: "range_frames va (Suc n) F = insert (PTE2PA (F va)) (range_frames vn n F)"
    and later: "\<forall>vb < MAXVA. pgno vn \<le> pgno vb \<and> pgno vb < pgno vn + n \<longrightarrow> G vb = F vb"
  shows "own_frames e (insert (PTE2PA (F va)) P \<union> T) vn n G"
proof -
  have inj: "pgno vb = pgno vc" if "vb < MAXVA" "vc < MAXVA" "pgno va \<le> pgno vb" "pgno vb < pgno va + Suc n"
      "pgno va \<le> pgno vc" "pgno vc < pgno va + Suc n" "PTE2PA (F vb) = PTE2PA (F vc)" for vb vc
    using own that unfolding own_frames_def by blast
  have gf: "range_frames vn n G = range_frames vn n F" by (rule range_frames_cong) (use later in blast)
  have "PTE2PA (F va) \<notin> range_frames vn n F"
  proof
    assume "PTE2PA (F va) \<in> range_frames vn n F"
    then obtain vb where "vb < MAXVA" "pgno vn \<le> pgno vb" "pgno vb < pgno vn + n" "PTE2PA (F va) = PTE2PA (F vb)"
      by (rule range_framesE)
    with inj [of va vb] va show False by simp
  qed
  moreover have "\<forall>f \<in> range_frames vn n F. ram_page e f \<and> f \<notin> P \<union> T"
    using own fr unfolding own_frames_def by blast
  moreover have "pgno vb = pgno vc" if "vb < MAXVA" "vc < MAXVA" "pgno vn \<le> pgno vb" "pgno vb < pgno vn + n"
      "pgno vn \<le> pgno vc" "pgno vc < pgno vn + n" "PTE2PA (G vb) = PTE2PA (G vc)" for vb vc
    using inj [of vb vc] that later va(2) by auto
  ultimately show ?thesis unfolding own_frames_def gf by auto
qed

lemma uvmunmap_loop_spec:
  assumes "vm_ok e P 2 pt s" "unat a mod 4096 = 0" "pgno a + n \<le> 2 ^ 26" "lim = a + of_nat (4096 * n)"
    and "leaf_range a n (pte (mem s) pt)"
    and "do_free \<longrightarrow> own_frames e (P \<union> tables 2 (mem s) pt) a n (pte (mem s) pt)"
    and "F = (if do_free then range_frames a n (pte (mem s) pt) else {})"
  shows "\<exists>t. uvmunmap_loop pt a lim do_free s = Done () t \<and> tables 2 (mem t) pt = tables 2 (mem s) pt \<and>
    vmto e (tables 2 (mem s) pt \<union> F) (P \<union> F) pt (clear_range a n (pte (mem s) pt)) s t"
  using assms
proof (induction n arbitrary: a s P F)
  case (0 a s P F)
  then have "uvmunmap_loop pt a lim do_free s = Done () s" by (subst uvmunmap_loop.simps) simp
  moreover have "clear_range a 0 G = G" for G by (rule ext) (auto simp: clear_range_def)
  moreover have "F = {}" using 0(7) by (auto simp: range_frames_def)
  ultimately show ?case using vmto_refl [OF 0(1)] by simp
next
  case (Suc n a s P F)
  let ?G = "pte (mem s) pt"
  let ?f = "PTE2PA (?G a)" and ?D = "\<lambda>X. if do_free then X else {} :: u64 set"
  have va: "a < MAXVA" using Suc.prems(3) by (simp add: pgno_MAXVA)
  have big: "unat a + 4096 * Suc n < 2 ^ 64"
    using Suc.prems(2,3) by (auto simp: pgno_def)
  have a1: "pgno (a + PGSIZE) = Suc (pgno a)" "unat (a + PGSIZE) mod 4096 = 0"
    using pgno_add [of a 1] Suc.prems(2) big by (simp_all add: PGSIZE_def)
  have lim: "lim = a + PGSIZE + of_nat (4096 * n)" using Suc.prems(4) by (simp add: PGSIZE_def)
  have lt: "a < lim"
    using pgno_add(3) [OF Suc.prems(2) big] Suc.prems(4) by (simp add: unat_less_iff)
  have leaf: "pte_valid (?G a)" "PTE_FLAGS (?G a) \<noteq> PTE_V"
    using Suc.prems(5) va by (auto simp: leaf_range_def)
  have frames: "range_frames a (Suc n) ?G = insert ?f (range_frames (a + PGSIZE) n ?G)"
    by (rule range_frames_step [OF va a1(1)]) (use pte_pgno in blast)
  have f: "do_free \<longrightarrow> ram_page e ?f \<and> ?f \<notin> P \<union> tables 2 (mem s) pt"
    using Suc.prems(6) frames by (auto simp: own_frames_def)
  from unmap_one [OF Suc.prems(1) va leaf(1) f] obtain r t where
    w: "walk pt a False s = Done r s" "r \<noteq> 0" "load64 (mem s) r = ?G a"
      "(if do_free then kfree ?f s else Done () s) = Done () t"
    and V: "vmto e (tables 2 (mem s) pt \<union> ?D {?f}) (P \<union> ?D {?f}) pt (set_page a 0 ?G) s
      (t\<lparr>mem := store64 (mem t) r 0\<rparr>)"
    and T: "tables 2 (store64 (mem t) r 0) pt = tables 2 (mem s) pt" .
  let ?t = "t\<lparr>mem := store64 (mem t) r 0\<rparr>" and ?Q = "?D (range_frames (a + PGSIZE) n ?G)"
  have step: "uvmunmap_loop pt a lim do_free s = uvmunmap_loop pt (a + PGSIZE) lim do_free ?t"
    using w leaf lt by (subst uvmunmap_loop.simps) simp
  have later: "\<forall>vb < MAXVA. pgno (a + PGSIZE) \<le> pgno vb \<and> pgno vb < pgno (a + PGSIZE) + n \<longrightarrow>
      pte (mem ?t) pt vb = ?G vb"
    using V a1 by (auto simp: vmto_def set_page_def)
  note fc = range_frames_cong [OF later]
  have "\<exists>u. uvmunmap_loop pt (a + PGSIZE) lim do_free ?t = Done () u \<and>
      tables 2 (mem u) pt = tables 2 (mem ?t) pt \<and>
      vmto e (tables 2 (mem ?t) pt \<union> ?Q) (P \<union> ?D {?f} \<union> ?Q) pt
        (clear_range (a + PGSIZE) n (pte (mem ?t) pt)) ?t u"
  proof (rule Suc.IH [OF _ a1(2) _ lim])
    show "vm_ok e (P \<union> ?D {?f}) 2 pt ?t" using V by (simp add: vmto_def)
    show "pgno (a + PGSIZE) + n \<le> 2 ^ 26" using Suc.prems(3) a1 by simp
    show "leaf_range (a + PGSIZE) n (pte (mem ?t) pt)"
      using Suc.prems(5) later a1 by (simp add: leaf_range_def)
    show "?Q = ?D (range_frames (a + PGSIZE) n (pte (mem ?t) pt))" using fc by simp
    show "do_free \<longrightarrow> own_frames e (P \<union> ?D {?f} \<union> tables 2 (mem ?t) pt) (a + PGSIZE) n (pte (mem ?t) pt)"
      using own_frames_step [OF _ va a1(1) frames later] Suc.prems(6) T by simp
  qed
  then obtain u where u: "uvmunmap_loop pt (a + PGSIZE) lim do_free ?t = Done () u"
    "tables 2 (mem u) pt = tables 2 (mem ?t) pt"
    "vmto e (tables 2 (mem ?t) pt \<union> ?Q) (P \<union> ?D {?f} \<union> ?Q) pt
        (clear_range (a + PGSIZE) n (pte (mem ?t) pt)) ?t u" by blast
  have F: "F = ?D {?f} \<union> ?Q" using Suc.prems(7) frames by simp
  have "vmto e (tables 2 (mem s) pt \<union> F) (P \<union> ?D {?f} \<union> ?Q) pt (clear_range a (Suc n) ?G) s u"
    by (rule vmto_trans [OF V u(3)])
       (use V T F a1 in \<open>auto simp: clear_range_def vmto_def set_page_def\<close>)
  with step u(1,2) T F show ?case by (simp add: Un_assoc)
qed

end
