(* ===== verification/Vmgrow.thy ===== *)
theory Vmgrow
  imports Vmspec
begin

text \<open>
  \<^verbatim>\<open>uvmalloc\<close> and \<^verbatim>\<open>uvmdealloc\<close>: growing a user address space is all or nothing.
\<close>

unbundle bit_operations_syntax

section \<open>Permissions\<close>

lemma small_iff: "unat x < 1024 \<longleftrightarrow> take_bit 10 x = (x :: u64)"
proof -
  have "take_bit 10 x = x \<longleftrightarrow> unat (take_bit 10 x) = unat x" by (auto dest: word_unat_eqI)
  also have "\<dots> \<longleftrightarrow> unat x < 1024"
    using mod_less_divisor [of 1024 "unat x"] by (auto simp: unat_take_bit_word simp del: mod_less_divisor)
  finally show ?thesis by simp
qed

lemma small_or: "unat (x :: u64) < 1024 \<Longrightarrow> unat y < 1024 \<Longrightarrow> unat (x OR y) < 1024"
  by (simp add: small_iff)

lemma leaf_pte:
  assumes "unat perm < 1024" "perm AND PTE_R \<noteq> 0" "unat p mod 4096 = 0"
  shows "pte_valid (PA2PTE p OR perm OR PTE_V)" "PTE2PA (PA2PTE p OR perm OR PTE_V) = p"
    "PTE_FLAGS (PA2PTE p OR perm OR PTE_V) = perm OR PTE_V"
    "PTE_FLAGS (PA2PTE p OR perm OR PTE_V) \<noteq> PTE_V"
proof -
  have small: "unat (perm OR PTE_V) < 1024" using assms(1) PTE_V_small by (rule small_or)
  show "PTE2PA (PA2PTE p OR perm OR PTE_V) = p"
    by (rule PTE2PA_PA2PTE [OF assms(3) small])
  show fl: "PTE_FLAGS (PA2PTE p OR perm OR PTE_V) = perm OR PTE_V"
    by (rule PTE_FLAGS_PA2PTE [OF small])
  show "pte_valid (PA2PTE p OR perm OR PTE_V)"
    unfolding PA2PTE_and_flag [OF PTE_V_small]
    by (simp add: bit.conj_disj_distrib2 layout)
  have "(perm OR PTE_V) AND PTE_R = perm AND PTE_R"
    by (simp add: bit.conj_disj_distrib2 layout)
  moreover have "PTE_V AND PTE_R = 0" by (simp add: layout)
  ultimately show "PTE_FLAGS (PA2PTE p OR perm OR PTE_V) \<noteq> PTE_V" using assms(2) unfolding fl by auto
qed

section \<open>One more page\<close>

lemma mappages_page:
  assumes ok: "vm_ok e P 2 pt s" and a: "unat a mod 4096 = 0" "a < MAXVA" and inv: "\<not> pte_valid (pte (mem s) pt a)"
  obtains t P' where "mappages pt a PGSIZE pa perm s = Done 0 t" "P' \<subseteq> P"
      "tables 2 (mem t) pt = tables 2 (mem s) pt \<union> (P - P')"
      "vmto e (tables 2 (mem s) pt \<union> (P - P')) P' pt (set_page a (PA2PTE pa OR perm OR PTE_V) (pte (mem s) pt)) s t"
  | t where "mappages pt a PGSIZE pa perm s = Done (-1) t"
      "tables 2 (mem t) pt = tables 2 (mem s) pt \<union> P"
      "vmto e (tables 2 (mem s) pt \<union> P) {} pt (pte (mem s) pt) s t"
proof -
  have lst: "PGROUNDDOWN (a + PGSIZE - 1) = a"
  proof (rule word_unat_eqI)
    have "unat a < 2 ^ 38" using a(2) by (simp add: unat_less_iff layout)
    then have "unat (a + 4095) = unat a + 4095" by (simp add: unat_add_small)
    moreover have eq: "a + PGSIZE - 1 = a + 4095" by (simp add: PGSIZE_def)
    ultimately show "unat (PGROUNDDOWN (a + PGSIZE - 1)) = unat a"
      unfolding eq using a(1) by (auto simp: unat_PGROUNDDOWN)
  qed
  have mp: "mappages pt a PGSIZE pa perm s = mappages_loop pt a a pa perm s"
    using lst a(1) by (simp add: mappages_def PGROUNDDOWN_aligned) (simp add: PGSIZE_def)
  have one: "set_range a pa perm (Suc 0) F = set_page a (PA2PTE pa OR perm OR PTE_V) F"
    "set_range a pa perm 0 F = F" for F
    by (auto simp: set_range_def set_page_def fun_eq_iff)
  have free: "\<forall>vb < MAXVA. pgno a \<le> pgno vb \<and> pgno vb \<le> pgno a + 0 \<longrightarrow> \<not> pte_valid (pte (mem s) pt vb)"
  proof (intro allI impI)
    fix vb assume "pgno a \<le> pgno vb \<and> pgno vb \<le> pgno a + 0"
    then have "pgno vb = pgno a" by simp
    from pte_pgno [OF this] inv show "\<not> pte_valid (pte (mem s) pt vb)" by simp
  qed
  have "pgno a + 0 < 2 ^ 26" using a(2) by (simp add: pgno_MAXVA)
  from mappages_loop_spec [OF ok a(1) this _ free, of a pa perm] obtain r t P' k where
    *: "mappages_loop pt a a pa perm s = Done r t" "P' \<subseteq> P"
      "tables 2 (mem t) pt = tables 2 (mem s) pt \<union> (P - P')"
      "vmto e (tables 2 (mem s) pt \<union> (P - P')) P' pt (set_range a pa perm k (pte (mem s) pt)) s t"
      "r = 0 \<and> k = Suc 0 \<or> r = -1 \<and> k \<le> 0 \<and> P' = {}" by auto
  from *(5) show thesis
  proof
    assume "r = 0 \<and> k = Suc 0"
    with * that(1) mp one show thesis by simp
  next
    assume "r = -1 \<and> k \<le> 0 \<and> P' = {}"
    with * that(2) mp one show thesis by simp
  qed
qed

section \<open>The state in the middle of uvmalloc\<close>

definition zero_page :: "memory \<Rightarrow> u64 \<Rightarrow> bool" where
  "zero_page m p \<longleftrightarrow> read_bytes m p 4096 = replicate 4096 0"

text \<open>
  From \<open>s0\<close> with the free pages \<open>P0\<close>, \<open>k\<close> pages from \<open>base\<close> on were mapped to zeroed pages of their
  own; tables, free pages and mapped pages are together what tables and free pages were.
\<close>

definition growth :: "u64 \<Rightarrow> u64 set \<Rightarrow> 'a kmem_st_scheme \<Rightarrow> u64 \<Rightarrow> u64 \<Rightarrow> nat \<Rightarrow> u64 \<Rightarrow> u64 set \<Rightarrow>
    'a kmem_st_scheme \<Rightarrow> bool" where
  "growth e P0 s0 pt base k perm P s \<longleftrightarrow> vm_ok e P 2 pt s \<and> kframe s0 s \<and>
     same_pages (tables 2 (mem s0) pt \<union> P0) (mem s0) (mem s) \<and>
     own_frames e (P \<union> tables 2 (mem s) pt) base k (pte (mem s) pt) \<and>
     tables 2 (mem s0) pt \<subseteq> tables 2 (mem s) pt \<and>
     tables 2 (mem s) pt \<union> P \<union> range_frames base k (pte (mem s) pt) = tables 2 (mem s0) pt \<union> P0 \<and>
     (\<forall>vb < MAXVA. if pgno base \<le> pgno vb \<and> pgno vb < pgno base + k
        then pte_valid (pte (mem s) pt vb) \<and> PTE_FLAGS (pte (mem s) pt vb) = perm OR PTE_V \<and>
          zero_page (mem s) (PTE2PA (pte (mem s) pt vb))
        else pte (mem s) pt vb = pte (mem s0) pt vb)"

lemma growth_0: "vm_ok e P 2 pt s \<Longrightarrow> growth e P s pt base 0 perm P s"
  by (auto simp: growth_def own_frames_def range_frames_def)

lemma zero_page_same:
  assumes "same_pages Q m m'" "page_addr p" "p \<notin> Q" "\<forall>q \<in> Q. page_addr q"
  shows "zero_page m' p = zero_page m p"
  using same_pages_read [OF assms, of 0 4096] by (simp add: zero_page_def)

lemma vm_ok_pages: "vm_ok e P 2 pt s \<Longrightarrow> q \<in> tables 2 (mem s) pt \<union> P \<Longrightarrow> page_addr q"
  using page_addr_ram kmem_abs_ram unfolding vm_ok_def by blast

text \<open>A run that maps nothing, uses only tables and free pages and ends with as many of them.\<close>

lemma growth_keep:
  assumes g: "growth e P0 s0 pt base k perm P s"
    and V: "vmto e Q P' pt (pte (mem s) pt) s t" and Q: "Q \<subseteq> tables 2 (mem s) pt \<union> P"
    and T: "tables 2 (mem t) pt \<union> P' = tables 2 (mem s) pt \<union> P" "tables 2 (mem s) pt \<subseteq> tables 2 (mem t) pt"
  shows "growth e P0 s0 pt base k perm P' t"
proof -
  have ok: "vm_ok e P 2 pt s" using g by (simp add: growth_def)
  have pt: "\<forall>vb < MAXVA. pte (mem t) pt vb = pte (mem s) pt vb" and sm: "same_pages Q (mem s) (mem t)"
    using V by (simp_all add: vmto_def)
  have fr: "range_frames base k (pte (mem t) pt) = range_frames base k (pte (mem s) pt)"
    by (rule range_frames_cong) (use pt in simp)
  have own: "own_frames e (P \<union> tables 2 (mem s) pt) base k (pte (mem s) pt)" using g by (simp add: growth_def)
  then have own': "own_frames e (P' \<union> tables 2 (mem t) pt) base k (pte (mem t) pt)"
    using pt T(1) unfolding own_frames_def fr by (simp add: Un_commute)
  have zero: "zero_page (mem t) (PTE2PA (pte (mem s) pt vb)) = zero_page (mem s) (PTE2PA (pte (mem s) pt vb))"
    if vb: "vb < MAXVA" "pgno base \<le> pgno vb" "pgno vb < pgno base + k" for vb
  proof (rule zero_page_same [OF sm])
    have "PTE2PA (pte (mem s) pt vb) \<in> range_frames base k (pte (mem s) pt)"
      using vb by (rule range_framesI)
    with own Q show "page_addr (PTE2PA (pte (mem s) pt vb))" "PTE2PA (pte (mem s) pt vb) \<notin> Q"
      unfolding own_frames_def using page_addr_ram by blast+
    show "\<forall>q \<in> Q. page_addr q" using Q vm_ok_pages [OF ok] by blast
  qed
  have "same_pages (tables 2 (mem s0) pt \<union> P0) (mem s0) (mem t)"
    by (rule same_pages_trans_sub [OF _ sm]) (use g Q in \<open>auto simp: growth_def\<close>)
  moreover have "kframe s0 t" using g V kframe_trans by (auto simp: growth_def vmto_def)
  moreover have "vm_ok e P' 2 pt t" using V by (simp add: vmto_def)
  ultimately show ?thesis
    using g T own' pt zero unfolding growth_def fr by auto
qed

lemma own_frames_mono:
  assumes "own_frames e X base k F" "Y \<inter> range_frames base k F = {}"
    and "\<forall>vb < MAXVA. pgno base \<le> pgno vb \<and> pgno vb < pgno base + k \<longrightarrow> G vb = F vb"
  shows "own_frames e Y base k G"
proof -
  have fr: "range_frames base k G = range_frames base k F" by (rule range_frames_cong) (use assms(3) in simp)
  show ?thesis using assms unfolding own_frames_def fr by auto
qed

lemma own_frames_Suc:
  assumes own: "own_frames e X base k F" and a: "pgno a = pgno base + k" "a < MAXVA"
    and p: "PTE2PA (F a) = p" "ram_page e p" "p \<notin> X" "p \<notin> range_frames base k F"
    and cong: "\<forall>vb. pgno vb = pgno a \<longrightarrow> F vb = F a"
  shows "own_frames e X base (Suc k) F" "range_frames base (Suc k) F = insert p (range_frames base k F)"
proof -
  have split: "pgno vb < pgno base + Suc k \<longleftrightarrow> pgno vb < pgno base + k \<or> pgno vb = pgno a" for vb
    using a(1) by auto
  have at: "PTE2PA (F vb) = p" if "pgno vb = pgno a" for vb
    using cong that p(1) by metis
  show fr: "range_frames base (Suc k) F = insert p (range_frames base k F)"
  proof (intro equalityI subsetI)
    fix f assume "f \<in> range_frames base (Suc k) F"
    then obtain vb where vb: "vb < MAXVA" "pgno base \<le> pgno vb" "pgno vb < pgno base + Suc k" "f = PTE2PA (F vb)"
      by (rule range_framesE)
    with at [of vb] range_framesI [of vb base k F] show "f \<in> insert p (range_frames base k F)"
      unfolding split by auto
  next
    fix f assume "f \<in> insert p (range_frames base k F)"
    then consider "f = p" | "f \<in> range_frames base k F" by auto
    then show "f \<in> range_frames base (Suc k) F"
    proof cases
      case 1
      with a p(1) range_framesI [of a base "Suc k" F] show ?thesis by simp
    next
      case 2
      then obtain vb where "vb < MAXVA" "pgno base \<le> pgno vb" "pgno vb < pgno base + k" "f = PTE2PA (F vb)"
        by (rule range_framesE)
      with range_framesI [of vb base "Suc k" F] show ?thesis by simp
    qed
  qed
  have inj: "pgno vb = pgno vc"
    if v: "vb < MAXVA" "vc < MAXVA" "pgno base \<le> pgno vb" "pgno vb < pgno base + Suc k"
      "pgno base \<le> pgno vc" "pgno vc < pgno base + Suc k" "PTE2PA (F vb) = PTE2PA (F vc)" for vb vc
  proof -
    have in_k: "PTE2PA (F v) \<noteq> p" if "v < MAXVA" "pgno base \<le> pgno v" "pgno v < pgno base + k" for v
      using range_framesI [OF that, of F] p(4) by auto
    consider "pgno vb = pgno a" "pgno vc = pgno a" | "pgno vb = pgno a" "pgno vc < pgno base + k"
      | "pgno vc = pgno a" "pgno vb < pgno base + k" | "pgno vb < pgno base + k" "pgno vc < pgno base + k"
      using v(4,6) unfolding split by blast
    then show ?thesis
    proof cases
      case 4
      with own v show ?thesis unfolding own_frames_def by blast
    qed (use v at in_k in auto)
  qed
  have "ram_page e f \<and> f \<notin> X" if "f \<in> range_frames base (Suc k) F" for f
    using that own p unfolding fr own_frames_def by auto
  with inj show "own_frames e X base (Suc k) F" unfolding own_frames_def by blast
qed

lemma growth_map:
  assumes g: "growth e P0 s0 pt base k perm P s" and p: "p \<in> P"
    and V2: "vmto e {p} (P - {p}) pt (pte (mem s) pt) s s2" "tables 2 (mem s2) pt = tables 2 (mem s) pt"
    and z: "zero_page (mem s2) p" and P': "P' \<subseteq> P - {p}"
    and V: "vmto e (tables 2 (mem s2) pt \<union> (P - {p} - P')) P' pt
      (set_page a (PA2PTE p OR perm OR PTE_V) (pte (mem s2) pt)) s2 t"
    and T: "tables 2 (mem t) pt = tables 2 (mem s2) pt \<union> (P - {p} - P')"
    and a: "a < MAXVA" "pgno a = pgno base + k" and perm: "unat perm < 1024" "perm AND PTE_R \<noteq> 0"
  shows "growth e P0 s0 pt base (Suc k) perm P' t"
proof -
  let ?v = "PA2PTE p OR perm OR PTE_V" and ?F = "pte (mem s) pt" and ?G = "pte (mem t) pt"
  have ok: "vm_ok e P 2 pt s" and ok2: "vm_ok e (P - {p}) 2 pt s2" using g V2 by (simp_all add: growth_def vmto_def)
  have ram: "ram_page e p" using ok p kmem_abs_ram by (auto simp: vm_ok_def)
  note L = leaf_pte [OF perm, of p]
  have al: "unat p mod 4096 = 0" using ram by (simp add: ram_page_def)
  have pG: "?G vb = (if pgno vb = pgno a then ?v else ?F vb)" if "vb < MAXVA" for vb
    using V V2(1) that by (simp add: vmto_def set_page_def)
  have sm2: "same_pages {p} (mem s) (mem s2)" and sm: "same_pages (tables 2 (mem s2) pt \<union> (P - {p} - P')) (mem s2) (mem t)"
    using V V2(1) by (simp_all add: vmto_def)
  have disj: "tables 2 (mem s) pt \<inter> P = {}" using ok by (simp add: vm_ok_def)
  have own: "own_frames e (P \<union> tables 2 (mem s) pt) base k ?F" using g by (simp add: growth_def)
  have fdisj: "(P \<union> tables 2 (mem s) pt) \<inter> range_frames base k ?F = {}"
    using own by (auto simp: own_frames_def)
  have cong: "\<forall>vb < MAXVA. pgno base \<le> pgno vb \<and> pgno vb < pgno base + k \<longrightarrow> ?G vb = ?F vb"
    using pG a(2) by auto
  have fr: "range_frames base k ?G = range_frames base k ?F" by (rule range_frames_cong [OF cong])
  have o1: "own_frames e (P' \<union> tables 2 (mem t) pt) base k ?G"
    by (rule own_frames_mono [OF own _ cong]) (use fdisj P' T V2(2) in auto)
  have o2: "PTE2PA (?G a) = p" using pG [OF a(1)] L(2) [OF al] by simp
  have o3: "p \<notin> P' \<union> tables 2 (mem t) pt" "p \<notin> range_frames base k ?G"
    using P' T V2(2) p disj fdisj fr by auto
  have o4: "\<forall>vb. pgno vb = pgno a \<longrightarrow> ?G vb = ?G a" using pte_pgno by blast
  have own': "own_frames e (P' \<union> tables 2 (mem t) pt) base (Suc k) ?G"
    and fr': "range_frames base (Suc k) ?G = insert p (range_frames base k ?F)"
    using own_frames_Suc [OF o1 a(2,1) o2 ram o3 o4] fr by simp_all
  have pages: "\<forall>q \<in> {p}. page_addr q" "\<forall>q \<in> tables 2 (mem s2) pt \<union> (P - {p} - P'). page_addr q"
    using vm_ok_pages [OF ok] vm_ok_pages [OF ok2] p by auto
  have zp: "zero_page (mem t) p"
    using zero_page_same [OF sm _ _ pages(2), of p] z page_addr_ram [OF ram] disj p V2(2) by auto
  have zold: "zero_page (mem t) (PTE2PA (?F vb))"
    if vb: "vb < MAXVA" "pgno base \<le> pgno vb" "pgno vb < pgno base + k" for vb
  proof -
    have f: "PTE2PA (?F vb) \<in> range_frames base k ?F" using vb by (rule range_framesI)
    then have pa: "page_addr (PTE2PA (?F vb))" using own page_addr_ram by (auto simp: own_frames_def)
    have "zero_page (mem s) (PTE2PA (?F vb))" using g vb by (auto simp: growth_def)
    then have "zero_page (mem s2) (PTE2PA (?F vb))"
      using zero_page_same [OF sm2 pa _ pages(1)] f fdisj p by auto
    then show ?thesis using zero_page_same [OF sm pa _ pages(2)] f fdisj V2(2) by auto
  qed
  have body: "if pgno base \<le> pgno vb \<and> pgno vb < pgno base + Suc k
      then pte_valid (?G vb) \<and> PTE_FLAGS (?G vb) = perm OR PTE_V \<and> zero_page (mem t) (PTE2PA (?G vb))
      else ?G vb = pte (mem s0) pt vb" if vb: "vb < MAXVA" for vb
  proof (cases "pgno vb = pgno a")
    case True
    with pG [OF vb] L [OF al] zp a show ?thesis by simp
  next
    case False
    moreover have "if pgno base \<le> pgno vb \<and> pgno vb < pgno base + k
      then pte_valid (?F vb) \<and> PTE_FLAGS (?F vb) = perm OR PTE_V \<and> zero_page (mem s) (PTE2PA (?F vb))
      else ?F vb = pte (mem s0) pt vb" using g vb by (simp add: growth_def)
    moreover have "pgno vb < pgno base + Suc k \<longleftrightarrow> pgno vb < pgno base + k" using False a(2) by auto
    ultimately show ?thesis using pG [OF vb] zold [OF vb] by simp
  qed
  have tot: "tables 2 (mem s) pt \<union> P \<union> range_frames base k ?F = tables 2 (mem s0) pt \<union> P0"
    using g by (simp add: growth_def)
  have "same_pages (tables 2 (mem s0) pt \<union> P0) (mem s0) (mem s2)"
    by (rule same_pages_trans_sub [OF _ sm2]) (use g p tot in \<open>auto simp: growth_def\<close>)
  then have "same_pages (tables 2 (mem s0) pt \<union> P0) (mem s0) (mem t)"
    by (rule same_pages_trans_sub [OF _ sm]) (use tot V2(2) in auto)
  moreover have "kframe s0 t"
    using g V V2(1) kframe_trans unfolding growth_def vmto_def by blast
  moreover have "tables 2 (mem t) pt \<union> P' \<union> range_frames base (Suc k) ?G = tables 2 (mem s0) pt \<union> P0"
  proof -
    have "tables 2 (mem t) pt \<union> P' \<union> insert p R = tables 2 (mem s) pt \<union> P \<union> R" for R
      unfolding T V2(2) using P' p by auto
    with tot fr' show ?thesis by simp
  qed
  moreover have "tables 2 (mem s0) pt \<subseteq> tables 2 (mem t) pt" "vm_ok e P' 2 pt t"
    using g T V2(2) V by (auto simp: growth_def vmto_def)
  ultimately show ?thesis using own' body unfolding growth_def by blast
qed

section \<open>uvmdealloc and uvmalloc\<close>

lemma PGROUNDUP_aligned: "unat a mod 4096 = 0 \<Longrightarrow> unat a \<le> 2 ^ 38 \<Longrightarrow> PGROUNDUP a = a"
  by (rule word_unat_eqI) (auto simp: unat_PGROUNDUP)

lemma int_npages: "k \<le> 2 ^ 26 \<Longrightarrow> scast (ucast (of_nat k :: u64) :: u32) = (of_nat k :: u64)"
  by (simp add: unsigned_of_nat signed_of_nat take_bit_nat_eq_self signed_take_bit_int_eq_self)

lemma pages_diff:
  assumes "unat base mod 4096 = 0" "pgno base + k \<le> 2 ^ 26"
  shows "(base + of_nat (4096 * k) - base) div PGSIZE = of_nat k"
    "of_nat k * PGSIZE = (of_nat (4096 * k) :: u64)"
proof -
  have "unat (of_nat (4096 * k) :: u64) = 4096 * k" using assms(2) by (intro unat_of_nat_small) simp
  then show "(base + of_nat (4096 * k) - base) div PGSIZE = of_nat k"
    by (intro word_unat_eqI) (use assms(2) in \<open>simp add: unat_div PGSIZE_def unat_of_nat_small\<close>)
  show "of_nat k * PGSIZE = (of_nat (4096 * k) :: u64)" by (simp add: PGSIZE_def)
qed

text \<open>What is left after the pages were given back.\<close>

definition ungrown :: "u64 \<Rightarrow> u64 set \<Rightarrow> 'a kmem_st_scheme \<Rightarrow> u64 \<Rightarrow> u64 \<Rightarrow> nat \<Rightarrow> u64 set \<Rightarrow>
    'a kmem_st_scheme \<Rightarrow> bool" where
  "ungrown e P0 s0 pt base k P s \<longleftrightarrow> vm_ok e P 2 pt s \<and> kframe s0 s \<and>
     same_pages (tables 2 (mem s0) pt \<union> P0) (mem s0) (mem s) \<and>
     tables 2 (mem s0) pt \<subseteq> tables 2 (mem s) pt \<and> tables 2 (mem s) pt \<union> P = tables 2 (mem s0) pt \<union> P0 \<and>
     (\<forall>vb < MAXVA. pte (mem s) pt vb = clear_range base k (pte (mem s0) pt) vb)"

lemma growth_undo:
  assumes g: "growth e P0 s0 pt base k perm P s" and base: "unat base mod 4096 = 0" "pgno base + k \<le> 2 ^ 26"
    and perm: "perm OR PTE_V \<noteq> PTE_V"
  shows "\<exists>r t P'. uvmdealloc pt (base + of_nat (4096 * k)) base s = Done r t \<and> ungrown e P0 s0 pt base k P' t"
proof -
  let ?a = "base + of_nat (4096 * k)" and ?F = "pte (mem s) pt"
  have u: "unat base = 4096 * pgno base" using base(1) by (auto simp: pgno_def)
  note A = pgno_add [OF base(1), of k]
  have ua: "unat ?a = unat base + 4096 * k" "unat ?a mod 4096 = 0" using A u base(2) by simp_all
  have ok: "vm_ok e P 2 pt s" using g by (simp add: growth_def)
  have leaf: "leaf_range base k ?F"
    unfolding leaf_range_def
  proof (intro allI impI)
    fix vb assume "vb < MAXVA" "pgno base \<le> pgno vb \<and> pgno vb < pgno base + k"
    then have "pte_valid (?F vb) \<and> PTE_FLAGS (?F vb) = perm OR PTE_V" using g by (auto simp: growth_def)
    with perm show "pte_valid (?F vb) \<and> PTE_FLAGS (?F vb) \<noteq> PTE_V" by simp
  qed
  have own: "True \<longrightarrow> own_frames e (P \<union> tables 2 (mem s) pt) base k ?F" using g by (simp add: growth_def)
  let ?Q = "range_frames base k ?F"
  have Q: "?Q = (if True then ?Q else {})" by simp
  from uvmunmap_loop_spec [OF ok base refl leaf own Q] obtain t where
    t: "uvmunmap_loop pt base ?a True s = Done () t" "tables 2 (mem t) pt = tables 2 (mem s) pt"
    and V: "vmto e (tables 2 (mem s) pt \<union> ?Q) (P \<union> ?Q) pt (clear_range base k ?F) s t" by blast
  have dealloc: "\<exists>r. uvmdealloc pt ?a base s = Done r t"
  proof (cases "k = 0")
    case True
    then have "t = s" using t(1) by (subst (asm) uvmunmap_loop.simps) simp
    with True show ?thesis by (simp add: uvmdealloc_def)
  next
    case False
    have "base < ?a" using False ua by (simp add: unat_less_iff)
    moreover have "PGROUNDUP ?a = ?a" "PGROUNDUP base = base"
      using ua u base by (auto intro!: PGROUNDUP_aligned)
    moreover have "uvmunmap pt base (of_nat k) True s = Done () t"
      using t(1) base by (simp add: uvmunmap_def mod_PGSIZE pages_diff [OF base])
    ultimately show ?thesis
      using base(2) by (simp only: uvmdealloc_def pages_diff [OF base] int_npages) (simp add: int_npages)
  qed
  have tot: "tables 2 (mem s) pt \<union> P \<union> ?Q = tables 2 (mem s0) pt \<union> P0" using g by (simp add: growth_def)
  have "same_pages (tables 2 (mem s0) pt \<union> P0) (mem s0) (mem t)"
    by (rule same_pages_trans_sub [where Q = "tables 2 (mem s0) pt \<union> P0" and m' = "mem s"
        and R = "tables 2 (mem s) pt \<union> ?Q"]) (use g V tot in \<open>auto simp: growth_def vmto_def\<close>)
  moreover have "kframe s0 t" using g V kframe_trans unfolding growth_def vmto_def by blast
  moreover have "\<forall>vb < MAXVA. pte (mem t) pt vb = clear_range base k (pte (mem s0) pt) vb"
  proof (intro allI impI)
    fix vb assume vb: "vb < MAXVA"
    then have "pte (mem t) pt vb = clear_range base k ?F vb" using V by (simp add: vmto_def)
    moreover have "?F vb = pte (mem s0) pt vb" if "\<not> (pgno base \<le> pgno vb \<and> pgno vb < pgno base + k)"
      using g vb that by (auto simp: growth_def)
    ultimately show "pte (mem t) pt vb = clear_range base k (pte (mem s0) pt) vb"
      by (auto simp: clear_range_def)
  qed
  moreover have "tables 2 (mem s0) pt \<subseteq> tables 2 (mem t) pt" "vm_ok e (P \<union> ?Q) 2 pt t"
    "tables 2 (mem t) pt \<union> (P \<union> ?Q) = tables 2 (mem s0) pt \<union> P0"
    using g V t(2) tot by (auto simp: growth_def vmto_def)
  ultimately have "ungrown e P0 s0 pt base k (P \<union> ?Q) t" unfolding ungrown_def by blast
  with dealloc show ?thesis by blast
qed

lemma zero_page_memset: "zero_page (memset p 0 4096 m) p"
  using read_write_same [of "replicate 4096 0" m p] by (simp add: zero_page_def memset_eq)

text \<open>The body of the loop of \<^verbatim>\<open>uvmalloc\<close> maps one page or leaves the state it started from.\<close>

lemma growth_step:
  assumes g: "growth e P0 s0 pt base k perm P s" and a: "unat a mod 4096 = 0" "a < MAXVA" "pgno a = pgno base + k"
    and free: "\<not> pte_valid (pte (mem s0) pt a)" and perm: "unat perm < 1024" "perm AND PTE_R \<noteq> 0"
  obtains t where "kalloc s = Done 0 t" "growth e P0 s0 pt base k perm {} t"
  | p s1 t P' where "kalloc s = Done p s1" "p \<noteq> 0"
      "mappages pt a PGSIZE p perm (s1\<lparr>mem := memset p 0 4096 (mem s1)\<rparr>) = Done 0 t"
      "growth e P0 s0 pt base (Suc k) perm P' t"
  | p s1 t u where "kalloc s = Done p s1" "p \<noteq> 0"
      "mappages pt a PGSIZE p perm (s1\<lparr>mem := memset p 0 4096 (mem s1)\<rparr>) = Done (-1) t"
      "kfree p t = Done () u" "growth e P0 s0 pt base k perm {p} u"
proof -
  have ok: "vm_ok e P 2 pt s" using g by (simp add: growth_def)
  then have abs: "kmem_abs e P s" and disj: "tables 2 (mem s) pt \<inter> P = {}" by (simp_all add: vm_ok_def)
  have inv: "\<not> pte_valid (pte (mem s) pt a)"
    using g free a(2,3) by (auto simp: growth_def)
  from abs show thesis
  proof (cases rule: kalloc_pages)
    case (2 t)
    have "vmto e {} {} pt (pte (mem s) pt) s t" "tables 2 (mem t) pt = tables 2 (mem s) pt"
      using vm_ok_frame [OF ok 2(3,5), of "{}"] 2(4) by simp_all
    with growth_keep [OF g] 2(1) have "growth e P0 s0 pt base k perm {} t" by auto
    with that(1) 2(2) show ?thesis by blast
  next
    case (1 p s1)
    let ?s2 = "s1\<lparr>mem := memset p 0 4096 (mem s1)\<rparr>"
    have ram: "ram_page e p" using kmem_abs_ram [OF abs 1(2)] .
    have pp: "\<forall>q \<in> {p}. page_addr q" using page_addr_ram [OF ram] by simp
    have z: "same_pages {p} (mem s1) (memset p 0 4096 (mem s1))"
      by (simp add: same_pages_single same_outside_memset)
    have sm: "same_pages {p} (mem s) (mem ?s2)"
      using same_pages_trans_sub [OF 1(5) z] by simp
    have abs2: "kmem_abs e (P - {p}) ?s2" using kmem_abs_write [OF 1(4) z _ pp] by simp
    have fr: "kframe s ?s2" using kframe_trans [OF 1(6) kframe_mem] .
    have V2: "vmto e {p} (P - {p}) pt (pte (mem s) pt) s ?s2" and T2: "tables 2 (mem ?s2) pt = tables 2 (mem s) pt"
      using vm_ok_frame [OF ok abs2 fr sm _ pp] disj 1(2) by auto
    have ok2: "vm_ok e (P - {p}) 2 pt ?s2" and inv2: "\<not> pte_valid (pte (mem ?s2) pt a)"
      using V2 inv a(2) by (simp_all add: vmto_def)
    from ok2 a(1,2) inv2 show ?thesis
    proof (cases rule: mappages_page [where pa = p and perm = perm])
      case m: (1 t P')
      have "growth e P0 s0 pt base (Suc k) perm P' t"
        by (rule growth_map [OF g 1(2) V2 T2 _ m(2,4,3) a(2,3) perm]) (simp add: zero_page_memset)
      with that(2) 1(1,3) m(1) show ?thesis by blast
    next
      case m: (2 t)
      have okt: "vm_ok e {} 2 pt t" using m(3) by (simp add: vmto_def)
      have "p \<notin> {} \<union> tables 2 (mem t) pt" using m(2) T2 disj 1(2) by auto
      from vm_kfree [OF okt ram this] obtain u where
        u: "kfree p t = Done () u" "vmto e {p} (insert p {}) pt (pte (mem t) pt) t u"
          "tables 2 (mem u) pt = tables 2 (mem t) pt" by blast
      have st: "vmto e (tables 2 (mem s) pt \<union> P) {} pt (pte (mem s) pt) s t"
        by (rule vmto_trans [OF V2 m(3)]) (use 1(2) T2 V2 in \<open>auto simp: vmto_def\<close>)
      have "vmto e (tables 2 (mem s) pt \<union> P) {p} pt (pte (mem s) pt) s u"
        by (rule vmto_trans [OF st u(2)]) (use 1(2) st in \<open>auto simp: vmto_def\<close>)
      then have "growth e P0 s0 pt base k perm {p} u"
        by (rule growth_keep [OF g]) (use u(3) m(2) T2 1(2) in auto)
      with that(3) 1(1,3) m(1) u(1) show ?thesis by blast
    qed
  qed
qed

lemma alloc_perm:
  assumes "unat xperm < 1024"
  shows "unat (PTE_R OR PTE_U OR xperm) < 1024" "(PTE_R OR PTE_U OR xperm) AND PTE_R \<noteq> 0"
    "(PTE_R OR PTE_U OR xperm) OR PTE_V \<noteq> PTE_V"
proof -
  show "unat (PTE_R OR PTE_U OR xperm) < 1024"
    by (intro small_or assms) (simp_all add: layout)
  have "bit ((PTE_R OR PTE_U OR xperm) AND PTE_R) 1" "bit ((PTE_R OR PTE_U OR xperm) OR PTE_V) 1"
    by (simp_all add: bit_simps layout)
  moreover have "\<not> bit PTE_V 1" by (simp add: layout)
  ultimately show "(PTE_R OR PTE_U OR xperm) AND PTE_R \<noteq> 0" "(PTE_R OR PTE_U OR xperm) OR PTE_V \<noteq> PTE_V"
    by auto
qed

lemma uvmalloc_loop_spec:
  assumes "growth e P0 s0 pt base k (PTE_R OR PTE_U OR xperm) P s" "k + n = N"
    and base: "unat base mod 4096 = 0" "pgno base + N \<le> 2 ^ 26"
    and lim: "\<forall>j \<le> N. base + of_nat (4096 * j) < newsz \<longleftrightarrow> j < N"
    and free: "\<forall>vb < MAXVA. pgno base \<le> pgno vb \<and> pgno vb < pgno base + N \<longrightarrow> \<not> pte_valid (pte (mem s0) pt vb)"
    and xperm: "unat xperm < 1024"
  shows "\<exists>r t P'. uvmalloc_loop pt (base + of_nat (4096 * k)) base newsz xperm s = Done r t \<and>
    (r = newsz \<and> growth e P0 s0 pt base N (PTE_R OR PTE_U OR xperm) P' t \<or>
     r = 0 \<and> (\<exists>j < N. ungrown e P0 s0 pt base j P' t))"
  using assms(1,2)
proof (induction n arbitrary: k s P)
  case 0
  then have "\<not> base + of_nat (4096 * k) < newsz" using lim by auto
  then show ?case using 0 by (subst uvmalloc_loop.simps) auto
next
  case (Suc n k s P)
  let ?perm = "PTE_R OR PTE_U OR xperm" and ?a = "base + of_nat (4096 * k)"
  have perm: "unat ?perm < 1024" "?perm AND PTE_R \<noteq> 0" "?perm OR PTE_V \<noteq> PTE_V"
    using xperm alloc_perm by auto
  have k: "k < N" using Suc.prems(2) by simp
  have u: "unat base = 4096 * pgno base" using base(1) by (auto simp: pgno_def)
  have "unat base + 4096 * k < 2 ^ 64" using u k base(2) by simp
  note A = pgno_add [OF base(1) this]
  have a: "?a < MAXVA" using A(1) k base(2) by (simp add: pgno_MAXVA)
  have lt: "?a < newsz" using lim k by auto
  have next_a: "?a + PGSIZE = base + of_nat (4096 * Suc k)" by (simp add: PGSIZE_def)
  have inv: "\<not> pte_valid (pte (mem s0) pt ?a)" using free a A(1) k by simp
  have undo: "\<exists>r t P'. uvmdealloc pt ?a base u = Done r t \<and> ungrown e P0 s0 pt base k P' t"
    if "growth e P0 s0 pt base k ?perm Q u" for Q u
    using growth_undo [OF that base(1) _ perm(3)] k base(2) by auto
  from Suc.prems(1) A(2) a A(1) inv perm(1,2) show ?case
  proof (cases rule: growth_step)
    case (1 t)
    from undo [OF 1(2)] obtain r u P' where "uvmdealloc pt ?a base t = Done r u" "ungrown e P0 s0 pt base k P' u"
      by blast
    with 1(1) lt k show ?thesis by (subst uvmalloc_loop.simps) auto
  next
    case (2 p s1 t P')
    have "uvmalloc_loop pt ?a base newsz xperm s = uvmalloc_loop pt (?a + PGSIZE) base newsz xperm t"
      using 2(1-3) lt by (subst uvmalloc_loop.simps) simp
    with Suc.IH [OF 2(4)] Suc.prems(2) show ?thesis unfolding next_a by simp
  next
    case (3 p s1 t u)
    from undo [OF 3(5)] obtain r w P' where "uvmdealloc pt ?a base u = Done r w" "ungrown e P0 s0 pt base k P' w"
      by blast
    with 3(1-4) lt k show ?thesis by (subst uvmalloc_loop.simps) auto
  qed
qed

text \<open>An empty page table and three free pages, for the witnesses.\<close>

lemma load64_zero: "load64 (\<lambda>_. 0) a = 0"
  by (simp add: load64_def read_bytes_def map_replicate_const) (simp add: numeral_eq_Suc)

lemma vm_kfree_ex:
  "vm_ok e P 2 pt s \<Longrightarrow> ram_page e f \<Longrightarrow> f \<notin> P \<union> tables 2 (mem s) pt \<Longrightarrow>
   \<exists>t. kfree f s = Done () t \<and> vmto e {f} (insert f P) pt (pte (mem s) pt) s t \<and>
     tables 2 (mem t) pt = tables 2 (mem s) pt"
  by (metis vm_kfree)

lemma demo_vm:
  obtains s :: kmem_st where "vm_ok 0x80021D00 {0x80202000, 0x80201000, 0x80200000} 2 0x80100000 s"
    "\<forall>va < MAXVA. pte (mem s) 0x80100000 va = 0"
proof -
  let ?e = "0x80021D00 :: u64" and ?pt = "0x80100000 :: u64"
  have ram: "ram_page ?e 0x80200000" "ram_page ?e 0x80201000" "ram_page ?e 0x80202000" "ram_page ?e ?pt"
    by (simp_all add: ram_page_def layout)
  have zero: "\<forall>i < 512. load64 (mem boot_kmem) (ent ?pt i) = 0"
    by (simp add: boot_kmem_def machine.defs load64_zero)
  note Z = zero_table [OF zero page_addr_ram [OF ram(4)]]
  have 0: "vm_ok ?e {} 2 ?pt boot_kmem"
    using Z ram(4) by (simp add: vm_ok_def kmem_abs_def kmem_ok_def)
  have n1: "0x80200000 \<notin> {} \<union> tables 2 (mem boot_kmem) ?pt" using Z by simp
  obtain s1 where 1: "kfree 0x80200000 boot_kmem = Done () s1"
    "vmto ?e {0x80200000} {0x80200000} ?pt (pte (mem boot_kmem) ?pt) boot_kmem s1"
    "tables 2 (mem s1) ?pt = tables 2 (mem boot_kmem) ?pt"
    using vm_kfree_ex [OF 0 ram(1) n1] by (elim exE conjE)
  then have ok1: "vm_ok ?e {0x80200000} 2 ?pt s1" by (simp add: vmto_def)
  have n2: "0x80201000 \<notin> {0x80200000} \<union> tables 2 (mem s1) ?pt" using Z 1 by simp
  obtain s2 where 2: "kfree 0x80201000 s1 = Done () s2"
    "vmto ?e {0x80201000} {0x80201000, 0x80200000} ?pt (pte (mem s1) ?pt) s1 s2"
    "tables 2 (mem s2) ?pt = tables 2 (mem s1) ?pt"
    using vm_kfree_ex [OF ok1 ram(2) n2] by (elim exE conjE)
  then have ok2: "vm_ok ?e {0x80201000, 0x80200000} 2 ?pt s2" by (simp add: vmto_def)
  have n3: "0x80202000 \<notin> {0x80201000, 0x80200000} \<union> tables 2 (mem s2) ?pt" using Z 1 2 by simp
  obtain s3 where 3: "kfree 0x80202000 s2 = Done () s3"
    "vmto ?e {0x80202000} {0x80202000, 0x80201000, 0x80200000} ?pt (pte (mem s2) ?pt) s2 s3"
    "tables 2 (mem s3) ?pt = tables 2 (mem s2) ?pt"
    using vm_kfree_ex [OF ok2 ram(3) n3] by (elim exE conjE)
  have "\<forall>va < MAXVA. pte (mem s3) ?pt va = 0"
    using 1(2) 2(2) 3(2) Z(3) by (simp add: vmto_def)
  with 3(2) that [of s3] show ?thesis by (simp add: vmto_def)
qed

lemma uvmalloc_grows:
  assumes "vm_ok e P 2 pt s" "oldsz \<le> newsz" "newsz \<le> MAXVA" "unat xperm < 1024"
    and "N = (unat newsz + 4095) div 4096 - pgno (PGROUNDUP oldsz)"
    and "\<forall>vb < MAXVA. pgno (PGROUNDUP oldsz) \<le> pgno vb \<and> pgno vb < pgno (PGROUNDUP oldsz) + N \<longrightarrow>
      \<not> pte_valid (pte (mem s) pt vb)"
  shows "\<exists>r t P'. uvmalloc pt oldsz newsz xperm s = Done r t \<and>
    (r = newsz \<and> growth e P s pt (PGROUNDUP oldsz) N (PTE_R OR PTE_U OR xperm) P' t \<or>
     r = 0 \<and> (\<exists>j < N. ungrown e P s pt (PGROUNDUP oldsz) j P' t))"
proof -
  let ?b = "PGROUNDUP oldsz"
  have small: "unat newsz \<le> 2 ^ 38" "unat oldsz \<le> unat newsz"
    using assms(2,3) by (simp_all add: unat_le_iff layout)
  then have ub: "unat ?b = (unat oldsz + 4095) div 4096 * 4096" by (simp add: unat_PGROUNDUP)
  then have b: "unat ?b mod 4096 = 0" "pgno ?b = (unat oldsz + 4095) div 4096" by (simp_all add: pgno_def)
  have ends: "pgno ?b + N = (unat newsz + 4095) div 4096"
    using small(2) by (simp add: assms(5) b(2) div_le_mono)
  then have N: "pgno ?b + N \<le> 2 ^ 26" using small(1) by (simp add: div_le_mono [of _ "2 ^ 38 + 4095" 4096, simplified])
  have lim: "\<forall>j \<le> N. ?b + of_nat (4096 * j) < newsz \<longleftrightarrow> j < N"
  proof (intro allI impI)
    fix j assume j: "j \<le> N"
    then have "unat ?b + 4096 * j < 2 ^ 64" using N ub b(2) by simp
    from pgno_add(3) [OF b(1) this] have "unat (?b + of_nat (4096 * j)) = 4096 * (pgno ?b + j)" using ub b(2) by simp
    moreover have "4096 * (pgno ?b + j) < unat newsz \<longleftrightarrow> pgno ?b + j < (unat newsz + 4095) div 4096" by auto
    ultimately show "?b + of_nat (4096 * j) < newsz \<longleftrightarrow> j < N" by (simp add: unat_less_iff flip: ends)
  qed
  from uvmalloc_loop_spec [OF growth_0 [OF assms(1)] _ b(1) N lim assms(6,4), of N]
  show ?thesis using leD [OF assms(2)] by (simp add: uvmalloc_def)
qed

text \<open>
  Property C3. Growing a process is all or nothing. When the pages from \<^verbatim>\<open>PGROUNDUP(oldsz)\<close> to
  \<^verbatim>\<open>newsz\<close> are unmapped, \<^verbatim>\<open>uvmalloc\<close> never panics and either returns \<^verbatim>\<open>newsz\<close> with every one of
  them mapped user-readable with \<^verbatim>\<open>xperm\<close> to a zeroed page that nothing else uses, or returns 0
  with all of them unmapped again and every page it took, page-table pages apart, back on the
  free list. Mappings outside the range and memory outside the tables and free pages stay.
\<close>

theorem uvmalloc_all_or_nothing:
  assumes "vm_ok e P 2 pt s" "oldsz \<le> newsz" "newsz \<le> MAXVA" "unat xperm < 1024"
    and "N = (unat newsz + 4095) div 4096 - pgno (PGROUNDUP oldsz)"
    and "\<forall>vb < MAXVA. pgno (PGROUNDUP oldsz) \<le> pgno vb \<and> pgno vb < pgno (PGROUNDUP oldsz) + N \<longrightarrow>
      \<not> pte_valid (pte (mem s) pt vb)"
  shows "\<exists>r t P'. uvmalloc pt oldsz newsz xperm s = Done r t \<and>
    (r = newsz \<and> growth e P s pt (PGROUNDUP oldsz) N (PTE_R OR PTE_U OR xperm) P' t \<or>
     r = 0 \<and> (\<exists>j < N. ungrown e P s pt (PGROUNDUP oldsz) j P' t))"
  using assms by (rule uvmalloc_grows)

theorem uvmalloc_all_or_nothing_witness:
  "\<exists>s r t P'. vm_ok 0x80021D00 {0x80202000, 0x80201000, 0x80200000} 2 0x80100000 (s :: kmem_st) \<and>
     uvmalloc 0x80100000 0 0x1000 PTE_W s = Done r t \<and>
     (r = 0x1000 \<and> growth 0x80021D00 {0x80202000, 0x80201000, 0x80200000} s 0x80100000 0 1
        (PTE_R OR PTE_U OR PTE_W) P' t \<or>
      r = 0 \<and> ungrown 0x80021D00 {0x80202000, 0x80201000, 0x80200000} s 0x80100000 0 0 P' t)"
proof -
  obtain s :: kmem_st where s: "vm_ok 0x80021D00 {0x80202000, 0x80201000, 0x80200000} 2 0x80100000 s"
    "\<forall>va < MAXVA. pte (mem s) 0x80100000 va = 0" by (rule demo_vm)
  have up: "PGROUNDUP 0 = 0" "pgno 0 = 0" by (simp_all add: PGROUNDUP_def PGSIZE_def pgno_def)
  have "\<exists>r t P'. uvmalloc 0x80100000 0 0x1000 PTE_W s = Done r t \<and>
    (r = 0x1000 \<and> growth 0x80021D00 {0x80202000, 0x80201000, 0x80200000} s 0x80100000 (PGROUNDUP 0) 1
        (PTE_R OR PTE_U OR PTE_W) P' t \<or>
     r = 0 \<and> (\<exists>j < 1. ungrown 0x80021D00 {0x80202000, 0x80201000, 0x80200000} s 0x80100000 (PGROUNDUP 0) j P' t))"
    by (rule uvmalloc_all_or_nothing [OF s(1)]) (use s(2) in \<open>simp_all add: up layout\<close>)
  with s(1) show ?thesis unfolding up by auto
qed

end
