(* ===== verification/Usermem.thy ===== *)
theory Usermem
  imports Vmspec
begin

text \<open>
  User memory as \<^verbatim>\<open>copyout\<close>, \<^verbatim>\<open>copyin\<close> and \<^verbatim>\<open>copyinstr\<close> see it: the bytes of the pages that a page table
  maps with \<^verbatim>\<open>PTE_V\<close> and \<^verbatim>\<open>PTE_U\<close>.
\<close>

unbundle bit_operations_syntax

section \<open>User addresses\<close>

text \<open>The physical page behind a user address, 0 when there is none.\<close>

definition upa :: "memory \<Rightarrow> u64 \<Rightarrow> u64 \<Rightarrow> u64" where
  "upa m pt va =
     (if va < MAXVA \<and> pte m pt va AND PTE_V \<noteq> 0 \<and> pte m pt va AND PTE_U \<noteq> 0
      then PTE2PA (pte m pt va) else 0)"

definition ubyte :: "memory \<Rightarrow> u64 \<Rightarrow> u64 \<Rightarrow> u8" where
  "ubyte m pt va = m (upa m pt va + of_nat (unat va mod 4096))"

text \<open>A user address space: its pages are apart from its page table and from each other.\<close>

definition uspace :: "memory \<Rightarrow> u64 \<Rightarrow> bool" where
  "uspace m pt \<longleftrightarrow> ptree 2 m pt \<and>
     (\<forall>va. upa m pt va \<noteq> 0 \<longrightarrow> page_addr (upa m pt va) \<and> upa m pt va \<notin> tables 2 m pt) \<and>
     (\<forall>va vb. upa m pt va \<noteq> 0 \<and> upa m pt va = upa m pt vb \<longrightarrow> pgno va = pgno vb)"

lemma walkaddr_eq:
  assumes "ptree 2 (mem s) pt"
  shows "walkaddr pt va s = Done (upa (mem s) pt va) s"
proof (cases "va < MAXVA")
  case True
  show ?thesis
  proof (cases "slot 2 (mem s) pt va")
    case None
    with True show ?thesis by (simp add: walkaddr_def walk_lookup upa_def pte_of_def)
  next
    case (Some a)
    with True slot_nonzero [OF assms Some] show ?thesis
      by (auto simp: walkaddr_def walk_lookup upa_def pte_of_def Let_def)
  qed
qed (auto simp: walkaddr_def upa_def not_less)

lemma upa_pgno: "pgno va = pgno vb \<Longrightarrow> upa m pt va = upa m pt vb"
  using pte_pgno [of va vb m pt] by (simp add: upa_def pgno_MAXVA)

lemma upa_PGROUNDDOWN [simp]: "upa m pt (PGROUNDDOWN va) = upa m pt va"
  by (rule upa_pgno) simp

lemma upa_MAXVA: "upa m pt va \<noteq> 0 \<Longrightarrow> unat va < 2 ^ 38"
  by (auto simp: upa_def unat_less_iff layout split: if_splits)

text \<open>A write inside one user page.\<close>

lemma same_pages_write:
  assumes "off + length bs \<le> 4096"
  shows "same_pages {p} m (write_bytes m (p + of_nat off) bs)"
  unfolding same_pages_def
proof (intro allI impI)
  fix a assume out: "\<forall>q \<in> {p}. \<not> page_of q a"
  have "\<not> unat (a - (p + of_nat off)) < length bs"
  proof
    assume near: "unat (a - (p + of_nat off)) < length bs"
    have "a - p = (a - (p + of_nat off)) + of_nat off" by simp
    moreover have "unat ((a - (p + of_nat off)) + of_nat off :: u64) = unat (a - (p + of_nat off)) + off"
      using near assms by (subst unat_add_small) (auto simp: unat_of_nat_small)
    ultimately show False using out near assms by (simp add: page_of_def)
  qed
  then show "write_bytes m (p + of_nat off) bs a = m a" by (simp add: write_bytes_def)
qed

lemma write_page_at:
  assumes "off + length bs \<le> 4096" "i < 4096"
  shows "write_bytes m (p + of_nat off) bs (p + of_nat i) =
    (if off \<le> i \<and> i < off + length bs then bs ! (i - off) else m (p + of_nat i))"
proof (cases "off \<le> i")
  case True
  then have "p + of_nat i - (p + of_nat off) = (of_nat (i - off) :: u64)" by simp
  moreover have "unat (of_nat (i - off) :: u64) = i - off"
    using assms by (intro unat_of_nat_small) simp
  ultimately show ?thesis using True assms by (auto simp: write_bytes_def)
next
  case False
  have "unat (of_nat i :: u64) = i" "unat (of_nat off :: u64) = off"
    using assms False by (auto intro!: unat_of_nat_small)
  then have "unat (of_nat i - of_nat off :: u64) = 2 ^ 64 - (off - i)"
    using False by (simp add: unat_sub_if_size size_word.rep_eq)
  moreover have "p + of_nat i - (p + of_nat off) = (of_nat i - of_nat off :: u64)" by simp
  moreover have "\<not> 2 ^ 64 - (off - i) < length bs" using assms False by simp
  ultimately show ?thesis using False by (simp add: write_bytes_def)
qed

lemma uspace_write:
  assumes us: "uspace m pt" and p: "upa m pt va \<noteq> 0" and off: "off + length bs \<le> 4096"
    and m': "m' = write_bytes m (upa m pt va + of_nat off) bs"
  shows "uspace m' pt" "upa m' pt vb = upa m pt vb" "tables 2 m' pt = tables 2 m pt"
    "upa m pt vb \<noteq> 0 \<Longrightarrow> ubyte m' pt vb =
      (if pgno vb = pgno va \<and> off \<le> unat vb mod 4096 \<and> unat vb mod 4096 < off + length bs
       then bs ! (unat vb mod 4096 - off) else ubyte m pt vb)"
proof -
  let ?p = "upa m pt va"
  have tree: "ptree 2 m pt" and pa: "page_addr ?p" "?p \<notin> tables 2 m pt"
    and inj: "\<And>v w. upa m pt v \<noteq> 0 \<Longrightarrow> upa m pt v = upa m pt w \<Longrightarrow> pgno v = pgno w"
    using us p unfolding uspace_def by blast+
  have sm: "same_pages {?p} m m'" using same_pages_write [OF off] m' by simp
  have Q: "tables 2 m pt \<inter> {?p} = {}" "\<forall>q \<in> {?p}. page_addr q" using pa by auto
  note F = tree_frame [OF tree sm Q]
  show up: "upa m' pt vb = upa m pt vb" for vb using F(4) by (simp add: upa_def)
  show T: "tables 2 m' pt = tables 2 m pt" by (rule F(2))
  show "uspace m' pt" using us F(1) unfolding uspace_def up T by blast
  show "ubyte m' pt vb =
      (if pgno vb = pgno va \<and> off \<le> unat vb mod 4096 \<and> unat vb mod 4096 < off + length bs
       then bs ! (unat vb mod 4096 - off) else ubyte m pt vb)" if vb: "upa m pt vb \<noteq> 0"
  proof (cases "pgno vb = pgno va")
    case True
    then have "upa m pt vb = ?p" by (rule upa_pgno)
    with True write_page_at [OF off, of "unat vb mod 4096" m ?p] show ?thesis
      by (simp add: ubyte_def up) (simp add: m')
  next
    case False
    then have "upa m pt vb \<noteq> ?p" using inj [OF vb] by blast
    moreover have "page_addr (upa m pt vb)" using us vb unfolding uspace_def by blast
    ultimately have "m' (upa m pt vb + of_nat (unat vb mod 4096)) = m (upa m pt vb + of_nat (unat vb mod 4096))"
      using same_pages_at [OF sm _ _ Q(2)] by simp
    with False show ?thesis by (simp add: ubyte_def up)
  qed
qed

section \<open>copyout\<close>

text \<open>Writing a list of bytes into user memory, by address.\<close>

definition uwrite :: "u64 \<Rightarrow> u8 list \<Rightarrow> (u64 \<Rightarrow> u8) \<Rightarrow> u64 \<Rightarrow> u8" where
  "uwrite va bs F vb = (if va \<le> vb \<and> unat vb < unat va + length bs then bs ! (unat vb - unat va) else F vb)"

definition uall :: "memory \<Rightarrow> u64 \<Rightarrow> u64 \<Rightarrow> nat \<Rightarrow> bool" where
  "uall m pt va n \<longleftrightarrow> (\<forall>i < n. upa m pt (va + of_nat i) \<noteq> 0)"

definition wrote :: "u64 \<Rightarrow> u64 \<Rightarrow> u8 list \<Rightarrow> 'a kmem_st_scheme \<Rightarrow> 'a kmem_st_scheme \<Rightarrow> bool" where
  "wrote pt va bs s t \<longleftrightarrow> uspace (mem t) pt \<and> t = s\<lparr>mem := mem t\<rparr> \<and>
     (\<forall>vb. upa (mem t) pt vb = upa (mem s) pt vb) \<and>
     (\<forall>vb. upa (mem s) pt vb \<noteq> 0 \<longrightarrow> ubyte (mem t) pt vb = uwrite va bs (ubyte (mem s) pt) vb) \<and>
     same_pages {upa (mem s) pt vb | vb. upa (mem s) pt vb \<noteq> 0} (mem s) (mem t)"

lemma wrote_Nil: "uspace (mem s) pt \<Longrightarrow> wrote pt va [] s s"
  by (auto simp: wrote_def uwrite_def unat_le_iff)

text \<open>The bytes of one page: from \<open>va\<close> to the end of its page.\<close>

definition room :: "u64 \<Rightarrow> nat" where
  "room va = 4096 - unat va mod 4096"

lemma room_pos: "0 < room va" "unat va mod 4096 + room va = 4096"
  by (simp_all add: room_def)

lemma next_page:
  assumes "unat va < 2 ^ 38"
  shows "unat (PGROUNDDOWN va + PGSIZE) = unat va + room va"
    "PGROUNDDOWN va + PGSIZE = va + of_nat (room va)"
proof -
  have "unat (PGROUNDDOWN va) + unat va mod 4096 = unat va"
    by (simp add: unat_PGROUNDDOWN)
  then have "unat (PGROUNDDOWN va) + 4096 = unat va + room va" using room_pos(2) [of va] by linarith
  moreover have "unat (PGROUNDDOWN va) < 2 ^ 38" using assms by (simp add: unat_PGROUNDDOWN)
  ultimately show u: "unat (PGROUNDDOWN va + PGSIZE) = unat va + room va"
    by (simp add: PGSIZE_def unat_add_small)
  have "unat (va + of_nat (room va)) = unat va + room va"
    using assms room_pos(2) [of va] by (subst unat_add_small) (auto simp: unat_of_nat_small)
  with u show "PGROUNDDOWN va + PGSIZE = va + of_nat (room va)" by (intro word_unat_eqI) simp
qed

lemma same_page_room:
  assumes "unat va < 2 ^ 38" "i < room va"
  shows "pgno (va + of_nat i) = pgno va" "unat (va + of_nat i) = unat va + i"
proof -
  show u: "unat (va + of_nat i) = unat va + i"
    using assms room_pos(2) [of va] by (subst unat_add_small) (auto simp: unat_of_nat_small)
  have "unat va mod 4096 + i < 4096" using assms(2) room_pos(2) [of va] by linarith
  moreover have "unat va + i = unat va mod 4096 + i + pgno va * 4096" by (simp add: pgno_def)
  ultimately have "(unat va + i) div 4096 = pgno va"
    using div_mult_self1 [of 4096 "unat va mod 4096 + i" "pgno va"] by simp
  then show "pgno (va + of_nat i) = pgno va" by (simp add: pgno_def u)
qed

lemma write_page:
  assumes us: "uspace (mem s) pt" and p: "upa (mem s) pt va \<noteq> 0" and n: "length bs \<le> room va"
  shows "wrote pt va bs s (s\<lparr>mem := write_bytes (mem s) (upa (mem s) pt va + (va - PGROUNDDOWN va)) bs\<rparr>)"
proof -
  let ?off = "unat va mod 4096"
  let ?m = "write_bytes (mem s) (upa (mem s) pt va + of_nat ?off) bs"
  have off: "va - PGROUNDDOWN va = of_nat ?off"
    by (rule word_unat_eqI) (simp add: PGROUNDDOWN_offset unat_of_nat_small)
  have fits: "?off + length bs \<le> 4096" using n room_pos(2) [of va] by linarith
  note W = uspace_write [OF us p fits refl]
  have "ubyte ?m pt vb = uwrite va bs (ubyte (mem s) pt) vb" if vb: "upa (mem s) pt vb \<noteq> 0" for vb
  proof -
    have va: "unat va = 4096 * pgno va + ?off" and vb': "unat vb = 4096 * pgno vb + unat vb mod 4096"
      by (simp_all add: pgno_def)
    have "(pgno vb = pgno va \<and> ?off \<le> unat vb mod 4096 \<and> unat vb mod 4096 < ?off + length bs) \<longleftrightarrow>
        (va \<le> vb \<and> unat vb < unat va + length bs)" (is "?L \<longleftrightarrow> ?R")
    proof
      assume ?L with va vb' show ?R by (simp add: unat_le_iff)
    next
      assume R: ?R
      then have "unat vb < unat va + room va" using n by simp
      then have "4096 * pgno vb < 4096 * pgno va + 4096" "4096 * pgno va < 4096 * pgno vb + 4096"
        using R room_pos(2) [of va] va vb' mod_less_divisor [of 4096 "unat vb"]
        unfolding unat_le_iff by linarith+
      then have "pgno vb = pgno va" by simp
      with R va vb' show ?L by (simp add: unat_le_iff)
    qed
    moreover have "unat vb mod 4096 - ?off = unat vb - unat va" if "pgno vb = pgno va"
      using va vb' that by simp
    ultimately show ?thesis using W(4) [OF vb] by (auto simp: uwrite_def)
  qed
  moreover have "same_pages {upa (mem s) pt vb | vb. upa (mem s) pt vb \<noteq> 0} (mem s) ?m"
    by (rule same_pages_mono [OF same_pages_write [OF fits]]) (use p in auto)
  ultimately show ?thesis using W(1,2) by (simp add: wrote_def off)
qed

lemma wrote_trans:
  assumes 1: "wrote pt va bs s t" and 2: "wrote pt vn cs t u" and vn: "unat vn = unat va + length bs"
  shows "wrote pt va (bs @ cs) s u"
proof -
  have up: "\<And>vb. upa (mem t) pt vb = upa (mem s) pt vb" using 1 by (simp add: wrote_def)
  have "uwrite vn cs (ubyte (mem t) pt) vb = uwrite va (bs @ cs) (ubyte (mem s) pt) vb"
    if "upa (mem s) pt vb \<noteq> 0" for vb
    using 1 that vn by (auto simp: wrote_def uwrite_def unat_le_iff nth_append)
  moreover have "same_pages {upa (mem s) pt vb | vb. upa (mem s) pt vb \<noteq> 0} (mem s) (mem u)"
    using 1 2 same_pages_trans_sub [OF _ _ order_refl order_refl] unfolding wrote_def up by blast
  moreover have "u = s\<lparr>mem := mem u\<rparr>" using 1 2 unfolding wrote_def by (cases s, cases t, cases u) simp
  ultimately show ?thesis using 2 up unfolding wrote_def by simp
qed

lemma uall_split:
  assumes "unat va < 2 ^ 38" "uall m pt va (room va)"
  shows "uall m pt va (room va + n) \<longleftrightarrow> uall m pt (va + of_nat (room va)) n"
proof -
  have "(\<forall>i < room va + n. upa m pt (va + of_nat i) \<noteq> 0) \<longleftrightarrow>
      (\<forall>j < n. upa m pt (va + of_nat (room va + j)) \<noteq> 0)"
  proof (intro iffI allI impI)
    fix i assume all: "\<forall>j < n. upa m pt (va + of_nat (room va + j)) \<noteq> 0" and i: "i < room va + n"
    show "upa m pt (va + of_nat i) \<noteq> 0"
    proof (cases "i < room va")
      case True
      with assms(2) show ?thesis by (simp add: uall_def)
    next
      case False
      then obtain j where j: "i = room va + j" using le_Suc_ex by fastforce
      with i have "j < n" by simp
      with all j show ?thesis by blast
    qed
  qed (use nat_add_left_cancel_less in blast)
  then show ?thesis by (simp add: uall_def add.assoc)
qed

lemma uall_page: "upa m pt va \<noteq> 0 \<Longrightarrow> n \<le> room va \<Longrightarrow> uall m pt va n"
  unfolding uall_def
proof (intro allI impI)
  fix i assume p: "upa m pt va \<noteq> 0" and "n \<le> room va" "i < n"
  then have "i < room va" by simp
  from upa_pgno [OF same_page_room(1) [OF upa_MAXVA [OF p] this]] p
  show "upa m pt (va + of_nat i) \<noteq> 0" by metis
qed

text \<open>A mapped range does not wrap around.\<close>

lemma uall_unat: "uall m pt va n \<Longrightarrow> i < n \<Longrightarrow> unat (va + of_nat i) = unat va + i"
proof (induction i)
  case (Suc i)
  then have "unat (va + of_nat i) = unat va + i" "upa m pt (va + of_nat i) \<noteq> 0" by (auto simp: uall_def)
  then have "unat (va + of_nat i + 1) = unat va + i + 1"
    using upa_MAXVA [of m pt "va + of_nat i"] by (subst unat_add_small) auto
  then show ?case by (simp add: add.commute add.left_commute)
qed simp

lemma offset_room: "4096 - unat (va - PGROUNDDOWN va) = room va"
  by (simp add: PGROUNDDOWN_offset room_def)

lemma copyout_spec:
  "uspace (mem s) pt \<Longrightarrow> \<exists>r t k. copyout pt va src s = Done r t \<and> wrote pt va (take k src) s t \<and>
     (r = 0 \<and> k = length src \<and> uall (mem s) pt va k \<or>
      r = -1 \<and> k < length src \<and> uall (mem s) pt va k \<and> upa (mem s) pt (va + of_nat k) = 0)"
proof (induction "length src" arbitrary: va src s rule: less_induct)
  case less
  have tree: "ptree 2 (mem s) pt" using less.prems by (simp add: uspace_def)
  show ?case
  proof (cases "src = []")
    case True
    then show ?thesis using wrote_Nil [OF less.prems] by (subst copyout.simps) (auto simp: uall_def)
  next
    case False
    let ?p = "upa (mem s) pt va"
    show ?thesis
    proof (cases "?p = 0")
      case True
      then have "copyout pt va src s = Done (-1) s"
        using False by (subst copyout.simps) (simp add: walkaddr_eq [OF tree])
      with True False wrote_Nil [OF less.prems, of va] show ?thesis
        by (intro exI [of _ "-1"] exI [of _ s] exI [of _ 0]) (simp add: uall_def)
    next
      case p: False
      let ?n = "min (room va) (length src)"
      let ?t = "s\<lparr>mem := write_bytes (mem s) (?p + (va - PGROUNDDOWN va)) (take ?n src)\<rparr>"
      let ?vn = "PGROUNDDOWN va + PGSIZE"
      have step: "copyout pt va src s = copyout pt ?vn (drop ?n src) ?t"
        using False p by (subst copyout.simps) (simp add: walkaddr_eq [OF tree] offset_room Let_def)
      have w: "wrote pt va (take ?n src) s ?t" by (rule write_page [OF less.prems p]) simp
      have all: "uall (mem s) pt va ?n" using uall_page [OF p] by simp
      show ?thesis
      proof (cases "length src \<le> room va")
        case True
        then have "copyout pt va src s = Done 0 ?t" unfolding step by (subst copyout.simps) simp
        with w all True show ?thesis
          by (intro exI [of _ 0] exI [of _ ?t] exI [of _ "length src"]) (simp add: min_absorb2)
      next
        case more: False
        then have n: "?n = room va" by simp
        have "uspace (mem ?t) pt" "length (drop ?n src) < length src"
          using w room_pos(1) [of va] False by (auto simp: wrote_def)
        from less.hyps [OF this(2,1), of ?vn] obtain r u k where
          u: "copyout pt ?vn (drop ?n src) ?t = Done r u" "wrote pt ?vn (take k (drop ?n src)) ?t u"
            "r = 0 \<and> k = length (drop ?n src) \<and> uall (mem ?t) pt ?vn k \<or>
             r = -1 \<and> k < length (drop ?n src) \<and> uall (mem ?t) pt ?vn k \<and> upa (mem ?t) pt (?vn + of_nat k) = 0"
          by blast
        note vn = next_page [OF upa_MAXVA [OF p]]
        have upa_t: "upa (mem ?t) pt vb = upa (mem s) pt vb" for vb using w by (simp add: wrote_def)
        have uall_t: "uall (mem ?t) pt v j = uall (mem s) pt v j" for v j using upa_t by (simp add: uall_def)
        have "wrote pt va (take (room va) src @ take k (drop (room va) src)) s u"
          using wrote_trans [OF w u(2)] vn more n by simp
        then have "wrote pt va (take (room va + k) src) s u" by (simp add: take_add)
        moreover have "uall (mem s) pt va (room va + k)"
          using u(3) uall_split [OF upa_MAXVA [OF p], of "mem s" pt k] all n vn(2) uall_t by auto
        ultimately show ?thesis
          using u(1,3) step n vn(2) upa_t more
          by (intro exI [of _ r] exI [of _ u] exI [of _ "room va + k"]) (auto simp: add.assoc)
      qed
    qed
  qed
qed

section \<open>copyin and copyinstr\<close>

definition ubytes :: "memory \<Rightarrow> u64 \<Rightarrow> u64 \<Rightarrow> nat \<Rightarrow> u8 list" where
  "ubytes m pt va n = map (\<lambda>i. ubyte m pt (va + of_nat i)) [0..<n]"

lemma length_ubytes [simp]: "length (ubytes m pt va n) = n"
  by (simp add: ubytes_def)

lemma ubytes_add: "ubytes m pt va (n + k) = ubytes m pt va n @ ubytes m pt (va + of_nat n) k"
  by (rule nth_equalityI) (auto simp: ubytes_def nth_append add.assoc simp flip: of_nat_add)

lemma ubytes_page:
  assumes p: "upa m pt va \<noteq> 0" and n: "n \<le> room va"
  shows "read_bytes m (upa m pt va + (va - PGROUNDDOWN va)) n = ubytes m pt va n"
proof (rule nth_equalityI)
  fix i assume "i < length (read_bytes m (upa m pt va + (va - PGROUNDDOWN va)) n)"
  then have i: "i < n" "i < room va" using n by simp_all
  have off: "va - PGROUNDDOWN va = of_nat (unat va mod 4096)"
    by (rule word_unat_eqI) (simp add: PGROUNDDOWN_offset unat_of_nat_small)
  note same = same_page_room [OF upa_MAXVA [OF p] i(2)]
  have "unat va mod 4096 + i < 4096" using i(2) room_pos(2) [of va] by linarith
  then have "unat (va + of_nat i) mod 4096 = unat va mod 4096 + i"
    unfolding same(2) by (metis mod_add_left_eq mod_less)
  with upa_pgno [OF same(1), of m pt] i(1) show "read_bytes m (upa m pt va + (va - PGROUNDDOWN va)) n ! i = ubytes m pt va n ! i"
    by (simp add: nth_read_bytes ubytes_def ubyte_def off add.assoc)
qed simp

lemma copyin_spec:
  "uspace (mem s) pt \<Longrightarrow> \<exists>r k. copyin pt va len s = Done (r, ubytes (mem s) pt va k) s \<and>
     (r = 0 \<and> k = len \<and> uall (mem s) pt va k \<or>
      r = -1 \<and> k < len \<and> uall (mem s) pt va k \<and> upa (mem s) pt (va + of_nat k) = 0)"
proof (induction len arbitrary: va rule: less_induct)
  case (less len)
  have tree: "ptree 2 (mem s) pt" using less.prems by (simp add: uspace_def)
  consider "len = 0" | "0 < len" "upa (mem s) pt va = 0" | "0 < len" "upa (mem s) pt va \<noteq> 0" by blast
  then show ?case
  proof cases
    case 1
    then show ?thesis by (subst copyin.simps) (simp add: uall_def ubytes_def)
  next
    case 2
    then show ?thesis
      by (subst copyin.simps) (simp add: walkaddr_eq [OF tree] uall_def ubytes_def)
  next
    case 3
    let ?p = "upa (mem s) pt va" and ?vn = "PGROUNDDOWN va + PGSIZE" and ?n = "min (room va) len"
    have all: "uall (mem s) pt va ?n" using uall_page [OF 3(2)] by simp
    have bs: "read_bytes (mem s) (?p + (va - PGROUNDDOWN va)) ?n = ubytes (mem s) pt va ?n"
      by (rule ubytes_page [OF 3(2)]) simp
    have "len - ?n < len" using 3(1) room_pos(1) [of va] by simp
    from less.IH [OF this less.prems, of ?vn] obtain r k where
      u: "copyin pt ?vn (len - ?n) s = Done (r, ubytes (mem s) pt ?vn k) s"
        "r = 0 \<and> k = len - ?n \<and> uall (mem s) pt ?vn k \<or>
         r = -1 \<and> k < len - ?n \<and> uall (mem s) pt ?vn k \<and> upa (mem s) pt (?vn + of_nat k) = 0" by blast
    have step: "copyin pt va len s = Done (r, ubytes (mem s) pt va ?n @ ubytes (mem s) pt ?vn k) s"
      using 3 u(1) bs
      by (subst copyin.simps) (simp add: walkaddr_eq [OF tree] offset_room Let_def)
    show ?thesis
    proof (cases "len \<le> room va")
      case True
      then have "r = 0" "k = 0" using u(2) by auto
      with step all True show ?thesis by (auto simp: ubytes_def min_absorb2)
    next
      case False
      then have n: "?n = room va" by simp
      note vn = next_page(2) [OF upa_MAXVA [OF 3(2)]]
      have "copyin pt va len s = Done (r, ubytes (mem s) pt va (room va + k)) s"
        using step n vn by (simp add: ubytes_add)
      moreover have "uall (mem s) pt va (room va + k)"
        using u(2) uall_split [OF upa_MAXVA [OF 3(2)], of "mem s" pt k] all n vn by auto
      ultimately show ?thesis
        using u(2) n vn False
        by (intro exI [of _ r] exI [of _ "room va + k"]) (auto simp: add.assoc)
    qed
  qed
qed

text \<open>
  Property C4. \<^verbatim>\<open>copyout\<close> writes exactly the destination range of user memory. It returns 0 when
  every address of the range is mapped for the user and -1 otherwise; what it wrote by then is
  the range up to the first unmapped page. No other user byte, no page table and no memory
  outside the user's pages changes, and it never panics.
\<close>

theorem copyout_correct:
  assumes "uspace (mem s) pt"
  shows "\<exists>t k. copyout pt dstva src s = Done (if uall (mem s) pt dstva (length src) then 0 else -1) t \<and>
    wrote pt dstva (take k src) s t \<and>
    (if uall (mem s) pt dstva (length src) then k = length src
     else k < length src \<and> uall (mem s) pt dstva k \<and> upa (mem s) pt (dstva + of_nat k) = 0)"
proof -
  from copyout_spec [OF assms] obtain r t k where
    *: "copyout pt dstva src s = Done r t" "wrote pt dstva (take k src) s t"
      "r = 0 \<and> k = length src \<and> uall (mem s) pt dstva k \<or>
       r = -1 \<and> k < length src \<and> uall (mem s) pt dstva k \<and> upa (mem s) pt (dstva + of_nat k) = 0" by blast
  then have "uall (mem s) pt dstva (length src) \<longleftrightarrow> r = 0" by (auto simp: uall_def)
  with * show ?thesis by auto
qed

text \<open>
  Property C5. What the kernel copies out it reads back: after a successful \<^verbatim>\<open>copyout\<close>, \<^verbatim>\<open>copyin\<close>
  of the same range returns 0 and the same bytes and leaves the state as it is.
\<close>

theorem copyout_copyin_roundtrip:
  assumes "uspace (mem s) pt" "copyout pt va src s = Done 0 t"
  shows "copyin pt va (length src) t = Done (0, src) t"
proof -
  from copyout_spec [OF assms(1), of va src] assms(2)
  have w: "wrote pt va src s t" and all: "uall (mem s) pt va (length src)" by auto
  then have us: "uspace (mem t) pt" and up: "\<And>vb. upa (mem t) pt vb = upa (mem s) pt vb"
    by (simp_all add: wrote_def)
  then have all_t: "uall (mem t) pt va (length src)" using all by (simp add: uall_def)
  from copyin_spec [OF us, of va "length src"] obtain r k where
    c: "copyin pt va (length src) t = Done (r, ubytes (mem t) pt va k) t" and
    "r = 0 \<and> k = length src \<and> uall (mem t) pt va k \<or>
     r = -1 \<and> k < length src \<and> uall (mem t) pt va k \<and> upa (mem t) pt (va + of_nat k) = 0" by blast
  then have k: "r = 0" "k = length src" using all_t by (auto simp: uall_def)
  have "ubytes (mem t) pt va (length src) = src"
  proof (rule nth_equalityI)
    fix i assume "i < length (ubytes (mem t) pt va (length src))"
    then have i: "i < length src" by simp
    have mapped: "upa (mem s) pt (va + of_nat i) \<noteq> 0" "upa (mem s) pt va \<noteq> 0"
      using all i by (auto simp: uall_def dest: spec [of _ 0])
    have u: "unat (va + of_nat i) = unat va + i" by (rule uall_unat [OF all i])
    have "ubyte (mem t) pt (va + of_nat i) = uwrite va src (ubyte (mem s) pt) (va + of_nat i)"
      using w mapped by (simp add: wrote_def)
    also have "\<dots> = src ! i" using i u by (simp add: uwrite_def unat_le_iff)
    finally show "ubytes (mem t) pt va (length src) ! i = src ! i" using i by (simp add: ubytes_def)
  qed simp
  with c k show ?thesis by simp
qed

section \<open>A page table with one user page\<close>

text \<open>Root 0x80100000, inner tables 0x80101000 and 0x80102000, and the user page 0x80103000 at address 0.\<close>

definition demo_leaf :: u64 where
  "demo_leaf = PA2PTE 0x80103000 OR (PTE_R OR PTE_W OR PTE_U OR PTE_V)"

definition demo_mem :: memory where
  "demo_mem = store64 (store64 (store64 (\<lambda>_. 0)
     (ent 0x80100000 0) (PA2PTE 0x80101000 OR PTE_V))
     (ent 0x80101000 0) (PA2PTE 0x80102000 OR PTE_V))
     (ent 0x80102000 0) demo_leaf"

lemma demo_pages: "page_addr 0x80100000" "page_addr 0x80101000" "page_addr 0x80102000" "page_addr 0x80103000"
  by (simp_all add: page_addr_def)

lemma load_empty: "load64 (\<lambda>_. 0) a = 0"
  by (simp add: load64_def read_bytes_def map_replicate_const) (simp add: numeral_eq_Suc)

lemma PTE_V_nonzero: "PTE_V \<noteq> 0"
  by (simp add: layout)

lemma uall_3: "uall m pt va 3 \<longleftrightarrow> upa m pt va \<noteq> 0 \<and> upa m pt (va + 1) \<noteq> 0 \<and> upa m pt (va + 2) \<noteq> 0"
  by (auto simp: uall_def numeral_3_eq_3 less_Suc_eq)

lemma demo_load:
  "i < 512 \<Longrightarrow> load64 demo_mem (ent 0x80100000 i) = (if i = 0 then PA2PTE 0x80101000 OR PTE_V else 0)"
  "i < 512 \<Longrightarrow> load64 demo_mem (ent 0x80101000 i) = (if i = 0 then PA2PTE 0x80102000 OR PTE_V else 0)"
  "i < 512 \<Longrightarrow> load64 demo_mem (ent 0x80102000 i) = (if i = 0 then demo_leaf else 0)"
  by (simp_all add: demo_mem_def load_store_ent demo_pages load_empty)

lemma demo_child:
  "i < 512 \<Longrightarrow> child demo_mem 0x80100000 i = (if i = 0 then Some 0x80101000 else None)"
  "i < 512 \<Longrightarrow> child demo_mem 0x80101000 i = (if i = 0 then Some 0x80102000 else None)"
  by (auto simp: child_def demo_load table_pte PTE_V_nonzero)

lemma demo_tables1: "tables (Suc 0) demo_mem 0x80101000 = {0x80101000, 0x80102000}"
  using tables_split [of 0 demo_mem "0x80101000" "0x80102000" 0] demo_child(2) by auto

lemma demo_tables2: "tables 2 demo_mem 0x80100000 = {0x80100000, 0x80101000, 0x80102000}"
proof -
  have "tables (Suc (Suc 0)) demo_mem 0x80100000 = insert 0x80100000 (tables (Suc 0) demo_mem 0x80101000)"
    using tables_split [of 0 demo_mem "0x80100000" "0x80101000" "Suc 0"] demo_child(1) by auto
  then show ?thesis by (simp add: demo_tables1 numeral_2_eq_2 del: tables.simps)
qed

lemma demo_ptree: "ptree 2 demo_mem 0x80100000"
proof -
  have 1: "ptree (Suc 0) demo_mem 0x80101000"
    using demo_child(2) by (auto simp: demo_pages split: if_splits)
  have "ptree (Suc (Suc 0)) demo_mem 0x80100000"
    using demo_child(1) 1 unfolding ptree.simps(2) [of "Suc 0"] demo_tables1
    by (auto simp: demo_pages demo_tables1 simp del: ptree.simps tables.simps split: if_splits)
  then show ?thesis by (simp only: numeral_2_eq_2)
qed

lemma demo_pte: "va < MAXVA \<Longrightarrow> pte demo_mem 0x80100000 va = (if pgno va = 0 then demo_leaf else 0)"
proof -
  assume va: "va < MAXVA"
  have px: "same_slot 2 va 0 \<longleftrightarrow> pgno va = 0" using same_slot_pgno [OF va, of 0] by (simp add: pgno_def layout)
  have PX0: "PX k 0 = 0" for k by (simp add: PX_def)
  have "pte_of (Suc (Suc 0)) demo_mem 0x80100000 va =
      (if PX 2 va = 0 \<and> PX 1 va = 0 \<and> PX 0 va = 0 then demo_leaf else 0)"
    using demo_child(1) [of 0] demo_child(2) [of 0] demo_load(3) [of 0]
    by (auto simp: pte_of_Suc pte_of_0 unat_eq_0 numeral_2_eq_2
        demo_child [OF PX_bound] demo_load(3) [OF PX_bound])
  moreover have "same_slot 2 va 0 \<longleftrightarrow> PX 2 va = 0 \<and> PX 1 va = 0 \<and> PX 0 va = 0"
    by (auto simp: same_slot_def PX0 le_Suc_eq numeral_2_eq_2)
  ultimately show ?thesis using px by (simp add: numeral_2_eq_2)
qed

lemma demo_flags: "demo_leaf AND PTE_V \<noteq> 0" "demo_leaf AND PTE_U \<noteq> 0" "PTE2PA demo_leaf = 0x80103000"
proof -
  have small: "unat (PTE_R OR PTE_W OR PTE_U OR PTE_V) < 1024" "unat PTE_V < 1024" "unat PTE_U < 1024"
    by (simp_all add: layout)
  show "PTE2PA demo_leaf = 0x80103000" unfolding demo_leaf_def by (rule PTE2PA_PA2PTE [OF _ small(1)]) simp
  show "demo_leaf AND PTE_V \<noteq> 0" "demo_leaf AND PTE_U \<noteq> 0"
    unfolding demo_leaf_def PA2PTE_and_flag [OF small(2)] PA2PTE_and_flag [OF small(3)] by (simp_all add: layout)
qed

lemma demo_upa: "upa demo_mem 0x80100000 va = (if pgno va = 0 then 0x80103000 else 0)"
proof (cases "va < MAXVA")
  case True
  with demo_pte demo_flags show ?thesis by (simp add: upa_def)
next
  case False
  then have "pgno va \<noteq> 0" by (auto simp: pgno_MAXVA)
  with False show ?thesis by (simp add: upa_def)
qed

lemma demo_uspace: "uspace demo_mem 0x80100000"
  unfolding uspace_def demo_upa demo_tables2
  using demo_ptree demo_pages(4) by (auto split: if_splits)

definition demo_state :: kmem_st where
  "demo_state = boot_kmem\<lparr>mem := demo_mem\<rparr>"

lemma demo_state_mem [simp]: "mem demo_state = demo_mem"
  by (simp add: demo_state_def)

theorem copyout_correct_witness:
  "\<exists>t. copyout 0x80100000 4094 [1, 2, 3] demo_state = Done (-1) t \<and>
     wrote 0x80100000 4094 [1, 2] demo_state t"
proof -
  have us: "uspace (mem demo_state) 0x80100000" by (simp add: demo_uspace)
  have len: "length [1, 2, 3 :: u8] = 3" by simp
  have no: "\<not> uall (mem demo_state) 0x80100000 4094 3" by (simp add: uall_3 demo_upa pgno_def)
  from copyout_correct [OF us, of 4094 "[1, 2, 3]", unfolded len] no obtain t k where
    t: "copyout 0x80100000 4094 [1, 2, 3] demo_state = Done (-1) t" "wrote 0x80100000 4094 (take k [1, 2, 3]) demo_state t"
    and k: "k < 3" "upa demo_mem 0x80100000 (4094 + of_nat k) = 0" by (auto simp del: length_Cons)
  have z: "upa demo_mem 0x80100000 (4094 + of_nat 0) \<noteq> 0" "upa demo_mem 0x80100000 (4094 + of_nat 1) \<noteq> 0"
    by (simp_all add: demo_upa pgno_def)
  have "k \<noteq> 0" "k \<noteq> 1" using k(2) z by metis+
  with k(1) have "k = 2" by simp
  with t show ?thesis by auto
qed

theorem copyout_copyin_roundtrip_witness:
  "\<exists>t. copyout 0x80100000 16 [7, 8, 9] demo_state = Done 0 t \<and>
     copyin 0x80100000 16 3 t = Done (0, [7, 8, 9]) t"
proof -
  have us: "uspace (mem demo_state) 0x80100000" by (simp add: demo_uspace)
  have len: "length [7, 8, 9 :: u8] = 3" by simp
  have "uall demo_mem 0x80100000 16 3"
    by (simp add: uall_3 demo_upa pgno_def)
  with copyout_spec [OF us, of 16 "[7, 8, 9]"] obtain t where "copyout 0x80100000 16 [7, 8, 9] demo_state = Done 0 t"
    by (auto simp: uall_def)
  with copyout_copyin_roundtrip [OF us, of 16 "[7, 8, 9]" t, unfolded len] show ?thesis by auto
qed

end
