(* ===== verification/Printf.thy ===== *)
theory Printf
  imports Vm
begin

text \<open>
  Console output: \<^verbatim>\<open>uartputc_sync\<close> of \<^verbatim>\<open>kernel/uart.c\<close>, \<^verbatim>\<open>consputc\<close> of \<^verbatim>\<open>kernel/console.c\<close> and
  \<^verbatim>\<open>kernel/printf.c\<close>.

  The UART is a device outside the program. What the program reads from its status register is
  an input of the model, the list \<open>lsr_in\<close> of the values that successive reads return (a status
  without any bit set once they are used up), and so are the received bytes \<open>rhr_in\<close>; what it
  writes to the registers is the list \<open>uart_wr\<close>, in order.
\<close>

unbundle bit_operations_syntax

section \<open>The UART registers\<close>

record con_st = vm_st +
  lsr_in :: "u8 list"
  rhr_in :: "u8 list"
  uart_wr :: "(nat \<times> u8) list"
  panicked :: bool
  pr_locking :: bool

definition RHR :: nat where "RHR = 0"
definition THR :: nat where "THR = 0"
definition IER :: nat where "IER = 1"
definition IER_RX_ENABLE :: u8 where "IER_RX_ENABLE = 1"
definition IER_TX_ENABLE :: u8 where "IER_TX_ENABLE = 2"
definition FCR :: nat where "FCR = 2"
definition FCR_FIFO_ENABLE :: u8 where "FCR_FIFO_ENABLE = 1"
definition FCR_FIFO_CLEAR :: u8 where "FCR_FIFO_CLEAR = 6"
definition LCR :: nat where "LCR = 3"
definition LCR_EIGHT_BITS :: u8 where "LCR_EIGHT_BITS = 3"
definition LCR_BAUD_LATCH :: u8 where "LCR_BAUD_LATCH = 0x80"
definition LSR_RX_READY :: u8 where "LSR_RX_READY = 1"
definition LSR_TX_IDLE :: u8 where "LSR_TX_IDLE = 0x20"

definition WriteReg :: "nat \<Rightarrow> u8 \<Rightarrow> 'a con_st_scheme \<Rightarrow> 'a con_st_scheme" where
  "WriteReg reg v s = s\<lparr>uart_wr := uart_wr s @ [(reg, v)]\<rparr>"

text \<open>\<^verbatim>\<open>ReadReg(LSR)\<close>: the value and the readings that remain.\<close>

definition read_LSR :: "'a con_st_scheme \<Rightarrow> u8 \<times> 'a con_st_scheme" where
  "read_LSR s = (case lsr_in s of [] \<Rightarrow> (0, s) | x # xs \<Rightarrow> (x, s\<lparr>lsr_in := xs\<rparr>))"

text \<open>The busy wait for \<^verbatim>\<open>LSR_TX_IDLE\<close>: the readings after the first that has it.\<close>

fun tx_wait :: "u8 list \<Rightarrow> u8 list option" where
  "tx_wait [] = None"
| "tx_wait (x # xs) = (if x AND LSR_TX_IDLE = 0 then tx_wait xs else Some xs)"

definition uartputc_sync :: "int \<Rightarrow> 'a con_st_scheme \<Rightarrow> (unit, 'a con_st_scheme) out" where
  "uartputc_sync c s =
     (let s1 = push_off s
      in if panicked s1 then Waits Frozen s1
         else case tx_wait (lsr_in s1) of
                None \<Rightarrow> Waits UartIdle (s1\<lparr>lsr_in := []\<rparr>)
              | Some xs \<Rightarrow> pop_off (WriteReg THR (of_int c) (s1\<lparr>lsr_in := xs\<rparr>)))"

definition BACKSPACE :: int where "BACKSPACE = 0x100"

definition consputc :: "int \<Rightarrow> 'a con_st_scheme \<Rightarrow> (unit, 'a con_st_scheme) out" where
  "consputc c s =
     (if c = BACKSPACE
      then bnd (uartputc_sync 8 s) (\<lambda>_ s1. bnd (uartputc_sync 32 s1) (\<lambda>_ s2. uartputc_sync 8 s2))
      else uartputc_sync c s)"

section \<open>kernel/printf.c\<close>

definition bytes :: "string \<Rightarrow> u8 list" where
  "bytes cs = map of_char cs"

definition digits :: "u8 list" where
  "digits = bytes ''0123456789abcdef''"

text \<open>
  The \<^verbatim>\<open>do\<close> loop of \<^verbatim>\<open>printint\<close>: the digits it stores in \<^verbatim>\<open>buf\<close>, least significant first. The
  callers pass the bases 10 and 16.
\<close>

lemma div_step: "2 \<le> base \<Longrightarrow> 0 < x div base \<Longrightarrow> x div base < (x :: nat)"
  by (cases x) (auto intro: div_less_dividend)

function rev_digits :: "nat \<Rightarrow> nat \<Rightarrow> u8 list" where
  "rev_digits base x =
     digits ! (x mod base) # (if base < 2 \<or> x div base = 0 then [] else rev_digits base (x div base))"
  by pat_completeness auto
termination
  by (relation "measure snd") (auto simp: div_step)

declare rev_digits.simps [simp del]

definition printint_buf :: "u32 \<Rightarrow> nat \<Rightarrow> bool \<Rightarrow> u8 list" where
  "printint_buf xx base sign =
     (let neg = (sign \<and> sint xx < 0);
          x = (if neg then - xx else xx)
      in rev_digits base (unat x) @ (if neg then bytes ''-'' else []))"

primrec consputs :: "u8 list \<Rightarrow> 'a con_st_scheme \<Rightarrow> (unit, 'a con_st_scheme) out" where
  "consputs [] s = Done () s"
| "consputs (c # cs) s = bnd (consputc (uint c) s) (\<lambda>_ s1. consputs cs s1)"

definition printint :: "u32 \<Rightarrow> nat \<Rightarrow> bool \<Rightarrow> 'a con_st_scheme \<Rightarrow> (unit, 'a con_st_scheme) out" where
  "printint xx base sign s = consputs (rev (printint_buf xx base sign)) s"

text \<open>\<^verbatim>\<open>printptr\<close>: the 16 hexadecimal digits, most significant first.\<close>

primrec hex_digits :: "nat \<Rightarrow> u64 \<Rightarrow> u8 list" where
  "hex_digits 0 x = []"
| "hex_digits (Suc n) x = digits ! unat (drop_bit 60 x) # hex_digits n (push_bit 4 x)"

definition printptr :: "u64 \<Rightarrow> 'a con_st_scheme \<Rightarrow> (unit, 'a con_st_scheme) out" where
  "printptr x s = consputs (bytes ''0x'' @ hex_digits 16 x) s"

text \<open>
  Variable arguments. Reading one at another type than it was passed with is undefined in C;
  the model reads 0 there, and when there is no argument left.
\<close>

datatype vararg = VInt u32 | VPtr u64 | VStr "u8 list option"

fun va_int :: "vararg list \<Rightarrow> u32" where
  "va_int (VInt x # _) = x"
| "va_int _ = 0"

fun va_ptr :: "vararg list \<Rightarrow> u64" where
  "va_ptr (VPtr x # _) = x"
| "va_ptr _ = 0"

fun va_str :: "vararg list \<Rightarrow> u8 list option" where
  "va_str (VStr x # _) = x"
| "va_str _ = None"

text \<open>The loop over the format, a list of bytes without the terminating nul.\<close>

fun printf_loop :: "u8 list \<Rightarrow> vararg list \<Rightarrow> 'a con_st_scheme \<Rightarrow> (unit, 'a con_st_scheme) out" where
  "printf_loop [] ap s = Done () s"
| "printf_loop [c] ap s = (if c = 0x25 then Done () s else consputc (uint c) s)"
| "printf_loop (c # d # fmt) ap s =
     (if c \<noteq> 0x25 then bnd (consputc (uint c) s) (\<lambda>_ s1. printf_loop (d # fmt) ap s1)
      else if d = 0x64 then bnd (printint (va_int ap) 10 True s) (\<lambda>_ s1. printf_loop fmt (tl ap) s1)
      else if d = 0x78 then bnd (printint (va_int ap) 16 True s) (\<lambda>_ s1. printf_loop fmt (tl ap) s1)
      else if d = 0x70 then bnd (printptr (va_ptr ap) s) (\<lambda>_ s1. printf_loop fmt (tl ap) s1)
      else if d = 0x73 then bnd (consputs (case va_str ap of None \<Rightarrow> bytes ''(null)'' | Some t \<Rightarrow> t) s)
             (\<lambda>_ s1. printf_loop fmt (tl ap) s1)
      else if d = 0x25 then bnd (consputc 0x25 s) (\<lambda>_ s1. printf_loop fmt ap s1)
      else bnd (consputc 0x25 s) (\<lambda>_ s1. bnd (consputc (uint d) s1) (\<lambda>_ s2. printf_loop fmt ap s2)))"

definition printf :: "u8 list option \<Rightarrow> vararg list \<Rightarrow> 'a con_st_scheme \<Rightarrow> (unit, 'a con_st_scheme) out" where
  "printf fmt ap s =
     (let locking = pr_locking s
      in bnd (if locking then acquire PrLock s else Done () s) (\<lambda>_ s1.
           case fmt of
             None \<Rightarrow> Panic ''null fmt''
           | Some f \<Rightarrow> bnd (printf_loop f ap s1) (\<lambda>_ s2. if locking then release PrLock s2 else Done () s2)))"

text \<open>
  What \<^verbatim>\<open>panic(msg)\<close> leaves behind when it reaches its endless loop. Everywhere else in the
  development a call of \<^verbatim>\<open>panic\<close> is the outcome \<^term>\<open>Panic msg\<close>.
\<close>

definition panic :: "u8 list \<Rightarrow> 'a con_st_scheme \<Rightarrow> (unit, 'a con_st_scheme) out" where
  "panic msg s =
     bnd (printf (Some (bytes ''panic: '')) [] (s\<lparr>pr_locking := False\<rparr>)) (\<lambda>_ s1.
     bnd (printf (Some msg) [] s1) (\<lambda>_ s2.
     bnd (printf (Some [10]) [] s2) (\<lambda>_ s3. Waits Frozen (s3\<lparr>panicked := True\<rparr>))))"

definition printfinit :: "'a con_st_scheme \<Rightarrow> 'a con_st_scheme" where
  "printfinit s = (initlock PrLock ''pr'' s)\<lparr>pr_locking := True\<rparr>"

lemma con_locks [simp]:
  "lsr_in (lock_on lk s) = lsr_in s"
  "lsr_in_update f1 (lock_on lk s) = lock_on lk (lsr_in_update f1 s)"
  "rhr_in (lock_on lk s) = rhr_in s"
  "rhr_in_update f2 (lock_on lk s) = lock_on lk (rhr_in_update f2 s)"
  "uart_wr (lock_on lk s) = uart_wr s"
  "uart_wr_update f3 (lock_on lk s) = lock_on lk (uart_wr_update f3 s)"
  "panicked (lock_on lk s) = panicked s"
  "panicked_update f4 (lock_on lk s) = lock_on lk (panicked_update f4 s)"
  "pr_locking (lock_on lk s) = pr_locking s"
  "pr_locking_update f5 (lock_on lk s) = lock_on lk (pr_locking_update f5 s)"
  by (simp_all add: lock_on_def acquire_own_def acquire_swap_def push_off_def intr_defs cpu_defs Let_def)

lemma con_push [simp]:
  "lsr_in (push_off s) = lsr_in s"
  "lsr_in_update f1 (push_off s) = push_off (lsr_in_update f1 s)"
  "rhr_in (push_off s) = rhr_in s"
  "rhr_in_update f2 (push_off s) = push_off (rhr_in_update f2 s)"
  "uart_wr (push_off s) = uart_wr s"
  "uart_wr_update f3 (push_off s) = push_off (uart_wr_update f3 s)"
  "panicked (push_off s) = panicked s"
  "panicked_update f4 (push_off s) = push_off (panicked_update f4 s)"
  "pr_locking (push_off s) = pr_locking s"
  "pr_locking_update f5 (push_off s) = push_off (pr_locking_update f5 s)"
  by (simp_all add: push_off_def intr_defs cpu_defs Let_def)

lemma con_settle [simp]:
  "lsr_in (settle s) = lsr_in s"
  "settle (lsr_in_update f1 s) = lsr_in_update f1 (settle s)"
  "rhr_in (settle s) = rhr_in s"
  "settle (rhr_in_update f2 s) = rhr_in_update f2 (settle s)"
  "uart_wr (settle s) = uart_wr s"
  "settle (uart_wr_update f3 s) = uart_wr_update f3 (settle s)"
  "panicked (settle s) = panicked s"
  "settle (panicked_update f4 s) = panicked_update f4 (settle s)"
  "pr_locking (settle s) = pr_locking s"
  "settle (pr_locking_update f5 s) = pr_locking_update f5 (settle s)"
  by (simp_all add: settle_def intr_defs cpu_defs)

lemma con_machine [simp]:
  "free_lock (lsr_in_update f1 s) lk = free_lock s lk"
  "cpu_ok (lsr_in_update f1 s) = cpu_ok s"
  "mycpu (lsr_in_update f1 s) = mycpu s"
  "cpuid (lsr_in_update f1 s) = cpuid s"
  "intr_get (lsr_in_update f1 s) = intr_get s"
  "holding lk (lsr_in_update f1 s) = holding lk s"
  "free_lock (rhr_in_update f2 s) lk = free_lock s lk"
  "cpu_ok (rhr_in_update f2 s) = cpu_ok s"
  "mycpu (rhr_in_update f2 s) = mycpu s"
  "cpuid (rhr_in_update f2 s) = cpuid s"
  "intr_get (rhr_in_update f2 s) = intr_get s"
  "holding lk (rhr_in_update f2 s) = holding lk s"
  "free_lock (uart_wr_update f3 s) lk = free_lock s lk"
  "cpu_ok (uart_wr_update f3 s) = cpu_ok s"
  "mycpu (uart_wr_update f3 s) = mycpu s"
  "cpuid (uart_wr_update f3 s) = cpuid s"
  "intr_get (uart_wr_update f3 s) = intr_get s"
  "holding lk (uart_wr_update f3 s) = holding lk s"
  "free_lock (panicked_update f4 s) lk = free_lock s lk"
  "cpu_ok (panicked_update f4 s) = cpu_ok s"
  "mycpu (panicked_update f4 s) = mycpu s"
  "cpuid (panicked_update f4 s) = cpuid s"
  "intr_get (panicked_update f4 s) = intr_get s"
  "holding lk (panicked_update f4 s) = holding lk s"
  "free_lock (pr_locking_update f5 s) lk = free_lock s lk"
  "cpu_ok (pr_locking_update f5 s) = cpu_ok s"
  "mycpu (pr_locking_update f5 s) = mycpu s"
  "cpuid (pr_locking_update f5 s) = cpuid s"
  "intr_get (pr_locking_update f5 s) = intr_get s"
  "holding lk (pr_locking_update f5 s) = holding lk s"
  by (simp_all add: free_lock_def cpu_ok_def holding_def cpu_defs intr_defs)

section \<open>Numbers\<close>

text \<open>Reading back what \<^verbatim>\<open>printint\<close> prints.\<close>

definition digit_val :: "u8 \<Rightarrow> nat" where
  "digit_val c = (if c < 0x3A then unat c - 0x30 else unat c - 0x61 + 10)"

definition numeral_val :: "nat \<Rightarrow> u8 list \<Rightarrow> nat" where
  "numeral_val base cs = foldl (\<lambda>v c. v * base + digit_val c) 0 cs"

definition signed_val :: "nat \<Rightarrow> u8 list \<Rightarrow> int" where
  "signed_val base cs =
     (case cs of [] \<Rightarrow> 0
      | c # cs' \<Rightarrow> if c = 0x2D then - int (numeral_val base cs') else int (numeral_val base cs))"

lemma digit_of: "d < 16 \<Longrightarrow> digit_val (digits ! d) = d \<and> digits ! d \<noteq> 0x2D"
proof -
  assume "d < 16"
  then have "d \<in> set [0..<16]" by simp
  moreover have "\<forall>d \<in> set [0..<16]. digit_val (digits ! d) = d \<and> digits ! d \<noteq> 0x2D"
    by (simp add: digits_def bytes_def digit_val_def upt_rec)
  ultimately show ?thesis by blast
qed

lemma numeral_val_rev:
  assumes "2 \<le> base" "base \<le> 16"
  shows "numeral_val base (rev (rev_digits base x)) = x"
proof (induction x rule: less_induct)
  case (less x)
  have m: "x mod base < 16" using assms mod_less_divisor [of base x] by linarith
  show ?case
  proof (cases "x div base = 0")
    case True
    then have "x mod base = x" using assms by (simp add: div_eq_0_iff)
    with True digit_of [OF m] show ?thesis by (subst rev_digits.simps) (simp add: numeral_val_def)
  next
    case False
    then have "x div base < x" using assms by (intro div_step) auto
    from less.IH [OF this] False assms digit_of [OF m] show ?thesis
      by (subst rev_digits.simps) (simp add: numeral_val_def)
  qed
qed

lemma rev_digits_length:
  "2 \<le> base \<Longrightarrow> x < base ^ n \<Longrightarrow> 0 < n \<Longrightarrow> length (rev_digits base x) \<le> n"
proof (induction n arbitrary: x)
  case (Suc n)
  show ?case
  proof (cases "x div base = 0 \<or> n = 0")
    case True
    then have "x div base = 0" using Suc.prems by auto
    then show ?thesis by (subst rev_digits.simps) simp
  next
    case False
    have "x div base < base ^ n" using Suc.prems by (simp add: less_mult_imp_div_less mult.commute)
    with Suc False show ?thesis by (subst rev_digits.simps) simp
  qed
qed simp

lemma rev_digits_set: "2 \<le> base \<Longrightarrow> base \<le> 16 \<Longrightarrow> c \<in> set (rev_digits base x) \<Longrightarrow> c \<noteq> 0x2D"
proof (induction x rule: less_induct)
  case (less x)
  have m: "x mod base < 16" using less.prems mod_less_divisor [of base x] by linarith
  show ?case
  proof (cases "x div base = 0")
    case True
    with less.prems(3) digit_of [OF m] show ?thesis by (subst (asm) rev_digits.simps) simp
  next
    case False
    then have "x div base < x" using less.prems by (intro div_step) auto
    with less.IH less.prems False digit_of [OF m] show ?thesis
      by (subst (asm) rev_digits.simps) auto
  qed
qed

lemma uint_of_int_small: "0 \<le> k \<Longrightarrow> k < 2 ^ 32 \<Longrightarrow> uint (word_of_int k :: u32) = k"
  by (simp add: uint_word_of_int_eq take_bit_int_eq_self)

lemma neg_unat: "sint (xx :: u32) < 0 \<Longrightarrow> int (unat (- xx)) = - sint xx"
  using uint_of_int_small [of "- sint xx"] sint_greater_eq [of xx] by simp

lemma nonneg_unat: "\<not> sint (xx :: u32) < 0 \<Longrightarrow> int (unat xx) = sint xx"
  using uint_of_int_small [of "sint xx"] sint_less [of xx] by simp

lemma rev_digits_nonempty: "rev_digits base x \<noteq> []"
  by (subst rev_digits.simps) simp

text \<open>
  Property C16. \<^verbatim>\<open>printint\<close> in the bases the kernel uses never writes past its 16-byte buffer, for
  every 32-bit argument, the smallest integer included, and what it prints reads back as the
  argument, as a signed number when it was asked to print one.
\<close>

theorem printint_fits_and_reads_back:
  assumes "base = 10 \<or> base = 16"
  shows "length (printint_buf xx base sign) \<le> 16 \<and>
    signed_val base (rev (printint_buf xx base sign)) = (if sign then sint xx else uint xx)"
proof
  let ?neg = "sign \<and> sint xx < 0"
  let ?x = "if ?neg then - xx else xx"
  have b: "2 \<le> base" "base \<le> 16" using assms by auto
  have "unat ?x < base ^ 15"
  proof -
    have "unat ?x < 2 ^ 32" using unsigned_less [of ?x, where 'a = nat] by simp
    also have "(2::nat) ^ 32 \<le> 10 ^ 15" by simp
    also have "(10::nat) ^ 15 \<le> base ^ 15" using assms by (intro power_mono) auto
    finally show ?thesis .
  qed
  from rev_digits_length [OF b(1) this] show "length (printint_buf xx base sign) \<le> 16"
    by (auto simp: printint_buf_def Let_def bytes_def)
  have val: "numeral_val base (rev (rev_digits base (unat ?x))) = unat ?x" using b by (rule numeral_val_rev)
  show "signed_val base (rev (printint_buf xx base sign)) = (if sign then sint xx else uint xx)"
  proof (cases ?neg)
    case True
    then have "rev (printint_buf xx base sign) = 0x2D # rev (rev_digits base (unat (- xx)))"
      by (simp add: printint_buf_def Let_def bytes_def)
    with True val have "signed_val base (rev (printint_buf xx base sign)) = - int (unat (- xx))"
      by (simp add: signed_val_def)
    also have "\<dots> = sint xx" using True neg_unat by simp
    finally show ?thesis using True by simp
  next
    case False
    let ?r = "rev (rev_digits base (unat xx))"
    have r: "rev (printint_buf xx base sign) = ?r"
      using False by (auto simp: printint_buf_def Let_def)
    have "signed_val base ?r = int (numeral_val base ?r)"
    proof (cases ?r)
      case (Cons c cs)
      then have "c \<in> set (rev_digits base (unat xx))" by (metis list.set_intros(1) set_rev)
      then have "c \<noteq> 0x2D" by (rule rev_digits_set [OF b])
      with Cons show ?thesis by (simp add: signed_val_def)
    qed (simp add: rev_digits_nonempty)
    with r val False nonneg_unat show ?thesis by auto
  qed
qed

theorem printint_fits_and_reads_back_witness:
  "length (printint_buf 0x80000000 10 True) \<le> 16 \<and>
   signed_val 10 (rev (printint_buf 0x80000000 10 True)) = - 2147483648"
  using printint_fits_and_reads_back [of 10 "0x80000000" True] by simp

section \<open>What printf sends\<close>

text \<open>The text that a format and its arguments stand for.\<close>

fun format_text :: "u8 list \<Rightarrow> vararg list \<Rightarrow> u8 list" where
  "format_text [] ap = []"
| "format_text [c] ap = (if c = 0x25 then [] else [c])"
| "format_text (c # d # fmt) ap =
     (if c \<noteq> 0x25 then c # format_text (d # fmt) ap
      else if d = 0x64 then rev (printint_buf (va_int ap) 10 True) @ format_text fmt (tl ap)
      else if d = 0x78 then rev (printint_buf (va_int ap) 16 True) @ format_text fmt (tl ap)
      else if d = 0x70 then bytes ''0x'' @ hex_digits 16 (va_ptr ap) @ format_text fmt (tl ap)
      else if d = 0x73 then (case va_str ap of None \<Rightarrow> bytes ''(null)'' | Some t \<Rightarrow> t) @ format_text fmt (tl ap)
      else if d = 0x25 then 0x25 # format_text fmt ap
      else 0x25 # d # format_text fmt ap)"

text \<open>The status readings left after \<open>n\<close> bytes were sent.\<close>

primrec tx_waits :: "nat \<Rightarrow> u8 list \<Rightarrow> u8 list option" where
  "tx_waits 0 xs = Some xs"
| "tx_waits (Suc n) xs = (case tx_wait xs of None \<Rightarrow> None | Some ys \<Rightarrow> tx_waits n ys)"

lemma tx_waits_add:
  "tx_waits (n + k) xs = (case tx_waits n xs of None \<Rightarrow> None | Some ys \<Rightarrow> tx_waits k ys)"
  by (induction n arbitrary: xs) (auto split: option.splits)

text \<open>\<open>sent cs ys s t\<close>: from \<open>s\<close> to \<open>t\<close> the bytes \<open>cs\<close> were sent and the readings \<open>ys\<close> remain.\<close>

definition sent :: "u8 list \<Rightarrow> u8 list \<Rightarrow> 'a con_st_scheme \<Rightarrow> 'a con_st_scheme \<Rightarrow> bool" where
  "sent cs ys s t \<longleftrightarrow> t = (if cs = [] then s else settle s)\<lparr>lsr_in := ys, uart_wr := uart_wr s @ map (Pair THR) cs\<rparr>"

lemma pop_push: "cpu_ok s \<Longrightarrow> pop_off (push_off s) = Done () (settle s)"
  by (auto simp: cpu_ok_def pop_off_def push_off_def settle_def intr_defs cpu_defs Let_def SIE_bits
      SIE_restore fun_upd_idem_iff)

lemma uartputc_sync_ready:
  assumes "cpu_ok s" "\<not> panicked s" "tx_wait (lsr_in s) = Some ys"
  shows "\<exists>t. uartputc_sync (uint c) s = Done () t \<and> sent [c] ys s t"
  using assms pop_push [of "s\<lparr>lsr_in := ys, uart_wr := uart_wr s @ [(THR, c)]\<rparr>"]
  by (simp add: uartputc_sync_def Let_def WriteReg_def sent_def)

lemma sent_ok: "sent cs ys s t \<Longrightarrow> cpu_ok t = cpu_ok s" "sent cs ys s t \<Longrightarrow> panicked t = panicked s"
  "sent cs ys s t \<Longrightarrow> lsr_in t = ys"
  by (simp_all add: sent_def)

lemma sent_trans: "sent cs ys s t \<Longrightarrow> sent ds zs t u \<Longrightarrow> sent (cs @ ds) zs s u"
  by (auto simp: sent_def)

lemma consputs_ready:
  "cpu_ok s \<Longrightarrow> \<not> panicked s \<Longrightarrow> tx_waits (length cs) (lsr_in s) = Some ys \<Longrightarrow>
   \<exists>t. consputs cs s = Done () t \<and> sent cs ys s t"
proof (induction cs arbitrary: s)
  case Nil
  then show ?case by (simp add: sent_def)
next
  case (Cons c cs)
  then obtain zs where z: "tx_wait (lsr_in s) = Some zs" "tx_waits (length cs) zs = Some ys"
    by (auto split: option.splits)
  from uartputc_sync_ready [OF Cons.prems(1,2) z(1), of c] obtain t where
    t: "uartputc_sync (uint c) s = Done () t" "sent [c] zs s t" by blast
  from Cons.IH [of t] sent_ok [OF t(2)] Cons.prems(1,2) z(2) obtain u where
    u: "consputs cs t = Done () u" "sent cs ys t u" by auto
  have "uint c \<noteq> BACKSPACE" using unsigned_less [of c, where 'a = int] by (simp add: BACKSPACE_def)
  with t(1) u(1) sent_trans [OF t(2) u(2)] show ?case by (simp add: consputc_def)
qed

lemma consputc_ready:
  "cpu_ok s \<Longrightarrow> \<not> panicked s \<Longrightarrow> tx_waits 1 (lsr_in s) = Some ys \<Longrightarrow>
   \<exists>t. consputc (uint c) s = Done () t \<and> sent [c] ys s t"
  using consputs_ready [of s "[c]" ys] by (cases "consputc (uint c) s") auto

text \<open>Printing one piece of the output and going on.\<close>

lemma piece:
  assumes ok: "cpu_ok s" "\<not> panicked s" and w: "tx_waits (length (cs @ ds)) (lsr_in s) = Some ys"
    and first: "\<And>zs. tx_waits (length cs) (lsr_in s) = Some zs \<Longrightarrow> \<exists>t. m = Done () t \<and> sent cs zs s t"
    and rest: "\<And>t. m = Done () t \<Longrightarrow> cpu_ok t \<Longrightarrow> \<not> panicked t \<Longrightarrow> tx_waits (length ds) (lsr_in t) = Some ys \<Longrightarrow>
      \<exists>u. f () t = Done () u \<and> sent ds ys t u"
  shows "\<exists>u. bnd m f = Done () u \<and> sent (cs @ ds) ys s u"
proof -
  obtain zs where z: "tx_waits (length cs) (lsr_in s) = Some zs" "tx_waits (length ds) zs = Some ys"
    using w by (auto simp: tx_waits_add split: option.splits)
  from first [OF z(1)] obtain t where t: "m = Done () t" "sent cs zs s t" by blast
  from rest [OF t(1)] sent_ok [OF t(2)] ok z(2) obtain u where "f () t = Done () u" "sent ds ys t u" by auto
  with t sent_trans [OF t(2)] show ?thesis by auto
qed

lemma printf_loop_ready:
  "cpu_ok s \<Longrightarrow> \<not> panicked s \<Longrightarrow> tx_waits (length (format_text fmt ap)) (lsr_in s) = Some ys \<Longrightarrow>
   \<exists>t. printf_loop fmt ap s = Done () t \<and> sent (format_text fmt ap) ys s t"
proof (induction fmt ap s rule: printf_loop.induct)
  case (1 ap s)
  then show ?case by (simp add: sent_def)
next
  case (2 c ap s)
  then show ?case using consputc_ready [of s ys c] by (auto simp: sent_def)
next
  case (3 c d fmt ap s)
  note ok = 3(8,9) and w = 3(10)
  consider "c \<noteq> 0x25" | "c = 0x25" "d = 0x64" | "c = 0x25" "d = 0x78" | "c = 0x25" "d = 0x70"
    | "c = 0x25" "d = 0x73" | "c = 0x25" "d = 0x25"
    | "c = 0x25" "d \<noteq> 0x64" "d \<noteq> 0x78" "d \<noteq> 0x70" "d \<noteq> 0x73" "d \<noteq> 0x25" by blast
  then show ?case
  proof cases
    case 1
    have "\<exists>t. bnd (consputc (uint c) s) (\<lambda>_ s1. printf_loop (d # fmt) ap s1) = Done () t \<and>
        sent ([c] @ format_text (d # fmt) ap) ys s t"
      by (rule piece [OF ok]) (use w 1 consputc_ready [OF ok] 3(1) in auto)
    with 1 show ?thesis by simp
  next
    case 2
    have "\<exists>t. bnd (printint (va_int ap) 10 True s) (\<lambda>_ s1. printf_loop fmt (tl ap) s1) = Done () t \<and>
        sent (rev (printint_buf (va_int ap) 10 True) @ format_text fmt (tl ap)) ys s t"
      by (rule piece [OF ok]) (use w 2 consputs_ready [OF ok] 3(2) in \<open>auto simp: printint_def\<close>)
    with 2 show ?thesis by simp
  next
    case h: 3
    have "\<exists>t. bnd (printint (va_int ap) 16 True s) (\<lambda>_ s1. printf_loop fmt (tl ap) s1) = Done () t \<and>
        sent (rev (printint_buf (va_int ap) 16 True) @ format_text fmt (tl ap)) ys s t"
      by (rule piece [OF ok]) (use w h consputs_ready [OF ok] 3(3) in \<open>auto simp: printint_def\<close>)
    with h show ?thesis by simp
  next
    case 4
    have "\<exists>t. bnd (printptr (va_ptr ap) s) (\<lambda>_ s1. printf_loop fmt (tl ap) s1) = Done () t \<and>
        sent ((bytes ''0x'' @ hex_digits 16 (va_ptr ap)) @ format_text fmt (tl ap)) ys s t"
      by (rule piece [OF ok])
         (use w 4 consputs_ready [OF ok, of "bytes ''0x'' @ hex_digits 16 (va_ptr ap)"] 3(4) in \<open>auto simp: printptr_def\<close>)
    with 4 show ?thesis by simp
  next
    case 5
    have "\<exists>t. bnd (consputs (case va_str ap of None \<Rightarrow> bytes ''(null)'' | Some t \<Rightarrow> t) s) (\<lambda>_ s1. printf_loop fmt (tl ap) s1) = Done () t \<and>
        sent ((case va_str ap of None \<Rightarrow> bytes ''(null)'' | Some t \<Rightarrow> t) @ format_text fmt (tl ap)) ys s t"
      by (rule piece [OF ok]) (use w 5 consputs_ready [OF ok] 3(5) in auto)
    with 5 show ?thesis by simp
  next
    case 6
    have "\<exists>t. bnd (consputc (uint (0x25 :: u8)) s) (\<lambda>_ s1. printf_loop fmt ap s1) = Done () t \<and>
        sent ([0x25] @ format_text fmt ap) ys s t"
      by (rule piece [OF ok]) (use w 6 consputc_ready [OF ok, where c = "0x25"] 3(6) in auto)
    with 6 show ?thesis by simp
  next
    case 7
    have "\<exists>t. bnd (consputc (uint (0x25 :: u8)) s)
          (\<lambda>_ s1. bnd (consputc (uint d) s1) (\<lambda>_ s2. printf_loop fmt ap s2)) = Done () t \<and>
        sent ([0x25] @ ([d] @ format_text fmt ap)) ys s t"
    proof (rule piece [OF ok])
      fix t assume t: "consputc (uint (0x25 :: u8)) s = Done () t" "cpu_ok t" "\<not> panicked t"
        "tx_waits (length ([d] @ format_text fmt ap)) (lsr_in t) = Some ys"
      show "\<exists>u. bnd (consputc (uint d) t) (\<lambda>_ s2. printf_loop fmt ap s2) = Done () u \<and>
          sent ([d] @ format_text fmt ap) ys t u"
        by (rule piece [OF t(2,3)]) (use t 7 consputc_ready [OF t(2,3)] 3(7) in auto)
    qed (use w 7 consputc_ready [OF ok, where c = "0x25"] in auto)
    with 7 show ?thesis by simp
  qed
qed

lemma lock_on_ok [simp]: "cpu_ok s \<Longrightarrow> cpu_ok (lock_on lk s)"
  by (simp add: lock_on_def cpu_ok_def acquire_own_def acquire_swap_def)

lemma settle_lock_on [simp]: "cpu_ok s \<Longrightarrow> settle (lock_on lk s) = lock_on lk s"
  by (simp add: settle_def lock_on_def cpu_ok_def acquire_own_def acquire_swap_def)

text \<open>
  Property C15. \<^verbatim>\<open>printf\<close> on a console whose transmitter keeps becoming idle returns, sends exactly
  the text of its format and arguments to the UART, byte by byte in order, and leaves the
  interrupt state and the lock \<^verbatim>\<open>pr.lock\<close> as they were.
\<close>

theorem printf_sends_text:
  assumes "cpu_ok s" "\<not> panicked s" "free_lock s PrLock"
    and "tx_waits (length (format_text fmt ap)) (lsr_in s) = Some ys"
  shows "\<exists>t. printf (Some fmt) ap s = Done () t \<and> lsr_in t = ys \<and>
    uart_wr t = uart_wr s @ map (Pair THR) (format_text fmt ap) \<and>
    locks t PrLock = locks s PrLock \<and> intr_get t = intr_get s \<and> noff (mycpu t) = noff (mycpu s)"
proof (cases "pr_locking s")
  case True
  let ?s = "lock_on PrLock s"
  from printf_loop_ready [of ?s fmt ap ys] assms obtain t where
    t: "printf_loop fmt ap ?s = Done () t" "sent (format_text fmt ap) ys ?s t" by auto
  let ?u = "s\<lparr>lsr_in := ys, uart_wr := uart_wr s @ map (Pair THR) (format_text fmt ap)\<rparr>"
  have "t = lock_on PrLock ?u" using t(2) assms(1) by (simp add: sent_def)
  then have "printf (Some fmt) ap s = Done () (settle ?u)"
    using t(1) True assms(1,3) by (simp add: printf_def acquire_free release_lock_on)
  then show ?thesis by simp
next
  case False
  from printf_loop_ready [OF assms(1,2,4)] obtain t where
    t: "printf_loop fmt ap s = Done () t" "sent (format_text fmt ap) ys s t" by blast
  then have "printf (Some fmt) ap s = Done () t" using False by (simp add: printf_def)
  with t(2) show ?thesis by (simp add: sent_def)
qed

definition boot_con :: con_st where
  "boot_con = kmem_st.extend boot_kmem
     \<lparr>kernel_pagetable = 0, etext = 0x80008000, trampoline = 0x80007000,
      lsr_in = replicate 200 LSR_TX_IDLE, rhr_in = [], uart_wr = [], panicked = False, pr_locking = True\<rparr>"

lemma boot_con_simps [simp]:
  "cpu_ok boot_con" "free_lock boot_con lk" "\<not> panicked boot_con" "pr_locking boot_con"
  "lsr_in boot_con = replicate 200 LSR_TX_IDLE" "uart_wr boot_con = []"
  by (simp_all add: boot_con_def kmem_st.defs boot_kmem_def machine.defs boot_machine_def free_lock_def
      cpu_ok_def cpu_defs quiet_cpu_def)

lemma tx_waits_idle: "n \<le> k \<Longrightarrow> tx_waits n (replicate k LSR_TX_IDLE) = Some (replicate (k - n) LSR_TX_IDLE)"
proof (induction n arbitrary: k)
  case (Suc n)
  then obtain j where "k = Suc j" by (cases k) auto
  with Suc show ?case by (simp add: LSR_TX_IDLE_def)
qed simp

theorem printf_sends_text_witness:
  "\<exists>t. printf (Some (bytes ''hart %d starting'')) [VInt 1] boot_con = Done () t \<and>
     uart_wr t = map (Pair THR) (bytes ''hart 1 starting'')"
proof -
  have shown: "format_text (bytes ''hart %d starting'') [VInt 1] = bytes ''hart 1 starting''"
    by (simp add: bytes_def printint_buf_def rev_digits.simps [of 10 "Suc 0"] digits_def)
  have "tx_waits (length (format_text (bytes ''hart %d starting'') [VInt 1])) (lsr_in boot_con) =
      Some (replicate 185 LSR_TX_IDLE)"
    unfolding shown by (simp add: tx_waits_idle bytes_def del: tx_waits.simps)
  from printf_sends_text [OF _ _ _ this] show ?thesis by (auto simp: shown)
qed

end
