(* ===== verification/Proc.thy ===== *)
theory Proc
  imports Printf
begin

text \<open>
  \<^verbatim>\<open>kernel/proc.c\<close> without the parts that use the file system: the process table, allocation and
  freeing of processes, sleeping and waking, the scheduler, \<^verbatim>\<open>wait\<close>, \<^verbatim>\<open>kill\<close>; and
  \<^verbatim>\<open>kernel/sleeplock.c\<close>.

  A process is its index in \<^verbatim>\<open>proc[NPROC]\<close>. A call of \<^verbatim>\<open>swtch\<close> gives the hart to another kernel
  thread: the outcome is \<^term>\<open>Waits Switched\<close> with the state in which the thread left, and what the
  thread does when it is switched back to is a definition of its own (\<open>sleep_resume\<close>,
  \<open>yield_resume\<close>, \<open>scheduler_back\<close>). Using the null pointer that \<^verbatim>\<open>myproc\<close> returns when no process
  runs faults, which \<^verbatim>\<open>kerneltrap\<close> turns into a panic.
\<close>

section \<open>The process table\<close>

datatype procstate = UNUSED | USED | SLEEPING | RUNNABLE | RUNNING | ZOMBIE

record swtch_context =
  ra :: u64
  sp :: u64
  callee_saved :: "u64 list"

record proc =
  pstate :: procstate
  pchan :: "chan option"
  pkilled :: u32
  xstate :: u32
  pid :: u32
  parent :: "nat option"
  kstack :: u64
  sz :: u64
  pagetable :: u64
  trapframe :: u64
  pcontext :: swtch_context
  ofile :: "nat \<Rightarrow> nat option"
  cwd :: "nat option"
  pname :: "u8 list"

record sleeplock =
  sl_locked :: bool
  sl_name :: string
  sl_pid :: u32

record proc_st = con_st +
  procs :: "nat \<Rightarrow> proc"
  nextpid :: u32
  initproc :: "nat option"
  ticks :: u32
  forkret_addr :: u64
  sleeplocks :: "sleeplockid \<Rightarrow> sleeplock"

definition set_proc :: "nat \<Rightarrow> (proc \<Rightarrow> proc) \<Rightarrow> 'a proc_st_scheme \<Rightarrow> 'a proc_st_scheme" where
  "set_proc p f s = s\<lparr>procs := (procs s)(p := f (procs s p))\<rparr>"

primrec procinit_loop :: "nat list \<Rightarrow> 'a proc_st_scheme \<Rightarrow> 'a proc_st_scheme" where
  "procinit_loop [] s = s"
| "procinit_loop (p # ps) s =
     procinit_loop ps (set_proc p (\<lambda>x. x\<lparr>pstate := UNUSED, kstack := KSTACK p\<rparr>) (initlock (ProcLock p) ''proc'' s))"

definition procinit :: "'a proc_st_scheme \<Rightarrow> 'a proc_st_scheme" where
  "procinit s = procinit_loop [0..<NPROC] (initlock WaitLock ''wait_lock'' (initlock PidLock ''nextpid'' s))"

definition myproc :: "'a proc_st_scheme \<Rightarrow> (nat option, 'a proc_st_scheme) out" where
  "myproc s = (let s1 = push_off s; p = c_proc (mycpu s1) in bnd (pop_off s1) (\<lambda>_ s2. Done p s2))"

definition myproc_deref :: "(nat \<Rightarrow> 'a proc_st_scheme \<Rightarrow> ('b, 'a proc_st_scheme) out) \<Rightarrow> 'a proc_st_scheme \<Rightarrow>
    ('b, 'a proc_st_scheme) out" where
  "myproc_deref f s = bnd (myproc s) (\<lambda>p s1. case p of None \<Rightarrow> Panic ''kerneltrap'' | Some q \<Rightarrow> f q s1)"

definition allocpid :: "'a proc_st_scheme \<Rightarrow> (u32, 'a proc_st_scheme) out" where
  "allocpid s =
     bnd (acquire PidLock s) (\<lambda>_ s1.
       let p = nextpid s1
       in bnd (release PidLock (s1\<lparr>nextpid := nextpid s1 + 1\<rparr>)) (\<lambda>_ s2. Done p s2))"

definition proc_pagetable :: "nat \<Rightarrow> 'a proc_st_scheme \<Rightarrow> (u64, 'a proc_st_scheme) out" where
  "proc_pagetable p s =
     bnd (uvmcreate s) (\<lambda>pt s1.
       if pt = 0 then Done 0 s1
       else bnd (mappages pt TRAMPOLINE PGSIZE (trampoline s1) (or PTE_R PTE_X) s1) (\<lambda>r s2.
         if r < 0 then bnd (uvmfree pt 0 s2) (\<lambda>_ s3. Done 0 s3)
         else bnd (mappages pt TRAPFRAME PGSIZE (trapframe (procs s2 p)) (or PTE_R PTE_W) s2) (\<lambda>r s3.
           if r < 0
           then bnd (uvmunmap pt TRAMPOLINE 1 False s3) (\<lambda>_ s4. bnd (uvmfree pt 0 s4) (\<lambda>_ s5. Done 0 s5))
           else Done pt s3)))"

definition proc_freepagetable :: "u64 \<Rightarrow> u64 \<Rightarrow> 'a proc_st_scheme \<Rightarrow> (unit, 'a proc_st_scheme) out" where
  "proc_freepagetable pt size0 s =
     bnd (uvmunmap pt TRAMPOLINE 1 False s) (\<lambda>_ s1.
     bnd (uvmunmap pt TRAPFRAME 1 False s1) (\<lambda>_ s2. uvmfree pt size0 s2))"

definition freeproc :: "nat \<Rightarrow> 'a proc_st_scheme \<Rightarrow> (unit, 'a proc_st_scheme) out" where
  "freeproc p s =
     bnd (if trapframe (procs s p) \<noteq> 0 then kfree (trapframe (procs s p)) s else Done () s) (\<lambda>_ s1.
       let s2 = set_proc p (\<lambda>x. x\<lparr>trapframe := 0\<rparr>) s1
       in bnd (if pagetable (procs s2 p) \<noteq> 0
               then proc_freepagetable (pagetable (procs s2 p)) (sz (procs s2 p)) s2
               else Done () s2) (\<lambda>_ s3.
            Done () (set_proc p (\<lambda>x. x\<lparr>pagetable := 0, sz := 0, pid := 0, parent := None,
              pname := (pname x)[0 := 0], pchan := None, pkilled := 0, xstate := 0, pstate := UNUSED\<rparr>) s3)))"

text \<open>The search of \<^verbatim>\<open>allocproc\<close>: the index of an unused slot, with its lock held.\<close>

primrec allocproc_find :: "nat list \<Rightarrow> 'a proc_st_scheme \<Rightarrow> (nat option, 'a proc_st_scheme) out" where
  "allocproc_find [] s = Done None s"
| "allocproc_find (p # ps) s =
     bnd (acquire (ProcLock p) s) (\<lambda>_ s1.
       if pstate (procs s1 p) = UNUSED then Done (Some p) s1
       else bnd (release (ProcLock p) s1) (\<lambda>_ s2. allocproc_find ps s2))"

text \<open>The exits of \<^verbatim>\<open>allocproc\<close> when a page cannot be allocated.\<close>

definition allocproc_fail :: "nat \<Rightarrow> 'a proc_st_scheme \<Rightarrow> (nat option, 'a proc_st_scheme) out" where
  "allocproc_fail p s =
     bnd (freeproc p s) (\<lambda>_ s1. bnd (release (ProcLock p) s1) (\<lambda>_ s2. Done None s2))"

definition zero_context :: swtch_context where
  "zero_context = \<lparr>ra = 0, sp = 0, callee_saved = replicate 12 0\<rparr>"

definition allocproc :: "'a proc_st_scheme \<Rightarrow> (nat option, 'a proc_st_scheme) out" where
  "allocproc s =
     bnd (allocproc_find [0..<NPROC] s) (\<lambda>r s0. case r of
       None \<Rightarrow> Done None s0
     | Some p \<Rightarrow>
       bnd (allocpid s0) (\<lambda>n s1.
       bnd (kalloc (set_proc p (\<lambda>x. x\<lparr>pid := n, pstate := USED\<rparr>) s1)) (\<lambda>tf s2.
         let s3 = set_proc p (\<lambda>x. x\<lparr>trapframe := tf\<rparr>) s2
         in if tf = 0 then allocproc_fail p s3
            else bnd (proc_pagetable p s3) (\<lambda>pt s4.
              let s5 = set_proc p (\<lambda>x. x\<lparr>pagetable := pt\<rparr>) s4
              in if pt = 0 then allocproc_fail p s5
                 else Done (Some p) (set_proc p (\<lambda>x. x\<lparr>pcontext := zero_context\<lparr>ra := forkret_addr s5,
                        sp := kstack x + PGSIZE\<rparr>\<rparr>) s5)))))"

definition growproc :: "u32 \<Rightarrow> 'a proc_st_scheme \<Rightarrow> (int, 'a proc_st_scheme) out" where
  "growproc n s =
     myproc_deref (\<lambda>p s1.
       let sz0 = sz (procs s1 p); pt = pagetable (procs s1 p)
       in if sint n > 0
          then bnd (uvmalloc pt sz0 (sz0 + scast n) PTE_W s1) (\<lambda>sz1 s2.
            if sz1 = 0 then Done (-1) s2 else Done 0 (set_proc p (\<lambda>x. x\<lparr>sz := sz1\<rparr>) s2))
          else if sint n < 0
          then bnd (uvmdealloc pt sz0 (sz0 + scast n) s1) (\<lambda>sz1 s2.
            Done 0 (set_proc p (\<lambda>x. x\<lparr>sz := sz1\<rparr>) s2))
          else Done 0 (set_proc p (\<lambda>x. x\<lparr>sz := sz0\<rparr>) s1)) s"

section \<open>Switching\<close>

definition sched :: "'a proc_st_scheme \<Rightarrow> (unit, 'a proc_st_scheme) out" where
  "sched s =
     myproc_deref (\<lambda>p s1.
       if \<not> holding (ProcLock p) s1 then Panic ''sched p->lock''
       else if noff (mycpu s1) \<noteq> 1 then Panic ''sched locks''
       else if pstate (procs s1 p) = RUNNING then Panic ''sched running''
       else if intr_get s1 then Panic ''sched interruptible''
       else Waits Switched s1) s"

text \<open>Back from \<^verbatim>\<open>swtch\<close> in \<^verbatim>\<open>sched\<close>, with the \<^verbatim>\<open>intena\<close> the thread had saved.\<close>

definition sched_resume :: "bool \<Rightarrow> 'a proc_st_scheme \<Rightarrow> 'a proc_st_scheme" where
  "sched_resume old s = set_mycpu ((mycpu s)\<lparr>intena := old\<rparr>) s"

definition yield :: "'a proc_st_scheme \<Rightarrow> (unit, 'a proc_st_scheme) out" where
  "yield s =
     myproc_deref (\<lambda>p s1.
       bnd (acquire (ProcLock p) s1) (\<lambda>_ s2. sched (set_proc p (\<lambda>x. x\<lparr>pstate := RUNNABLE\<rparr>) s2))) s"

definition yield_resume :: "nat \<Rightarrow> bool \<Rightarrow> 'a proc_st_scheme \<Rightarrow> (unit, 'a proc_st_scheme) out" where
  "yield_resume p old s = release (ProcLock p) (sched_resume old s)"

text \<open>
  The steps of \<^verbatim>\<open>sleep\<close> and of one round of \<^verbatim>\<open>wakeup\<close> between which other harts may run, in the order of
  the code; run without interruption they are the function.
\<close>

primrec run_steps :: "('s \<Rightarrow> (unit, 's) out) list \<Rightarrow> 's \<Rightarrow> (unit, 's) out" where
  "run_steps [] s = Done () s"
| "run_steps (f # fs) s = bnd (f s) (\<lambda>_ s1. run_steps fs s1)"

definition sleep_steps :: "chan \<Rightarrow> lockid \<Rightarrow> nat \<Rightarrow> ('a proc_st_scheme \<Rightarrow> (unit, 'a proc_st_scheme) out) list" where
  "sleep_steps ch lk p =
     [acquire (ProcLock p),
      release lk,
      \<lambda>s. sched (set_proc p (\<lambda>x. x\<lparr>pchan := Some ch, pstate := SLEEPING\<rparr>) s)]"

definition sleep :: "chan \<Rightarrow> lockid \<Rightarrow> 'a proc_st_scheme \<Rightarrow> (unit, 'a proc_st_scheme) out" where
  "sleep ch lk s = myproc_deref (\<lambda>p s1. run_steps (sleep_steps ch lk p) s1) s"

definition sleep_resume :: "nat \<Rightarrow> lockid \<Rightarrow> bool \<Rightarrow> 'a proc_st_scheme \<Rightarrow> (unit, 'a proc_st_scheme) out" where
  "sleep_resume p lk old s =
     bnd (release (ProcLock p) (set_proc p (\<lambda>x. x\<lparr>pchan := None\<rparr>) (sched_resume old s))) (\<lambda>_ s1.
       acquire lk s1)"

definition wakeup_steps :: "chan option \<Rightarrow> nat \<Rightarrow> ('a proc_st_scheme \<Rightarrow> (unit, 'a proc_st_scheme) out) list" where
  "wakeup_steps ch p =
     [acquire (ProcLock p),
      \<lambda>s. release (ProcLock p) (if pstate (procs s p) = SLEEPING \<and> pchan (procs s p) = ch
                                then set_proc p (\<lambda>x. x\<lparr>pstate := RUNNABLE\<rparr>) s else s)]"

primrec wakeup_loop :: "chan option \<Rightarrow> nat list \<Rightarrow> 'a proc_st_scheme \<Rightarrow> (unit, 'a proc_st_scheme) out" where
  "wakeup_loop ch [] s = Done () s"
| "wakeup_loop ch (p # ps) s =
     bnd (myproc s) (\<lambda>me s1.
       if me \<noteq> Some p
       then bnd (run_steps (wakeup_steps ch p) s1) (\<lambda>_ s2. wakeup_loop ch ps s2)
       else wakeup_loop ch ps s1)"

definition wakeup :: "chan option \<Rightarrow> 'a proc_st_scheme \<Rightarrow> (unit, 'a proc_st_scheme) out" where
  "wakeup ch s = wakeup_loop ch [0..<NPROC] s"

text \<open>
  \<^verbatim>\<open>scheduler\<close>: its entry, one visit of a table slot, and the rest of the visit after the
  process it switched to comes back.
\<close>

definition scheduler_start :: "'a proc_st_scheme \<Rightarrow> 'a proc_st_scheme" where
  "scheduler_start s = intr_on (set_mycpu ((mycpu s)\<lparr>c_proc := None\<rparr>) s)"

definition scheduler_visit :: "nat \<Rightarrow> 'a proc_st_scheme \<Rightarrow> (unit, 'a proc_st_scheme) out" where
  "scheduler_visit p s =
     bnd (acquire (ProcLock p) s) (\<lambda>_ s1.
       if pstate (procs s1 p) = RUNNABLE
       then let s2 = set_proc p (\<lambda>x. x\<lparr>pstate := RUNNING\<rparr>) s1
            in Waits Switched (set_mycpu ((mycpu s2)\<lparr>c_proc := Some p\<rparr>) s2)
       else release (ProcLock p) s1)"

definition scheduler_back :: "nat \<Rightarrow> 'a proc_st_scheme \<Rightarrow> (unit, 'a proc_st_scheme) out" where
  "scheduler_back p s = release (ProcLock p) (set_mycpu ((mycpu s)\<lparr>c_proc := None\<rparr>) s)"

section \<open>Killing and waiting\<close>

primrec kill_loop :: "u32 \<Rightarrow> nat list \<Rightarrow> 'a proc_st_scheme \<Rightarrow> (int, 'a proc_st_scheme) out" where
  "kill_loop n [] s = Done (-1) s"
| "kill_loop n (p # ps) s =
     bnd (acquire (ProcLock p) s) (\<lambda>_ s1.
       if pid (procs s1 p) = n
       then let s2 = set_proc p (\<lambda>x. x\<lparr>pkilled := 1\<rparr>) s1;
                s3 = (if pstate (procs s2 p) = SLEEPING then set_proc p (\<lambda>x. x\<lparr>pstate := RUNNABLE\<rparr>) s2 else s2)
            in bnd (release (ProcLock p) s3) (\<lambda>_ s4. Done 0 s4)
       else bnd (release (ProcLock p) s1) (\<lambda>_ s2. kill_loop n ps s2))"

definition kill :: "u32 \<Rightarrow> 'a proc_st_scheme \<Rightarrow> (int, 'a proc_st_scheme) out" where
  "kill n s = kill_loop n [0..<NPROC] s"

definition setkilled :: "nat \<Rightarrow> 'a proc_st_scheme \<Rightarrow> (unit, 'a proc_st_scheme) out" where
  "setkilled p s =
     bnd (acquire (ProcLock p) s) (\<lambda>_ s1. release (ProcLock p) (set_proc p (\<lambda>x. x\<lparr>pkilled := 1\<rparr>) s1))"

definition killed :: "nat \<Rightarrow> 'a proc_st_scheme \<Rightarrow> (u32, 'a proc_st_scheme) out" where
  "killed p s =
     bnd (acquire (ProcLock p) s) (\<lambda>_ s1.
       let k = pkilled (procs s1 p) in bnd (release (ProcLock p) s1) (\<lambda>_ s2. Done k s2))"

text \<open>
  The scan of \<^verbatim>\<open>wait\<close> over the table: the value to return, or whether there was a child.
\<close>

primrec wait_scan :: "nat \<Rightarrow> u64 \<Rightarrow> nat list \<Rightarrow> bool \<Rightarrow> 'a proc_st_scheme \<Rightarrow>
    (int + bool, 'a proc_st_scheme) out" where
  "wait_scan p addr [] havekids s = Done (Inr havekids) s"
| "wait_scan p addr (pp # pps) havekids s =
     (if parent (procs s pp) = Some p
      then bnd (acquire (ProcLock pp) s) (\<lambda>_ s1.
        if pstate (procs s1 pp) = ZOMBIE
        then let n = pid (procs s1 pp)
             in bnd (if addr \<noteq> 0 then copyout (pagetable (procs s1 p)) addr (le_bytes 4 (xstate (procs s1 pp))) s1
                     else Done 0 s1) (\<lambda>r s2.
                  if r < 0
                  then bnd (release (ProcLock pp) s2) (\<lambda>_ s3. bnd (release WaitLock s3) (\<lambda>_ s4. Done (Inl (-1)) s4))
                  else bnd (freeproc pp s2) (\<lambda>_ s3. bnd (release (ProcLock pp) s3) (\<lambda>_ s4.
                         bnd (release WaitLock s4) (\<lambda>_ s5. Done (Inl (sint n)) s5))))
        else bnd (release (ProcLock pp) s1) (\<lambda>_ s2. wait_scan p addr pps True s2))
      else wait_scan p addr pps havekids s)"

text \<open>One round of the endless loop of \<^verbatim>\<open>wait\<close>; after a \<^verbatim>\<open>sleep\<close> the next round runs.\<close>

definition wait_loop :: "nat \<Rightarrow> u64 \<Rightarrow> 'a proc_st_scheme \<Rightarrow> (int, 'a proc_st_scheme) out" where
  "wait_loop p addr s =
     bnd (wait_scan p addr [0..<NPROC] False s) (\<lambda>r s1. case r of
       Inl v \<Rightarrow> Done v s1
     | Inr havekids \<Rightarrow>
       bnd (if havekids then killed p s1 else Done 1 s1) (\<lambda>k s2.
         if k \<noteq> 0 then bnd (release WaitLock s2) (\<lambda>_ s3. Done (-1) s3)
         else bnd (sleep (ProcChan p) WaitLock s2) (\<lambda>_ s3. Done (-1) s3)))"

definition wait :: "u64 \<Rightarrow> 'a proc_st_scheme \<Rightarrow> (int, 'a proc_st_scheme) out" where
  "wait addr s = myproc_deref (\<lambda>p s1. bnd (acquire WaitLock s1) (\<lambda>_ s2. wait_loop p addr s2)) s"

primrec reparent_loop :: "nat \<Rightarrow> nat list \<Rightarrow> 'a proc_st_scheme \<Rightarrow> (unit, 'a proc_st_scheme) out" where
  "reparent_loop p [] s = Done () s"
| "reparent_loop p (pp # pps) s =
     (if parent (procs s pp) = Some p
      then let s1 = set_proc pp (\<lambda>x. x\<lparr>parent := initproc s\<rparr>) s
           in bnd (wakeup (map_option ProcChan (initproc s1)) s1) (\<lambda>_ s2.
                reparent_loop p pps s2)
      else reparent_loop p pps s)"

definition reparent :: "nat \<Rightarrow> 'a proc_st_scheme \<Rightarrow> (unit, 'a proc_st_scheme) out" where
  "reparent p s = reparent_loop p [0..<NPROC] s"

section \<open>Copies and listings\<close>

definition either_copyout :: "bool \<Rightarrow> u64 \<Rightarrow> u8 list \<Rightarrow> 'a proc_st_scheme \<Rightarrow> (int, 'a proc_st_scheme) out" where
  "either_copyout user_dst dst src s =
     bnd (myproc s) (\<lambda>me s1.
       if user_dst
       then case me of None \<Rightarrow> Panic ''kerneltrap'' | Some p \<Rightarrow> copyout (pagetable (procs s1 p)) dst src s1
       else Done 0 (s1\<lparr>mem := write_bytes (mem s1) dst src\<rparr>))"

text \<open>The result and the bytes stored at \<^verbatim>\<open>dst\<close>, as for \<open>copyin\<close>.\<close>

definition either_copyin :: "bool \<Rightarrow> u64 \<Rightarrow> nat \<Rightarrow> 'a proc_st_scheme \<Rightarrow> (int \<times> u8 list, 'a proc_st_scheme) out" where
  "either_copyin user_src src len s =
     bnd (myproc s) (\<lambda>me s1.
       if user_src
       then case me of None \<Rightarrow> Panic ''kerneltrap'' | Some p \<Rightarrow> copyin (pagetable (procs s1 p)) src len s1
       else Done (0, read_bytes (mem s1) src len) s1)"

fun state_name :: "procstate \<Rightarrow> u8 list" where
  "state_name UNUSED = bytes ''unused''"
| "state_name USED = bytes ''used''"
| "state_name SLEEPING = bytes ''sleep ''"
| "state_name RUNNABLE = bytes ''runble''"
| "state_name RUNNING = bytes ''run   ''"
| "state_name ZOMBIE = bytes ''zombie''"

text \<open>The C string in a buffer: the bytes before the first nul.\<close>

definition cstring :: "u8 list \<Rightarrow> u8 list" where
  "cstring bs = takeWhile (\<lambda>c. c \<noteq> 0) bs"

primrec procdump_loop :: "nat list \<Rightarrow> 'a proc_st_scheme \<Rightarrow> (unit, 'a proc_st_scheme) out" where
  "procdump_loop [] s = Done () s"
| "procdump_loop (p # ps) s =
     (if pstate (procs s p) = UNUSED then procdump_loop ps s
      else bnd (printf (Some (bytes ''%d %s %s''))
             [VInt (pid (procs s p)), VStr (Some (state_name (pstate (procs s p)))),
              VStr (Some (cstring (pname (procs s p))))] s) (\<lambda>_ s1.
           bnd (printf (Some [10]) [] s1) (\<lambda>_ s2. procdump_loop ps s2)))"

definition procdump :: "'a proc_st_scheme \<Rightarrow> (unit, 'a proc_st_scheme) out" where
  "procdump s = bnd (printf (Some [10]) [] s) (\<lambda>_ s1. procdump_loop [0..<NPROC] s1)"

definition print_hello :: "u32 \<Rightarrow> 'a proc_st_scheme \<Rightarrow> (unit, 'a proc_st_scheme) out" where
  "print_hello n s = printf (Some (bytes ''Hello from the kernel space %d'' @ [10])) [VInt n] s"

section \<open>kernel/sleeplock.c\<close>

definition set_sl :: "sleeplockid \<Rightarrow> (sleeplock \<Rightarrow> sleeplock) \<Rightarrow> 'a proc_st_scheme \<Rightarrow> 'a proc_st_scheme" where
  "set_sl lk f s = s\<lparr>sleeplocks := (sleeplocks s)(lk := f (sleeplocks s lk))\<rparr>"

definition initsleeplock :: "sleeplockid \<Rightarrow> string \<Rightarrow> 'a proc_st_scheme \<Rightarrow> 'a proc_st_scheme" where
  "initsleeplock lk nm s =
     set_sl lk (\<lambda>x. x\<lparr>sl_name := nm, sl_locked := False, sl_pid := 0\<rparr>) (initlock (SleepLk lk) ''sleep lock'' s)"

text \<open>The loop of \<^verbatim>\<open>acquiresleep\<close>, entered again after each \<^verbatim>\<open>sleep\<close>.\<close>

definition acquiresleep_loop :: "sleeplockid \<Rightarrow> 'a proc_st_scheme \<Rightarrow> (unit, 'a proc_st_scheme) out" where
  "acquiresleep_loop lk s =
     (if sl_locked (sleeplocks s lk) then sleep (SleepLockChan lk) (SleepLk lk) s
      else myproc_deref (\<lambda>p s1.
        release (SleepLk lk) (set_sl lk (\<lambda>x. x\<lparr>sl_pid := pid (procs s1 p)\<rparr>) s1))
        (set_sl lk (\<lambda>x. x\<lparr>sl_locked := True\<rparr>) s))"

definition acquiresleep :: "sleeplockid \<Rightarrow> 'a proc_st_scheme \<Rightarrow> (unit, 'a proc_st_scheme) out" where
  "acquiresleep lk s = bnd (acquire (SleepLk lk) s) (\<lambda>_ s1. acquiresleep_loop lk s1)"

definition releasesleep :: "sleeplockid \<Rightarrow> 'a proc_st_scheme \<Rightarrow> (unit, 'a proc_st_scheme) out" where
  "releasesleep lk s =
     bnd (acquire (SleepLk lk) s) (\<lambda>_ s1.
     bnd (wakeup (Some (SleepLockChan lk)) (set_sl lk (\<lambda>x. x\<lparr>sl_locked := False, sl_pid := 0\<rparr>) s1)) (\<lambda>_ s2.
       release (SleepLk lk) s2))"

definition holdingsleep :: "sleeplockid \<Rightarrow> 'a proc_st_scheme \<Rightarrow> (bool, 'a proc_st_scheme) out" where
  "holdingsleep lk s =
     bnd (acquire (SleepLk lk) s) (\<lambda>_ s1.
     bnd (if sl_locked (sleeplocks s1 lk)
          then myproc_deref (\<lambda>p s2. Done (sl_pid (sleeplocks s2 lk) = pid (procs s2 p)) s2) s1
          else Done False s1) (\<lambda>r s2.
       bnd (release (SleepLk lk) s2) (\<lambda>_ s3. Done r s3)))"

section \<open>Framing\<close>

lemma proc_locks [simp]:
  "procs (lock_on lk s) = procs s"
  "procs_update f1 (lock_on lk s) = lock_on lk (procs_update f1 s)"
  "nextpid (lock_on lk s) = nextpid s"
  "nextpid_update f2 (lock_on lk s) = lock_on lk (nextpid_update f2 s)"
  "initproc (lock_on lk s) = initproc s"
  "initproc_update f3 (lock_on lk s) = lock_on lk (initproc_update f3 s)"
  "ticks (lock_on lk s) = ticks s"
  "ticks_update f4 (lock_on lk s) = lock_on lk (ticks_update f4 s)"
  "forkret_addr (lock_on lk s) = forkret_addr s"
  "forkret_addr_update f5 (lock_on lk s) = lock_on lk (forkret_addr_update f5 s)"
  "sleeplocks (lock_on lk s) = sleeplocks s"
  "sleeplocks_update f6 (lock_on lk s) = lock_on lk (sleeplocks_update f6 s)"
  by (simp_all add: lock_on_def acquire_own_def acquire_swap_def push_off_def intr_defs cpu_defs Let_def)

lemma proc_push [simp]:
  "procs (push_off s) = procs s"
  "procs_update f1 (push_off s) = push_off (procs_update f1 s)"
  "nextpid (push_off s) = nextpid s"
  "nextpid_update f2 (push_off s) = push_off (nextpid_update f2 s)"
  "initproc (push_off s) = initproc s"
  "initproc_update f3 (push_off s) = push_off (initproc_update f3 s)"
  "ticks (push_off s) = ticks s"
  "ticks_update f4 (push_off s) = push_off (ticks_update f4 s)"
  "forkret_addr (push_off s) = forkret_addr s"
  "forkret_addr_update f5 (push_off s) = push_off (forkret_addr_update f5 s)"
  "sleeplocks (push_off s) = sleeplocks s"
  "sleeplocks_update f6 (push_off s) = push_off (sleeplocks_update f6 s)"
  by (simp_all add: push_off_def intr_defs cpu_defs Let_def)

lemma proc_settle [simp]:
  "procs (settle s) = procs s"
  "settle (procs_update f1 s) = procs_update f1 (settle s)"
  "nextpid (settle s) = nextpid s"
  "settle (nextpid_update f2 s) = nextpid_update f2 (settle s)"
  "initproc (settle s) = initproc s"
  "settle (initproc_update f3 s) = initproc_update f3 (settle s)"
  "ticks (settle s) = ticks s"
  "settle (ticks_update f4 s) = ticks_update f4 (settle s)"
  "forkret_addr (settle s) = forkret_addr s"
  "settle (forkret_addr_update f5 s) = forkret_addr_update f5 (settle s)"
  "sleeplocks (settle s) = sleeplocks s"
  "settle (sleeplocks_update f6 s) = sleeplocks_update f6 (settle s)"
  by (simp_all add: settle_def intr_defs cpu_defs)

lemma proc_machine [simp]:
  "free_lock (procs_update f1 s) lk = free_lock s lk"
  "cpu_ok (procs_update f1 s) = cpu_ok s"
  "mycpu (procs_update f1 s) = mycpu s"
  "cpuid (procs_update f1 s) = cpuid s"
  "intr_get (procs_update f1 s) = intr_get s"
  "holding lk (procs_update f1 s) = holding lk s"
  "free_lock (nextpid_update f2 s) lk = free_lock s lk"
  "cpu_ok (nextpid_update f2 s) = cpu_ok s"
  "mycpu (nextpid_update f2 s) = mycpu s"
  "cpuid (nextpid_update f2 s) = cpuid s"
  "intr_get (nextpid_update f2 s) = intr_get s"
  "holding lk (nextpid_update f2 s) = holding lk s"
  "free_lock (initproc_update f3 s) lk = free_lock s lk"
  "cpu_ok (initproc_update f3 s) = cpu_ok s"
  "mycpu (initproc_update f3 s) = mycpu s"
  "cpuid (initproc_update f3 s) = cpuid s"
  "intr_get (initproc_update f3 s) = intr_get s"
  "holding lk (initproc_update f3 s) = holding lk s"
  "free_lock (ticks_update f4 s) lk = free_lock s lk"
  "cpu_ok (ticks_update f4 s) = cpu_ok s"
  "mycpu (ticks_update f4 s) = mycpu s"
  "cpuid (ticks_update f4 s) = cpuid s"
  "intr_get (ticks_update f4 s) = intr_get s"
  "holding lk (ticks_update f4 s) = holding lk s"
  "free_lock (forkret_addr_update f5 s) lk = free_lock s lk"
  "cpu_ok (forkret_addr_update f5 s) = cpu_ok s"
  "mycpu (forkret_addr_update f5 s) = mycpu s"
  "cpuid (forkret_addr_update f5 s) = cpuid s"
  "intr_get (forkret_addr_update f5 s) = intr_get s"
  "holding lk (forkret_addr_update f5 s) = holding lk s"
  "free_lock (sleeplocks_update f6 s) lk = free_lock s lk"
  "cpu_ok (sleeplocks_update f6 s) = cpu_ok s"
  "mycpu (sleeplocks_update f6 s) = mycpu s"
  "cpuid (sleeplocks_update f6 s) = cpuid s"
  "intr_get (sleeplocks_update f6 s) = intr_get s"
  "holding lk (sleeplocks_update f6 s) = holding lk s"
  by (simp_all add: free_lock_def cpu_ok_def holding_def cpu_defs intr_defs)

end
