(* ===== verification/Sched.thy ===== *)
theory Sched
  imports Proc
begin

text \<open>
  What \<^verbatim>\<open>wakeup\<close>, \<^verbatim>\<open>kill\<close>, \<^verbatim>\<open>killed\<close> and the sleep locks do on an uncontended machine, the interleavings
  of \<^verbatim>\<open>sleep\<close> and \<^verbatim>\<open>wakeup\<close>, and of the schedulers.
\<close>

section \<open>Lock states\<close>

lemma set_proc_machine [simp]:
  "set_proc p f (lock_on lk s) = lock_on lk (set_proc p f s)" "settle (set_proc p f s) = set_proc p f (settle s)"
  "set_proc p f (push_off s) = push_off (set_proc p f s)"
  "free_lock (set_proc p f s) lk = free_lock s lk" "cpu_ok (set_proc p f s) = cpu_ok s"
  "mycpu (set_proc p f s) = mycpu s" "intr_get (set_proc p f s) = intr_get s"
  "procs (set_proc p f s) = (procs s)(p := f (procs s p))" "mem (set_proc p f s) = mem s"
  "sleeplocks (set_proc p f s) = sleeplocks s" "kend (set_proc p f s) = kend s" "freelist (set_proc p f s) = freelist s"
  by (simp_all add: set_proc_def)

lemma set_sl_machine [simp]:
  "set_sl k f (lock_on lk s) = lock_on lk (set_sl k f s)" "settle (set_sl k f s) = set_sl k f (settle s)"
  "free_lock (set_sl k f s) lk = free_lock s lk" "cpu_ok (set_sl k f s) = cpu_ok s"
  "mycpu (set_sl k f s) = mycpu s" "intr_get (set_sl k f s) = intr_get s"
  "sleeplocks (set_sl k f s) = (sleeplocks s)(k := f (sleeplocks s k))" "procs (set_sl k f s) = procs s"
  "mem (set_sl k f s) = mem s"
  by (simp_all add: set_sl_def)

lemma myproc_eq: "cpu_ok s \<Longrightarrow> myproc s = Done (c_proc (mycpu s)) (settle s)"
  by (simp add: myproc_def Let_def pop_push)

lemma myproc_deref_eq: "cpu_ok s \<Longrightarrow> c_proc (mycpu s) = Some p \<Longrightarrow> myproc_deref f s = f p (settle s)"
  by (simp add: myproc_deref_def myproc_eq)

section \<open>wakeup\<close>

text \<open>The process table after a wakeup on \<open>ch\<close> by \<open>me\<close>, restricted to the slots in \<open>ps\<close>.\<close>

definition woken :: "chan option \<Rightarrow> nat option \<Rightarrow> nat set \<Rightarrow> (nat \<Rightarrow> proc) \<Rightarrow> nat \<Rightarrow> proc" where
  "woken ch me ps P p =
     (if p \<in> ps \<and> me \<noteq> Some p \<and> pstate (P p) = SLEEPING \<and> pchan (P p) = ch
      then (P p)\<lparr>pstate := RUNNABLE\<rparr> else P p)"

definition proc_locks_free :: "'a proc_st_scheme \<Rightarrow> bool" where
  "proc_locks_free s \<longleftrightarrow> (\<forall>p < NPROC. free_lock s (ProcLock p))"

lemma woken_empty [simp]: "woken ch me {} P = P"
  by (auto simp: woken_def)

lemma woken_insert: "p \<notin> ps \<Longrightarrow> woken ch me ps (woken ch me {p} P) = woken ch me (insert p ps) P"
  by (auto simp: woken_def fun_eq_iff)

lemma woken_single:
  "woken ch me {p} P = (if me \<noteq> Some p \<and> pstate (P p) = SLEEPING \<and> pchan (P p) = ch
     then P(p := (P p)\<lparr>pstate := RUNNABLE\<rparr>) else P)"
  by (auto simp: woken_def fun_eq_iff)

lemma settle_procs_idem [simp]: "(settle s)\<lparr>procs := procs s\<rparr> = settle s"
proof -
  have "(settle s)\<lparr>procs := procs (settle s)\<rparr> = settle s" by simp
  then show ?thesis by (simp only: proc_settle)
qed

lemma wakeup_loop_Cons [simp]:
  "wakeup_loop ch (p # ps) s =
     bnd (myproc s) (\<lambda>me s1.
       if me \<noteq> Some p
       then bnd (acquire (ProcLock p) s1) (\<lambda>_ s2.
         let s3 = (if pstate (procs s2 p) = SLEEPING \<and> pchan (procs s2 p) = ch
                   then set_proc p (\<lambda>x. x\<lparr>pstate := RUNNABLE\<rparr>) s2 else s2)
         in bnd (release (ProcLock p) s3) (\<lambda>_ s4. wakeup_loop ch ps s4))
       else wakeup_loop ch ps s1)"
  by (simp add: wakeup_steps_def bnd_assoc Let_def cong: if_cong)

declare wakeup_loop.simps(2) [simp del]

lemma sleep_code:
  "sleep ch lk s =
     myproc_deref (\<lambda>p s1.
       bnd (acquire (ProcLock p) s1) (\<lambda>_ s2.
       bnd (release lk s2) (\<lambda>_ s3.
         sched (set_proc p (\<lambda>x. x\<lparr>pchan := Some ch, pstate := SLEEPING\<rparr>) s3)))) s"
  by (simp add: sleep_def sleep_steps_def)

lemma wakeup_loop_eq:
  "cpu_ok s \<Longrightarrow> distinct ps \<Longrightarrow> \<forall>p \<in> set ps. free_lock s (ProcLock p) \<Longrightarrow> ps \<noteq> [] \<Longrightarrow>
   wakeup_loop ch ps s = Done () ((settle s)\<lparr>procs := woken ch (c_proc (mycpu s)) (set ps) (procs s)\<rparr>)"
proof (induction ps arbitrary: s)
  case (Cons p ps)
  let ?me = "c_proc (mycpu s)"
  let ?t = "(settle s)\<lparr>procs := woken ch ?me {p} (procs s)\<rparr>"
  have free: "free_lock s (ProcLock p)" using Cons.prems(3) by simp
  have step: "wakeup_loop ch (p # ps) s = wakeup_loop ch ps ?t"
    using Cons.prems(1) free
    by (simp add: myproc_eq acquire_free release_lock_on woken_single Let_def set_proc_def)
  show ?case
  proof (cases "ps = []")
    case True
    then show ?thesis using step by simp
  next
    case False
    then have "wakeup_loop ch ps ?t =
        Done () ((settle ?t)\<lparr>procs := woken ch (c_proc (mycpu ?t)) (set ps) (procs ?t)\<rparr>)"
      using Cons.prems by (intro Cons.IH) auto
    with step Cons.prems(2) show ?thesis by (simp add: woken_insert)
  qed
qed simp

lemma NPROC_pos: "[0..<NPROC] \<noteq> []"
  by (simp add: NPROC_def)

lemma wakeup_eq:
  "cpu_ok s \<Longrightarrow> proc_locks_free s \<Longrightarrow>
   wakeup ch s = Done () ((settle s)\<lparr>procs := woken ch (c_proc (mycpu s)) {..<NPROC} (procs s)\<rparr>)"
  unfolding wakeup_def using wakeup_loop_eq [of s "[0..<NPROC]" ch] NPROC_pos
  by (simp add: proc_locks_free_def atLeast_upt)

lemma proc_locks_free_simps [simp]:
  "proc_locks_free (settle s) = proc_locks_free s" "proc_locks_free (set_proc p f s) = proc_locks_free s"
  "proc_locks_free (set_sl k g s) = proc_locks_free s"
  "(\<And>p. ProcLock p \<noteq> lk) \<Longrightarrow> proc_locks_free (lock_on lk s) = proc_locks_free s"
  by (simp_all add: proc_locks_free_def)

section \<open>Sleep locks\<close>

lemma acquiresleep_eq:
  assumes "cpu_ok s" "free_lock s (SleepLk k)" "\<not> sl_locked (sleeplocks s k)" "c_proc (mycpu s) = Some p"
  shows "acquiresleep k s =
    Done () (set_sl k (\<lambda>x. x\<lparr>sl_locked := True, sl_pid := pid (procs s p)\<rparr>) (settle s))"
proof -
  have two: "set_sl k (\<lambda>x. x\<lparr>sl_pid := n\<rparr>) (set_sl k (\<lambda>x. x\<lparr>sl_locked := True\<rparr>) t) =
      set_sl k (\<lambda>x. x\<lparr>sl_locked := True, sl_pid := n\<rparr>) t" for n and t :: "'a proc_st_scheme"
    by (simp add: set_sl_def)
  show ?thesis
    using assms by (simp add: acquiresleep_def acquiresleep_loop_def acquire_free myproc_deref_eq release_lock_on two)
qed

lemma releasesleep_eq:
  assumes "cpu_ok s" "free_lock s (SleepLk k)" "proc_locks_free s"
  shows "releasesleep k s =
    Done () ((set_sl k (\<lambda>x. x\<lparr>sl_locked := False, sl_pid := 0\<rparr>) (settle s))
      \<lparr>procs := woken (Some (SleepLockChan k)) (c_proc (mycpu s)) {..<NPROC} (procs s)\<rparr>)"
  using assms
  by (simp add: releasesleep_def acquire_free wakeup_eq release_lock_on cpu_ok_lock_on)

lemma holdingsleep_eq:
  assumes "cpu_ok s" "free_lock s (SleepLk k)" "c_proc (mycpu s) = Some p"
  shows "holdingsleep k s =
    Done (sl_locked (sleeplocks s k) \<and> sl_pid (sleeplocks s k) = pid (procs s p)) (settle s)"
  using assms
  by (simp add: holdingsleep_def acquire_free myproc_deref_eq release_lock_on cpu_ok_lock_on)

section \<open>Outcomes of acquire and release\<close>

lemma acquire_DoneD:
  assumes "acquire lk s = Done () t"
  shows "\<not> lk_locked (locks s lk)" "lk_locked (locks t lk)" "lk' \<noteq> lk \<Longrightarrow> locks t lk' = locks s lk'"
    "t = lock_on lk s"
  using assms
  by (auto simp: acquire_def acquire_enter_def acquire_swap_def acquire_own_def lock_on_def Let_def
      split: if_splits)

lemma pop_off_DoneD: "pop_off s = Done () t \<Longrightarrow> locks t = locks s"
  by (auto simp: pop_off_def Let_def split: if_splits)

lemma pop_off_fields:
  "pop_off s = Done () t \<Longrightarrow> procs t = procs s" "pop_off s = Done () t \<Longrightarrow> c_proc (cpus t h) = c_proc (cpus s h)"
  by (auto simp: pop_off_def Let_def intr_defs cpu_defs split: if_splits)

lemma release_DoneD:
  assumes "release lk s = Done () t"
  shows "\<not> lk_locked (locks t lk)" "lk' \<noteq> lk \<Longrightarrow> locks t lk' = locks s lk'"
proof -
  have "pop_off (release_unlock lk (s\<lparr>locks := (locks s)(lk := (locks s lk)\<lparr>lk_cpu := None\<rparr>)\<rparr>)) = Done () t"
    using assms by (auto simp: release_def release_disown_def split: if_splits)
  from pop_off_DoneD [OF this] show "\<not> lk_locked (locks t lk)" "lk' \<noteq> lk \<Longrightarrow> locks t lk' = locks s lk'"
    by (auto simp: release_unlock_def)
qed

lemma release_fields:
  assumes "release lk s = Done () t"
  shows "procs t = procs s" "c_proc (cpus t h) = c_proc (cpus s h)"
proof -
  let ?u = "release_unlock lk (s\<lparr>locks := (locks s)(lk := (locks s lk)\<lparr>lk_cpu := None\<rparr>)\<rparr>)"
  have "pop_off ?u = Done () t"
    using assms by (auto simp: release_def release_disown_def split: if_splits)
  from pop_off_fields [OF this] show "procs t = procs s" "c_proc (cpus t h) = c_proc (cpus s h)"
    by (auto simp: release_unlock_def)
qed

lemma lock_on_cpus [simp]: "c_proc (cpus (lock_on lk s) h) = c_proc (cpus s h)"
  by (simp add: lock_on_def acquire_own_def acquire_swap_def push_off_def intr_defs cpu_defs Let_def)

section \<open>No wakeup is lost\<close>

text \<open>
  Process \<open>p\<close> on hart \<open>h\<close> has found its condition false under the lock \<open>lk\<close> and calls \<^verbatim>\<open>sleep(ch, lk)\<close>;
  hart \<open>w\<close> acquires \<open>lk\<close>, makes the condition true and calls \<^verbatim>\<open>wakeup(ch)\<close> before it releases \<open>lk\<close>.
  Every acquisition and release of a lock, the change of the process state with \<^verbatim>\<open>sched\<close>, and the
  scheduler's release of \<^verbatim>\<open>p->lock\<close> are steps of their own and interleave freely.
\<close>

datatype sleeper = Checked | PLocked | LkReleased | Gone | Asleep
datatype waker = WIdle | WHolds | WSet | WVisits | WWoke | WDone

type_synonym sw_state = "proc_st \<times> sleeper \<times> waker \<times> bool"

inductive sw_step :: "chan \<Rightarrow> lockid \<Rightarrow> nat \<Rightarrow> nat \<Rightarrow> nat \<Rightarrow> sw_state \<Rightarrow> sw_state \<Rightarrow> bool"
  for ch lk p h w where
  sl_lock: "(sleep_steps ch lk p ! 0) (on_hart h s) = Done () t \<Longrightarrow>
     sw_step ch lk p h w (s, Checked, wk, c) (t, PLocked, wk, c)"
| sl_release: "(sleep_steps ch lk p ! 1) (on_hart h s) = Done () t \<Longrightarrow>
     sw_step ch lk p h w (s, PLocked, wk, c) (t, LkReleased, wk, c)"
| sl_sched: "(sleep_steps ch lk p ! 2) (on_hart h s) = Waits Switched t \<Longrightarrow>
     sw_step ch lk p h w (s, LkReleased, wk, c) (t, Gone, wk, c)"
| sl_back: "scheduler_back p (on_hart h s) = Done () t \<Longrightarrow>
     sw_step ch lk p h w (s, Gone, wk, c) (t, Asleep, wk, c)"
| wk_lock: "acquire lk (on_hart w s) = Done () t \<Longrightarrow>
     sw_step ch lk p h w (s, sl, WIdle, c) (t, sl, WHolds, c)"
| wk_set: "sw_step ch lk p h w (s, sl, WHolds, c) (s, sl, WSet, True)"
| wk_visit: "(wakeup_steps (Some ch) p ! 0) (on_hart w s) = Done () t \<Longrightarrow>
     sw_step ch lk p h w (s, sl, WSet, c) (t, sl, WVisits, c)"
| wk_wake: "(wakeup_steps (Some ch) p ! 1) (on_hart w s) = Done () t \<Longrightarrow>
     sw_step ch lk p h w (s, sl, WVisits, c) (t, sl, WWoke, c)"
| wk_release: "release lk (on_hart w s) = Done () t \<Longrightarrow>
     sw_step ch lk p h w (s, sl, WWoke, c) (t, sl, WDone, c)"

inductive_cases sw_stepE: "sw_step ch lk p h w (s, sl, wk, c) r"

fun sw_init :: "lockid \<Rightarrow> nat \<Rightarrow> sw_state \<Rightarrow> bool" where
  "sw_init lk p (s, sl, wk, c) \<longleftrightarrow> sl = Checked \<and> wk = WIdle \<and> \<not> c \<and> lk \<noteq> ProcLock p \<and>
     lk_locked (locks s lk)"

text \<open>Who holds which lock, and what that says about the process.\<close>

fun sw_inv :: "chan \<Rightarrow> lockid \<Rightarrow> nat \<Rightarrow> sw_state \<Rightarrow> bool" where
  "sw_inv ch lk p (s, sl, wk, c) \<longleftrightarrow> lk \<noteq> ProcLock p \<and>
     (sl \<in> {Checked, PLocked} \<longrightarrow> lk_locked (locks s lk) \<and> wk = WIdle) \<and>
     (wk \<in> {WHolds, WSet, WVisits, WWoke} \<longrightarrow> lk_locked (locks s lk)) \<and>
     (sl \<in> {PLocked, LkReleased, Gone} \<longrightarrow> lk_locked (locks s (ProcLock p)) \<and> wk \<notin> {WVisits, WWoke, WDone}) \<and>
     (wk = WVisits \<longrightarrow> lk_locked (locks s (ProcLock p)) \<and> sl = Asleep) \<and>
     (sl \<in> {Gone, Asleep} \<and> wk \<notin> {WWoke, WDone} \<longrightarrow> pstate (procs s p) = SLEEPING \<and> pchan (procs s p) = Some ch) \<and>
     (wk \<in> {WWoke, WDone} \<longrightarrow> sl = Asleep \<and> pstate (procs s p) = RUNNABLE) \<and>
     (c \<longrightarrow> wk \<notin> {WIdle, WHolds})"

lemma on_hart_fields [simp]:
  "locks (on_hart h s) = locks s" "procs (on_hart h s) = procs s" "cpus (on_hart h s) = cpus s"
  "set_proc p f (on_hart h s) = on_hart h (set_proc p f s)"
  by (simp_all add: on_hart_def set_proc_def)

lemma myproc_DoneD:
  assumes "myproc s = Done q t"
  shows "locks t = locks s" "procs t = procs s" "c_proc (cpus t h) = c_proc (cpus s h)"
proof -
  obtain u where "pop_off (push_off s) = Done () t"
    using assms by (auto simp: myproc_def Let_def out_conv)
  from pop_off_DoneD [OF this] pop_off_fields [OF this]
  show "locks t = locks s" "procs t = procs s" "c_proc (cpus t h) = c_proc (cpus s h)"
    by (simp_all add: push_off_def intr_defs cpu_defs Let_def)
qed

lemma myproc_not_waits [simp]: "myproc s \<noteq> Waits c t"
  by (auto simp: myproc_def Let_def out_conv pop_off_def)

lemma sched_WaitsD:
  assumes "sched s = Waits Switched t"
  shows "locks t = locks s" "procs t = procs s" "c_proc (cpus t h) = c_proc (cpus s h)"
proof -
  obtain q where "myproc s = Done q t"
    using assms by (auto simp: sched_def myproc_deref_def out_conv split: option.splits if_splits)
  from myproc_DoneD [OF this]
  show "locks t = locks s" "procs t = procs s" "c_proc (cpus t h) = c_proc (cpus s h)" by auto
qed

lemma scheduler_back_DoneD:
  assumes "scheduler_back p s = Done () t"
  shows "procs t = procs s" "\<not> lk_locked (locks t (ProcLock p))" "lk \<noteq> ProcLock p \<Longrightarrow> locks t lk = locks s lk"
    "c_proc (cpus t h) = (if h = tp s then None else c_proc (cpus s h))"
  using release_DoneD [OF assms [unfolded scheduler_back_def]] release_fields [OF assms [unfolded scheduler_back_def]]
  by (auto simp: cpu_defs)

lemma acquire_on:
  assumes "acquire k (on_hart h s) = Done () t"
  shows "\<not> lk_locked (locks s k)" "lk_locked (locks t k)" "k' \<noteq> k \<Longrightarrow> locks t k' = locks s k'" "procs t = procs s"
    "c_proc (cpus t g) = c_proc (cpus s g)"
  using acquire_DoneD [OF assms] by auto

lemma sw_inv_sleeper:
  assumes inv: "sw_inv ch lk p (s, sl, wk, c)" and lk: "lk \<noteq> ProcLock p"
  shows "sl = Checked \<Longrightarrow> acquire (ProcLock p) (on_hart h s) = Done () t \<Longrightarrow> sw_inv ch lk p (t, PLocked, wk, c)"
    and "sl = PLocked \<Longrightarrow> release lk (on_hart h s) = Done () t \<Longrightarrow> sw_inv ch lk p (t, LkReleased, wk, c)"
    and "sl = LkReleased \<Longrightarrow> sched (set_proc p (\<lambda>x. x\<lparr>pchan := Some ch, pstate := SLEEPING\<rparr>) (on_hart h s)) = Waits Switched t \<Longrightarrow>
      sw_inv ch lk p (t, Gone, wk, c)"
    and "sl = Gone \<Longrightarrow> scheduler_back p (on_hart h s) = Done () t \<Longrightarrow> sw_inv ch lk p (t, Asleep, wk, c)"
proof -
  show "sw_inv ch lk p (t, PLocked, wk, c)" if sl: "sl = Checked" and a: "acquire (ProcLock p) (on_hart h s) = Done () t"
    using inv acquire_on(2,4) [OF a] acquire_on(3) [OF a lk] unfolding sl by (cases wk) simp_all
  show "sw_inv ch lk p (t, LkReleased, wk, c)" if sl: "sl = PLocked" and r: "release lk (on_hart h s) = Done () t"
    using inv release_DoneD(2) [OF r, of "ProcLock p"] release_fields(1) [OF r] lk unfolding sl by (cases wk) simp_all
  show "sw_inv ch lk p (t, Gone, wk, c)"
    if sl: "sl = LkReleased" and r: "sched (set_proc p (\<lambda>x. x\<lparr>pchan := Some ch, pstate := SLEEPING\<rparr>) (on_hart h s)) = Waits Switched t"
    using inv sched_WaitsD(1,2) [OF r] unfolding sl by (cases wk) (simp_all add: set_proc_def)
  show "sw_inv ch lk p (t, Asleep, wk, c)" if sl: "sl = Gone" and r: "scheduler_back p (on_hart h s) = Done () t"
    using inv scheduler_back_DoneD(1) [OF r] scheduler_back_DoneD(3) [OF r lk] unfolding sl by (cases wk) simp_all
qed

lemma sw_inv_waker:
  assumes inv: "sw_inv ch lk p (s, sl, wk, c)" and lk: "lk \<noteq> ProcLock p"
  shows "wk = WIdle \<Longrightarrow> acquire lk (on_hart w s) = Done () t \<Longrightarrow> sw_inv ch lk p (t, sl, WHolds, c)"
    and "wk = WSet \<Longrightarrow> acquire (ProcLock p) (on_hart w s) = Done () t \<Longrightarrow> sw_inv ch lk p (t, sl, WVisits, c)"
    and "wk = WVisits \<Longrightarrow> release (ProcLock p) (on_hart w
       (if pstate (procs s p) = SLEEPING \<and> pchan (procs s p) = Some ch
        then set_proc p (\<lambda>x. x\<lparr>pstate := RUNNABLE\<rparr>) s else s)) = Done () t \<Longrightarrow> sw_inv ch lk p (t, sl, WWoke, c)"
    and "wk = WWoke \<Longrightarrow> release lk (on_hart w s) = Done () t \<Longrightarrow> sw_inv ch lk p (t, sl, WDone, c)"
proof -
  show "sw_inv ch lk p (t, sl, WHolds, c)" if wk: "wk = WIdle" and a: "acquire lk (on_hart w s) = Done () t"
    using inv acquire_on(1,2,4) [OF a] acquire_on(3) [OF a, of "ProcLock p"] lk unfolding wk by (cases sl) simp_all
  show "sw_inv ch lk p (t, sl, WVisits, c)" if wk: "wk = WSet" and a: "acquire (ProcLock p) (on_hart w s) = Done () t"
    using inv acquire_on(1,2,4) [OF a] acquire_on(3) [OF a lk] unfolding wk by (cases sl) simp_all
  show "sw_inv ch lk p (t, sl, WWoke, c)" if wk: "wk = WVisits" and r: "release (ProcLock p) (on_hart w
       (if pstate (procs s p) = SLEEPING \<and> pchan (procs s p) = Some ch
        then set_proc p (\<lambda>x. x\<lparr>pstate := RUNNABLE\<rparr>) s else s)) = Done () t"
  proof -
    have st: "sl = Asleep" "pstate (procs s p) = SLEEPING" "pchan (procs s p) = Some ch" "lk_locked (locks s lk)"
      using inv unfolding wk by auto
    with release_DoneD(2) [OF r lk] release_fields(1) [OF r] have
      "procs t p = (procs s p)\<lparr>pstate := RUNNABLE\<rparr>" "locks t lk = locks s lk" by (simp_all add: set_proc_def)
    with inv st wk show ?thesis by simp
  qed
  show "sw_inv ch lk p (t, sl, WDone, c)" if wk: "wk = WWoke" and r: "release lk (on_hart w s) = Done () t"
    using inv release_fields(1) [OF r] release_DoneD(2) [OF r, of "ProcLock p"] lk unfolding wk by (cases sl) simp_all
qed

lemma sleep_steps_nth:
  "sleep_steps ch lk p ! 0 = acquire (ProcLock p)"
  "sleep_steps ch lk p ! 1 = release lk"
  "sleep_steps ch lk p ! 2 = (\<lambda>s. sched (set_proc p (\<lambda>x. x\<lparr>pchan := Some ch, pstate := SLEEPING\<rparr>) s))"
  by (simp_all add: sleep_steps_def)

lemma wakeup_steps_nth:
  "wakeup_steps ch p ! 0 = acquire (ProcLock p)"
  "(wakeup_steps ch p ! 1) (on_hart w s) = release (ProcLock p) (on_hart w
     (if pstate (procs s p) = SLEEPING \<and> pchan (procs s p) = ch then set_proc p (\<lambda>x. x\<lparr>pstate := RUNNABLE\<rparr>) s else s))"
  by (simp_all add: wakeup_steps_def)

lemma sw_inv_lk: "sw_inv ch lk p (s, sl, wk, c) \<Longrightarrow> lk \<noteq> ProcLock p"
  by simp

lemma sw_inv_step: "sw_step ch lk p h w x y \<Longrightarrow> sw_inv ch lk p x \<Longrightarrow> sw_inv ch lk p y"
proof (induction rule: sw_step.induct)
  case (wk_set s sl c)
  then show ?case by (cases sl) simp_all
next
  case (sl_lock s t wk c)
  then show ?case using sw_inv_sleeper(1) [OF sl_lock(2) sw_inv_lk [OF sl_lock(2)]] unfolding sleep_steps_nth by blast
next
  case (sl_release s t wk c)
  then show ?case using sw_inv_sleeper(2) [OF sl_release(2) sw_inv_lk [OF sl_release(2)]] unfolding sleep_steps_nth by blast
next
  case (sl_sched s t wk c)
  then show ?case using sw_inv_sleeper(3) [OF sl_sched(2) sw_inv_lk [OF sl_sched(2)]] unfolding sleep_steps_nth by blast
next
  case (sl_back s t wk c)
  then show ?case using sw_inv_sleeper(4) [OF sl_back(2) sw_inv_lk [OF sl_back(2)]] by blast
next
  case (wk_lock s t sl c)
  then show ?case using sw_inv_waker(1) [OF wk_lock(2) sw_inv_lk [OF wk_lock(2)]] by blast
next
  case (wk_visit s t sl c)
  then show ?case using sw_inv_waker(2) [OF wk_visit(2) sw_inv_lk [OF wk_visit(2)]] unfolding wakeup_steps_nth by blast
next
  case (wk_wake s t sl c)
  then show ?case using sw_inv_waker(3) [OF wk_wake(2) sw_inv_lk [OF wk_wake(2)]] unfolding wakeup_steps_nth by blast
next
  case (wk_release s t sl c)
  then show ?case using sw_inv_waker(4) [OF wk_release(2) sw_inv_lk [OF wk_release(2)]] by blast
qed

interpretation sw: step_invariant "sw_init lk p" "sw_step ch lk p h w" "sw_inv ch lk p" for ch lk p h w
proof
  show "sw_inv ch lk p x" if "sw_init lk p x" for x
    using that by (cases x) auto
qed (use sw_inv_step in blast)

text \<open>
  Property C6. No wakeup is lost: in every interleaving of \<^verbatim>\<open>sleep(ch, lk)\<close> with a hart that makes
  the condition true and calls \<^verbatim>\<open>wakeup(ch)\<close> under \<open>lk\<close>, once that \<^verbatim>\<open>wakeup\<close> has passed the process
  is \<^verbatim>\<open>RUNNABLE\<close>; as long as it still sleeps on \<open>ch\<close> although the condition is true, the
  \<^verbatim>\<open>wakeup\<close> that will find it is still to come.
\<close>

theorem no_lost_wakeup:
  assumes "reach (sw_init lk p) (sw_step ch lk p h w) (s, sl, wk, c)"
  shows "(wk \<in> {WWoke, WDone} \<longrightarrow> pstate (procs s p) = RUNNABLE) \<and>
    (c \<and> pstate (procs s p) = SLEEPING \<longrightarrow> wk \<in> {WSet, WVisits})"
proof -
  have "sw_inv ch lk p (s, sl, wk, c)" using assms by (rule sw.reach_inv)
  then show ?thesis by (cases wk) auto
qed

text \<open>A hart at nesting depth \<open>n\<close> with interrupts off before and after.\<close>

definition hart_at :: "nat \<Rightarrow> int \<Rightarrow> nat option \<Rightarrow> 'a machine_scheme \<Rightarrow> bool" where
  "hart_at h n pr s \<longleftrightarrow> noff (cpus s h) = n \<and> c_proc (cpus s h) = pr \<and> \<not> intena (cpus s h) \<and>
     sstatus (csrs s h) = 0"

lemma hart_acquire:
  assumes "hart_at h n pr s" "0 \<le> n" "\<not> lk_locked (locks s k)"
  shows "\<exists>t. acquire k (on_hart h s) = Done () t \<and> hart_at h (n + 1) pr t \<and>
    (\<forall>g m q. g \<noteq> h \<longrightarrow> hart_at g m q s \<longrightarrow> hart_at g m q t) \<and>
    locks t = (locks s)(k := (locks s k)\<lparr>lk_locked := True, lk_cpu := Some h\<rparr>) \<and> procs t = procs s"
  using assms
  by (auto simp: acquire_def acquire_enter_def acquire_swap_def acquire_own_def holding_def push_off_def on_hart_def
      hart_at_def intr_defs cpu_defs Let_def)

lemma hart_release:
  assumes "hart_at h n pr s" "1 \<le> n" "lk_locked (locks s k)" "lk_cpu (locks s k) = Some h"
  shows "\<exists>t. release k (on_hart h s) = Done () t \<and> hart_at h (n - 1) pr t \<and>
    (\<forall>g m q. g \<noteq> h \<longrightarrow> hart_at g m q s \<longrightarrow> hart_at g m q t) \<and>
    locks t = (locks s)(k := (locks s k)\<lparr>lk_locked := False, lk_cpu := None\<rparr>) \<and> procs t = procs s"
  using assms
  by (auto simp: release_def release_disown_def release_unlock_def holding_def pop_off_def on_hart_def
      hart_at_def intr_defs cpu_defs Let_def)

lemma hart_sched:
  assumes "hart_at h 1 (Some p) s" "lk_locked (locks s (ProcLock p))" "lk_cpu (locks s (ProcLock p)) = Some h"
    "pstate (procs s p) \<noteq> RUNNING"
  shows "\<exists>t. sched (on_hart h s) = Waits Switched t \<and> hart_at h 1 (Some p) t \<and>
    (\<forall>g m q. g \<noteq> h \<longrightarrow> hart_at g m q s \<longrightarrow> hart_at g m q t) \<and> locks t = locks s \<and> procs t = procs s"
  using assms
  by (auto simp: sched_def myproc_deref_def myproc_def holding_def push_off_def pop_off_def on_hart_def
      hart_at_def intr_defs cpu_defs Let_def)

lemma hart_back:
  assumes "hart_at h 1 pr s" "lk_locked (locks s (ProcLock p))" "lk_cpu (locks s (ProcLock p)) = Some h"
  shows "\<exists>t. scheduler_back p (on_hart h s) = Done () t \<and> hart_at h 0 None t \<and>
    (\<forall>g m q. g \<noteq> h \<longrightarrow> hart_at g m q s \<longrightarrow> hart_at g m q t) \<and>
    locks t = (locks s)(ProcLock p := (locks s (ProcLock p))\<lparr>lk_locked := False, lk_cpu := None\<rparr>) \<and> procs t = procs s"
  using assms
  by (auto simp: scheduler_back_def release_def release_disown_def release_unlock_def holding_def pop_off_def on_hart_def
      hart_at_def intr_defs cpu_defs Let_def)

lemma hart_at_set_proc [simp]: "hart_at h n pr (set_proc p f s) = hart_at h n pr s"
  by (simp add: hart_at_def set_proc_def)

lemma sw_run_sleeper:
  assumes "hart_at h 1 (Some p) s" "hart_at w 0 None s" "w \<noteq> h" "lk \<noteq> ProcLock p"
    "lk_locked (locks s lk)" "lk_cpu (locks s lk) = Some h" "\<not> lk_locked (locks s (ProcLock p))"
  shows "\<exists>t. (sw_step ch lk p h w)\<^sup>*\<^sup>* (s, Checked, WIdle, False) (t, Asleep, WIdle, False) \<and>
    hart_at w 0 None t \<and> \<not> lk_locked (locks t lk) \<and> \<not> lk_locked (locks t (ProcLock p))"
proof -
  obtain s1 where 1: "acquire (ProcLock p) (on_hart h s) = Done () s1" "hart_at h 2 (Some p) s1" "hart_at w 0 None s1"
    "locks s1 = (locks s)(ProcLock p := (locks s (ProcLock p))\<lparr>lk_locked := True, lk_cpu := Some h\<rparr>)"
    using hart_acquire [OF assms(1) _ assms(7)] assms(2,3) by auto
  obtain s2 where 2: "release lk (on_hart h s1) = Done () s2" "hart_at h 1 (Some p) s2" "hart_at w 0 None s2"
    "locks s2 = (locks s1)(lk := (locks s1 lk)\<lparr>lk_locked := False, lk_cpu := None\<rparr>)"
    using hart_release [OF 1(2), of lk] 1(3,4) assms(3-6) by auto
  define s3 where "s3 = set_proc p (\<lambda>x. x\<lparr>pchan := Some ch, pstate := SLEEPING\<rparr>) s2"
  have f3: "hart_at h 1 (Some p) s3" "hart_at w 0 None s3" "locks s3 = locks s2" "pstate (procs s3 p) = SLEEPING"
    using 2 unfolding s3_def by (simp_all add: set_proc_def hart_at_def)
  obtain s4 where 4: "sched (on_hart h s3) = Waits Switched s4" "hart_at h 1 (Some p) s4" "hart_at w 0 None s4"
    "locks s4 = locks s2"
    using hart_sched [OF f3(1)] f3 1(4) 2(4) assms(3,4) by auto
  obtain s5 where 5: "scheduler_back p (on_hart h s4) = Done () s5" "hart_at w 0 None s5"
    "locks s5 = (locks s4)(ProcLock p := (locks s4 (ProcLock p))\<lparr>lk_locked := False, lk_cpu := None\<rparr>)"
    using hart_back [OF 4(2), of p] 4 2(4) 1(4) assms(3,4) by auto
  have "(sw_step ch lk p h w)\<^sup>*\<^sup>* (s, Checked, WIdle, False) (s5, Asleep, WIdle, False)"
    by (rule converse_rtranclp_into_rtranclp, rule sl_lock [unfolded sleep_steps_nth, OF 1(1)],
        rule converse_rtranclp_into_rtranclp, rule sl_release [unfolded sleep_steps_nth, OF 2(1)],
        rule converse_rtranclp_into_rtranclp, rule sl_sched [unfolded sleep_steps_nth],
        rule 4(1) [unfolded s3_def on_hart_fields(4) [symmetric]],
        rule r_into_rtranclp, rule sl_back [OF 5(1)])
  then show ?thesis using 5 4(4) 2(4) assms(4) by auto
qed

lemma sw_run_waker:
  assumes "hart_at w 0 None s" "lk \<noteq> ProcLock p"
    "\<not> lk_locked (locks s lk)" "\<not> lk_locked (locks s (ProcLock p))"
  shows "\<exists>t. (sw_step ch lk p h w)\<^sup>*\<^sup>* (s, sl, WIdle, False) (t, sl, WDone, True)"
proof -
  obtain s1 where 1: "acquire lk (on_hart w s) = Done () s1" "hart_at w 1 None s1"
    "locks s1 = (locks s)(lk := (locks s lk)\<lparr>lk_locked := True, lk_cpu := Some w\<rparr>)"
    using hart_acquire [OF assms(1) _ assms(3)] by auto
  obtain s2 where 2: "acquire (ProcLock p) (on_hart w s1) = Done () s2" "hart_at w 2 None s2"
    "locks s2 = (locks s1)(ProcLock p := (locks s1 (ProcLock p))\<lparr>lk_locked := True, lk_cpu := Some w\<rparr>)"
    using hart_acquire [OF 1(2), of "ProcLock p"] 1(3) assms(2,4) by auto
  let ?s = "if pstate (procs s2 p) = SLEEPING \<and> pchan (procs s2 p) = Some ch
        then set_proc p (\<lambda>x. x\<lparr>pstate := RUNNABLE\<rparr>) s2 else s2"
  have l: "locks ?s = locks s2" and a: "hart_at w 2 None ?s" using 2(2) by (simp_all add: set_proc_def hart_at_def)
  obtain s3 where 3: "release (ProcLock p) (on_hart w ?s) = Done () s3" "hart_at w 1 None s3"
    "locks s3 = (locks s2)(ProcLock p := (locks s2 (ProcLock p))\<lparr>lk_locked := False, lk_cpu := None\<rparr>)"
    using hart_release [OF a, of "ProcLock p"] 2(3) unfolding l by auto
  obtain s4 where 4: "release lk (on_hart w s3) = Done () s4"
    using hart_release [OF 3(2), of lk] 3(3) 2(3) 1(3) assms(2) by auto
  have "(sw_step ch lk p h w)\<^sup>*\<^sup>* (s, sl, WIdle, False) (s4, sl, WDone, True)"
    by (rule converse_rtranclp_into_rtranclp, rule wk_lock [OF 1(1)],
        rule converse_rtranclp_into_rtranclp, rule wk_set,
        rule converse_rtranclp_into_rtranclp, rule wk_visit [unfolded wakeup_steps_nth, OF 2(1)],
        rule converse_rtranclp_into_rtranclp, rule wk_wake [unfolded wakeup_steps_nth, OF 3(1)],
        rule r_into_rtranclp, rule wk_release [OF 4])
  then show ?thesis by blast
qed

lemma reach_star: "reach init step s \<Longrightarrow> step\<^sup>*\<^sup>* s t \<Longrightarrow> reach init step t"
  by (rotate_tac 1, induction rule: rtranclp_induct) (auto intro: reach_step)

definition demo_proc :: proc where
  "demo_proc = \<lparr>pstate = RUNNING, pchan = None, pkilled = 0, xstate = 0, pid = 1, parent = None, kstack = KSTACK 0,
     sz = 0, pagetable = 0, trapframe = 0, pcontext = zero_context, ofile = (\<lambda>_. None), cwd = None, pname = []\<rparr>"

text \<open>Hart 0 runs process 0 and holds the log lock; hart 1 is idle.\<close>

definition demo_sleep :: proc_st where
  "demo_sleep = con_st.extend
     (boot_con\<lparr>cpus := (\<lambda>_. quiet_cpu)(0 := \<lparr>c_proc = Some 0, noff = 1, intena = False\<rparr>),
        locks := (\<lambda>k. \<lparr>lk_locked = k = LogLock, lk_name = [], lk_cpu = if k = LogLock then Some 0 else None\<rparr>)\<rparr>)
     \<lparr>procs = (\<lambda>_. demo_proc), nextpid = 2, initproc = Some 0, ticks = 0, forkret_addr = 0,
      sleeplocks = (\<lambda>_. \<lparr>sl_locked = False, sl_name = [], sl_pid = 0\<rparr>)\<rparr>"

theorem no_lost_wakeup_witness:
  "\<exists>t. reach (sw_init LogLock 0) (sw_step LogChan LogLock 0 0 1) (t, Asleep, WDone, True) \<and>
     pstate (procs t 0) = RUNNABLE"
proof -
  have at: "hart_at 0 1 (Some 0) demo_sleep" "hart_at 1 0 None demo_sleep"
    by (simp_all add: hart_at_def demo_sleep_def con_st.defs boot_con_def kmem_st.defs boot_kmem_def machine.defs
        boot_machine_def quiet_cpu_def zero_csr_def)
  have lk: "lk_locked (locks demo_sleep LogLock)" "lk_cpu (locks demo_sleep LogLock) = Some 0"
    "\<not> lk_locked (locks demo_sleep (ProcLock 0))"
    by (simp_all add: demo_sleep_def con_st.defs)
  have 0: "reach (sw_init LogLock 0) (sw_step LogChan LogLock 0 0 1) (demo_sleep, Checked, WIdle, False)"
    by (rule reach_init) (simp add: lk)
  obtain s where s: "(sw_step LogChan LogLock 0 0 1)\<^sup>*\<^sup>* (demo_sleep, Checked, WIdle, False) (s, Asleep, WIdle, False)"
    "hart_at 1 0 None s" "\<not> lk_locked (locks s LogLock)" "\<not> lk_locked (locks s (ProcLock 0))"
    using sw_run_sleeper [OF at _ _ lk] by auto
  obtain t where t: "(sw_step LogChan LogLock 0 0 1)\<^sup>*\<^sup>* (s, Asleep, WIdle, False) (t, Asleep, WDone, True)"
    using sw_run_waker [OF s(2) _ s(3,4), of LogChan 0 Asleep] by auto
  have "reach (sw_init LogLock 0) (sw_step LogChan LogLock 0 0 1) (t, Asleep, WDone, True)"
    using reach_star [OF reach_star [OF 0 s(1)] t] .
  with no_lost_wakeup [OF this] show ?thesis by auto
qed

section \<open>kill\<close>

text \<open>The slot \<^verbatim>\<open>kill\<close> picks, and what it does to it.\<close>

definition kill_target :: "u32 \<Rightarrow> (nat \<Rightarrow> proc) \<Rightarrow> nat list \<Rightarrow> nat option" where
  "kill_target n P ps = find (\<lambda>p. pid (P p) = n) ps"

definition killed_proc :: "proc \<Rightarrow> proc" where
  "killed_proc x = x\<lparr>pkilled := 1, pstate := if pstate x = SLEEPING then RUNNABLE else pstate x\<rparr>"

lemma killed_proc_split:
  "killed_proc x = (if pstate x = SLEEPING then x\<lparr>pkilled := 1, pstate := RUNNABLE\<rparr> else x\<lparr>pkilled := 1\<rparr>)"
  by (cases x) (simp add: killed_proc_def)

lemma kill_loop_eq:
  "cpu_ok s \<Longrightarrow> \<forall>p \<in> set ps. free_lock s (ProcLock p) \<Longrightarrow> ps \<noteq> [] \<Longrightarrow>
   kill_loop n ps s = (case kill_target n (procs s) ps of
     None \<Rightarrow> Done (-1) (settle s)
   | Some p \<Rightarrow> Done 0 (set_proc p killed_proc (settle s)))"
proof (induction ps arbitrary: s)
  case (Cons p ps)
  have free: "free_lock s (ProcLock p)" using Cons.prems(2) by simp
  show ?case
  proof (cases "pid (procs s p) = n")
    case True
    then show ?thesis using Cons.prems(1) free
      by (simp add: kill_target_def acquire_free release_lock_on Let_def set_proc_def killed_proc_split)
  next
    case False
    then have step: "kill_loop n (p # ps) s = kill_loop n ps (settle s)"
      using Cons.prems(1) free by (simp add: acquire_free release_lock_on)
    show ?thesis
    proof (cases "ps = []")
      case True
      with step False show ?thesis by (simp add: kill_target_def)
    next
      case ne: False
      with Cons.IH [of "settle s"] Cons.prems step False show ?thesis
        by (cases "kill_target n (procs s) ps") (simp_all add: kill_target_def)
    qed
  qed
qed simp

text \<open>
  Property C17. \<^verbatim>\<open>kill(n)\<close> marks exactly the first slot of the table whose pid is \<open>n\<close>, makes it runnable if
  it sleeps, and returns 0; it returns -1 and changes no process when there is none.
\<close>

theorem kill_exact:
  assumes "cpu_ok s" "proc_locks_free s"
  shows "(\<exists>p t. kill n s = Done 0 t \<and> p < NPROC \<and> pid (procs s p) = n \<and> (\<forall>q < p. pid (procs s q) \<noteq> n) \<and>
            procs t = (procs s)(p := killed_proc (procs s p)))
       \<or> (\<exists>t. kill n s = Done (-1) t \<and> (\<forall>p < NPROC. pid (procs s p) \<noteq> n) \<and> procs t = procs s)"
proof -
  have k: "kill n s = (case kill_target n (procs s) [0..<NPROC] of
       None \<Rightarrow> Done (-1) (settle s) | Some p \<Rightarrow> Done 0 (set_proc p killed_proc (settle s)))"
    using kill_loop_eq [of s "[0..<NPROC]" n] assms NPROC_pos by (simp add: kill_def proc_locks_free_def)
  show ?thesis
  proof (cases "kill_target n (procs s) [0..<NPROC]")
    case None
    then have "\<forall>p < NPROC. pid (procs s p) \<noteq> n" by (auto simp: kill_target_def find_None_iff)
    with None k show ?thesis by auto
  next
    case (Some p)
    then have "p < NPROC \<and> pid (procs s p) = n \<and> (\<forall>q < p. pid (procs s q) \<noteq> n)"
      by (auto simp: kill_target_def find_Some_iff)
    with Some k show ?thesis by (auto simp: set_proc_def)
  qed
qed

text \<open>Three slots: a free one, a sleeper with pid 7 and a running process with pid 8.\<close>

definition demo_table :: "nat \<Rightarrow> proc" where
  "demo_table = (\<lambda>_. demo_proc\<lparr>pstate := UNUSED, pid := 0\<rparr>)
     (1 := demo_proc\<lparr>pstate := SLEEPING, pchan := Some TicksChan, pid := 7\<rparr>, 2 := demo_proc\<lparr>pid := 8\<rparr>)"

definition demo_procs :: proc_st where
  "demo_procs = demo_sleep\<lparr>cpus := (\<lambda>_. quiet_cpu), locks := (\<lambda>_. \<lparr>lk_locked = False, lk_name = [], lk_cpu = None\<rparr>),
     procs := demo_table\<rparr>"

lemma demo_procs_ok [simp]: "cpu_ok demo_procs" "free_lock demo_procs k" "proc_locks_free demo_procs"
  "procs demo_procs = demo_table"
  by (simp_all add: demo_procs_def free_lock_def cpu_ok_def cpu_defs quiet_cpu_def proc_locks_free_def)

theorem kill_exact_witness:
  "\<exists>t. kill 7 demo_procs = Done 0 t \<and> pkilled (procs t 1) = 1 \<and> pstate (procs t 1) = RUNNABLE \<and>
     procs t 2 = procs demo_procs 2"
proof -
  have p1: "pid (demo_table 1) = 7" "1 < NPROC" by (simp_all add: demo_table_def NPROC_def)
  have only: "p = 1" if "pid (demo_table p) = 7" for p
    using that by (auto simp: demo_table_def demo_proc_def split: if_splits)
  have st: "killed_proc (demo_table 1) = demo_proc\<lparr>pstate := RUNNABLE, pchan := Some TicksChan, pkilled := 1, pid := 7\<rparr>"
    by (simp add: demo_table_def killed_proc_def demo_proc_def)
  from kill_exact [OF demo_procs_ok(1,3), of 7] show ?thesis
  proof (elim disjE exE conjE, goal_cases)
    case (1 p t)
    then have "p = 1" using only by simp
    with 1(5) have "procs t = demo_table(1 := demo_proc\<lparr>pstate := RUNNABLE, pchan := Some TicksChan, pkilled := 1, pid := 7\<rparr>)"
      using st by simp
    with 1(1) show ?thesis by simp
  next
    case (2 t)
    with p1 show ?thesis by simp
  qed
qed

text \<open>
  Property C18. \<^verbatim>\<open>kill(0)\<close> succeeds whenever the table has a slot with pid 0, as every free slot has: it
  returns 0 and leaves \<^verbatim>\<open>killed\<close> set in a slot that no process occupies.
\<close>

theorem kill_zero_marks_free_slot:
  assumes "cpu_ok s" "proc_locks_free s" "\<exists>p < NPROC. pstate (procs s p) = UNUSED"
    "\<forall>p < NPROC. pid (procs s p) = 0 \<longleftrightarrow> pstate (procs s p) = UNUSED"
  shows "\<exists>p t. kill 0 s = Done 0 t \<and> p < NPROC \<and> pstate (procs t p) = UNUSED \<and> pkilled (procs t p) = 1"
proof -
  have k: "kill 0 s = (case kill_target 0 (procs s) [0..<NPROC] of
       None \<Rightarrow> Done (-1) (settle s) | Some p \<Rightarrow> Done 0 (set_proc p killed_proc (settle s)))"
    using kill_loop_eq [of s "[0..<NPROC]" 0] assms(1,2) NPROC_pos by (simp add: kill_def proc_locks_free_def)
  from assms(3,4) obtain p where p: "kill_target 0 (procs s) [0..<NPROC] = Some p"
    by (cases "kill_target 0 (procs s) [0..<NPROC]") (auto simp: kill_target_def find_None_iff)
  then have "p < NPROC" "pid (procs s p) = 0" by (auto simp: kill_target_def find_Some_iff)
  with assms(4) have "pstate (procs s p) = UNUSED" by auto
  with k p \<open>p < NPROC\<close> show ?thesis by (auto simp: set_proc_def killed_proc_def)
qed

theorem kill_zero_marks_free_slot_witness:
  "\<exists>p t. kill 0 demo_procs = Done 0 t \<and> p < NPROC \<and> pstate (procs t p) = UNUSED \<and> pkilled (procs t p) = 1"
proof -
  have "\<forall>p < NPROC. pid (demo_table p) = 0 \<longleftrightarrow> pstate (demo_table p) = UNUSED"
    by (auto simp: demo_table_def demo_proc_def)
  moreover have "\<exists>p < NPROC. pstate (demo_table p) = UNUSED"
    by (rule exI [of _ 0]) (simp add: demo_table_def NPROC_def)
  ultimately show ?thesis using kill_zero_marks_free_slot [of demo_procs] by simp
qed

section \<open>A process runs on one hart\<close>

text \<open>
  What a hart is doing: looking for work in \<^verbatim>\<open>scheduler\<close>, entering a process it has picked (the
  process has not yet released its own lock), running it, or leaving it (after \<^verbatim>\<open>swtch\<close>, before the
  scheduler releases the lock).
\<close>

datatype hart_phase = Looking | Entering nat | OnCpu nat | Leaving nat

fun occupies :: "hart_phase \<Rightarrow> nat option" where
  "occupies Looking = None"
| "occupies (Entering p) = Some p"
| "occupies (OnCpu p) = Some p"
| "occupies (Leaving p) = Some p"

fun unlocked_phase :: "hart_phase \<Rightarrow> bool" where
  "unlocked_phase (Entering p) = False"
| "unlocked_phase (Leaving p) = False"
| "unlocked_phase ph = True"

fun is_ProcLock :: "lockid \<Rightarrow> bool" where
  "is_ProcLock (ProcLock p) = True"
| "is_ProcLock lk = False"

type_synonym sc_state = "proc_st \<times> (nat \<Rightarrow> hart_phase)"

text \<open>The harts interleave at the granularity of the critical sections of the \<^verbatim>\<open>p->lock\<close>s.\<close>

inductive sc_step :: "sc_state \<Rightarrow> sc_state \<Rightarrow> bool" where
  sc_pick: "ph h = Looking \<Longrightarrow> scheduler_visit p (on_hart h s) = Waits Switched t \<Longrightarrow>
     sc_step (s, ph) (t, ph(h := Entering p))"
| sc_pass: "ph h = Looking \<Longrightarrow> scheduler_visit p (on_hart h s) = Done () t \<Longrightarrow> sc_step (s, ph) (t, ph)"
| sc_resume: "ph h = Entering p \<Longrightarrow> yield_resume p old (on_hart h s) = Done () t \<Longrightarrow>
     sc_step (s, ph) (t, ph(h := OnCpu p))"
| sc_awake: "ph h = Entering p \<Longrightarrow>
     release (ProcLock p) (set_proc p (\<lambda>x. x\<lparr>pchan := None\<rparr>) (sched_resume old (on_hart h s))) = Done () t \<Longrightarrow>
     sc_step (s, ph) (t, ph(h := OnCpu p))"
| sc_yield: "ph h = OnCpu p \<Longrightarrow> yield (on_hart h s) = Waits Switched t \<Longrightarrow> sc_step (s, ph) (t, ph(h := Leaving p))"
| sc_sleep: "ph h = OnCpu p \<Longrightarrow> \<not> is_ProcLock lk \<Longrightarrow> sleep ch lk (on_hart h s) = Waits Switched t \<Longrightarrow>
     sc_step (s, ph) (t, ph(h := Leaving p))"
| sc_back: "ph h = Leaving p \<Longrightarrow> scheduler_back p (on_hart h s) = Done () t \<Longrightarrow> sc_step (s, ph) (t, ph(h := Looking))"
| sc_wake: "unlocked_phase (ph h) \<Longrightarrow> wakeup_loop ch [p] (on_hart h s) = Done () t \<Longrightarrow> sc_step (s, ph) (t, ph)"
| sc_kill: "unlocked_phase (ph h) \<Longrightarrow> kill_loop n [p] (on_hart h s) = Done r t \<Longrightarrow> sc_step (s, ph) (t, ph)"
| sc_acquire: "unlocked_phase (ph h) \<Longrightarrow> \<not> is_ProcLock lk \<Longrightarrow> acquire lk (on_hart h s) = Done () t \<Longrightarrow>
     sc_step (s, ph) (t, ph)"
| sc_release: "unlocked_phase (ph h) \<Longrightarrow> \<not> is_ProcLock lk \<Longrightarrow> release lk (on_hart h s) = Done () t \<Longrightarrow>
     sc_step (s, ph) (t, ph)"

fun sc_init :: "sc_state \<Rightarrow> bool" where
  "sc_init (s, ph) \<longleftrightarrow> ph = (\<lambda>_. Looking)"

fun phase_ok :: "proc_st \<Rightarrow> hart_phase \<Rightarrow> bool" where
  "phase_ok s Looking \<longleftrightarrow> True"
| "phase_ok s (Entering p) \<longleftrightarrow> pstate (procs s p) = RUNNING \<and> lk_locked (locks s (ProcLock p))"
| "phase_ok s (OnCpu p) \<longleftrightarrow> pstate (procs s p) = RUNNING"
| "phase_ok s (Leaving p) \<longleftrightarrow> lk_locked (locks s (ProcLock p))"

fun sc_inv :: "sc_state \<Rightarrow> bool" where
  "sc_inv (s, ph) \<longleftrightarrow>
     (\<forall>h. phase_ok s (ph h)) \<and>
     (\<forall>h p. occupies (ph h) = Some p \<longrightarrow> c_proc (cpus s h) = Some p) \<and>
     (\<forall>h g p. occupies (ph h) = Some p \<longrightarrow> occupies (ph g) = Some p \<longrightarrow> h = g)"

text \<open>A step that touches only process \<open>p\<close>, its lock, and locks that belong to no process.\<close>

definition only_proc :: "nat \<Rightarrow> proc_st \<Rightarrow> proc_st \<Rightarrow> bool" where
  "only_proc p s t \<longleftrightarrow> (\<forall>q. q \<noteq> p \<longrightarrow> locks t (ProcLock q) = locks s (ProcLock q) \<and> procs t q = procs s q)"

definition same_cproc :: "proc_st \<Rightarrow> proc_st \<Rightarrow> bool" where
  "same_cproc s t \<longleftrightarrow> (\<forall>h. c_proc (cpus t h) = c_proc (cpus s h))"

lemma phase_ok_other: "only_proc p s t \<Longrightarrow> occupies d \<noteq> Some p \<Longrightarrow> phase_ok s d \<Longrightarrow> phase_ok t d"
  by (cases d) (auto simp: only_proc_def)

lemma sc_inv_frame:
  assumes inv: "sc_inv (s, ph)" and "only_proc p s t" "same_cproc s t"
    "\<And>h. occupies (ph h) = Some p \<Longrightarrow> phase_ok s (ph h) \<Longrightarrow> phase_ok t (ph h)"
  shows "sc_inv (t, ph)"
proof -
  have "phase_ok t (ph h)" for h
    using phase_ok_other [OF assms(2), of "ph h"] assms(4) [of h] inv by (cases "occupies (ph h) = Some p") auto
  then show ?thesis using inv assms(3) by (auto simp: same_cproc_def)
qed

lemma sc_inv_move:
  assumes inv: "sc_inv (s, ph)" and "only_proc p s t" "\<And>g. g \<noteq> h \<Longrightarrow> c_proc (cpus t g) = c_proc (cpus s g)"
    "occupies d \<noteq> None \<Longrightarrow> occupies d = Some p \<and> c_proc (cpus t h) = Some p"
    "\<And>g. g \<noteq> h \<Longrightarrow> occupies (ph g) \<noteq> Some p" "phase_ok t d"
  shows "sc_inv (t, ph(h := d))"
proof -
  have "phase_ok t ((ph(h := d)) g)" for g
    using phase_ok_other [OF assms(2), of "ph g"] assms(5) [of g] assms(6) inv by (cases "g = h") auto
  moreover have "c_proc (cpus t g) = Some q" if "occupies ((ph(h := d)) g) = Some q" for g q
    using that inv assms(3) [of g] assms(4) by (cases "g = h") auto
  moreover have "g = g'" if "occupies ((ph(h := d)) g) = Some q" "occupies ((ph(h := d)) g') = Some q" for g g' q
    using that inv assms(4) assms(5) [of g] assms(5) [of g'] by (cases "g = h"; cases "g' = h") auto
  ultimately show ?thesis unfolding sc_inv.simps by blast
qed

lemma visit_picks:
  assumes "scheduler_visit p (on_hart h s) = Waits Switched t"
  shows "\<not> lk_locked (locks s (ProcLock p))" "pstate (procs s p) = RUNNABLE" "only_proc p s t" "phase_ok t (Entering p)"
    "c_proc (cpus t g) = (if g = h then Some p else c_proc (cpus s g))"
proof -
  let ?u = "lock_on (ProcLock p) (on_hart h s)"
  have a: "acquire (ProcLock p) (on_hart h s) = Done () ?u"
    using assms acquire_DoneD(4) [of "ProcLock p" "on_hart h s"]
    by (cases "acquire (ProcLock p) (on_hart h s)") (auto simp: scheduler_visit_def acquire_def out_conv acquire_enter_def
        acquire_swap_def Let_def split: if_splits)
  have r: "pstate (procs s p) = RUNNABLE"
    and t: "t = set_mycpu ((mycpu (set_proc p (\<lambda>x. x\<lparr>pstate := RUNNING\<rparr>) ?u))\<lparr>c_proc := Some p\<rparr>)
      (set_proc p (\<lambda>x. x\<lparr>pstate := RUNNING\<rparr>) ?u)"
    using assms unfolding scheduler_visit_def a by (auto simp: Let_def release_def out_conv release_disown_def pop_off_def split: if_splits)
  note f = acquire_on [OF a]
  show "\<not> lk_locked (locks s (ProcLock p))" "pstate (procs s p) = RUNNABLE" using f(1) r by simp_all
  show "only_proc p s t" "phase_ok t (Entering p)"
    "c_proc (cpus t g) = (if g = h then Some p else c_proc (cpus s g))"
    unfolding t by (simp_all add: only_proc_def cpu_defs set_proc_def on_hart_def)
qed

lemma visit_passes:
  assumes "scheduler_visit p (on_hart h s) = Done () t"
  shows "\<not> lk_locked (locks s (ProcLock p))" "only_proc p s t" "same_cproc s t" "procs t = procs s"
proof -
  obtain u where a: "acquire (ProcLock p) (on_hart h s) = Done () u"
    using assms by (auto simp: scheduler_visit_def out_conv)
  have r: "release (ProcLock p) u = Done () t"
    using assms unfolding scheduler_visit_def a by (auto simp: Let_def split: if_splits)
  show "\<not> lk_locked (locks s (ProcLock p))" "only_proc p s t" "same_cproc s t" "procs t = procs s"
    using acquire_on [OF a] release_DoneD [OF r] release_fields [OF r]
    by (simp_all add: only_proc_def same_cproc_def)
qed

lemma resume_releases:
  assumes "release (ProcLock p) u = Done () t" "locks u = locks s" "\<And>q. q \<noteq> p \<Longrightarrow> procs u q = procs s q"
    "\<And>g. c_proc (cpus u g) = c_proc (cpus s g)"
  shows "only_proc p s t" "same_cproc s t" "procs t = procs u"
  using assms(2-4) release_DoneD [OF assms(1)] release_fields [OF assms(1)] by (simp_all add: only_proc_def same_cproc_def)

lemma sched_resume_fields [simp]:
  "locks (sched_resume old s) = locks s" "procs (sched_resume old s) = procs s"
  "c_proc (cpus (sched_resume old s) g) = c_proc (cpus s g)"
  by (simp_all add: sched_resume_def cpu_defs)

lemma back_releases:
  assumes "scheduler_back p (on_hart h s) = Done () t"
  shows "only_proc p s t" "g \<noteq> h \<Longrightarrow> c_proc (cpus t g) = c_proc (cpus s g)"
  using scheduler_back_DoneD [OF assms] by (simp_all add: only_proc_def on_hart_def)

lemma myproc_deref_Waits:
  assumes "myproc_deref f (on_hart h s) = Waits Switched t" "c_proc (cpus s h) = Some p"
  obtains u where "f p u = Waits Switched t" "locks u = locks s" "procs u = procs s" "\<And>g. c_proc (cpus u g) = c_proc (cpus s g)"
proof -
  obtain q u where u: "myproc (on_hart h s) = Done (Some q) u" "f q u = Waits Switched t"
    using assms(1) by (auto simp: myproc_deref_def out_conv split: option.splits)
  have "c_proc (mycpu (on_hart h s)) = Some q"
    using u(1) by (auto simp: myproc_def Let_def out_conv)
  then have "q = p" using assms(2) by (simp add: mycpu_def cpuid_def on_hart_def)
  with u that myproc_DoneD [OF u(1)] show ?thesis by simp
qed

lemma acquire_not_switched [simp]: "acquire lk s \<noteq> Waits Switched t"
  by (auto simp: acquire_def acquire_enter_def acquire_swap_def Let_def split: if_splits)

lemma release_not_waits [simp]: "release lk s \<noteq> Waits c t"
  by (auto simp: release_def release_disown_def pop_off_def Let_def split: if_splits)

lemma yield_leaves:
  assumes "yield (on_hart h s) = Waits Switched t" "c_proc (cpus s h) = Some p"
  shows "only_proc p s t" "same_cproc s t" "phase_ok t (Leaving p)"
proof -
  obtain u where u: "bnd (acquire (ProcLock p) u) (\<lambda>_ s2. sched (set_proc p (\<lambda>x. x\<lparr>pstate := RUNNABLE\<rparr>) s2)) = Waits Switched t"
    "locks u = locks s" "procs u = procs s" "\<And>g. c_proc (cpus u g) = c_proc (cpus s g)"
    using myproc_deref_Waits [OF assms(1) [unfolded yield_def] assms(2)] by metis
  obtain v where a: "acquire (ProcLock p) u = Done () v"
    and b: "sched (set_proc p (\<lambda>x. x\<lparr>pstate := RUNNABLE\<rparr>) v) = Waits Switched t"
    using u(1) by (auto simp: out_conv)
  show "only_proc p s t" "same_cproc s t" "phase_ok t (Leaving p)"
    using sched_WaitsD [OF b] acquire_DoneD [OF a] u
    by (simp_all add: only_proc_def same_cproc_def set_proc_def)
qed

lemma sleep_leaves:
  assumes "sleep ch lk (on_hart h s) = Waits Switched t" "c_proc (cpus s h) = Some p" "\<not> is_ProcLock lk"
  shows "only_proc p s t" "same_cproc s t" "phase_ok t (Leaving p)"
proof -
  have ne: "ProcLock q \<noteq> lk" for q using assms(3) by auto
  obtain u where u: "bnd (acquire (ProcLock p) u) (\<lambda>_ s2. bnd (release lk s2) (\<lambda>_ s3.
        sched (set_proc p (\<lambda>x. x\<lparr>pchan := Some ch, pstate := SLEEPING\<rparr>) s3))) = Waits Switched t"
    "locks u = locks s" "procs u = procs s" "\<And>g. c_proc (cpus u g) = c_proc (cpus s g)"
    using myproc_deref_Waits [OF assms(1) [unfolded sleep_code] assms(2)] by metis
  obtain v w where a: "acquire (ProcLock p) u = Done () v" and r: "release lk v = Done () w"
    and b: "sched (set_proc p (\<lambda>x. x\<lparr>pchan := Some ch, pstate := SLEEPING\<rparr>) w) = Waits Switched t"
    using u(1) by (auto simp: out_conv)
  show "only_proc p s t" "same_cproc s t" "phase_ok t (Leaving p)"
    using sched_WaitsD [OF b] release_DoneD(2) [OF r ne] release_fields [OF r] acquire_DoneD [OF a] u
    by (simp_all add: only_proc_def same_cproc_def set_proc_def)
qed

lemma wake_visits:
  assumes "wakeup_loop ch [p] (on_hart h s) = Done () t"
  shows "only_proc p s t" "same_cproc s t"
    "locks t (ProcLock p) = locks s (ProcLock p) \<and> procs t p = procs s p \<or>
     \<not> lk_locked (locks s (ProcLock p)) \<and> (pstate (procs s p) = RUNNING \<longrightarrow> pstate (procs t p) = RUNNING)"
proof -
  obtain me u where m: "myproc (on_hart h s) = Done me u"
    using assms by (auto simp: out_conv)
  note f = myproc_DoneD [OF m, simplified]
  have "only_proc p s t \<and> same_cproc s t \<and>
     (locks t (ProcLock p) = locks s (ProcLock p) \<and> procs t p = procs s p \<or>
      \<not> lk_locked (locks s (ProcLock p)) \<and> (pstate (procs s p) = RUNNING \<longrightarrow> pstate (procs t p) = RUNNING))"
  proof (cases "me = Some p")
    case True
    then have "t = u" using assms m by simp
    with f show ?thesis by (simp add: only_proc_def same_cproc_def)
  next
    case False
    let ?w = "\<lambda>v. if pstate (procs v p) = SLEEPING \<and> pchan (procs v p) = ch
                   then set_proc p (\<lambda>x. x\<lparr>pstate := RUNNABLE\<rparr>) v else v"
    obtain v where a: "acquire (ProcLock p) u = Done () v" and r: "release (ProcLock p) (?w v) = Done () t"
      using assms m False by (auto simp: out_conv Let_def)
    have w: "locks (?w v) = locks v" "c_proc (cpus (?w v) g) = c_proc (cpus v g)" "q \<noteq> p \<Longrightarrow> procs (?w v) q = procs v q"
      "pstate (procs v p) = RUNNING \<Longrightarrow> pstate (procs (?w v) p) = RUNNING" for g q
      by (simp_all add: set_proc_def)
    show ?thesis
      using f acquire_DoneD [OF a] release_DoneD [OF r] release_fields [OF r] w
      by (auto simp: only_proc_def same_cproc_def)
  qed
  then show "only_proc p s t" "same_cproc s t"
    "locks t (ProcLock p) = locks s (ProcLock p) \<and> procs t p = procs s p \<or>
     \<not> lk_locked (locks s (ProcLock p)) \<and> (pstate (procs s p) = RUNNING \<longrightarrow> pstate (procs t p) = RUNNING)"
    by blast+
qed

lemma kill_visits:
  assumes "kill_loop n [p] (on_hart h s) = Done r t"
  shows "only_proc p s t" "same_cproc s t" "\<not> lk_locked (locks s (ProcLock p))"
    "pstate (procs s p) = RUNNING \<Longrightarrow> pstate (procs t p) = RUNNING"
proof -
  obtain u where a: "acquire (ProcLock p) (on_hart h s) = Done () u"
    using assms by (auto simp: out_conv)
  obtain w where r: "release (ProcLock p) w = Done () t" and w: "w = u \<or> w = set_proc p killed_proc u"
    using assms unfolding kill_loop.simps a killed_proc_split
    by (auto simp: out_conv Let_def set_proc_def split: if_splits)
  have f: "locks w = locks u" "c_proc (cpus w g) = c_proc (cpus u g)" "q \<noteq> p \<Longrightarrow> procs w q = procs u q"
    "pstate (procs u p) = RUNNING \<Longrightarrow> pstate (procs w p) = RUNNING" for g q
    using w by (auto simp: set_proc_def killed_proc_def)
  show "only_proc p s t" "same_cproc s t" "\<not> lk_locked (locks s (ProcLock p))"
    "pstate (procs s p) = RUNNING \<Longrightarrow> pstate (procs t p) = RUNNING"
    using acquire_on [OF a] release_DoneD [OF r] release_fields [OF r] f
    by (simp_all add: only_proc_def same_cproc_def)
qed

text \<open>No hart enters or leaves a process whose lock is free.\<close>

lemma phase_ok_unlocked:
  "occupies d = Some p \<Longrightarrow> phase_ok s d \<Longrightarrow> \<not> lk_locked (locks s (ProcLock p)) \<Longrightarrow> d = OnCpu p \<and> pstate (procs s p) = RUNNING"
  by (cases d) auto

lemma sc_inv_same:
  assumes "sc_inv (s, ph)" "only_proc p s t" "same_cproc s t" "\<not> lk_locked (locks s (ProcLock p))"
    "pstate (procs s p) = RUNNING \<Longrightarrow> pstate (procs t p) = RUNNING"
  shows "sc_inv (t, ph)"
  using assms(1-3)
proof (rule sc_inv_frame)
  fix h assume "occupies (ph h) = Some p" "phase_ok s (ph h)"
  with phase_ok_unlocked [OF this assms(4)] assms(5) show "phase_ok t (ph h)" by simp
qed

lemma sc_inv_advance:
  assumes "sc_inv (s, ph)" "occupies (ph h) = Some p" "only_proc p s t" "same_cproc s t" "phase_ok t d" "occupies d = Some p"
  shows "sc_inv (t, ph(h := d))"
proof (rule sc_inv_move [OF assms(1,3) _ _ _ assms(5)])
  show "c_proc (cpus t g) = c_proc (cpus s g)" for g using assms(4) by (simp add: same_cproc_def)
  then show "occupies d = Some p \<and> c_proc (cpus t h) = Some p" using assms(1,2,6) by simp
  show "occupies (ph g) \<noteq> Some p" if "g \<noteq> h" for g using that assms(1,2) by auto
qed

lemma sc_inv_step: "sc_inv x \<Longrightarrow> sc_step x y \<Longrightarrow> sc_inv y"
proof (rotate_tac 1, induction rule: sc_step.induct)
  case (sc_pick ph h p s t)
  note v = visit_picks [OF sc_pick(2)]
  show ?case
  proof (rule sc_inv_move [OF sc_pick(3) v(3) _ _ _ v(4)])
    show "c_proc (cpus t g) = c_proc (cpus s g)" if "g \<noteq> h" for g using v(5) that by simp
    show "occupies (Entering p) = Some p \<and> c_proc (cpus t h) = Some p" using v(5) by simp
    show "occupies (ph g) \<noteq> Some p" for g
      using phase_ok_unlocked [of "ph g" p s] v(1,2) sc_pick(3) by auto
  qed
next
  case (sc_pass ph h p s t)
  note v = visit_passes [OF sc_pass(2)]
  from sc_inv_same [OF sc_pass(3) v(2,3,1)] v(4) show ?case by simp
next
  case (sc_resume ph h p old s t)
  note v = resume_releases [OF sc_resume(2) [unfolded yield_resume_def], of s]
  have "phase_ok s (ph h)" using sc_resume(3) by simp
  with v sc_resume(1) show ?case by (intro sc_inv_advance [OF sc_resume(3)]) simp_all
next
  case (sc_awake ph h p old s t)
  note v = resume_releases [OF sc_awake(2), of s]
  have "phase_ok s (ph h)" using sc_awake(3) by simp
  with v sc_awake(1) show ?case by (intro sc_inv_advance [OF sc_awake(3)]) (simp_all add: set_proc_def)
next
  case (sc_yield ph h p s t)
  then have "c_proc (cpus s h) = Some p" by simp
  with sc_yield(1) show ?case by (intro sc_inv_advance [OF sc_yield(3)] yield_leaves [OF sc_yield(2)]) simp_all
next
  case (sc_sleep ph h p lk ch s t)
  then have "c_proc (cpus s h) = Some p" by simp
  with sc_sleep(1,2) show ?case by (intro sc_inv_advance [OF sc_sleep(4)] sleep_leaves [OF sc_sleep(3)]) simp_all
next
  case (sc_back ph h p s t)
  note v = back_releases [OF sc_back(2)]
  show ?case
  proof (rule sc_inv_move [OF sc_back(3) v])
    show "occupies (ph g) \<noteq> Some p" if "g \<noteq> h" for g using that sc_back(1,3) by auto
  qed simp_all
next
  case (sc_wake ph h ch p s t)
  from wake_visits(3) [OF sc_wake(2)] show ?case
  proof (elim disjE conjE)
    assume "locks t (ProcLock p) = locks s (ProcLock p)" "procs t p = procs s p"
    then have "phase_ok s d \<Longrightarrow> occupies d = Some p \<Longrightarrow> phase_ok t d" for d by (cases d) auto
    with sc_inv_frame [OF sc_wake(3) wake_visits(1,2) [OF sc_wake(2)]] show ?thesis by blast
  qed (use sc_inv_same [OF sc_wake(3) wake_visits(1,2) [OF sc_wake(2)]] in blast)
next
  case (sc_kill ph h n p s r t)
  from sc_inv_same [OF sc_kill(3) kill_visits [OF sc_kill(2)]] show ?case by simp
next
  case (sc_acquire ph h lk s t)
  have "ProcLock q \<noteq> lk" for q using sc_acquire(2) by auto
  then have "only_proc p s t" "same_cproc s t" "phase_ok s d \<Longrightarrow> phase_ok t d" for p d
    using acquire_on(3-5) [OF sc_acquire(3)] by (auto simp: only_proc_def same_cproc_def elim!: phase_ok.elims)
  with sc_inv_frame [OF sc_acquire(4)] show ?case by blast
next
  case (sc_release ph h lk s t)
  have "ProcLock q \<noteq> lk" for q using sc_release(2) by auto
  then have "only_proc p s t" "same_cproc s t" "phase_ok s d \<Longrightarrow> phase_ok t d" for p d
    using release_DoneD(2) [OF sc_release(3)] release_fields [OF sc_release(3)]
    by (auto simp: only_proc_def same_cproc_def elim!: phase_ok.elims)
  with sc_inv_frame [OF sc_release(4)] show ?case by blast
qed

interpretation sc: step_invariant sc_init sc_step sc_inv
proof unfold_locales
  show "sc_inv s" if "sc_init s" for s using that by (cases s) simp
qed (rule sc_inv_step)

text \<open>
  Property C7. However the harts' schedulers interleave with yielding, sleeping, waking and killing
  processes, no two harts are in the same process, a hart in a process has it as its \<^verbatim>\<open>mycpu()->proc\<close>,
  and a process that a hart executes is marked \<^verbatim>\<open>RUNNING\<close>.
\<close>

theorem process_on_one_hart:
  assumes "reach sc_init sc_step (s, ph)" "occupies (ph h) = Some p"
  shows "(\<forall>g. occupies (ph g) = Some p \<longrightarrow> g = h) \<and> c_proc (cpus s h) = Some p \<and>
    (ph h = OnCpu p \<longrightarrow> pstate (procs s p) = RUNNING)"
proof -
  have inv: "sc_inv (s, ph)" using assms(1) by (rule sc.reach_inv)
  then have "phase_ok s (ph h)" by simp
  then have "ph h = OnCpu p \<Longrightarrow> pstate (procs s p) = RUNNING" by (elim phase_ok.elims) auto
  with inv assms(2) show ?thesis by auto
qed

lemma hart_picks:
  assumes "hart_at h 0 pr s" "\<not> lk_locked (locks s (ProcLock p))" "pstate (procs s p) = RUNNABLE"
  shows "\<exists>t. scheduler_visit p (on_hart h s) = Waits Switched t \<and> hart_at h 1 (Some p) t \<and>
    lk_locked (locks t (ProcLock p)) \<and> lk_cpu (locks t (ProcLock p)) = Some h"
  using assms
  by (auto simp: scheduler_visit_def acquire_def acquire_enter_def acquire_swap_def acquire_own_def holding_def
      push_off_def on_hart_def hart_at_def intr_defs cpu_defs set_proc_def Let_def)

theorem process_on_one_hart_witness:
  "\<exists>t. reach sc_init sc_step (t, (\<lambda>_. Looking)(0 := OnCpu 0)) \<and>
     c_proc (cpus t 0) = Some 0 \<and> pstate (procs t 0) = RUNNING"
proof -
  let ?s = "demo_procs\<lparr>procs := (\<lambda>_. demo_proc\<lparr>pstate := RUNNABLE\<rparr>)\<rparr>"
  have s: "hart_at 0 0 None ?s" "\<not> lk_locked (locks ?s (ProcLock 0))" "pstate (procs ?s 0) = RUNNABLE"
    by (simp_all add: hart_at_def demo_procs_def demo_sleep_def con_st.defs boot_con_def kmem_st.defs boot_kmem_def
        machine.defs boot_machine_def quiet_cpu_def zero_csr_def)
  from hart_picks [OF s] obtain t where t: "scheduler_visit 0 (on_hart 0 ?s) = Waits Switched t"
    "hart_at 0 1 (Some 0) t" "lk_locked (locks t (ProcLock 0))" "lk_cpu (locks t (ProcLock 0)) = Some 0" by auto
  have r: "sched_resume False (on_hart 0 t) = on_hart 0 (t\<lparr>cpus := (cpus t)(0 := (cpus t 0)\<lparr>intena := False\<rparr>)\<rparr>)"
    by (simp add: sched_resume_def on_hart_def cpu_defs)
  let ?t = "t\<lparr>cpus := (cpus t)(0 := (cpus t 0)\<lparr>intena := False\<rparr>)\<rparr>"
  have "hart_at 0 1 (Some 0) ?t" using t(2) by (simp add: hart_at_def)
  from hart_release [OF this, of "ProcLock 0"] t(3,4)
  obtain u where u: "release (ProcLock 0) (on_hart 0 ?t) = Done () u" by auto
  then have v: "yield_resume 0 False (on_hart 0 t) = Done () u" by (simp only: yield_resume_def r)
  have "reach sc_init sc_step (?s, \<lambda>_. Looking)" by (rule reach_init) simp
  from reach_step [OF this sc_pick [OF refl t(1)]]
  have "reach sc_init sc_step (t, (\<lambda>_. Looking)(0 := Entering 0))" .
  from reach_step [OF this sc_resume [OF _ v]]
  have run: "reach sc_init sc_step (u, (\<lambda>_. Looking)(0 := OnCpu 0))" by simp
  from process_on_one_hart [OF run, of 0 0] run show ?thesis by auto
qed

end
