(* ===== verification/Ring.thy ===== *)
theory Ring
  imports Layout
begin

text \<open>
  Byte rings with free-running indices, as the UART transmit buffer (\<^verbatim>\<open>kernel/uart.c\<close>), the console
  input buffer (\<^verbatim>\<open>kernel/console.c\<close>) and pipes (\<^verbatim>\<open>kernel/pipe.c\<close>) have them. The indices are machine
  words that wrap; a slot is the index modulo the buffer size, which divides the word range.

  The locale \<open>fifo\<close> is the contract the drivers rely on; it is interpreted for the three rings by the
  theories that own them.
\<close>

definition ring_items :: "nat \<Rightarrow> 'b list \<Rightarrow> 'w::len word \<Rightarrow> 'w word \<Rightarrow> 'b list" where
  "ring_items N buf r w = map (\<lambda>k. buf ! (unat (r + of_nat k) mod N)) [0..<unat (w - r)]"

definition ring_ok :: "nat \<Rightarrow> 'b list \<Rightarrow> 'w::len word \<Rightarrow> 'w word \<Rightarrow> bool" where
  "ring_ok N buf r w \<longleftrightarrow> length buf = N \<and> unat (w - r) \<le> N \<and> 0 < N \<and> N < 2 ^ LENGTH('w) \<and> N dvd 2 ^ LENGTH('w)"

definition ring_put :: "nat \<Rightarrow> 'b \<Rightarrow> 'b list \<times> 'w::len word \<times> 'w word \<Rightarrow> 'b list \<times> 'w word \<times> 'w word" where
  "ring_put N x q = (case q of (buf, r, w) \<Rightarrow> (buf[unat w mod N := x], r, w + 1))"

definition ring_get :: "nat \<Rightarrow> 'b list \<times> 'w::len word \<times> 'w word \<Rightarrow> 'b \<times> 'b list \<times> 'w word \<times> 'w word" where
  "ring_get N q = (case q of (buf, r, w) \<Rightarrow> (buf ! (unat r mod N), buf, r + 1, w))"

lemma unat_mod_add:
  fixes r :: "'w::len word"
  assumes "N dvd 2 ^ LENGTH('w)"
  shows "unat (r + of_nat k) mod N = (unat r + k) mod N"
proof -
  have "unat (r + of_nat k) = (unat r + k) mod 2 ^ LENGTH('w)"
    by (simp add: unat_word_ariths unat_of_nat mod_add_right_eq)
  with assms show ?thesis by (simp add: mod_mod_cancel)
qed

lemma add_mod_inj:
  assumes "(a + i) mod N = (a + j) mod N" "i < N" "j < N"
  shows "i = (j :: nat)"
proof -
  have "int i mod int N = int j mod int N"
  proof -
    have "(int a + int i) mod int N = (int a + int j) mod int N"
      using assms(1) by (metis of_nat_add of_nat_mod)
    then show ?thesis by (metis add_diff_cancel_left' mod_diff_left_eq)
  qed
  with assms(2,3) show ?thesis by simp
qed

lemma ring_length [simp]: "length (ring_items N buf r w) = unat (w - r)"
  by (simp add: ring_items_def)

lemma ring_distance_put:
  fixes r w :: "'w::len word"
  assumes "unat (w - r) < N" "N < 2 ^ LENGTH('w)"
  shows "unat (w + 1 - r) = Suc (unat (w - r))"
proof -
  have "unat (w - r + 1) = Suc (unat (w - r))"
    using assms by (simp add: unat_word_ariths(1))
  then show ?thesis by (simp add: algebra_simps)
qed

lemma ring_distance_get:
  fixes r w :: "'w::len word"
  assumes "w \<noteq> r"
  shows "unat (w - (r + 1)) = unat (w - r) - 1"
proof -
  have "w - (r + 1) = (w - r) - 1" by (simp add: algebra_simps)
  moreover have "unat ((w - r) - 1) = unat (w - r) - 1" using assms by (intro unat_minus_one) simp
  ultimately show ?thesis by (simp only:)
qed

lemma ring_items_put:
  fixes r w :: "'w::len word"
  assumes "ring_ok N buf r w" "unat (w - r) < N"
  shows "ring_items N (buf[unat w mod N := x]) r (w + 1) = ring_items N buf r w @ [x]"
proof -
  let ?n = "unat (w - r)"
  have N: "N < 2 ^ LENGTH('w)" "N dvd 2 ^ LENGTH('w)" "length buf = N" "0 < N" using assms(1) by (auto simp: ring_ok_def)
  have w: "unat w mod N = (unat r + ?n) mod N"
    using unat_mod_add [OF N(2), of r ?n] by simp
  have old: "buf[unat w mod N := x] ! (unat (r + of_nat k) mod N) = buf ! (unat (r + of_nat k) mod N)" if "k < ?n" for k
  proof -
    have "(unat r + ?n) mod N \<noteq> (unat r + k) mod N"
      using add_mod_inj [of "unat r" ?n N k] that assms(2) by auto
    then show ?thesis unfolding unat_mod_add [OF N(2)] w by simp
  qed
  have new: "buf[unat w mod N := x] ! (unat (r + of_nat ?n) mod N) = x"
    unfolding unat_mod_add [OF N(2)] w using N(3,4) by simp
  show ?thesis
    unfolding ring_items_def ring_distance_put [OF assms(2) N(1)]
    using old new by simp
qed

lemma ring_items_get:
  fixes r w :: "'w::len word"
  assumes "w \<noteq> r"
  shows "ring_items N buf r w = buf ! (unat r mod N) # ring_items N buf (r + 1) w"
proof -
  have "0 < unat (w - r)" using assms by (simp add: unat_gt_0)
  then have u: "unat (w - r) = Suc (unat (w - (r + 1)))" using ring_distance_get [OF assms] by simp
  have "map (\<lambda>k. buf ! (unat (r + of_nat k) mod N)) [1..<Suc m] =
      map (\<lambda>k. buf ! (unat (r + 1 + of_nat k) mod N)) [0..<m]" for m
    by (induction m) (simp_all add: algebra_simps)
  then show ?thesis unfolding ring_items_def u by (simp add: upt_rec [of 0] del: upt_Suc)
qed

lemma ring_ok_put: "ring_ok N buf r w \<Longrightarrow> unat (w - r) < N \<Longrightarrow> ring_ok N (buf[i := x]) r (w + 1)"
  using ring_distance_put [of w r N] by (simp add: ring_ok_def)

lemma ring_ok_get: "ring_ok N buf r w \<Longrightarrow> w \<noteq> r \<Longrightarrow> ring_ok N buf (r + 1) w"
  using ring_distance_get [of w r] by (auto simp: ring_ok_def)

text \<open>Writing a slot past the end, splitting, and dropping the newest item.\<close>

lemma ring_items_upd:
  fixes r w e :: "'w::len word"
  assumes "N dvd 2 ^ LENGTH('w)" "unat (e - r) < N" "unat (w - r) \<le> unat (e - r)"
  shows "ring_items N (buf[unat e mod N := x]) r w = ring_items N buf r w"
proof -
  have e: "unat e mod N = (unat r + unat (e - r)) mod N"
    using unat_mod_add [OF assms(1), of r "unat (e - r)"] by simp
  have "buf[unat e mod N := x] ! (unat (r + of_nat k) mod N) = buf ! (unat (r + of_nat k) mod N)" if "k < unat (w - r)" for k
  proof -
    have "(unat r + unat (e - r)) mod N \<noteq> (unat r + k) mod N"
      using add_mod_inj [of "unat r" "unat (e - r)" N k] that assms(2,3) by auto
    then show ?thesis unfolding unat_mod_add [OF assms(1)] e by simp
  qed
  then show ?thesis by (simp add: ring_items_def)
qed

lemma ring_add_small:
  fixes a b :: "'w::len word"
  shows "unat a + unat b < 2 ^ LENGTH('w) \<Longrightarrow> unat (a + b) = unat a + unat b"
  by (simp add: unat_word_ariths(1))

lemma ring_distance_add:
  fixes r w e :: "'w::len word"
  assumes "unat (w - r) + unat (e - w) < 2 ^ LENGTH('w)"
  shows "unat (e - r) = unat (w - r) + unat (e - w)"
proof -
  have "e - r = (w - r) + (e - w)" by simp
  moreover have "unat ((w - r) + (e - w)) = unat (w - r) + unat (e - w)"
    using assms by (rule ring_add_small)
  ultimately show ?thesis by (simp only:)
qed

lemma ring_items_append:
  fixes r w e :: "'w::len word"
  assumes "unat (w - r) + unat (e - w) < 2 ^ LENGTH('w)"
  shows "ring_items N buf r e = ring_items N buf r w @ ring_items N buf w e"
proof -
  let ?a = "unat (w - r)"
  have at: "r + of_nat (?a + k) = w + of_nat k" for k
  proof -
    have "of_nat ?a = w - r" by simp
    then show ?thesis by (simp only: of_nat_add) simp
  qed
  have "map (\<lambda>k. buf ! (unat (r + of_nat k) mod N)) [?a..<?a + b] =
      map (\<lambda>k. buf ! (unat (w + of_nat k) mod N)) [0..<b]" for b
    by (induction b) (simp_all add: at del: of_nat_add)
  then show ?thesis
    unfolding ring_items_def ring_distance_add [OF assms] upt_add_eq_append [OF le0] map_append by simp
qed

lemma ring_items_pop:
  fixes w e :: "'w::len word"
  assumes "e \<noteq> w"
  shows "ring_items N buf w (e - 1) = butlast (ring_items N buf w e)" "unat (e - 1 - w) = unat (e - w) - 1"
    "last (ring_items N buf w e) = buf ! (unat (e - 1) mod N)"
proof -
  have "e - 1 - w = (e - w) - 1" by (simp add: algebra_simps)
  moreover have "unat ((e - w) - 1) = unat (e - w) - 1" using assms by (intro unat_minus_one) simp
  ultimately show u: "unat (e - 1 - w) = unat (e - w) - 1" by (simp only:)
  have "0 < unat (e - w)" using assms by (simp add: unat_gt_0)
  then obtain n where n: "unat (e - w) = Suc n" by (cases "unat (e - w)") auto
  have at: "w + of_nat n = e - 1"
  proof -
    have "of_nat (unat (e - w)) = e - w" by simp
    then show ?thesis unfolding n by (simp add: algebra_simps)
  qed
  show "ring_items N buf w (e - 1) = butlast (ring_items N buf w e)" unfolding ring_items_def u n by simp
  show "last (ring_items N buf w e) = buf ! (unat (e - 1) mod N)" unfolding ring_items_def n by (simp add: at)
qed

section \<open>The contract\<close>

locale fifo =
  fixes ok :: "'q \<Rightarrow> bool" and items :: "'q \<Rightarrow> 'b list" and cap :: nat
    and put :: "'b \<Rightarrow> 'q \<Rightarrow> 'q" and get :: "'q \<Rightarrow> 'b \<times> 'q"
  assumes ok_bound: "ok q \<Longrightarrow> length (items q) \<le> cap"
    and put_ok: "ok q \<Longrightarrow> length (items q) < cap \<Longrightarrow> ok (put x q)"
    and put_items: "ok q \<Longrightarrow> length (items q) < cap \<Longrightarrow> items (put x q) = items q @ [x]"
    and get_ok: "ok q \<Longrightarrow> items q \<noteq> [] \<Longrightarrow> ok (snd (get q))"
    and get_items: "ok q \<Longrightarrow> items q \<noteq> [] \<Longrightarrow> items q = fst (get q) # items (snd (get q))"
begin

text \<open>Producer and consumer steps in any order; a put on a full ring and a get on an empty one wait.\<close>

fun run :: "'b option list \<Rightarrow> 'q \<Rightarrow> 'b list \<times> 'b list \<times> 'q" where
  "run [] q = ([], [], q)"
| "run (Some x # os) q =
     (if length (items q) < cap then case run os (put x q) of (ins, outs, q') \<Rightarrow> (x # ins, outs, q') else run os q)"
| "run (None # os) q =
     (if items q = [] then run os q
      else case get q of (y, q1) \<Rightarrow> case run os q1 of (ins, outs, q') \<Rightarrow> (ins, y # outs, q'))"

lemma run_in_order:
  "ok q \<Longrightarrow> run os q = (ins, outs, q') \<Longrightarrow> ok q' \<and> items q @ ins = outs @ items q'"
proof (induction os arbitrary: q ins outs q' rule: list.induct)
  case (Cons a os)
  show ?case
  proof (cases a)
    case None
    show ?thesis
    proof (cases "items q = []")
      case False
      obtain ins2 outs2 q2 where r: "run os (snd (get q)) = (ins2, outs2, q2)" by (metis prod_cases3)
      have "ins = ins2" "outs = fst (get q) # outs2" "q' = q2"
        using Cons.prems(2) None False r by (auto simp: case_prod_unfold)
      then show ?thesis using Cons.IH [OF get_ok [OF Cons.prems(1) False] r] get_items [OF Cons.prems(1) False] by simp
    qed (use Cons.IH [of q ins outs q'] Cons.prems None in simp)
  next
    case (Some x)
    show ?thesis
    proof (cases "length (items q) < cap")
      case True
      obtain ins2 outs2 q2 where r: "run os (put x q) = (ins2, outs2, q2)" by (metis prod_cases3)
      have "ins = x # ins2" "outs = outs2" "q' = q2"
        using Cons.prems(2) Some True r by auto
      then show ?thesis using Cons.IH [OF put_ok [OF Cons.prems(1) True] r] put_items [OF Cons.prems(1) True] by simp
    qed (use Cons.IH [of q ins outs q'] Cons.prems Some in simp)
  qed
qed auto

end

definition ring_state_ok :: "nat \<Rightarrow> 'b list \<times> 'w::len word \<times> 'w word \<Rightarrow> bool" where
  "ring_state_ok N q = (case q of (buf, r, w) \<Rightarrow> ring_ok N buf r w)"

definition ring_state_items :: "nat \<Rightarrow> 'b list \<times> 'w::len word \<times> 'w word \<Rightarrow> 'b list" where
  "ring_state_items N q = (case q of (buf, r, w) \<Rightarrow> ring_items N buf r w)"

lemma ring_state_bound: "ring_state_ok N q \<Longrightarrow> length (ring_state_items N q) \<le> N"
  by (cases q) (simp add: ring_state_ok_def ring_state_items_def ring_ok_def)

lemma ring_state_put:
  assumes "ring_state_ok N q" "length (ring_state_items N q) < N"
  shows "ring_state_ok N (ring_put N x q)" "ring_state_items N (ring_put N x q) = ring_state_items N q @ [x]"
  using assms
  by (cases q, simp add: ring_state_ok_def ring_state_items_def ring_put_def ring_ok_put ring_items_put)+

lemma ring_state_get:
  assumes "ring_state_ok N q" "ring_state_items N q \<noteq> []"
  shows "ring_state_ok N (snd (ring_get N q))"
    "ring_state_items N q = fst (ring_get N q) # ring_state_items N (snd (ring_get N q))"
proof -
  obtain buf r w where q: "q = (buf, r, w)" by (cases q)
  have "w \<noteq> r" using assms(2) by (auto simp: q ring_state_items_def ring_items_def)
  then show "ring_state_ok N (snd (ring_get N q))"
    "ring_state_items N q = fst (ring_get N q) # ring_state_items N (snd (ring_get N q))"
    using assms(1) by (simp_all add: q ring_state_ok_def ring_state_items_def ring_get_def ring_ok_get ring_items_get)
qed

interpretation ring_fifo: fifo "ring_state_ok N" "ring_state_items N" N "ring_put N" "ring_get N" for N
  by unfold_locales (auto intro: ring_state_bound ring_state_put ring_state_get)

end
