(* ===== verification/Console.thy ===== *)
theory Console
  imports Sched Ring
begin

text \<open>
  The interrupt-driven part of \<^verbatim>\<open>kernel/uart.c\<close> and the console device of \<^verbatim>\<open>kernel/console.c\<close>:
  the transmit ring, the input line editor, and the device read and write functions.

  A loop that sleeps is a definition of its own (\<open>uartputc_loop\<close>, \<open>consoleread_loop\<close>): it ends in
  \<open>Waits Switched\<close> and is entered again when the process is woken.
\<close>

unbundle bit_operations_syntax

section \<open>State\<close>

text \<open>The function pairs a \<^verbatim>\<open>devsw\<close> entry can hold; the console is the only device.\<close>

datatype devops = ConsoleOps

record tty_st = proc_st +
  uart_tx_buf :: "u8 list"
  uart_tx_w :: u64
  uart_tx_r :: u64
  cons_buf :: "u8 list"
  cons_r :: u32
  cons_w :: u32
  cons_e :: u32
  devsw :: "nat \<Rightarrow> devops option"

definition UART_TX_BUF_SIZE :: nat where "UART_TX_BUF_SIZE = 32"
definition INPUT_BUF_SIZE :: nat where "INPUT_BUF_SIZE = 128"
definition CONSOLE :: nat where "CONSOLE = 1"

text \<open>Control-x: the code of the letter minus that of \<^verbatim>\<open>'@'\<close>.\<close>

definition Ctl :: "char \<Rightarrow> int" where
  "Ctl x = of_char x - of_char (CHR ''@'')"

section \<open>Transmission\<close>

definition uartinit :: "'a tty_st_scheme \<Rightarrow> 'a tty_st_scheme" where
  "uartinit s =
     initlock UartTxLock ''uart''
       (WriteReg IER (IER_TX_ENABLE OR IER_RX_ENABLE)
       (WriteReg FCR (FCR_FIFO_ENABLE OR FCR_FIFO_CLEAR)
       (WriteReg LCR LCR_EIGHT_BITS
       (WriteReg 1 0
       (WriteReg 0 3
       (WriteReg LCR LCR_BAUD_LATCH
       (WriteReg IER 0 s)))))))"

text \<open>
  The loop of \<^verbatim>\<open>uartstart\<close>, over the readings the status register has left; without any it reads a
  busy transmitter.
\<close>

primrec uartstart_loop :: "u8 list \<Rightarrow> 'a tty_st_scheme \<Rightarrow> (unit, 'a tty_st_scheme) out" where
  "uartstart_loop [] s = Done () s"
| "uartstart_loop (x # xs) s =
     (if uart_tx_w s = uart_tx_r s then Done () s
      else let s1 = s\<lparr>lsr_in := xs\<rparr>
           in if x AND LSR_TX_IDLE = 0 then Done () s1
              else let c = uart_tx_buf s1 ! (unat (uart_tx_r s1) mod UART_TX_BUF_SIZE)
                   in bnd (wakeup (Some UartTxChan) (s1\<lparr>uart_tx_r := uart_tx_r s1 + 1\<rparr>)) (\<lambda>_ s2.
                        uartstart_loop xs (WriteReg THR c s2)))"

definition uartstart :: "'a tty_st_scheme \<Rightarrow> (unit, 'a tty_st_scheme) out" where
  "uartstart s = uartstart_loop (lsr_in s) s"

definition uartputc_loop :: "int \<Rightarrow> 'a tty_st_scheme \<Rightarrow> (unit, 'a tty_st_scheme) out" where
  "uartputc_loop c s =
     (if uart_tx_w s = uart_tx_r s + of_nat UART_TX_BUF_SIZE then sleep UartTxChan UartTxLock s
      else let s1 = s\<lparr>uart_tx_buf := (uart_tx_buf s)[unat (uart_tx_w s) mod UART_TX_BUF_SIZE := of_int c],
                      uart_tx_w := uart_tx_w s + 1\<rparr>
           in bnd (uartstart s1) (\<lambda>_ s2. release UartTxLock s2))"

definition uartputc :: "int \<Rightarrow> 'a tty_st_scheme \<Rightarrow> (unit, 'a tty_st_scheme) out" where
  "uartputc c s =
     bnd (acquire UartTxLock s) (\<lambda>_ s1. if panicked s1 then Waits Frozen s1 else uartputc_loop c s1)"

text \<open>The loop of \<^verbatim>\<open>consolewrite\<close> with \<open>k\<close> bytes to go, from byte \<open>i\<close>.\<close>

primrec consolewrite_loop :: "bool \<Rightarrow> u64 \<Rightarrow> nat \<Rightarrow> int \<Rightarrow> 'a tty_st_scheme \<Rightarrow> (int, 'a tty_st_scheme) out" where
  "consolewrite_loop user_src src 0 i s = Done i s"
| "consolewrite_loop user_src src (Suc k) i s =
     bnd (either_copyin user_src (src + of_int i) 1 s) (\<lambda>rc s1.
       if fst rc = -1 then Done i s1
       else bnd (uartputc (uint (snd rc ! 0)) s1) (\<lambda>_ s2. consolewrite_loop user_src src k (i + 1) s2))"

definition consolewrite :: "bool \<Rightarrow> u64 \<Rightarrow> int \<Rightarrow> 'a tty_st_scheme \<Rightarrow> (int, 'a tty_st_scheme) out" where
  "consolewrite user_src src n s = consolewrite_loop user_src src (nat n) 0 s"

section \<open>Input\<close>

definition consoleread_end :: "int \<Rightarrow> 'a tty_st_scheme \<Rightarrow> (int, 'a tty_st_scheme) out" where
  "consoleread_end r s = bnd (release ConsLock s) (\<lambda>_ s1. Done r s1)"

text \<open>The loop of \<^verbatim>\<open>consoleread\<close> with \<open>n\<close> bytes of \<open>target\<close> still wanted.\<close>

primrec consoleread_loop :: "bool \<Rightarrow> nat \<Rightarrow> nat \<Rightarrow> u64 \<Rightarrow> 'a tty_st_scheme \<Rightarrow> (int, 'a tty_st_scheme) out" where
  "consoleread_loop user_dst target 0 dst s = consoleread_end (int target) s"
| "consoleread_loop user_dst target (Suc m) dst s =
     (if cons_r s = cons_w s
      then bnd (myproc_deref killed s) (\<lambda>k s1.
             if k \<noteq> 0 then consoleread_end (-1) s1
             else bnd (sleep ConsChan ConsLock s1) (\<lambda>_ s2. Done (-1) s2))
      else let c = cons_buf s ! (unat (cons_r s) mod INPUT_BUF_SIZE);
               s1 = s\<lparr>cons_r := cons_r s + 1\<rparr>
           in if uint c = Ctl CHR ''D''
              then consoleread_end (int target - int (Suc m))
                     (if Suc m < target then s1\<lparr>cons_r := cons_r s1 - 1\<rparr> else s1)
              else bnd (either_copyout user_dst dst [c] s1) (\<lambda>r s2.
                if r = -1 then consoleread_end (int target - int (Suc m)) s2
                else if c = 10 then consoleread_end (int target - int m) s2
                else consoleread_loop user_dst target m (dst + 1) s2))"

definition consoleread :: "bool \<Rightarrow> u64 \<Rightarrow> int \<Rightarrow> 'a tty_st_scheme \<Rightarrow> (int, 'a tty_st_scheme) out" where
  "consoleread user_dst dst n s =
     bnd (acquire ConsLock s) (\<lambda>_ s1.
       if n \<le> 0 then consoleread_end 0 s1 else consoleread_loop user_dst (nat n) (nat n) dst s1)"

text \<open>Control-U: the loop over the \<open>cons.e - cons.w\<close> characters of the line being edited.\<close>

primrec kill_line :: "nat \<Rightarrow> 'a tty_st_scheme \<Rightarrow> (unit, 'a tty_st_scheme) out" where
  "kill_line 0 s = Done () s"
| "kill_line (Suc d) s =
     (if cons_buf s ! (unat (cons_e s - 1) mod INPUT_BUF_SIZE) = 10 then Done () s
      else bnd (consputc BACKSPACE (s\<lparr>cons_e := cons_e s - 1\<rparr>)) (\<lambda>_ s1. kill_line d s1))"

definition cons_erase :: "'a tty_st_scheme \<Rightarrow> (unit, 'a tty_st_scheme) out" where
  "cons_erase s =
     (if cons_e s \<noteq> cons_w s then consputc BACKSPACE (s\<lparr>cons_e := cons_e s - 1\<rparr>) else Done () s)"

definition cons_put :: "int \<Rightarrow> 'a tty_st_scheme \<Rightarrow> (unit, 'a tty_st_scheme) out" where
  "cons_put c s =
     bnd (consputc c s) (\<lambda>_ s1.
       let s2 = s1\<lparr>cons_buf := (cons_buf s1)[unat (cons_e s1) mod INPUT_BUF_SIZE := of_int c],
                   cons_e := cons_e s1 + 1\<rparr>
       in if c = 10 \<or> c = Ctl CHR ''D'' \<or> unat (cons_e s2 - cons_r s2) = INPUT_BUF_SIZE
          then wakeup (Some ConsChan) (s2\<lparr>cons_w := cons_e s2\<rparr>)
          else Done () s2)"

definition cons_store :: "int \<Rightarrow> 'a tty_st_scheme \<Rightarrow> (unit, 'a tty_st_scheme) out" where
  "cons_store c s =
     (if c \<noteq> 0 \<and> unat (cons_e s - cons_r s) < INPUT_BUF_SIZE
      then cons_put (if c = 13 then 10 else c) s
      else Done () s)"

definition consoleintr :: "int \<Rightarrow> 'a tty_st_scheme \<Rightarrow> (unit, 'a tty_st_scheme) out" where
  "consoleintr c s =
     bnd (acquire ConsLock s) (\<lambda>_ s1.
     bnd (if c = Ctl CHR ''P'' then procdump s1
          else if c = Ctl CHR ''U'' then kill_line (unat (cons_e s1 - cons_w s1)) s1
          else if c = Ctl CHR ''H'' \<or> c = 127 then cons_erase s1
          else cons_store c s1) (\<lambda>_ s2.
       release ConsLock s2))"

definition consoleinit :: "'a tty_st_scheme \<Rightarrow> 'a tty_st_scheme" where
  "consoleinit s = (uartinit (initlock ConsLock ''cons'' s))\<lparr>devsw := (devsw s)(CONSOLE := Some ConsoleOps)\<rparr>"

definition uartgetc :: "'a tty_st_scheme \<Rightarrow> int \<times> 'a tty_st_scheme" where
  "uartgetc s =
     (case read_LSR s of (x, s1) \<Rightarrow>
        if x AND LSR_RX_READY \<noteq> 0
        then case rhr_in s1 of [] \<Rightarrow> (0, s1) | c # cs \<Rightarrow> (uint c, s1\<lparr>rhr_in := cs\<rparr>)
        else (-1, s1))"

text \<open>The input loop of \<^verbatim>\<open>uartintr\<close>; each round takes a status reading, so as many rounds as there are
  readings and one more are enough.\<close>

primrec uartintr_loop :: "nat \<Rightarrow> 'a tty_st_scheme \<Rightarrow> (unit, 'a tty_st_scheme) out" where
  "uartintr_loop 0 s = Waits NoFuel s"
| "uartintr_loop (Suc n) s =
     (case uartgetc s of (c, s1) \<Rightarrow>
        if c = -1 then Done () s1 else bnd (consoleintr c s1) (\<lambda>_ s2. uartintr_loop n s2))"

definition uartintr :: "'a tty_st_scheme \<Rightarrow> (unit, 'a tty_st_scheme) out" where
  "uartintr s =
     bnd (uartintr_loop (Suc (length (lsr_in s))) s) (\<lambda>_ s1.
     bnd (acquire UartTxLock s1) (\<lambda>_ s2.
     bnd (uartstart s2) (\<lambda>_ s3. release UartTxLock s3)))"

section \<open>Frame\<close>

lemma tty_locks [simp]:
  "uart_tx_buf (lock_on lk s) = uart_tx_buf s"
  "uart_tx_buf_update f1 (lock_on lk s) = lock_on lk (uart_tx_buf_update f1 s)"
  "uart_tx_w (lock_on lk s) = uart_tx_w s"
  "uart_tx_w_update f2 (lock_on lk s) = lock_on lk (uart_tx_w_update f2 s)"
  "uart_tx_r (lock_on lk s) = uart_tx_r s"
  "uart_tx_r_update f3 (lock_on lk s) = lock_on lk (uart_tx_r_update f3 s)"
  "cons_buf (lock_on lk s) = cons_buf s"
  "cons_buf_update f4 (lock_on lk s) = lock_on lk (cons_buf_update f4 s)"
  "cons_r (lock_on lk s) = cons_r s"
  "cons_r_update f5 (lock_on lk s) = lock_on lk (cons_r_update f5 s)"
  "cons_w (lock_on lk s) = cons_w s"
  "cons_w_update f6 (lock_on lk s) = lock_on lk (cons_w_update f6 s)"
  "cons_e (lock_on lk s) = cons_e s"
  "cons_e_update f7 (lock_on lk s) = lock_on lk (cons_e_update f7 s)"
  "devsw (lock_on lk s) = devsw s"
  "devsw_update f8 (lock_on lk s) = lock_on lk (devsw_update f8 s)"
  by (simp_all add: lock_on_def acquire_own_def acquire_swap_def push_off_def intr_defs cpu_defs Let_def)

lemma tty_push [simp]:
  "uart_tx_buf (push_off s) = uart_tx_buf s"
  "uart_tx_buf_update f1 (push_off s) = push_off (uart_tx_buf_update f1 s)"
  "uart_tx_w (push_off s) = uart_tx_w s"
  "uart_tx_w_update f2 (push_off s) = push_off (uart_tx_w_update f2 s)"
  "uart_tx_r (push_off s) = uart_tx_r s"
  "uart_tx_r_update f3 (push_off s) = push_off (uart_tx_r_update f3 s)"
  "cons_buf (push_off s) = cons_buf s"
  "cons_buf_update f4 (push_off s) = push_off (cons_buf_update f4 s)"
  "cons_r (push_off s) = cons_r s"
  "cons_r_update f5 (push_off s) = push_off (cons_r_update f5 s)"
  "cons_w (push_off s) = cons_w s"
  "cons_w_update f6 (push_off s) = push_off (cons_w_update f6 s)"
  "cons_e (push_off s) = cons_e s"
  "cons_e_update f7 (push_off s) = push_off (cons_e_update f7 s)"
  "devsw (push_off s) = devsw s"
  "devsw_update f8 (push_off s) = push_off (devsw_update f8 s)"
  by (simp_all add: push_off_def intr_defs cpu_defs Let_def)

lemma tty_settle [simp]:
  "uart_tx_buf (settle s) = uart_tx_buf s"
  "settle (uart_tx_buf_update f1 s) = uart_tx_buf_update f1 (settle s)"
  "uart_tx_w (settle s) = uart_tx_w s"
  "settle (uart_tx_w_update f2 s) = uart_tx_w_update f2 (settle s)"
  "uart_tx_r (settle s) = uart_tx_r s"
  "settle (uart_tx_r_update f3 s) = uart_tx_r_update f3 (settle s)"
  "cons_buf (settle s) = cons_buf s"
  "settle (cons_buf_update f4 s) = cons_buf_update f4 (settle s)"
  "cons_r (settle s) = cons_r s"
  "settle (cons_r_update f5 s) = cons_r_update f5 (settle s)"
  "cons_w (settle s) = cons_w s"
  "settle (cons_w_update f6 s) = cons_w_update f6 (settle s)"
  "cons_e (settle s) = cons_e s"
  "settle (cons_e_update f7 s) = cons_e_update f7 (settle s)"
  "devsw (settle s) = devsw s"
  "settle (devsw_update f8 s) = devsw_update f8 (settle s)"
  by (simp_all add: settle_def intr_defs cpu_defs)

lemma tty_machine [simp]:
  "free_lock (uart_tx_buf_update f1 s) lk = free_lock s lk"
  "cpu_ok (uart_tx_buf_update f1 s) = cpu_ok s"
  "mycpu (uart_tx_buf_update f1 s) = mycpu s"
  "cpuid (uart_tx_buf_update f1 s) = cpuid s"
  "intr_get (uart_tx_buf_update f1 s) = intr_get s"
  "holding lk (uart_tx_buf_update f1 s) = holding lk s"
  "free_lock (uart_tx_w_update f2 s) lk = free_lock s lk"
  "cpu_ok (uart_tx_w_update f2 s) = cpu_ok s"
  "mycpu (uart_tx_w_update f2 s) = mycpu s"
  "cpuid (uart_tx_w_update f2 s) = cpuid s"
  "intr_get (uart_tx_w_update f2 s) = intr_get s"
  "holding lk (uart_tx_w_update f2 s) = holding lk s"
  "free_lock (uart_tx_r_update f3 s) lk = free_lock s lk"
  "cpu_ok (uart_tx_r_update f3 s) = cpu_ok s"
  "mycpu (uart_tx_r_update f3 s) = mycpu s"
  "cpuid (uart_tx_r_update f3 s) = cpuid s"
  "intr_get (uart_tx_r_update f3 s) = intr_get s"
  "holding lk (uart_tx_r_update f3 s) = holding lk s"
  "free_lock (cons_buf_update f4 s) lk = free_lock s lk"
  "cpu_ok (cons_buf_update f4 s) = cpu_ok s"
  "mycpu (cons_buf_update f4 s) = mycpu s"
  "cpuid (cons_buf_update f4 s) = cpuid s"
  "intr_get (cons_buf_update f4 s) = intr_get s"
  "holding lk (cons_buf_update f4 s) = holding lk s"
  "free_lock (cons_r_update f5 s) lk = free_lock s lk"
  "cpu_ok (cons_r_update f5 s) = cpu_ok s"
  "mycpu (cons_r_update f5 s) = mycpu s"
  "cpuid (cons_r_update f5 s) = cpuid s"
  "intr_get (cons_r_update f5 s) = intr_get s"
  "holding lk (cons_r_update f5 s) = holding lk s"
  "free_lock (cons_w_update f6 s) lk = free_lock s lk"
  "cpu_ok (cons_w_update f6 s) = cpu_ok s"
  "mycpu (cons_w_update f6 s) = mycpu s"
  "cpuid (cons_w_update f6 s) = cpuid s"
  "intr_get (cons_w_update f6 s) = intr_get s"
  "holding lk (cons_w_update f6 s) = holding lk s"
  "free_lock (cons_e_update f7 s) lk = free_lock s lk"
  "cpu_ok (cons_e_update f7 s) = cpu_ok s"
  "mycpu (cons_e_update f7 s) = mycpu s"
  "cpuid (cons_e_update f7 s) = cpuid s"
  "intr_get (cons_e_update f7 s) = intr_get s"
  "holding lk (cons_e_update f7 s) = holding lk s"
  "free_lock (devsw_update f8 s) lk = free_lock s lk"
  "cpu_ok (devsw_update f8 s) = cpu_ok s"
  "mycpu (devsw_update f8 s) = mycpu s"
  "cpuid (devsw_update f8 s) = cpuid s"
  "intr_get (devsw_update f8 s) = intr_get s"
  "holding lk (devsw_update f8 s) = holding lk s"
  by (simp_all add: free_lock_def cpu_ok_def holding_def cpu_defs intr_defs)

section \<open>The line editor\<close>

text \<open>
  The console input as two lists: the bytes ready for \<^verbatim>\<open>consoleread\<close> (from \<^verbatim>\<open>cons.r\<close> to \<^verbatim>\<open>cons.w\<close>)
  and the line being edited (from \<^verbatim>\<open>cons.w\<close> to \<^verbatim>\<open>cons.e\<close>).
\<close>

definition cons_ready :: "'a tty_st_scheme \<Rightarrow> u8 list" where
  "cons_ready s = ring_items INPUT_BUF_SIZE (cons_buf s) (cons_r s) (cons_w s)"

definition cons_line :: "'a tty_st_scheme \<Rightarrow> u8 list" where
  "cons_line s = ring_items INPUT_BUF_SIZE (cons_buf s) (cons_w s) (cons_e s)"

definition cons_ok :: "'a tty_st_scheme \<Rightarrow> bool" where
  "cons_ok s \<longleftrightarrow> length (cons_buf s) = INPUT_BUF_SIZE \<and>
     length (cons_ready s) + length (cons_line s) \<le> INPUT_BUF_SIZE \<and> 10 \<notin> set (cons_line s)"

text \<open>What one character does to the two lists, and its echo.\<close>

definition edit :: "u8 \<Rightarrow> u8 list \<times> u8 list \<Rightarrow> (u8 list \<times> u8 list) \<times> u8 list" where
  "edit c q = (case q of (ready, line) \<Rightarrow>
     if c = 21 then ((ready, []), concat (replicate (length line) [8, 32, 8]))
     else if c = 8 \<or> c = 127
     then (if line = [] then ((ready, []), []) else ((ready, butlast line), [8, 32, 8]))
     else if c \<noteq> 0 \<and> length ready + length line < INPUT_BUF_SIZE
     then let x = (if c = 13 then 10 else c)
          in if x = 10 \<or> x = 4 \<or> length ready + length line + 1 = INPUT_BUF_SIZE
             then ((ready @ line @ [x], []), [x]) else ((ready, line @ [x]), [x])
     else ((ready, line), []))"

lemma backspace_ready:
  assumes "cpu_ok s" "\<not> panicked s" "tx_waits 3 (lsr_in s) = Some ys"
  shows "\<exists>t. consputc BACKSPACE s = Done () t \<and> sent [8, 32, 8] ys s t"
proof -
  have "consputc BACKSPACE s = consputs [8, 32, 8] s"
    by (simp add: consputc_def BACKSPACE_def)
  with consputs_ready [of s "[8, 32, 8]" ys] assms show ?thesis by (simp add: numeral_3_eq_3)
qed

lemma sent_tty:
  "sent cs ys s t \<Longrightarrow> cons_buf t = cons_buf s" "sent cs ys s t \<Longrightarrow> cons_r t = cons_r s"
  "sent cs ys s t \<Longrightarrow> cons_w t = cons_w s" "sent cs ys s t \<Longrightarrow> cons_e t = cons_e s"
  by (simp_all add: sent_def)

lemma kill_line_eq:
  "cpu_ok s \<Longrightarrow> \<not> panicked s \<Longrightarrow> d = unat (cons_e s - cons_w s) \<Longrightarrow> 10 \<notin> set (cons_line s) \<Longrightarrow>
   tx_waits (3 * d) (lsr_in s) = Some ys \<Longrightarrow>
   \<exists>t. kill_line d s = Done () t \<and> sent (concat (replicate d [8, 32, 8])) ys (s\<lparr>cons_e := cons_w s\<rparr>) t"
proof (induction d arbitrary: s)
  case 0
  then have "cons_e s = cons_w s" by (simp add: unat_eq_0)
  with 0 show ?case by (simp add: sent_def)
next
  case (Suc d)
  let ?s = "s\<lparr>cons_e := cons_e s - 1\<rparr>"
  have ne: "cons_e s \<noteq> cons_w s" using Suc.prems(3) by auto
  note pop = ring_items_pop(1) [OF ne, of INPUT_BUF_SIZE "cons_buf s"] ring_items_pop(2) [OF ne]
    ring_items_pop(3) [OF ne, of INPUT_BUF_SIZE "cons_buf s"]
  have nonempty: "cons_line s \<noteq> []" using Suc.prems(3) by (auto simp: cons_line_def simp flip: length_0_conv)
  have last: "cons_buf s ! (unat (cons_e s - 1) mod INPUT_BUF_SIZE) \<noteq> 10"
    using pop(3) last_in_set [OF nonempty] Suc.prems(4) by (auto simp: cons_line_def)
  have line: "cons_line ?s = butlast (cons_line s)" using pop(1) by (simp add: cons_line_def)
  obtain zs where z: "tx_waits 3 (lsr_in s) = Some zs" "tx_waits (3 * d) zs = Some ys"
    using Suc.prems(5) tx_waits_add [of 3 "3 * d" "lsr_in s"] by (auto split: option.splits)
  from backspace_ready [of ?s zs] Suc.prems(1,2) z(1) obtain t where
    t: "consputc BACKSPACE ?s = Done () t" "sent [8, 32, 8] zs ?s t" by auto
  have "cons_line t = butlast (cons_line s)" unfolding line [symmetric] using sent_tty [OF t(2)] by (simp add: cons_line_def)
  then have "10 \<notin> set (cons_line t)" using Suc.prems(4) by (auto dest: in_set_butlastD)
  moreover have "d = unat (cons_e t - cons_w t)" using sent_tty [OF t(2)] pop(2) Suc.prems(3) by simp
  ultimately obtain u where
    u: "kill_line d t = Done () u" "sent (concat (replicate d [8, 32, 8])) ys (t\<lparr>cons_e := cons_w t\<rparr>) u"
    using Suc.IH [of t] sent_ok [OF t(2)] Suc.prems(1,2) z(2) by auto
  have "sent [8, 32, 8] zs (s\<lparr>cons_e := cons_w s\<rparr>) (t\<lparr>cons_e := cons_w t\<rparr>)" using t(2) by (simp add: sent_def)
  from sent_trans [OF this u(2)] t(1) u(1) last show ?case by simp
qed

lemma cons_distance:
  assumes "cons_ok s"
  shows "unat (cons_e s - cons_r s) = length (cons_ready s) + length (cons_line s)"
    "ring_items INPUT_BUF_SIZE (cons_buf s) (cons_r s) (cons_e s) = cons_ready s @ cons_line s"
  using assms ring_distance_add [of "cons_w s" "cons_r s" "cons_e s"]
    ring_items_append [of "cons_w s" "cons_r s" "cons_e s" INPUT_BUF_SIZE "cons_buf s"]
  by (simp_all add: cons_ok_def cons_ready_def cons_line_def INPUT_BUF_SIZE_def)

text \<open>Storing a byte at \<^verbatim>\<open>cons.e\<close>, before and after \<^verbatim>\<open>cons.w\<close> is moved up.\<close>

lemma cons_stored:
  fixes x :: u8
  assumes "cons_ok s" "length (cons_ready s) + length (cons_line s) < INPUT_BUF_SIZE"
  defines "t \<equiv> s\<lparr>cons_buf := (cons_buf s)[unat (cons_e s) mod INPUT_BUF_SIZE := x], cons_e := cons_e s + 1\<rparr>"
  shows "cons_ready t = cons_ready s" "cons_line t = cons_line s @ [x]"
    "cons_ready (t\<lparr>cons_w := cons_e t\<rparr>) = cons_ready s @ cons_line s @ [x]" "cons_line (t\<lparr>cons_w := cons_e t\<rparr>) = []"
    "unat (cons_e t - cons_r t) = Suc (length (cons_ready s) + length (cons_line s))"
proof -
  note d = cons_distance [OF assms(1)]
  have N: "INPUT_BUF_SIZE dvd 2 ^ LENGTH(32)" "INPUT_BUF_SIZE < 2 ^ LENGTH(32)" "0 < INPUT_BUF_SIZE"
    by (simp_all add: INPUT_BUF_SIZE_def)
  have len: "length (cons_buf s) = INPUT_BUF_SIZE" using assms(1) by (simp add: cons_ok_def)
  have ok: "ring_ok INPUT_BUF_SIZE (cons_buf s) (cons_w s) (cons_e s)"
    "ring_ok INPUT_BUF_SIZE (cons_buf s) (cons_r s) (cons_e s)"
    using assms(2) d(1) len N by (simp_all add: ring_ok_def cons_line_def)
  show "cons_ready t = cons_ready s"
    unfolding t_def cons_ready_def using ring_items_upd [OF N(1), of "cons_e s" "cons_r s" "cons_w s"] d(1) assms(2)
    by (simp add: cons_ready_def)
  show "cons_line t = cons_line s @ [x]"
    unfolding t_def cons_line_def using ring_items_put [OF ok(1)] assms(2) by (simp add: cons_line_def)
  show "cons_ready (t\<lparr>cons_w := cons_e t\<rparr>) = cons_ready s @ cons_line s @ [x]"
    unfolding t_def using ring_items_put [OF ok(2), of x] d assms(2) by (simp add: cons_ready_def)
  show "cons_line (t\<lparr>cons_w := cons_e t\<rparr>) = []" by (simp add: cons_line_def ring_items_def)
  show "unat (cons_e t - cons_r t) = Suc (length (cons_ready s) + length (cons_line s))"
    unfolding t_def using ring_distance_put [of "cons_e s" "cons_r s" INPUT_BUF_SIZE] d(1) assms(2) N(2) by simp
qed

lemma Ctl_code [simp]: "Ctl CHR ''P'' = 16" "Ctl CHR ''U'' = 21" "Ctl CHR ''H'' = 8" "Ctl CHR ''D'' = 4"
  by (simp_all add: Ctl_def)

lemma u8_code [simp]:
  "uint (c :: u8) = 16 \<longleftrightarrow> c = 16" "uint c = 21 \<longleftrightarrow> c = 21" "uint c = 8 \<longleftrightarrow> c = 8" "uint c = 127 \<longleftrightarrow> c = 127"
  "uint c = 13 \<longleftrightarrow> c = 13" "uint c = 10 \<longleftrightarrow> c = 10" "uint c = 4 \<longleftrightarrow> c = 4" "uint c = 0 \<longleftrightarrow> c = 0"
  by (simp_all add: word_uint_eq_iff)

lemma sent_lock_on:
  "cpu_ok s \<Longrightarrow> sent cs ys (lock_on lk s) t \<Longrightarrow> t = lock_on lk (s\<lparr>lsr_in := ys, uart_wr := uart_wr s @ map (Pair THR) cs\<rparr>)"
  by (simp add: sent_def split: if_splits)

lemma cons_lock_on [simp]:
  "cons_ready (lock_on lk s) = cons_ready s" "cons_line (lock_on lk s) = cons_line s" "cons_ok (lock_on lk s) = cons_ok s"
  "cons_ready (settle s) = cons_ready s" "cons_line (settle s) = cons_line s" "cons_ok (settle s) = cons_ok s"
  by (simp_all add: cons_ready_def cons_line_def cons_ok_def)

lemma cons_frame [simp]:
  "cons_ready (s\<lparr>lsr_in := ys\<rparr>) = cons_ready s" "cons_line (s\<lparr>lsr_in := ys\<rparr>) = cons_line s"
  "cons_ready (s\<lparr>uart_wr := ws\<rparr>) = cons_ready s" "cons_line (s\<lparr>uart_wr := ws\<rparr>) = cons_line s"
  "cons_ready (s\<lparr>procs := ps\<rparr>) = cons_ready s" "cons_line (s\<lparr>procs := ps\<rparr>) = cons_line s"
  "cons_ready (s\<lparr>cons_e := e\<rparr>) = cons_ready s"
  "cons_ok (s\<lparr>lsr_in := ys\<rparr>) = cons_ok s" "cons_ok (s\<lparr>uart_wr := ws\<rparr>) = cons_ok s"
  by (simp_all add: cons_ready_def cons_line_def cons_ok_def)

text \<open>The state after a character: the two lists, the echo, and the processes woken.\<close>

definition edited :: "u8 \<Rightarrow> u8 list \<Rightarrow> 'a tty_st_scheme \<Rightarrow> 'a tty_st_scheme \<Rightarrow> bool" where
  "edited c ys s t \<longleftrightarrow> (case edit c (cons_ready s, cons_line s) of ((ready, line), echo) \<Rightarrow>
     cons_ready t = ready \<and> cons_line t = line \<and> uart_wr t = uart_wr s @ map (Pair THR) echo \<and> lsr_in t = ys \<and>
     procs t = (if ready = cons_ready s then procs s
                else woken (Some ConsChan) (c_proc (mycpu s)) {..<NPROC} (procs s)))"

lemma consoleintr_end:
  fixes c :: u8
  assumes "cpu_ok s" "free_lock s ConsLock" "cpu_ok u" "free_lock u ConsLock" "\<not> panicked s" "uint c \<noteq> 16"
    "(if uint c = 21 then kill_line (unat (cons_e s - cons_w s)) (lock_on ConsLock s)
      else if uint c = 8 \<or> uint c = 127 then cons_erase (lock_on ConsLock s)
      else cons_store (uint c) (lock_on ConsLock s)) = Done () (lock_on ConsLock u)"
  shows "consoleintr (uint c) s = Done () (settle u)"
  using assms by (simp add: consoleintr_def acquire_free release_lock_on split del: if_split cong: if_cong)

lemma erase_refines:
  assumes ok: "cpu_ok s" "\<not> panicked s" and line: "cons_e s \<noteq> cons_w s" and w: "tx_waits 3 (lsr_in s) = Some ys"
  shows "cons_erase (lock_on ConsLock s) = Done () (lock_on ConsLock
    (s\<lparr>cons_e := cons_e s - 1, lsr_in := ys, uart_wr := uart_wr s @ map (Pair THR) [8, 32, 8]\<rparr>))"
proof -
  let ?s = "lock_on ConsLock (s\<lparr>cons_e := cons_e s - 1\<rparr>)"
  from backspace_ready [of ?s ys] ok w obtain t where
    t: "consputc BACKSPACE ?s = Done () t" "sent [8, 32, 8] ys ?s t" by auto
  with line sent_lock_on [OF _ t(2)] ok show ?thesis by (simp add: cons_erase_def)
qed

lemma store_refines:
  assumes ok: "cpu_ok s" "\<not> panicked s" "proc_locks_free s" "cons_ok s"
    and room: "c \<noteq> 0" "length (cons_ready s) + length (cons_line s) < INPUT_BUF_SIZE" and w: "tx_waits 1 (lsr_in s) = Some ys"
  defines "x \<equiv> (if c = 13 then 10 else c :: u8)"
  defines "t \<equiv> s\<lparr>lsr_in := ys, uart_wr := uart_wr s @ [(THR, x)],
      cons_buf := (cons_buf s)[unat (cons_e s) mod INPUT_BUF_SIZE := x], cons_e := cons_e s + 1\<rparr>"
  shows "cons_store (uint c) (lock_on ConsLock s) = Done () (lock_on ConsLock
    (if x = 10 \<or> x = 4 \<or> length (cons_ready s) + length (cons_line s) + 1 = INPUT_BUF_SIZE
     then t\<lparr>cons_w := cons_e t, procs := woken (Some ConsChan) (c_proc (mycpu s)) {..<NPROC} (procs s)\<rparr> else t))"
proof -
  let ?s = "lock_on ConsLock s"
  note d = cons_distance(1) [OF ok(4)] cons_stored(5) [OF ok(4) room(2), of x]
  have x: "(if c = 13 then 10 else uint c) = uint x" by (simp add: x_def)
  have start: "cons_store (uint c) ?s = cons_put (uint x) ?s"
    using room d(1) by (simp add: cons_store_def x split del: if_split)
  from consputc_ready [of ?s ys x] ok w obtain u where
    u: "consputc (uint x) ?s = Done () u" "sent [x] ys ?s u" by auto
  note ueq = sent_lock_on [OF ok(1) u(2)]
  show ?thesis unfolding start cons_put_def u(1) ueq
    using d ok by (simp add: Let_def t_def wakeup_eq proc_locks_free_def)
qed

text \<open>The console when no hart is in its code.\<close>

definition cons_idle :: "'a tty_st_scheme \<Rightarrow> bool" where
  "cons_idle s \<longleftrightarrow> cpu_ok s \<and> \<not> panicked s \<and> free_lock s ConsLock \<and> proc_locks_free s \<and> cons_ok s"

lemma edits_kill:
  assumes "cons_idle s" and w: "tx_waits (length (snd (edit 21 (cons_ready s, cons_line s)))) (lsr_in s) = Some ys"
  shows "\<exists>t. consoleintr (uint (21 :: u8)) s = Done () t \<and> cons_ok t \<and> edited 21 ys s t"
proof -
  let ?d = "unat (cons_e s - cons_w s)" and ?L = "lock_on ConsLock"
  have len: "length (snd (edit 21 (cons_ready s, cons_line s))) = 3 * ?d"
    by (simp add: edit_def cons_line_def length_concat sum_list_replicate)
  let ?u = "s\<lparr>cons_e := cons_w s, lsr_in := ys, uart_wr := uart_wr s @ map (Pair THR) (concat (replicate ?d [8, 32, 8]))\<rparr>"
  from kill_line_eq [of "?L s" ?d ys] assms(1) w [unfolded len] obtain t where
    t: "kill_line ?d (?L s) = Done () t" "sent (concat (replicate ?d [8, 32, 8])) ys (?L (s\<lparr>cons_e := cons_w s\<rparr>)) t"
    by (auto simp: cons_ok_def cons_idle_def)
  have "t = ?L ?u" using sent_lock_on [OF _ t(2)] assms(1) by (simp add: cons_idle_def)
  with t(1) consoleintr_end [of s ?u 21] assms(1) have "consoleintr (uint (21 :: u8)) s = Done () (settle ?u)"
    by (simp add: cons_idle_def)
  moreover have "cons_ok (settle ?u)" "edited 21 ys s (settle ?u)"
    using assms(1) by (auto simp: cons_idle_def edited_def edit_def cons_ok_def cons_line_def ring_items_def cons_ready_def)
  ultimately show ?thesis by blast
qed

lemma edits_erase:
  assumes idle: "cons_idle s" and c: "c = 8 \<or> c = 127"
    and w: "tx_waits (length (snd (edit c (cons_ready s, cons_line s)))) (lsr_in s) = Some ys"
  shows "\<exists>t. consoleintr (uint c) s = Done () t \<and> cons_ok t \<and> edited c ys s t"
proof (cases "cons_line s = []")
  case True
  then have "cons_e s = cons_w s" by (auto simp: cons_line_def unat_eq_0 simp flip: length_0_conv)
  then have "consoleintr (uint c) s = Done () (settle s)"
    using c idle consoleintr_end [of s s c] by (auto simp: cons_erase_def cons_idle_def)
  moreover have "edited c ys s (settle s)"
    using True c w by (auto simp: edited_def edit_def)
  ultimately show ?thesis using idle by (auto simp: cons_idle_def)
next
  case False
  then have ne: "cons_e s \<noteq> cons_w s" by (auto simp: cons_line_def ring_items_def)
  have w3: "tx_waits 3 (lsr_in s) = Some ys" using w False c by (auto simp: edit_def numeral_3_eq_3)
  let ?u = "s\<lparr>cons_e := cons_e s - 1, lsr_in := ys, uart_wr := uart_wr s @ map (Pair THR) [8, 32, 8]\<rparr>"
  have "consoleintr (uint c) s = Done () (settle ?u)"
    using c idle erase_refines [OF _ _ ne w3] consoleintr_end [of s ?u c] by (auto simp: cons_idle_def)
  moreover have line: "cons_line ?u = butlast (cons_line s)"
    using ring_items_pop(1) [OF ne] by (simp add: cons_line_def)
  moreover have "cons_ok (settle ?u)"
    using idle unfolding cons_lock_on cons_ok_def line by (auto simp: cons_idle_def cons_ok_def dest: in_set_butlastD)
  moreover have "edited c ys s (settle ?u)"
    using False c line unfolding edited_def cons_lock_on by (auto simp: edit_def)
  ultimately show ?thesis by blast
qed

lemma edits_drop:
  assumes idle: "cons_idle s" and c: "c \<notin> {8, 16, 21, 127}"
    and full: "c = 0 \<or> \<not> length (cons_ready s) + length (cons_line s) < INPUT_BUF_SIZE"
    and w: "tx_waits (length (snd (edit c (cons_ready s, cons_line s)))) (lsr_in s) = Some ys"
  shows "\<exists>t. consoleintr (uint c) s = Done () t \<and> cons_ok t \<and> edited c ys s t"
proof -
  have "cons_store (uint c) (lock_on ConsLock s) = Done () (lock_on ConsLock s)"
    using full cons_distance(1) [of s] idle by (auto simp: cons_store_def cons_idle_def)
  then have "consoleintr (uint c) s = Done () (settle s)"
    using c idle consoleintr_end [of s s c] by (auto simp: cons_idle_def)
  moreover have "edited c ys s (settle s)" using full c w by (auto simp: edited_def edit_def)
  ultimately show ?thesis using idle by (auto simp: cons_idle_def)
qed

lemma edits_store:
  assumes idle: "cons_idle s" and c: "c \<notin> {0, 8, 16, 21, 127}"
    and room: "length (cons_ready s) + length (cons_line s) < INPUT_BUF_SIZE"
    and w: "tx_waits (length (snd (edit c (cons_ready s, cons_line s)))) (lsr_in s) = Some ys"
  shows "\<exists>t. consoleintr (uint c) s = Done () t \<and> cons_ok t \<and> edited c ys s t"
proof -
  have w1: "tx_waits 1 (lsr_in s) = Some ys" using w c room by (auto simp: edit_def Let_def split: if_splits)
  have ok: "cpu_ok s" "\<not> panicked s" "proc_locks_free s" "cons_ok s" using idle by (simp_all add: cons_idle_def)
  define x where "x = (if c = 13 then 10 else c)"
  define r where "r = s\<lparr>lsr_in := ys, uart_wr := uart_wr s @ [(THR, x)]\<rparr>"
  have r: "cons_ready r = cons_ready s" "cons_line r = cons_line s" "cons_ok r" using ok(4) by (simp_all add: r_def)
  define b where "b = r\<lparr>cons_buf := (cons_buf r)[unat (cons_e r) mod INPUT_BUF_SIZE := x], cons_e := cons_e r + 1\<rparr>"
  define full where "full = (x = 10 \<or> x = 4 \<or> length (cons_ready s) + length (cons_line s) + 1 = INPUT_BUF_SIZE)"
  define u where "u = (if full then b\<lparr>cons_w := cons_e b,
      procs := woken (Some ConsChan) (c_proc (mycpu s)) {..<NPROC} (procs s)\<rparr> else b)"
  note st = cons_stored [OF r(3), unfolded r(1,2), OF room, of x, folded b_def]
  have b: "length (cons_buf b) = INPUT_BUF_SIZE" "procs b = procs s" using ok(4) by (simp_all add: b_def r_def cons_ok_def)
  have "cons_store (uint c) (lock_on ConsLock s) = Done () (lock_on ConsLock u)"
    using store_refines [OF ok _ room w1, of c] c unfolding u_def full_def b_def r_def x_def
    by (simp split del: if_split cong: if_cong)
  then have "consoleintr (uint c) s = Done () (settle u)"
    using c idle consoleintr_end [of s u c] by (auto simp: u_def b_def r_def cons_idle_def)
  moreover have "cons_ready u = (if full then cons_ready s @ cons_line s @ [x] else cons_ready s)"
    "cons_line u = (if full then [] else cons_line s @ [x])" using st by (simp_all add: u_def)
  moreover from this have "cons_ok (settle u)" using ok(4) b room by (auto simp: cons_ok_def u_def full_def)
  moreover have "edit c (cons_ready s, cons_line s) =
      (if full then ((cons_ready s @ cons_line s @ [x], []), [x]) else ((cons_ready s, cons_line s @ [x]), [x]))"
    using c room by (simp add: edit_def x_def full_def Let_def)
  ultimately show ?thesis using b(2) by (auto simp: edited_def u_def b_def r_def)
qed

text \<open>
  Property C19. The console input editor: on every character but control-P, \<^verbatim>\<open>consoleintr\<close> returns, keeps
  the buffer invariant, and does to the committed input and to the line being edited, and echoes,
  exactly what the list specification \<open>edit\<close> says; readers are woken just when a line is committed.
\<close>

theorem consoleintr_edits:
  assumes "cons_idle s" "c \<noteq> 16"
    and "tx_waits (length (snd (edit c (cons_ready s, cons_line s)))) (lsr_in s) = Some ys"
  shows "\<exists>t. consoleintr (uint c) s = Done () t \<and> cons_ok t \<and> edited c ys s t"
  using edits_kill [OF assms(1)] edits_erase [OF assms(1) _ assms(3)] edits_drop [OF assms(1) _ _ assms(3)]
    edits_store [OF assms(1) _ _ assms(3)] assms(2,3)
  by (cases "c = 21"; cases "c = 8 \<or> c = 127"; cases "c = 0") auto

definition demo_tty :: tty_st where
  "demo_tty = proc_st.extend demo_procs
     \<lparr>uart_tx_buf = replicate UART_TX_BUF_SIZE 0, uart_tx_w = 0, uart_tx_r = 0,
      cons_buf = [97, 98] @ replicate 126 0, cons_r = 0, cons_w = 0, cons_e = 2, devsw = (\<lambda>_. None)\<rparr>"

lemma demo_tty_simps [simp]:
  "cpu_ok demo_tty" "free_lock demo_tty k" "proc_locks_free demo_tty" "\<not> panicked demo_tty"
  "lsr_in demo_tty = replicate 200 LSR_TX_IDLE"
  "uart_tx_buf demo_tty = replicate UART_TX_BUF_SIZE 0" "uart_tx_r demo_tty = 0" "uart_tx_w demo_tty = 0"
  by (simp_all add: demo_tty_def proc_st.defs demo_procs_def demo_sleep_def con_st.defs free_lock_def cpu_ok_def cpu_defs
      quiet_cpu_def proc_locks_free_def boot_con_def kmem_st.defs)

theorem consoleintr_edits_witness:
  "\<exists>t. consoleintr (uint (13 :: u8)) demo_tty = Done () t \<and> cons_ready t = [97, 98, 10] \<and> cons_line t = [] \<and>
     uart_wr t = uart_wr demo_tty @ [(THR, 10)]"
proof -
  have r: "cons_ready demo_tty = []" and l: "cons_line demo_tty = [97, 98]"
    by (simp_all add: cons_ready_def cons_line_def ring_items_def demo_tty_def proc_st.defs INPUT_BUF_SIZE_def upt_rec)
  have idle: "cons_idle demo_tty"
    by (simp add: cons_idle_def cons_ok_def r l) (simp add: demo_tty_def proc_st.defs INPUT_BUF_SIZE_def)
  have e: "edit 13 ([], [97, 98]) = (([97, 98, 10], []), [10])"
    by (simp add: edit_def INPUT_BUF_SIZE_def)
  have w: "tx_waits (length (snd (edit 13 (cons_ready demo_tty, cons_line demo_tty)))) (lsr_in demo_tty) =
      Some (replicate 199 LSR_TX_IDLE)"
    using tx_waits_idle [of 1 200] by (simp add: r l e del: tx_waits.simps)
  from consoleintr_edits [OF idle _ w] show ?thesis by (auto simp: edited_def r l e)
qed

section \<open>Transmission in order\<close>

definition uart_queue :: "'a tty_st_scheme \<Rightarrow> u8 list" where
  "uart_queue s = ring_items UART_TX_BUF_SIZE (uart_tx_buf s) (uart_tx_r s) (uart_tx_w s)"

definition uart_ok :: "'a tty_st_scheme \<Rightarrow> bool" where
  "uart_ok s \<longleftrightarrow> ring_ok UART_TX_BUF_SIZE (uart_tx_buf s) (uart_tx_r s) (uart_tx_w s)"

lemma woken_idem [simp]: "woken ch me ps (woken ch me ps P) = woken ch me ps P"
  by (auto simp: woken_def fun_eq_iff)

lemma uart_queue_empty: "uart_queue s = [] \<longleftrightarrow> uart_tx_w s = uart_tx_r s"
  by (auto simp: uart_queue_def unat_eq_0 simp flip: length_0_conv)

text \<open>How many bytes a call of \<^verbatim>\<open>uartstart\<close> moves from the ring to the device.\<close>

definition tx_burst :: "u8 list \<Rightarrow> u8 list \<Rightarrow> nat" where
  "tx_burst q xs = min (length q) (length (takeWhile (\<lambda>x. x AND LSR_TX_IDLE \<noteq> 0) xs))"

lemma uartstart_loop_eq:
  "cpu_ok s \<Longrightarrow> proc_locks_free s \<Longrightarrow> uart_ok s \<Longrightarrow>
   \<exists>zs. uartstart_loop xs s = Done () ((if tx_burst (uart_queue s) xs = 0 then s
       else (settle s)\<lparr>procs := woken (Some UartTxChan) (c_proc (mycpu s)) {..<NPROC} (procs s)\<rparr>)
     \<lparr>lsr_in := zs, uart_tx_r := uart_tx_r s + of_nat (tx_burst (uart_queue s) xs),
      uart_wr := uart_wr s @ map (Pair THR) (take (tx_burst (uart_queue s) xs) (uart_queue s))\<rparr>)"
proof (induction xs arbitrary: s)
  case Nil
  have "s = s\<lparr>lsr_in := lsr_in s, uart_tx_r := uart_tx_r s, uart_wr := uart_wr s\<rparr>" by simp
  then show ?case by (auto simp: tx_burst_def intro!: exI [of _ "lsr_in s"])
next
  case (Cons x xs)
  show ?case
  proof (cases "uart_tx_w s = uart_tx_r s \<or> x AND LSR_TX_IDLE = 0")
    case True
    then have "tx_burst (uart_queue s) (x # xs) = 0" using uart_queue_empty [of s] by (auto simp: tx_burst_def)
    then show ?thesis
      using True by (auto simp: Let_def intro: exI [of _ "lsr_in s"] exI [of _ xs])
  next
    case False
    let ?c = "uart_tx_buf s ! (unat (uart_tx_r s) mod UART_TX_BUF_SIZE)"
    let ?W = "woken (Some UartTxChan) (c_proc (mycpu s)) {..<NPROC}"
    let ?t = "(settle s)\<lparr>lsr_in := xs, uart_tx_r := uart_tx_r s + 1, procs := ?W (procs s), uart_wr := uart_wr s @ [(THR, ?c)]\<rparr>"
    have q: "uart_queue s = ?c # uart_queue ?t"
      using False ring_items_get [of "uart_tx_w s" "uart_tx_r s"] by (simp add: uart_queue_def)
    have b: "tx_burst (uart_queue s) (x # xs) = Suc (tx_burst (uart_queue ?t) xs)"
      using False by (simp add: tx_burst_def q)
    have "uart_ok ?t" using Cons.prems(3) False ring_ok_get by (auto simp: uart_ok_def)
    with Cons.IH [of ?t] Cons.prems(1,2) obtain zs where
      "uartstart_loop xs ?t = Done () ((if tx_burst (uart_queue ?t) xs = 0 then ?t
         else (settle ?t)\<lparr>procs := woken (Some UartTxChan) (c_proc (mycpu ?t)) {..<NPROC} (procs ?t)\<rparr>)
       \<lparr>lsr_in := zs, uart_tx_r := uart_tx_r ?t + of_nat (tx_burst (uart_queue ?t) xs),
        uart_wr := uart_wr ?t @ map (Pair THR) (take (tx_burst (uart_queue ?t) xs) (uart_queue ?t))\<rparr>)"
      by (auto simp: proc_locks_free_def)
    moreover have "uartstart_loop (x # xs) s = uartstart_loop xs ?t"
      using False Cons.prems(1,2) by (simp add: Let_def wakeup_eq proc_locks_free_def WriteReg_def)
    ultimately show ?thesis
      unfolding b by (intro exI [of _ zs]) (simp add: q add.assoc)
  qed
qed

text \<open>The bytes the device got, followed by those still queued.\<close>

definition uart_stream :: "'a tty_st_scheme \<Rightarrow> (nat \<times> u8) list" where
  "uart_stream s = uart_wr s @ map (Pair THR) (uart_queue s)"

lemma uart_advance:
  assumes "ring_ok N buf r w" "n \<le> unat (w - r)"
  shows "ring_items N buf r w = take n (ring_items N buf r w) @ ring_items N buf (r + of_nat n) w \<and>
    ring_ok N buf (r + of_nat n) w"
  using assms
proof (induction n arbitrary: r)
  case (Suc n)
  then have ne: "w \<noteq> r" by auto
  have d: "n \<le> unat (w - (r + 1))" using Suc.prems(2) ring_distance_get [OF ne] by simp
  from Suc.IH [OF ring_ok_get [OF Suc.prems(1) ne] d] ring_items_get [OF ne, of N buf]
  show ?case by (simp add: add.assoc)
qed simp

text \<open>A critical section of the transmit lock that runs \<^verbatim>\<open>uartstart\<close>.\<close>

lemma uartstart_section:
  assumes "cpu_ok s" "proc_locks_free s" "uart_ok s" "free_lock s UartTxLock"
  shows "\<exists>t. bnd (uartstart (lock_on UartTxLock s)) (\<lambda>_ s2. release UartTxLock s2) = Done () t \<and> uart_ok t \<and>
    uart_stream t = uart_stream s \<and> length (uart_queue t) = length (uart_queue s) - tx_burst (uart_queue s) (lsr_in s)"
proof -
  let ?L = "lock_on UartTxLock" and ?n = "tx_burst (uart_queue s) (lsr_in s)"
  have lq: "uart_queue (?L s) = uart_queue s" by (simp add: uart_queue_def)
  have "uart_ok (?L s)" "proc_locks_free (?L s)" using assms(2,3) by (auto simp: uart_ok_def)
  from uartstart_loop_eq [OF _ this(2,1), of "lsr_in s"] assms(1) obtain zs where
    u: "uartstart (?L s) = Done () ((if ?n = 0 then ?L s
       else (settle (?L s))\<lparr>procs := woken (Some UartTxChan) (c_proc (mycpu s)) {..<NPROC} (procs s)\<rparr>)
     \<lparr>lsr_in := zs, uart_tx_r := uart_tx_r s + of_nat ?n,
      uart_wr := uart_wr s @ map (Pair THR) (take ?n (uart_queue s))\<rparr>)"
    by (auto simp: uartstart_def lq cong: if_cong)
  define v where "v = (if ?n = 0 then s else s\<lparr>procs := woken (Some UartTxChan) (c_proc (mycpu s)) {..<NPROC} (procs s)\<rparr>)
     \<lparr>lsr_in := zs, uart_tx_r := uart_tx_r s + of_nat ?n,
      uart_wr := uart_wr s @ map (Pair THR) (take ?n (uart_queue s))\<rparr>"
  have "uartstart (?L s) = Done () (?L v)" using u assms(1) by (simp add: v_def)
  then have r: "bnd (uartstart (?L s)) (\<lambda>_ s2. release UartTxLock s2) = Done () (settle v)"
    using assms(1,4) by (simp add: release_lock_on v_def)
  have n: "?n \<le> unat (uart_tx_w s - uart_tx_r s)" by (simp add: tx_burst_def uart_queue_def)
  note adv = uart_advance [OF assms(3) [unfolded uart_ok_def] n]
  have v: "uart_queue v = ring_items UART_TX_BUF_SIZE (uart_tx_buf s) (uart_tx_r s + of_nat ?n) (uart_tx_w s)"
    "uart_wr v = uart_wr s @ map (Pair THR) (take ?n (uart_queue s))"
    by (simp_all add: v_def uart_queue_def)
  have split: "uart_queue s = take ?n (uart_queue s) @ uart_queue v" using adv v(1) by (simp add: uart_queue_def)
  have "length (uart_queue v) = length (uart_queue s) - ?n"
    using arg_cong [OF split, of length] n by (simp add: uart_queue_def)
  moreover have "uart_stream v = uart_stream s"
    unfolding uart_stream_def v(2) using arg_cong [OF split, of "map (Pair THR)"] by simp
  moreover have "uart_ok v" using adv assms(3) by (simp add: uart_ok_def v_def)
  moreover have "uart_queue (settle v) = uart_queue v" "uart_stream (settle v) = uart_stream v" "uart_ok (settle v) = uart_ok v"
    by (simp_all add: uart_queue_def uart_stream_def uart_ok_def)
  ultimately show ?thesis using r by auto
qed

lemma uartputc_queues:
  assumes "cpu_ok s" "\<not> panicked s" "free_lock s UartTxLock" "proc_locks_free s" "uart_ok s"
  shows "if length (uart_queue s) < UART_TX_BUF_SIZE
    then \<exists>t. uartputc (uint c) s = Done () t \<and> uart_ok t \<and> uart_stream t = uart_stream s @ [(THR, c)]
    else uartputc (uint c) s = sleep UartTxChan UartTxLock (lock_on UartTxLock s)"
proof -
  have bound: "length (uart_queue s) \<le> UART_TX_BUF_SIZE" using assms(5) by (simp add: uart_ok_def ring_ok_def uart_queue_def)
  have full: "length (uart_queue s) < UART_TX_BUF_SIZE \<longleftrightarrow> uart_tx_w s \<noteq> uart_tx_r s + of_nat UART_TX_BUF_SIZE"
  proof -
    have "uart_tx_w s = uart_tx_r s + of_nat UART_TX_BUF_SIZE \<longleftrightarrow> uart_tx_w s - uart_tx_r s = of_nat UART_TX_BUF_SIZE"
      by (metis add_diff_cancel_left' diff_add_cancel add.commute)
    also have "\<dots> \<longleftrightarrow> unat (uart_tx_w s - uart_tx_r s) = UART_TX_BUF_SIZE"
      by (auto simp: UART_TX_BUF_SIZE_def word_unat_eq_iff)
    finally show ?thesis using bound by (auto simp: uart_queue_def)
  qed
  let ?s = "s\<lparr>uart_tx_buf := (uart_tx_buf s)[unat (uart_tx_w s) mod UART_TX_BUF_SIZE := c], uart_tx_w := uart_tx_w s + 1\<rparr>"
  show "if length (uart_queue s) < UART_TX_BUF_SIZE
    then \<exists>t. uartputc (uint c) s = Done () t \<and> uart_ok t \<and> uart_stream t = uart_stream s @ [(THR, c)]
    else uartputc (uint c) s = sleep UartTxChan UartTxLock (lock_on UartTxLock s)"
  proof (cases "length (uart_queue s) < UART_TX_BUF_SIZE")
    case True
    have put: "uart_ok ?s" "uart_queue ?s = uart_queue s @ [c]"
      using assms(5) True by (simp_all add: uart_ok_def uart_queue_def ring_ok_put ring_items_put)
    have "uartputc (uint c) s = bnd (uartstart (lock_on UartTxLock ?s)) (\<lambda>_ s2. release UartTxLock s2)"
      using assms(2,3) full True by (simp add: uartputc_def acquire_free uartputc_loop_def)
    with uartstart_section [of ?s] put assms True show ?thesis by (auto simp: uart_stream_def proc_locks_free_def)
  next
    case False
    with full assms(2,3) show ?thesis by (simp add: uartputc_def acquire_free uartputc_loop_def)
  qed
qed

lemma uartintr_sends:
  assumes "cpu_ok s" "free_lock s UartTxLock" "proc_locks_free s" "uart_ok s" and r: "lsr_in s = x # xs" "x AND LSR_RX_READY = 0"
  shows "\<exists>t. uartintr s = Done () t \<and> uart_ok t \<and>
       uart_stream t = uart_stream s \<and> length (uart_queue t) = length (uart_queue s) - tx_burst (uart_queue s) xs"
proof -
  let ?t = "s\<lparr>lsr_in := xs\<rparr>"
  have "uartintr s = bnd (uartstart (lock_on UartTxLock ?t)) (\<lambda>_ s2. release UartTxLock s2)"
    using r assms(2) by (simp add: uartintr_def uartgetc_def read_LSR_def acquire_free)
  moreover have "uart_queue ?t = uart_queue s" "uart_stream ?t = uart_stream s" by (simp_all add: uart_queue_def uart_stream_def)
  ultimately show "\<exists>t. uartintr s = Done () t \<and> uart_ok t \<and>
       uart_stream t = uart_stream s \<and> length (uart_queue t) = length (uart_queue s) - tx_burst (uart_queue s) xs"
    using uartstart_section [of ?t] assms by (auto simp: uart_ok_def proc_locks_free_def)
qed

text \<open>
  Property C20. The UART transmits in order and loses nothing: with room in the ring \<^verbatim>\<open>uartputc(c)\<close> returns
  and appends \<open>c\<close> to the stream of bytes that the device got or that are queued; with a full ring it
  goes to sleep; a transmit interrupt moves as many queued bytes to the device as it reports idle,
  and leaves the stream as it was.
\<close>

theorem uart_transmits_in_order:
  assumes "cpu_ok s" "\<not> panicked s" "free_lock s UartTxLock" "proc_locks_free s" "uart_ok s"
  shows "(if length (uart_queue s) < UART_TX_BUF_SIZE
      then \<exists>t. uartputc (uint c) s = Done () t \<and> uart_ok t \<and> uart_stream t = uart_stream s @ [(THR, c)]
      else uartputc (uint c) s = sleep UartTxChan UartTxLock (lock_on UartTxLock s)) \<and>
    (\<forall>x xs. lsr_in s = x # xs \<and> x AND LSR_RX_READY = 0 \<longrightarrow> (\<exists>t. uartintr s = Done () t \<and> uart_ok t \<and>
       uart_stream t = uart_stream s \<and> length (uart_queue t) = length (uart_queue s) - tx_burst (uart_queue s) xs))"
  using uartputc_queues [OF assms] uartintr_sends [OF assms(1,3-5)] by blast

theorem uart_transmits_in_order_witness:
  "\<exists>t u. uartputc (uint (65 :: u8)) demo_tty = Done () t \<and> uart_stream t = uart_stream demo_tty @ [(THR, 65)] \<and>
     uartintr demo_tty = Done () u \<and> uart_stream u = uart_stream demo_tty"
proof -
  have "uart_ok demo_tty" "uart_queue demo_tty = []"
    by (simp_all add: uart_ok_def ring_ok_def uart_queue_def ring_items_def UART_TX_BUF_SIZE_def)
  moreover have "\<exists>x xs. lsr_in demo_tty = x # xs \<and> x AND LSR_RX_READY = 0"
    by (rule exI [of _ LSR_TX_IDLE], rule exI [of _ "replicate 199 LSR_TX_IDLE"])
       (simp add: LSR_TX_IDLE_def LSR_RX_READY_def flip: replicate_Suc)
  ultimately show ?thesis
    using uart_transmits_in_order [of demo_tty 65] by (auto simp: UART_TX_BUF_SIZE_def)
qed

end
