(* ===== verification/Virtio.thy ===== *)
theory Virtio
  imports Console
begin

text \<open>
  The disk driver \<^verbatim>\<open>kernel/virtio_disk.c\<close> with \<^verbatim>\<open>kernel/virtio.h\<close> and \<^verbatim>\<open>kernel/buf.h\<close>.

  The device is outside the program: it is the function in the state field \<open>device\<close>, from the memory
  it shares with the driver (and its own storage) to that memory after it has acted. Its registers
  read as the function \<open>mmio_dev\<close> of the writes so far says. The hypothesis \<open>good_device\<close> states the
  behaviour that the virtio specification documents for a single outstanding request.

  Addresses that the driver hands to the device are values of \<open>dma_addr\<close>.
\<close>

unbundle bit_operations_syntax

section \<open>Data\<close>

definition BSIZE :: nat where "BSIZE = 1024"
definition NUM :: nat where "NUM = 8"
definition VRING_DESC_F_NEXT :: u16 where "VRING_DESC_F_NEXT = 1"
definition VRING_DESC_F_WRITE :: u16 where "VRING_DESC_F_WRITE = 2"
definition VIRTIO_BLK_T_IN :: u32 where "VIRTIO_BLK_T_IN = 0"
definition VIRTIO_BLK_T_OUT :: u32 where "VIRTIO_BLK_T_OUT = 1"

datatype dma_addr = NullAddr | OpsAddr nat | DataAddr nat | StatusAddr nat

record virtq_desc =
  d_addr :: dma_addr
  d_len :: u32
  d_flags :: u16
  d_next :: u16

record virtio_blk_req =
  rq_type :: u32
  rq_reserved :: u32
  rq_sector :: u64

text \<open>\<^verbatim>\<open>struct buf\<close>; the LRU links are buffer indices, \<^term>\<open>NBUF\<close> standing for the list head.\<close>

record buf =
  b_valid :: bool
  b_disk :: bool
  b_dev :: u32
  b_blockno :: u32
  b_refcnt :: u32
  b_prev :: nat
  b_next :: nat
  b_data :: "u8 list"

text \<open>\<^verbatim>\<open>struct disk\<close> with the rings it points to, and how far the device has read the avail ring.\<close>

record vdisk =
  desc :: "nat \<Rightarrow> virtq_desc"
  avail_idx :: u16
  avail_ring :: "nat \<Rightarrow> u16"
  used_idx :: u16
  used_ring :: "nat \<Rightarrow> u32"
  vfree :: "nat \<Rightarrow> bool"
  seen_idx :: u16
  info_b :: "nat \<Rightarrow> nat option"
  info_status :: "nat \<Rightarrow> u8"
  ops :: "nat \<Rightarrow> virtio_blk_req"
  dev_idx :: u16

text \<open>What the device can access: the queue memory, the buffers' data, and its storage.\<close>

record vmem =
  m_disk :: vdisk
  m_data :: "nat \<Rightarrow> u8 list"
  m_store :: "nat \<Rightarrow> u8"

record disk_st = tty_st +
  bufs :: "nat \<Rightarrow> buf"
  vdisk :: vdisk
  platter :: "nat \<Rightarrow> u8"
  device :: "vmem \<Rightarrow> vmem"
  mmio_dev :: "(nat \<times> u32) list \<Rightarrow> nat \<Rightarrow> u32"
  mmio_wr :: "(nat \<times> u32) list"

definition set_vdisk :: "(vdisk \<Rightarrow> vdisk) \<Rightarrow> 'a disk_st_scheme \<Rightarrow> 'a disk_st_scheme" where
  "set_vdisk f s = s\<lparr>vdisk := f (vdisk s)\<rparr>"

definition set_buf :: "nat \<Rightarrow> (buf \<Rightarrow> buf) \<Rightarrow> 'a disk_st_scheme \<Rightarrow> 'a disk_st_scheme" where
  "set_buf b f s = s\<lparr>bufs := (bufs s)(b := f (bufs s b))\<rparr>"

section \<open>Device registers\<close>

definition VIRTIO_MMIO_MAGIC_VALUE :: nat where "VIRTIO_MMIO_MAGIC_VALUE = 0x000"
definition VIRTIO_MMIO_VERSION :: nat where "VIRTIO_MMIO_VERSION = 0x004"
definition VIRTIO_MMIO_DEVICE_ID :: nat where "VIRTIO_MMIO_DEVICE_ID = 0x008"
definition VIRTIO_MMIO_VENDOR_ID :: nat where "VIRTIO_MMIO_VENDOR_ID = 0x00c"
definition VIRTIO_MMIO_DEVICE_FEATURES :: nat where "VIRTIO_MMIO_DEVICE_FEATURES = 0x010"
definition VIRTIO_MMIO_DRIVER_FEATURES :: nat where "VIRTIO_MMIO_DRIVER_FEATURES = 0x020"
definition VIRTIO_MMIO_QUEUE_SEL :: nat where "VIRTIO_MMIO_QUEUE_SEL = 0x030"
definition VIRTIO_MMIO_QUEUE_NUM_MAX :: nat where "VIRTIO_MMIO_QUEUE_NUM_MAX = 0x034"
definition VIRTIO_MMIO_QUEUE_NUM :: nat where "VIRTIO_MMIO_QUEUE_NUM = 0x038"
definition VIRTIO_MMIO_QUEUE_READY :: nat where "VIRTIO_MMIO_QUEUE_READY = 0x044"
definition VIRTIO_MMIO_QUEUE_NOTIFY :: nat where "VIRTIO_MMIO_QUEUE_NOTIFY = 0x050"
definition VIRTIO_MMIO_INTERRUPT_STATUS :: nat where "VIRTIO_MMIO_INTERRUPT_STATUS = 0x060"
definition VIRTIO_MMIO_INTERRUPT_ACK :: nat where "VIRTIO_MMIO_INTERRUPT_ACK = 0x064"
definition VIRTIO_MMIO_STATUS :: nat where "VIRTIO_MMIO_STATUS = 0x070"
definition VIRTIO_MMIO_QUEUE_DESC_LOW :: nat where "VIRTIO_MMIO_QUEUE_DESC_LOW = 0x080"
definition VIRTIO_MMIO_QUEUE_DESC_HIGH :: nat where "VIRTIO_MMIO_QUEUE_DESC_HIGH = 0x084"
definition VIRTIO_MMIO_DRIVER_DESC_LOW :: nat where "VIRTIO_MMIO_DRIVER_DESC_LOW = 0x090"
definition VIRTIO_MMIO_DRIVER_DESC_HIGH :: nat where "VIRTIO_MMIO_DRIVER_DESC_HIGH = 0x094"
definition VIRTIO_MMIO_DEVICE_DESC_LOW :: nat where "VIRTIO_MMIO_DEVICE_DESC_LOW = 0x0a0"
definition VIRTIO_MMIO_DEVICE_DESC_HIGH :: nat where "VIRTIO_MMIO_DEVICE_DESC_HIGH = 0x0a4"

definition VIRTIO_CONFIG_S_ACKNOWLEDGE :: u32 where "VIRTIO_CONFIG_S_ACKNOWLEDGE = 1"
definition VIRTIO_CONFIG_S_DRIVER :: u32 where "VIRTIO_CONFIG_S_DRIVER = 2"
definition VIRTIO_CONFIG_S_DRIVER_OK :: u32 where "VIRTIO_CONFIG_S_DRIVER_OK = 4"
definition VIRTIO_CONFIG_S_FEATURES_OK :: u32 where "VIRTIO_CONFIG_S_FEATURES_OK = 8"

definition VIRTIO_BLK_F_RO :: nat where "VIRTIO_BLK_F_RO = 5"
definition VIRTIO_BLK_F_SCSI :: nat where "VIRTIO_BLK_F_SCSI = 7"
definition VIRTIO_BLK_F_CONFIG_WCE :: nat where "VIRTIO_BLK_F_CONFIG_WCE = 11"
definition VIRTIO_BLK_F_MQ :: nat where "VIRTIO_BLK_F_MQ = 12"
definition VIRTIO_F_ANY_LAYOUT :: nat where "VIRTIO_F_ANY_LAYOUT = 27"
definition VIRTIO_RING_F_INDIRECT_DESC :: nat where "VIRTIO_RING_F_INDIRECT_DESC = 28"
definition VIRTIO_RING_F_EVENT_IDX :: nat where "VIRTIO_RING_F_EVENT_IDX = 29"

definition read_R :: "nat \<Rightarrow> 'a disk_st_scheme \<Rightarrow> u32" where
  "read_R r s = mmio_dev s (mmio_wr s) r"

definition write_R :: "nat \<Rightarrow> u32 \<Rightarrow> 'a disk_st_scheme \<Rightarrow> 'a disk_st_scheme" where
  "write_R r v s = s\<lparr>mmio_wr := mmio_wr s @ [(r, v)]\<rparr>"

section \<open>kernel/virtio\_disk.c\<close>

definition clear_feature :: "nat \<Rightarrow> u64 \<Rightarrow> u64" where
  "clear_feature n f = f AND NOT (push_bit n 1)"

text \<open>The handshake up to the size of queue 0; the value is the status to go on with.\<close>

definition virtio_negotiate :: "'a disk_st_scheme \<Rightarrow> (u32, 'a disk_st_scheme) out" where
  "virtio_negotiate s =
     (if read_R VIRTIO_MMIO_MAGIC_VALUE s \<noteq> 0x74726976 \<or> read_R VIRTIO_MMIO_VERSION s \<noteq> 2 \<or>
         read_R VIRTIO_MMIO_DEVICE_ID s \<noteq> 2 \<or> read_R VIRTIO_MMIO_VENDOR_ID s \<noteq> 0x554d4551
      then Panic ''could not find virtio disk''
      else let
        s1 = write_R VIRTIO_MMIO_STATUS 0 s;
        st1 = VIRTIO_CONFIG_S_ACKNOWLEDGE;
        s2 = write_R VIRTIO_MMIO_STATUS st1 s1;
        st2 = st1 OR VIRTIO_CONFIG_S_DRIVER;
        s3 = write_R VIRTIO_MMIO_STATUS st2 s2;
        features = ucast (read_R VIRTIO_MMIO_DEVICE_FEATURES s3);
        features = clear_feature VIRTIO_BLK_F_RO features;
        features = clear_feature VIRTIO_BLK_F_SCSI features;
        features = clear_feature VIRTIO_BLK_F_CONFIG_WCE features;
        features = clear_feature VIRTIO_BLK_F_MQ features;
        features = clear_feature VIRTIO_F_ANY_LAYOUT features;
        features = clear_feature VIRTIO_RING_F_EVENT_IDX features;
        features = clear_feature VIRTIO_RING_F_INDIRECT_DESC features;
        s4 = write_R VIRTIO_MMIO_DRIVER_FEATURES (ucast features) s3;
        st3 = st2 OR VIRTIO_CONFIG_S_FEATURES_OK;
        s5 = write_R VIRTIO_MMIO_STATUS st3 s4;
        st4 = read_R VIRTIO_MMIO_STATUS s5
      in if st4 AND VIRTIO_CONFIG_S_FEATURES_OK = 0 then Panic ''virtio disk FEATURES_OK unset''
      else let s6 = write_R VIRTIO_MMIO_QUEUE_SEL 0 s5
      in if read_R VIRTIO_MMIO_QUEUE_READY s6 \<noteq> 0 then Panic ''virtio disk should not be ready''
      else let max = read_R VIRTIO_MMIO_QUEUE_NUM_MAX s6
      in if max = 0 then Panic ''virtio disk has no queue 0''
      else if unat max < NUM then Panic ''virtio disk max queue too short''
      else Done st4 s6)"

text \<open>The writes of a queue address and of the queue size.\<close>

definition write_R64 :: "nat \<Rightarrow> nat \<Rightarrow> u64 \<Rightarrow> 'a disk_st_scheme \<Rightarrow> 'a disk_st_scheme" where
  "write_R64 low high a s = write_R high (ucast (drop_bit 32 a)) (write_R low (ucast a) s)"

definition virtq_zero :: "vdisk \<Rightarrow> vdisk" where
  "virtq_zero d = d\<lparr>desc := (\<lambda>_. \<lparr>d_addr = NullAddr, d_len = 0, d_flags = 0, d_next = 0\<rparr>),
     avail_idx := 0, avail_ring := (\<lambda>_. 0), used_idx := 0, used_ring := (\<lambda>_. 0)\<rparr>"

definition virtio_disk_init :: "'a disk_st_scheme \<Rightarrow> (unit, 'a disk_st_scheme) out" where
  "virtio_disk_init s =
     bnd (virtio_negotiate (initlock VdiskLock ''virtio_disk'' s)) (\<lambda>status s1.
     bnd (kalloc s1) (\<lambda>pdesc s2. bnd (kalloc s2) (\<lambda>pavail s3. bnd (kalloc s3) (\<lambda>pused s4.
       if pdesc = 0 \<or> pavail = 0 \<or> pused = 0 then Panic ''virtio disk kalloc''
       else let
         m = memset pused 0 (unat PGSIZE) (memset pavail 0 (unat PGSIZE) (memset pdesc 0 (unat PGSIZE) (mem s4)));
         s5 = set_vdisk virtq_zero (s4\<lparr>mem := m\<rparr>);
         s6 = write_R VIRTIO_MMIO_QUEUE_NUM (of_nat NUM) s5;
         s7 = write_R64 VIRTIO_MMIO_QUEUE_DESC_LOW VIRTIO_MMIO_QUEUE_DESC_HIGH pdesc s6;
         s8 = write_R64 VIRTIO_MMIO_DRIVER_DESC_LOW VIRTIO_MMIO_DRIVER_DESC_HIGH pavail s7;
         s9 = write_R64 VIRTIO_MMIO_DEVICE_DESC_LOW VIRTIO_MMIO_DEVICE_DESC_HIGH pused s8;
         s10 = write_R VIRTIO_MMIO_QUEUE_READY 1 s9;
         s11 = set_vdisk (\<lambda>d. d\<lparr>vfree := (\<lambda>i. i < NUM \<or> vfree d i)\<rparr>) s10
       in Done () (write_R VIRTIO_MMIO_STATUS (status OR VIRTIO_CONFIG_S_DRIVER_OK) s11)))))"

primrec alloc_desc_loop :: "nat list \<Rightarrow> 'a disk_st_scheme \<Rightarrow> nat option \<times> 'a disk_st_scheme" where
  "alloc_desc_loop [] s = (None, s)"
| "alloc_desc_loop (i # is) s =
     (if vfree (vdisk s) i then (Some i, set_vdisk (\<lambda>d. d\<lparr>vfree := (vfree d)(i := False)\<rparr>) s)
      else alloc_desc_loop is s)"

definition alloc_desc :: "'a disk_st_scheme \<Rightarrow> nat option \<times> 'a disk_st_scheme" where
  "alloc_desc s = alloc_desc_loop [0..<NUM] s"

definition free_desc :: "nat \<Rightarrow> 'a disk_st_scheme \<Rightarrow> (unit, 'a disk_st_scheme) out" where
  "free_desc i s =
     (if i \<ge> NUM then Panic ''free_desc 1''
      else if vfree (vdisk s) i then Panic ''free_desc 2''
      else wakeup (Some DiskFreeChan)
        (set_vdisk (\<lambda>d. d\<lparr>desc := (desc d)(i := \<lparr>d_addr = NullAddr, d_len = 0, d_flags = 0, d_next = 0\<rparr>),
           vfree := (vfree d)(i := True)\<rparr>) s))"

text \<open>The loop of \<^verbatim>\<open>free_chain\<close>; each round frees a descriptor, so \<open>NUM\<close> rounds and one more are enough.\<close>

primrec free_chain_loop :: "nat \<Rightarrow> nat \<Rightarrow> 'a disk_st_scheme \<Rightarrow> (unit, 'a disk_st_scheme) out" where
  "free_chain_loop 0 i s = Waits NoFuel s"
| "free_chain_loop (Suc n) i s =
     (let flag = d_flags (desc (vdisk s) i); nxt = unat (d_next (desc (vdisk s) i))
      in bnd (free_desc i s) (\<lambda>_ s1.
           if flag AND VRING_DESC_F_NEXT \<noteq> 0 then free_chain_loop n nxt s1 else Done () s1))"

definition free_chain :: "nat \<Rightarrow> 'a disk_st_scheme \<Rightarrow> (unit, 'a disk_st_scheme) out" where
  "free_chain i s = free_chain_loop (Suc NUM) i s"

primrec free_descs :: "nat list \<Rightarrow> 'a disk_st_scheme \<Rightarrow> (unit, 'a disk_st_scheme) out" where
  "free_descs [] s = Done () s"
| "free_descs (i # is) s = bnd (free_desc i s) (\<lambda>_ s1. free_descs is s1)"

primrec alloc3_loop :: "nat \<Rightarrow> nat list \<Rightarrow> 'a disk_st_scheme \<Rightarrow> (nat list option, 'a disk_st_scheme) out" where
  "alloc3_loop 0 idx s = Done (Some idx) s"
| "alloc3_loop (Suc k) idx s =
     (case alloc_desc s of
        (None, s1) \<Rightarrow> bnd (free_descs idx s1) (\<lambda>_ s2. Done None s2)
      | (Some i, s1) \<Rightarrow> alloc3_loop k (idx @ [i]) s1)"

definition alloc3_desc :: "'a disk_st_scheme \<Rightarrow> (nat list option, 'a disk_st_scheme) out" where
  "alloc3_desc s = alloc3_loop 3 [] s"

text \<open>The three descriptors and the request header of a transfer, and its entry in the avail ring.\<close>

definition virtio_format :: "nat \<Rightarrow> bool \<Rightarrow> u64 \<Rightarrow> nat list \<Rightarrow> vdisk \<Rightarrow> vdisk" where
  "virtio_format b write sector idx d =
     (let i0 = idx ! 0; i1 = idx ! 1; i2 = idx ! 2
      in d\<lparr>ops := (ops d)(i0 := \<lparr>rq_type = if write then VIRTIO_BLK_T_OUT else VIRTIO_BLK_T_IN,
                                 rq_reserved = 0, rq_sector = sector\<rparr>),
           desc := (desc d)
             (i0 := \<lparr>d_addr = OpsAddr i0, d_len = 16, d_flags = VRING_DESC_F_NEXT, d_next = of_nat i1\<rparr>,
              i1 := \<lparr>d_addr = DataAddr b, d_len = of_nat BSIZE,
                     d_flags = (if write then 0 else VRING_DESC_F_WRITE) OR VRING_DESC_F_NEXT, d_next = of_nat i2\<rparr>,
              i2 := \<lparr>d_addr = StatusAddr i0, d_len = 1, d_flags = VRING_DESC_F_WRITE, d_next = 0\<rparr>),
           info_status := (info_status d)(i0 := 0xff),
           info_b := (info_b d)(i0 := Some b),
           avail_ring := (avail_ring d)(unat (avail_idx d) mod NUM := of_nat i0),
           avail_idx := avail_idx d + 1\<rparr>)"

text \<open>\<^verbatim>\<open>virtio_disk_rw\<close> up to its wait: the value is the first descriptor.\<close>

definition virtio_submit :: "nat \<Rightarrow> bool \<Rightarrow> 'a disk_st_scheme \<Rightarrow> (nat, 'a disk_st_scheme) out" where
  "virtio_submit b write s =
     bnd (alloc3_desc s) (\<lambda>r s1. case r of
       None \<Rightarrow> bnd (sleep DiskFreeChan VdiskLock s1) (\<lambda>_ s2. Done 0 s2)
     | Some idx \<Rightarrow>
       let sector = ucast (b_blockno (bufs s1 b) * of_nat (BSIZE div 512));
           s2 = set_buf b (\<lambda>x. x\<lparr>b_disk := True\<rparr>) (set_vdisk (virtio_format b write sector idx) s1)
       in Done (idx ! 0) (write_R VIRTIO_MMIO_QUEUE_NOTIFY 0 s2))"

text \<open>Its end, once the request has finished.\<close>

definition virtio_finish :: "nat \<Rightarrow> 'a disk_st_scheme \<Rightarrow> (unit, 'a disk_st_scheme) out" where
  "virtio_finish i0 s =
     bnd (free_chain i0 (set_vdisk (\<lambda>d. d\<lparr>info_b := (info_b d)(i0 := None)\<rparr>) s)) (\<lambda>_ s1. release VdiskLock s1)"

text \<open>The loop of \<^verbatim>\<open>virtio_disk_intr\<close>, over the \<open>n\<close> used entries not looked at yet.\<close>

primrec virtio_intr_loop :: "nat \<Rightarrow> 'a disk_st_scheme \<Rightarrow> (unit, 'a disk_st_scheme) out" where
  "virtio_intr_loop 0 s = Done () s"
| "virtio_intr_loop (Suc n) s =
     (let i = unat (used_ring (vdisk s) (unat (seen_idx (vdisk s)) mod NUM))
      in if info_status (vdisk s) i \<noteq> 0 then Panic ''virtio_disk_intr status''
         else case info_b (vdisk s) i of
           None \<Rightarrow> Panic ''kerneltrap''
         | Some b \<Rightarrow>
           bnd (wakeup (Some (DiskBufChan b)) (set_buf b (\<lambda>x. x\<lparr>b_disk := False\<rparr>) s)) (\<lambda>_ s1.
             virtio_intr_loop n (set_vdisk (\<lambda>d. d\<lparr>seen_idx := seen_idx d + 1\<rparr>) s1)))"

definition virtio_disk_intr :: "'a disk_st_scheme \<Rightarrow> (unit, 'a disk_st_scheme) out" where
  "virtio_disk_intr s =
     bnd (acquire VdiskLock s) (\<lambda>_ s1.
       let s2 = write_R VIRTIO_MMIO_INTERRUPT_ACK (read_R VIRTIO_MMIO_INTERRUPT_STATUS s1 AND 3) s1
       in bnd (virtio_intr_loop (unat (used_idx (vdisk s2) - seen_idx (vdisk s2))) s2) (\<lambda>_ s3.
            release VdiskLock s3))"

section \<open>Waiting for the device\<close>

definition device_acts :: "'a disk_st_scheme \<Rightarrow> 'a disk_st_scheme" where
  "device_acts s =
     (let m = device s \<lparr>m_disk = vdisk s, m_data = (\<lambda>b. b_data (bufs s b)), m_store = platter s\<rparr>
      in s\<lparr>vdisk := m_disk m, bufs := (\<lambda>b. (bufs s b)\<lparr>b_data := m_data m b\<rparr>), platter := m_store m\<rparr>)"

text \<open>
  One \<^verbatim>\<open>sleep(b, &disk.vdisk_lock)\<close> of process \<open>p\<close> in a schedule in which nothing else runs: the process
  switches to its hart's scheduler, the device acts and interrupts, the handler wakes the process,
  the scheduler picks it again and \<^verbatim>\<open>sleep\<close> returns. Each piece is the kernel's own code.
\<close>

definition disk_sleep :: "nat \<Rightarrow> 'a disk_st_scheme \<Rightarrow> (unit, 'a disk_st_scheme) out" where
  "disk_sleep b s =
     bnd (myproc s) (\<lambda>me s0.
     case (me, sleep (DiskBufChan b) VdiskLock s0) of
       (Some p, Waits Switched s1) \<Rightarrow>
         bnd (scheduler_back p s1) (\<lambda>_ s2.
         bnd (virtio_disk_intr (device_acts s2)) (\<lambda>_ s3.
           case scheduler_visit p s3 of
             Waits Switched s4 \<Rightarrow> sleep_resume p VdiskLock (intena (mycpu s1)) s4
           | r \<Rightarrow> r))
     | (_, r) \<Rightarrow> r)"

definition disk_wait :: "nat \<Rightarrow> 'a disk_st_scheme \<Rightarrow> (unit, 'a disk_st_scheme) out" where
  "disk_wait b s =
     (if b_disk (bufs s b)
      then bnd (disk_sleep b s) (\<lambda>_ s1. if b_disk (bufs s1 b) then Waits Switched s1 else Done () s1)
      else Done () s)"

definition virtio_disk_rw :: "nat \<Rightarrow> bool \<Rightarrow> 'a disk_st_scheme \<Rightarrow> (unit, 'a disk_st_scheme) out" where
  "virtio_disk_rw b write s =
     bnd (acquire VdiskLock s) (\<lambda>_ s1.
     bnd (virtio_submit b write s1) (\<lambda>i0 s2.
     bnd (disk_wait b s2) (\<lambda>_ s3. virtio_finish i0 s3)))"

section \<open>The documented device\<close>

text \<open>
  Sections 2.6 and 5.2 of the virtio specification for a block device, with one request outstanding: the
  device follows the chain of three descriptors, moves the block, stores a zero status byte and
  puts the head of the chain in the used ring.
\<close>

fun ops_of :: "dma_addr \<Rightarrow> nat" where
  "ops_of (OpsAddr i) = i"
| "ops_of _ = 0"

fun data_of :: "dma_addr \<Rightarrow> nat" where
  "data_of (DataAddr b) = b"
| "data_of _ = 0"

fun status_of :: "dma_addr \<Rightarrow> nat" where
  "status_of (StatusAddr i) = i"
| "status_of _ = 0"

definition store_read :: "(nat \<Rightarrow> u8) \<Rightarrow> nat \<Rightarrow> nat \<Rightarrow> u8 list" where
  "store_read st off len = map (\<lambda>i. st (off + i)) [0..<len]"

definition store_write :: "(nat \<Rightarrow> u8) \<Rightarrow> nat \<Rightarrow> u8 list \<Rightarrow> nat \<Rightarrow> u8" where
  "store_write st off bs a = (if off \<le> a \<and> a < off + length bs then bs ! (a - off) else st a)"

definition serve :: "vmem \<Rightarrow> vmem" where
  "serve m =
     (let d = m_disk m;
          h = unat (avail_ring d (unat (dev_idx d) mod NUM));
          d0 = desc d h; d1 = desc d (unat (d_next d0)); d2 = desc d (unat (d_next d1));
          rq = ops d (ops_of (d_addr d0)); b = data_of (d_addr d1);
          off = unat (rq_sector rq) * 512; len = unat (d_len d1);
          d' = d\<lparr>info_status := (info_status d)(status_of (d_addr d2) := 0),
                 used_ring := (used_ring d)(unat (used_idx d) mod NUM := of_nat h),
                 used_idx := used_idx d + 1, dev_idx := dev_idx d + 1\<rparr>
      in if rq_type rq = VIRTIO_BLK_T_OUT
         then m\<lparr>m_disk := d', m_store := store_write (m_store m) off (take len (m_data m b))\<rparr>
         else m\<lparr>m_disk := d', m_data := (m_data m)(b := store_read (m_store m) off len)\<rparr>)"

definition one_request :: "vmem \<Rightarrow> bool" where
  "one_request m \<longleftrightarrow> (let d = m_disk m;
     h = unat (avail_ring d (unat (dev_idx d) mod NUM));
     d0 = desc d h; d1 = desc d (unat (d_next d0)); d2 = desc d (unat (d_next d1))
   in avail_idx d = dev_idx d + 1 \<and> h < NUM \<and>
      (\<exists>i. d_addr d0 = OpsAddr i) \<and> (\<exists>b. d_addr d1 = DataAddr b) \<and> (\<exists>i. d_addr d2 = StatusAddr i) \<and>
      d_flags d0 AND VRING_DESC_F_NEXT \<noteq> 0 \<and> d_flags d1 AND VRING_DESC_F_NEXT \<noteq> 0 \<and>
      d_flags d2 AND VRING_DESC_F_NEXT = 0)"

definition good_device :: "(vmem \<Rightarrow> vmem) \<Rightarrow> bool" where
  "good_device dev \<longleftrightarrow> (\<forall>m. one_request m \<longrightarrow> dev m = serve m)"

section \<open>Frame\<close>

lemma disk_locks [simp]:
  "bufs (lock_on lk s) = bufs s"
  "bufs_update f1 (lock_on lk s) = lock_on lk (bufs_update f1 s)"
  "vdisk (lock_on lk s) = vdisk s"
  "vdisk_update f2 (lock_on lk s) = lock_on lk (vdisk_update f2 s)"
  "platter (lock_on lk s) = platter s"
  "platter_update f3 (lock_on lk s) = lock_on lk (platter_update f3 s)"
  "device (lock_on lk s) = device s"
  "device_update f4 (lock_on lk s) = lock_on lk (device_update f4 s)"
  "mmio_dev (lock_on lk s) = mmio_dev s"
  "mmio_dev_update f5 (lock_on lk s) = lock_on lk (mmio_dev_update f5 s)"
  "mmio_wr (lock_on lk s) = mmio_wr s"
  "mmio_wr_update f6 (lock_on lk s) = lock_on lk (mmio_wr_update f6 s)"
  by (simp_all add: lock_on_def acquire_own_def acquire_swap_def push_off_def intr_defs cpu_defs Let_def)

lemma disk_push [simp]:
  "bufs (push_off s) = bufs s"
  "bufs_update f1 (push_off s) = push_off (bufs_update f1 s)"
  "vdisk (push_off s) = vdisk s"
  "vdisk_update f2 (push_off s) = push_off (vdisk_update f2 s)"
  "platter (push_off s) = platter s"
  "platter_update f3 (push_off s) = push_off (platter_update f3 s)"
  "device (push_off s) = device s"
  "device_update f4 (push_off s) = push_off (device_update f4 s)"
  "mmio_dev (push_off s) = mmio_dev s"
  "mmio_dev_update f5 (push_off s) = push_off (mmio_dev_update f5 s)"
  "mmio_wr (push_off s) = mmio_wr s"
  "mmio_wr_update f6 (push_off s) = push_off (mmio_wr_update f6 s)"
  by (simp_all add: push_off_def intr_defs cpu_defs Let_def)

lemma disk_settle [simp]:
  "bufs (settle s) = bufs s"
  "settle (bufs_update f1 s) = bufs_update f1 (settle s)"
  "vdisk (settle s) = vdisk s"
  "settle (vdisk_update f2 s) = vdisk_update f2 (settle s)"
  "platter (settle s) = platter s"
  "settle (platter_update f3 s) = platter_update f3 (settle s)"
  "device (settle s) = device s"
  "settle (device_update f4 s) = device_update f4 (settle s)"
  "mmio_dev (settle s) = mmio_dev s"
  "settle (mmio_dev_update f5 s) = mmio_dev_update f5 (settle s)"
  "mmio_wr (settle s) = mmio_wr s"
  "settle (mmio_wr_update f6 s) = mmio_wr_update f6 (settle s)"
  by (simp_all add: settle_def intr_defs cpu_defs)

lemma disk_machine [simp]:
  "free_lock (bufs_update f1 s) lk = free_lock s lk"
  "cpu_ok (bufs_update f1 s) = cpu_ok s"
  "mycpu (bufs_update f1 s) = mycpu s"
  "cpuid (bufs_update f1 s) = cpuid s"
  "intr_get (bufs_update f1 s) = intr_get s"
  "holding lk (bufs_update f1 s) = holding lk s"
  "free_lock (vdisk_update f2 s) lk = free_lock s lk"
  "cpu_ok (vdisk_update f2 s) = cpu_ok s"
  "mycpu (vdisk_update f2 s) = mycpu s"
  "cpuid (vdisk_update f2 s) = cpuid s"
  "intr_get (vdisk_update f2 s) = intr_get s"
  "holding lk (vdisk_update f2 s) = holding lk s"
  "free_lock (platter_update f3 s) lk = free_lock s lk"
  "cpu_ok (platter_update f3 s) = cpu_ok s"
  "mycpu (platter_update f3 s) = mycpu s"
  "cpuid (platter_update f3 s) = cpuid s"
  "intr_get (platter_update f3 s) = intr_get s"
  "holding lk (platter_update f3 s) = holding lk s"
  "free_lock (device_update f4 s) lk = free_lock s lk"
  "cpu_ok (device_update f4 s) = cpu_ok s"
  "mycpu (device_update f4 s) = mycpu s"
  "cpuid (device_update f4 s) = cpuid s"
  "intr_get (device_update f4 s) = intr_get s"
  "holding lk (device_update f4 s) = holding lk s"
  "free_lock (mmio_dev_update f5 s) lk = free_lock s lk"
  "cpu_ok (mmio_dev_update f5 s) = cpu_ok s"
  "mycpu (mmio_dev_update f5 s) = mycpu s"
  "cpuid (mmio_dev_update f5 s) = cpuid s"
  "intr_get (mmio_dev_update f5 s) = intr_get s"
  "holding lk (mmio_dev_update f5 s) = holding lk s"
  "free_lock (mmio_wr_update f6 s) lk = free_lock s lk"
  "cpu_ok (mmio_wr_update f6 s) = cpu_ok s"
  "mycpu (mmio_wr_update f6 s) = mycpu s"
  "cpuid (mmio_wr_update f6 s) = cpuid s"
  "intr_get (mmio_wr_update f6 s) = intr_get s"
  "holding lk (mmio_wr_update f6 s) = holding lk s"
  by (simp_all add: free_lock_def cpu_ok_def holding_def cpu_defs intr_defs)

end
