(* ===== verification/Diskio.thy ===== *)
theory Diskio
  imports Virtio
begin

text \<open>
  What a whole disk transfer does: \<^verbatim>\<open>virtio_disk_rw\<close> from the request through the sleep, the device, the
  interrupt and the second half of \<^verbatim>\<open>sleep\<close>, on a machine where no other process uses the disk.
\<close>

section \<open>Sleeping and coming back\<close>

definition set_cproc :: "nat option \<Rightarrow> 'a machine_scheme \<Rightarrow> 'a machine_scheme" where
  "set_cproc q s = set_mycpu ((mycpu s)\<lparr>c_proc := q\<rparr>) s"

lemmas lock_on_defs = lock_on_def acquire_own_def acquire_swap_def push_off_def intr_defs cpu_defs

text \<open>A normal order for updates of different fields.\<close>

lemma upd_comm:
  "cpus_update f (csrs_update g s) = csrs_update g (cpus_update f s)"
  "cpus_update f (locks_update h s) = locks_update h (cpus_update f s)"
  "csrs_update g (locks_update h s) = locks_update h (csrs_update g s)"
  "c_proc_update i (noff_update j c) = noff_update j (c_proc_update i c)"
  "c_proc_update i (intena_update k c) = intena_update k (c_proc_update i c)"
  "noff_update j (intena_update k c) = intena_update k (noff_update j c)"
  by simp_all

lemma release_crossed:
  assumes "cpu_ok s" "free_lock s lk" "lk \<noteq> lk'"
  shows "release lk (lock_on lk' (lock_on lk s)) = Done () (lock_on lk' s)"
proof -
  have lk: "(locks s lk)\<lparr>lk_cpu := None, lk_locked := False\<rparr> = locks s lk"
    using assms(2) by (cases "locks s lk") (simp add: free_lock_def)
  have off: "(x AND NOT SSTATUS_SIE) AND NOT SSTATUS_SIE = x AND NOT SSTATUS_SIE" for x
    by (simp add: SIE_restore(2) SIE_bits)
  show ?thesis
    using assms(1,3)
    by (simp add: release_def release_disown_def release_unlock_def pop_off_def holding_def cpu_ok_def lock_on_defs Let_def
        SIE_bits off fun_upd_twist [of lk' lk] lk upd_comm add.commute)
qed

lemma lock_on_settle [simp]: "lock_on lk (settle s) = lock_on lk s"
  by (simp add: settle_def lock_on_defs Let_def)

lemma lock_on_intena [simp]: "noff (mycpu s) = 0 \<Longrightarrow> intena (mycpu (lock_on lk s)) = intr_get s"
  by (simp add: lock_on_def acquire_own_def acquire_swap_def)

lemma lock_on_settle_proc [simp]: "lock_on lk (set_proc p f (settle s)) = lock_on lk (set_proc p f s)"
  using lock_on_settle [of lk "set_proc p f s"] by simp

lemma set_cproc_machine [simp]:
  "set_cproc q (lock_on lk s) = lock_on lk (set_cproc q s)" "set_cproc q (settle s) = settle (set_cproc q s)"
  "free_lock (set_cproc q s) lk = free_lock s lk" "cpu_ok (set_cproc q s) = cpu_ok s" "intr_get (set_cproc q s) = intr_get s"
  "c_proc (mycpu (set_cproc q s)) = q" "noff (mycpu (set_cproc q s)) = noff (mycpu s)" "cpuid (set_cproc q s) = cpuid s"
  "set_cproc q (set_cproc r s) = set_cproc q s" "locks (set_cproc q s) = locks s"
  by (simp_all add: set_cproc_def settle_def lock_on_defs free_lock_def cpu_ok_def Let_def upd_comm)

lemma set_cproc_same: "c_proc (mycpu s) = q \<Longrightarrow> set_cproc q s = s"
  by (cases "cpus s (tp s)") (auto simp: set_cproc_def cpu_defs fun_upd_idem)

lemma set_cproc_fields [simp]:
  "procs (set_cproc q s) = procs s" "set_cproc q (set_proc p f s) = set_proc p f (set_cproc q s)"
  by (simp_all add: set_cproc_def cpu_defs set_proc_def)

lemma scheduler_back_eq: "scheduler_back p s = release (ProcLock p) (set_cproc None s)"
  by (simp add: scheduler_back_def set_cproc_def)

lemma sleep_eq:
  assumes "cpu_ok s" "noff (mycpu s) = 0" "free_lock s lk" "free_lock s (ProcLock p)" "lk \<noteq> ProcLock p" "c_proc (mycpu s) = Some p"
  shows "sleep ch lk (lock_on lk s) =
    Waits Switched (lock_on (ProcLock p) (set_proc p (\<lambda>x. x\<lparr>pchan := Some ch, pstate := SLEEPING\<rparr>) s))"
proof -
  have holds: "holding k (lock_on k u)" for k and u :: "'a proc_st_scheme" by (simp add: holding_def)
  show ?thesis using assms
    by (simp add: sleep_code myproc_deref_eq acquire_free release_crossed sched_def holds)
qed

lemma scheduler_back_on:
  "cpu_ok s \<Longrightarrow> free_lock s (ProcLock p) \<Longrightarrow>
   scheduler_back p (lock_on (ProcLock p) s) = Done () (settle (set_cproc None s))"
  by (simp add: scheduler_back_eq release_lock_on)

lemma scheduler_visit_runnable:
  assumes "free_lock s (ProcLock p)" "pstate (procs s p) = RUNNABLE"
  shows "scheduler_visit p s =
    Waits Switched (lock_on (ProcLock p) (set_cproc (Some p) (set_proc p (\<lambda>x. x\<lparr>pstate := RUNNING\<rparr>) s)))"
  using assms by (simp add: scheduler_visit_def acquire_free Let_def flip: set_cproc_def)

lemma sched_resume_same:
  "noff (mycpu s) = 0 \<Longrightarrow> intr_get s = old \<Longrightarrow> sched_resume old (lock_on lk s) = lock_on lk s"
  by (simp add: sched_resume_def lock_on_defs Let_def upd_comm)

lemma sleep_resume_eq:
  assumes "cpu_ok s" "noff (mycpu s) = 0" "intr_get s = old" "free_lock s (ProcLock p)" "free_lock s lk" "lk \<noteq> ProcLock p"
  shows "sleep_resume p lk old (lock_on (ProcLock p) s) = Done () (lock_on lk (set_proc p (\<lambda>x. x\<lparr>pchan := None\<rparr>) s))"
  using assms by (simp add: sleep_resume_def sched_resume_same release_lock_on acquire_free)

section \<open>The interrupt\<close>

lemma set_cproc_disk [simp]:
  "bufs (set_cproc q s) = bufs s" "vdisk (set_cproc q s) = vdisk s" "platter (set_cproc q s) = platter s"
  "device (set_cproc q s) = device s" "mmio_dev (set_cproc q s) = mmio_dev s" "mmio_wr (set_cproc q s) = mmio_wr s"
  "set_cproc q (bufs_update f1 s) = bufs_update f1 (set_cproc q s)" "set_cproc q (vdisk_update f2 s) = vdisk_update f2 (set_cproc q s)"
  "set_cproc q (platter_update f3 s) = platter_update f3 (set_cproc q s)"
  "set_cproc q (mmio_wr_update f4 s) = mmio_wr_update f4 (set_cproc q s)"
  "set_cproc q (procs_update f5 s) = procs_update f5 (set_cproc q s)"
  by (simp_all add: set_cproc_def cpu_defs)

lemma device_acts_frame [simp]:
  "device_acts (settle s) = settle (device_acts s)" "device_acts (set_cproc q s) = set_cproc q (device_acts s)"
  "device_acts (set_proc p f s) = set_proc p f (device_acts s)"
  "free_lock (device_acts s) lk = free_lock s lk" "cpu_ok (device_acts s) = cpu_ok s" "mycpu (device_acts s) = mycpu s"
  "intr_get (device_acts s) = intr_get s" "procs (device_acts s) = procs s" "mmio_wr (device_acts s) = mmio_wr s"
  "mmio_dev (device_acts s) = mmio_dev s" "device (device_acts s) = device s"
  by (simp_all add: device_acts_def Let_def set_proc_def)

lemma disk_ops_frame [simp]:
  "set_vdisk f (lock_on lk s) = lock_on lk (set_vdisk f s)" "set_buf b g (lock_on lk s) = lock_on lk (set_buf b g s)"
  "write_R r v (lock_on lk s) = lock_on lk (write_R r v s)" "read_R r (lock_on lk s) = read_R r s"
  "settle (set_vdisk f s) = set_vdisk f (settle s)" "settle (set_buf b g s) = set_buf b g (settle s)"
  "settle (write_R r v s) = write_R r v (settle s)" "read_R r (settle s) = read_R r s"
  "vdisk (set_vdisk f s) = f (vdisk s)" "vdisk (set_buf b g s) = vdisk s" "vdisk (write_R r v s) = vdisk s"
  "bufs (set_buf b g s) = (bufs s)(b := g (bufs s b))" "bufs (set_vdisk f s) = bufs s" "bufs (write_R r v s) = bufs s"
  "procs (set_vdisk f s) = procs s" "procs (set_buf b g s) = procs s" "procs (write_R r v s) = procs s"
  by (simp_all add: set_vdisk_def set_buf_def write_R_def read_R_def)

lemma disk_ops_machine [simp]:
  "free_lock (set_vdisk f s) lk = free_lock s lk" "free_lock (set_buf b g s) lk = free_lock s lk"
  "free_lock (write_R r v s) lk = free_lock s lk" "cpu_ok (set_vdisk f s) = cpu_ok s" "cpu_ok (set_buf b g s) = cpu_ok s"
  "cpu_ok (write_R r v s) = cpu_ok s" "mycpu (set_vdisk f s) = mycpu s" "mycpu (set_buf b g s) = mycpu s"
  "mycpu (write_R r v s) = mycpu s" "intr_get (set_vdisk f s) = intr_get s" "intr_get (set_buf b g s) = intr_get s"
  "intr_get (write_R r v s) = intr_get s"
  "set_cproc q (set_vdisk f s) = set_vdisk f (set_cproc q s)" "set_cproc q (set_buf b g s) = set_buf b g (set_cproc q s)"
  "set_cproc q (write_R r v s) = write_R r v (set_cproc q s)" "read_R r (set_cproc q s) = read_R r s"
  "set_vdisk f (set_proc p k s) = set_proc p k (set_vdisk f s)" "set_buf b g (set_proc p k s) = set_proc p k (set_buf b g s)"
  "write_R r v (set_proc p k s) = set_proc p k (write_R r v s)" "read_R r (set_proc p k s) = read_R r s"
  "vdisk (set_proc p k s) = vdisk s" "bufs (set_proc p k s) = bufs s" "platter (set_proc p k s) = platter s"
  "device (set_proc p k s) = device s"
  by (simp_all add: set_vdisk_def set_buf_def write_R_def read_R_def set_proc_def)

text \<open>No process other than \<open>p\<close> waits inside the file system or the disk driver.\<close>

fun fs_chan :: "chan \<Rightarrow> bool" where
  "fs_chan DiskFreeChan = True"
| "fs_chan (DiskBufChan b) = True"
| "fs_chan LogChan = True"
| "fs_chan (SleepLockChan k) = True"
| "fs_chan _ = False"

definition fs_quiet :: "(nat \<Rightarrow> proc) \<Rightarrow> bool" where
  "fs_quiet P \<longleftrightarrow> (\<forall>q c. pstate (P q) = SLEEPING \<longrightarrow> pchan (P q) = Some c \<longrightarrow> \<not> fs_chan c)"

lemma woken_quiet: "fs_quiet P \<Longrightarrow> fs_chan c \<Longrightarrow> woken (Some c) me ps P = P"
  by (auto simp: woken_def fs_quiet_def fun_eq_iff)

lemma woken_sleeper:
  assumes "fs_quiet P" "fs_chan c" "p \<in> ps"
  shows "woken (Some c) None ps (P(p := x\<lparr>pchan := Some c, pstate := SLEEPING\<rparr>)) = P(p := x\<lparr>pchan := Some c, pstate := RUNNABLE\<rparr>)"
  using assms by (auto simp: woken_def fs_quiet_def fun_eq_iff)

lemma virtio_disk_intr_eq:
  assumes ok: "cpu_ok s" "proc_locks_free s" "free_lock s VdiskLock"
    and d: "used_idx (vdisk s) = seen_idx (vdisk s) + 1"
      "info_status (vdisk s) (unat (used_ring (vdisk s) (unat (seen_idx (vdisk s)) mod NUM))) = 0"
      "info_b (vdisk s) (unat (used_ring (vdisk s) (unat (seen_idx (vdisk s)) mod NUM))) = Some b"
  shows "\<exists>v. virtio_disk_intr s = Done () (settle ((set_vdisk (\<lambda>d. d\<lparr>seen_idx := seen_idx d + 1\<rparr>)
      (set_buf b (\<lambda>x. x\<lparr>b_disk := False\<rparr>) (s\<lparr>mmio_wr := v\<rparr>)))
      \<lparr>procs := woken (Some (DiskBufChan b)) (c_proc (mycpu s)) {..<NPROC} (procs s)\<rparr>))"
proof -
  let ?a = "write_R VIRTIO_MMIO_INTERRUPT_ACK (read_R VIRTIO_MMIO_INTERRUPT_STATUS s AND 3)"
  have n: "unat (used_idx (vdisk s) - seen_idx (vdisk s)) = Suc 0" using d(1) by simp
  have "virtio_disk_intr s = Done () (settle ((set_vdisk (\<lambda>d. d\<lparr>seen_idx := seen_idx d + 1\<rparr>)
      (set_buf b (\<lambda>x. x\<lparr>b_disk := False\<rparr>) (?a s)))
      \<lparr>procs := woken (Some (DiskBufChan b)) (c_proc (mycpu s)) {..<NPROC} (procs s)\<rparr>))"
    using assms n
    by (simp add: virtio_disk_intr_def acquire_free Let_def wakeup_eq proc_locks_free_def release_lock_on)
       (simp add: set_vdisk_def set_buf_def write_R_def)
  then show ?thesis unfolding write_R_def by blast
qed

section \<open>One sleep on the disk\<close>

text \<open>Process \<open>p\<close> runs alone in the kernel, outside every critical section.\<close>

definition alone :: "nat \<Rightarrow> 'a proc_st_scheme \<Rightarrow> bool" where
  "alone p s \<longleftrightarrow> cpu_ok s \<and> noff (mycpu s) = 0 \<and> c_proc (mycpu s) = Some p \<and> p < NPROC \<and>
     pstate (procs s p) = RUNNING \<and> pchan (procs s p) = None \<and> (\<forall>k. free_lock s k) \<and> fs_quiet (procs s)"

lemma alone_locks: "alone p s \<Longrightarrow> proc_locks_free s" "alone p s \<Longrightarrow> free_lock s k" "alone p s \<Longrightarrow> cpu_ok s"
  "alone p s \<Longrightarrow> c_proc (mycpu s) = Some p"
  by (simp_all add: alone_def proc_locks_free_def)

lemma proc_eta: "pstate x = RUNNING \<Longrightarrow> pchan x = None \<Longrightarrow> x\<lparr>pstate := RUNNING, pchan := None\<rparr> = x"
  by (cases x) simp

lemma set_proc_comp: "set_proc p f (set_proc p g s) = set_proc p (\<lambda>x. f (g x)) s"
  by (simp add: set_proc_def)

lemma set_proc_id: "f (procs s p) = procs s p \<Longrightarrow> set_proc p f s = s"
  by (simp add: set_proc_def)

lemma disk_sleep_eq:
  assumes al: "alone p s"
    and d: "used_idx (vdisk (device_acts s)) = seen_idx (vdisk (device_acts s)) + 1"
      "info_status (vdisk (device_acts s))
         (unat (used_ring (vdisk (device_acts s)) (unat (seen_idx (vdisk (device_acts s))) mod NUM))) = 0"
      "info_b (vdisk (device_acts s))
         (unat (used_ring (vdisk (device_acts s)) (unat (seen_idx (vdisk (device_acts s))) mod NUM))) = Some b"
  shows "\<exists>v. disk_sleep b (lock_on VdiskLock s) = Done () (lock_on VdiskLock
     (set_vdisk (\<lambda>d. d\<lparr>seen_idx := seen_idx d + 1\<rparr>) (set_buf b (\<lambda>x. x\<lparr>b_disk := False\<rparr>) ((device_acts s)\<lparr>mmio_wr := v\<rparr>))))"
proof -
  have ok: "cpu_ok s" "noff (mycpu s) = 0" "c_proc (mycpu s) = Some p" "p < NPROC" "pstate (procs s p) = RUNNING"
    "pchan (procs s p) = None" "fs_quiet (procs s)" and free: "free_lock s k" for k using al by (simp_all add: alone_def)
  let ?c = "DiskBufChan b"
  let ?u1 = "set_proc p (\<lambda>x. x\<lparr>pchan := Some ?c, pstate := SLEEPING\<rparr>) s"
  let ?u2 = "set_cproc None ?u1"
  let ?D = "device_acts s"
  let ?X = "\<lambda>v. set_vdisk (\<lambda>d. d\<lparr>seen_idx := seen_idx d + 1\<rparr>) (set_buf b (\<lambda>x. x\<lparr>b_disk := False\<rparr>) (?D\<lparr>mmio_wr := v\<rparr>))"
  have 2: "sleep ?c VdiskLock (lock_on VdiskLock s) = Waits Switched (lock_on (ProcLock p) ?u1)"
    using sleep_eq [of s VdiskLock p ?c] ok free by simp
  have 3: "scheduler_back p (lock_on (ProcLock p) ?u1) = Done () (settle ?u2)"
    using scheduler_back_on [of ?u1 p] ok(1) free by simp
  have W: "woken (Some ?c) None {..<NPROC} ((procs s)(p := (procs s p)\<lparr>pchan := Some ?c, pstate := SLEEPING\<rparr>)) =
      (procs s)(p := (procs s p)\<lparr>pchan := Some ?c, pstate := RUNNABLE\<rparr>)"
    using woken_sleeper [OF ok(7), of ?c p "{..<NPROC}" "procs s p"] ok(4) by simp
  obtain v where 4: "virtio_disk_intr (device_acts (settle ?u2)) =
      Done () (settle (set_cproc None (set_proc p (\<lambda>x. x\<lparr>pchan := Some ?c, pstate := RUNNABLE\<rparr>) (?X v))))"
  proof -
    have "\<exists>v. virtio_disk_intr (device_acts (settle ?u2)) = Done () (settle ((set_vdisk (\<lambda>d. d\<lparr>seen_idx := seen_idx d + 1\<rparr>)
      (set_buf b (\<lambda>x. x\<lparr>b_disk := False\<rparr>) ((device_acts (settle ?u2))\<lparr>mmio_wr := v\<rparr>)))
      \<lparr>procs := woken (Some ?c) (c_proc (mycpu (device_acts (settle ?u2)))) {..<NPROC} (procs (device_acts (settle ?u2)))\<rparr>))"
      by (rule virtio_disk_intr_eq) (use ok(1) free d in \<open>simp_all add: proc_locks_free_def\<close>)
    then obtain v where "virtio_disk_intr (device_acts (settle ?u2)) = Done () (settle ((set_vdisk (\<lambda>d. d\<lparr>seen_idx := seen_idx d + 1\<rparr>)
      (set_buf b (\<lambda>x. x\<lparr>b_disk := False\<rparr>) ((device_acts (settle ?u2))\<lparr>mmio_wr := v\<rparr>)))
      \<lparr>procs := woken (Some ?c) (c_proc (mycpu (device_acts (settle ?u2)))) {..<NPROC} (procs (device_acts (settle ?u2)))\<rparr>))" ..
    then show thesis by (intro that [of v]) (simp add: W, simp add: set_proc_def set_vdisk_def set_buf_def)
  qed
  let ?u4 = "set_proc p (\<lambda>x. x\<lparr>pchan := Some ?c, pstate := RUNNABLE\<rparr>) (?X v)"
  have 5: "scheduler_visit p (settle (set_cproc None ?u4)) =
      Waits Switched (lock_on (ProcLock p) (set_cproc (Some p) (set_proc p (\<lambda>x. x\<lparr>pstate := RUNNING\<rparr>) ?u4)))"
  proof -
    have e: "set_cproc (Some p) (set_proc p f (settle (set_cproc None ?u4))) = settle (set_cproc (Some p) (set_proc p f ?u4))" for f
      by simp
    show ?thesis
      using scheduler_visit_runnable [of "settle (set_cproc None ?u4)" p, unfolded e lock_on_settle] free by simp
  qed
  let ?u5 = "set_cproc (Some p) (set_proc p (\<lambda>x. x\<lparr>pstate := RUNNING\<rparr>) ?u4)"
  have 6: "sleep_resume p VdiskLock (intr_get s) (lock_on (ProcLock p) ?u5) =
      Done () (lock_on VdiskLock (set_proc p (\<lambda>x. x\<lparr>pchan := None\<rparr>) ?u5))"
    using ok free by (intro sleep_resume_eq) simp_all
  have 7: "set_proc p (\<lambda>x. x\<lparr>pchan := None\<rparr>) ?u5 = ?X v"
  proof -
    have "set_proc p (\<lambda>x. x\<lparr>pchan := None\<rparr>) ?u5 = set_cproc (Some p) (?X v)"
      using proc_eta [OF ok(5,6)] by (simp add: set_proc_comp set_proc_id)
    then show ?thesis using ok(3) by (simp add: set_cproc_same)
  qed
  have "disk_sleep b (lock_on VdiskLock s) = Done () (lock_on VdiskLock (?X v))"
    using ok(1-3) 2 3 4 5 6 unfolding 7 by (simp add: disk_sleep_def myproc_eq)
  then show ?thesis by blast
qed

section \<open>A whole transfer\<close>

definition vd_idle :: "vdisk \<Rightarrow> bool" where
  "vd_idle d \<longleftrightarrow> (\<forall>i < NUM. vfree d i) \<and> used_idx d = seen_idx d \<and> avail_idx d = dev_idx d"

lemma alloc3_idle:
  assumes "vd_idle (vdisk s)"
  shows "alloc3_desc s = Done (Some [0, 1, 2]) (set_vdisk (\<lambda>d. d\<lparr>vfree := (vfree d)(0 := False, 1 := False, 2 := False)\<rparr>) s)"
proof -
  have N: "[0..<NUM] = [0, 1, 2, 3, 4, 5, 6, 7]" by (simp add: NUM_def upt_rec)
  have f: "vfree (vdisk s) 0" "vfree (vdisk s) 1" "vfree (vdisk s) 2" using assms by (simp_all add: vd_idle_def NUM_def)
  show ?thesis using f
    by (simp add: alloc3_desc_def numeral_3_eq_3 alloc_desc_def N set_vdisk_def)
qed

text \<open>The queue while the request of buffer \<open>b\<close> is outstanding, and after the device has served it.\<close>

definition vd_asked :: "nat \<Rightarrow> bool \<Rightarrow> u64 \<Rightarrow> vdisk \<Rightarrow> vdisk" where
  "vd_asked b w sector d =
     virtio_format b w sector [0, 1, 2] (d\<lparr>vfree := (vfree d)(0 := False, 1 := False, 2 := False)\<rparr>)"

definition vd_served :: "vdisk \<Rightarrow> vdisk" where
  "vd_served d = d\<lparr>info_status := (info_status d)(0 := 0), used_ring := (used_ring d)(unat (used_idx d) mod NUM := 0),
     used_idx := used_idx d + 1, dev_idx := dev_idx d + 1\<rparr>"

lemma asked_simps [simp]:
  "desc (vd_asked b w sec d) 0 = \<lparr>d_addr = OpsAddr 0, d_len = 16, d_flags = VRING_DESC_F_NEXT, d_next = 1\<rparr>"
  "desc (vd_asked b w sec d) (Suc 0) = \<lparr>d_addr = DataAddr b, d_len = of_nat BSIZE,
     d_flags = or (if w then 0 else VRING_DESC_F_WRITE) VRING_DESC_F_NEXT, d_next = 2\<rparr>"
  "desc (vd_asked b w sec d) 2 = \<lparr>d_addr = StatusAddr 0, d_len = 1, d_flags = VRING_DESC_F_WRITE, d_next = 0\<rparr>"
  "ops (vd_asked b w sec d) 0 = \<lparr>rq_type = if w then VIRTIO_BLK_T_OUT else VIRTIO_BLK_T_IN, rq_reserved = 0, rq_sector = sec\<rparr>"
  "avail_idx (vd_asked b w sec d) = avail_idx d + 1" "dev_idx (vd_asked b w sec d) = dev_idx d"
  "avail_ring (vd_asked b w sec d) (unat (avail_idx d) mod NUM) = 0" "info_b (vd_asked b w sec d) 0 = Some b"
  "used_idx (vd_asked b w sec d) = used_idx d" "seen_idx (vd_asked b w sec d) = seen_idx d"
  "vfree (vd_asked b w sec d) = (vfree d)(0 := False, 1 := False, 2 := False)"
  by (simp_all add: vd_asked_def virtio_format_def Let_def)

lemma flag_bits [simp]:
  "VRING_DESC_F_NEXT \<noteq> 0" "and (or x VRING_DESC_F_NEXT) VRING_DESC_F_NEXT \<noteq> 0"
  "and VRING_DESC_F_WRITE VRING_DESC_F_NEXT = 0"
  by (simp_all add: VRING_DESC_F_NEXT_def VRING_DESC_F_WRITE_def bit.conj_disj_distrib2)

lemma asked_head: "vd_idle d \<Longrightarrow> avail_ring (vd_asked b w sec d) (unat (dev_idx d) mod NUM) = 0"
  using asked_simps(7) [of b w sec d] by (simp add: vd_idle_def)

lemma NUM_pos [simp]: "0 < NUM"
  by (simp add: NUM_def)

lemma one_request_asked:
  assumes "vd_idle d"
  shows "one_request \<lparr>m_disk = vd_asked b w sec d, m_data = data, m_store = st\<rparr>"
  using asked_head [OF assms] assms by (simp add: one_request_def vd_idle_def)

lemma serve_asked:
  assumes "vd_idle d"
  shows "serve \<lparr>m_disk = vd_asked b w sec d, m_data = data, m_store = st\<rparr> =
     (if w then \<lparr>m_disk = vd_served (vd_asked b w sec d), m_data = data,
                 m_store = store_write st (unat sec * 512) (take BSIZE (data b))\<rparr>
      else \<lparr>m_disk = vd_served (vd_asked b w sec d), m_data = data(b := store_read st (unat sec * 512) BSIZE), m_store = st\<rparr>)"
proof -
  have len: "unat (of_nat BSIZE :: u32) = BSIZE" by (simp add: BSIZE_def)
  have ty: "VIRTIO_BLK_T_IN \<noteq> VIRTIO_BLK_T_OUT" by (simp add: VIRTIO_BLK_T_OUT_def VIRTIO_BLK_T_IN_def)
  show ?thesis using asked_head [OF assms] by (simp add: serve_def Let_def vd_served_def len ty)
qed

text \<open>Freeing the three descriptors.\<close>

definition vd_freed :: "vdisk \<Rightarrow> vdisk" where
  "vd_freed d = (let z = \<lparr>d_addr = NullAddr, d_len = 0, d_flags = 0, d_next = 0\<rparr>
     in d\<lparr>info_b := (info_b d)(0 := None), desc := (desc d)(0 := z, 1 := z, 2 := z),
          vfree := (vfree d)(0 := True, 1 := True, 2 := True)\<rparr>)"

lemma wakeup_quiet:
  assumes "cpu_ok s" "proc_locks_free s" "fs_quiet (procs s)" "fs_chan c"
  shows "wakeup (Some c) s = Done () (settle s)"
  using wakeup_eq [OF assms(1,2)] woken_quiet [OF assms(3,4)] by simp

lemma free_desc_eq:
  assumes "cpu_ok s" "proc_locks_free s" "fs_quiet (procs s)" "i < NUM" "\<not> vfree (vdisk s) i"
  shows "free_desc i s = Done () (settle (set_vdisk (\<lambda>d. d\<lparr>desc := (desc d)(i := \<lparr>d_addr = NullAddr, d_len = 0, d_flags = 0, d_next = 0\<rparr>),
     vfree := (vfree d)(i := True)\<rparr>) s))"
  using assms by (simp add: free_desc_def wakeup_quiet proc_locks_free_def)

lemma virtio_finish_eq:
  assumes "alone p s"
    and d: "desc (vdisk s) = desc (vd_asked b w sec e)" "vfree (vdisk s) = vfree (vd_asked b w sec e)"
  shows "virtio_finish 0 (lock_on VdiskLock s) = Done () (settle (set_vdisk vd_freed s))"
proof -
  let ?z = "\<lparr>d_addr = NullAddr, d_len = 0, d_flags = 0, d_next = 0\<rparr>"
  let ?L = "lock_on VdiskLock"
  have ok: "cpu_ok s" "proc_locks_free (?L s)" "fs_quiet (procs s)" "free_lock s VdiskLock"
    using assms(1) by (auto simp: alone_def proc_locks_free_def)
  have N: "0 < NUM" "1 < NUM" "2 < NUM" by (simp_all add: NUM_def)
  have pl: "proc_locks_free (?L (set_vdisk f s))" for f using ok(2) by (simp add: proc_locks_free_def)
  let ?f = "\<lambda>i d. d\<lparr>desc := (desc d)(i := ?z), vfree := (vfree d)(i := True)\<rparr>"
  let ?g = "\<lambda>d. d\<lparr>info_b := (info_b d)(0 := None)\<rparr>"
  have comp: "set_vdisk f (set_vdisk g t) = set_vdisk (\<lambda>d. f (g d)) t" for f g and t :: "'a disk_st_scheme"
    by (simp add: set_vdisk_def)
  have step: "free_desc i (?L (set_vdisk f s)) = Done () (?L (set_vdisk (\<lambda>d. ?f i (f d)) s))"
    if "i < NUM" "\<not> vfree (f (vdisk s)) i" for i f
    using free_desc_eq [of "?L (set_vdisk f s)" i] ok pl that by (simp add: comp)
  note eval = step [OF N(1), of ?g] step [OF N(2), of "\<lambda>d. ?f 0 (?g d)"] step [OF N(3), of "\<lambda>d. ?f 1 (?f 0 (?g d))"]
  obtain n where sz: "Suc NUM = Suc (Suc (Suc n))" by (metis N(3) add_2_eq_Suc less_imp_add_positive)
  have chain: "free_chain_loop (Suc NUM) 0 (?L (set_vdisk ?g s)) = Done () (?L (set_vdisk (\<lambda>d. ?f 2 (?f 1 (?f 0 (?g d)))) s))"
    using eval d unfolding sz by (simp add: Let_def)
  have "set_vdisk (\<lambda>d. ?f 2 (?f 1 (?f 0 (?g d)))) s = set_vdisk vd_freed s"
    by (simp add: set_vdisk_def vd_freed_def Let_def)
  with chain show ?thesis using ok by (simp add: virtio_finish_def free_chain_def release_lock_on)
qed

text \<open>Block \<open>n\<close> of the disk, and the storage with a block replaced.\<close>

definition disk_block :: "(nat \<Rightarrow> u8) \<Rightarrow> nat \<Rightarrow> u8 list" where
  "disk_block st n = store_read st (n * BSIZE) BSIZE"

definition disk_put :: "(nat \<Rightarrow> u8) \<Rightarrow> nat \<Rightarrow> u8 list \<Rightarrow> nat \<Rightarrow> u8" where
  "disk_put st n bs = store_write st (n * BSIZE) (take BSIZE bs)"

lemma sector_offset:
  "unat (n :: u32) < 2 ^ 31 \<Longrightarrow> unat (ucast (n * of_nat (BSIZE div 512)) :: u64) * 512 = unat n * BSIZE"
  by (simp add: BSIZE_def unsigned_ucast_eq unat_word_ariths(2) take_bit_eq_mod)

lemma vd_idle_freed: "vd_idle d \<Longrightarrow> vd_idle (vd_freed ((vd_served (vd_asked b w sec d))\<lparr>seen_idx := seen_idx d + 1\<rparr>))"
  by (auto simp: vd_idle_def vd_freed_def vd_served_def Let_def)

lemma device_acts_served:
  assumes "good_device (device s)" "vd_idle d" "vdisk s = vd_asked b w sec d"
  shows "device_acts s = s\<lparr>vdisk := vd_served (vd_asked b w sec d),
    bufs := (if w then bufs s else (bufs s)(b := (bufs s b)\<lparr>b_data := store_read (platter s) (unat sec * 512) BSIZE\<rparr>)),
    platter := (if w then store_write (platter s) (unat sec * 512) (take BSIZE (b_data (bufs s b))) else platter s)\<rparr>"
proof -
  let ?m = "\<lparr>m_disk = vd_asked b w sec d, m_data = (\<lambda>b. b_data (bufs s b)), m_store = platter s\<rparr>"
  have "device s ?m = serve ?m" using assms(1) one_request_asked [OF assms(2)] by (simp add: good_device_def)
  then have dev: "device s ?m = (if w then \<lparr>m_disk = vd_served (vd_asked b w sec d), m_data = (\<lambda>b. b_data (bufs s b)),
        m_store = store_write (platter s) (unat sec * 512) (take BSIZE (b_data (bufs s b)))\<rparr>
      else \<lparr>m_disk = vd_served (vd_asked b w sec d),
        m_data = (\<lambda>b. b_data (bufs s b))(b := store_read (platter s) (unat sec * 512) BSIZE), m_store = platter s\<rparr>)"
    using serve_asked [OF assms(2)] by simp
  have upd: "(\<lambda>c. (bufs s c)\<lparr>b_data := ((\<lambda>b. b_data (bufs s b))(b := x)) c\<rparr>) = (bufs s)(b := (bufs s b)\<lparr>b_data := x\<rparr>)" for x
    by (auto simp: fun_eq_iff)
  show ?thesis unfolding device_acts_def assms(3) dev
    by (cases w) (simp_all add: upd [simplified])
qed

lemma buf_comm: "b_data_update f (b_disk_update g x) = b_disk_update g (b_data_update f x)"
  by simp

lemma virtio_disk_rw_eq:
  assumes al: "alone p s" and dev: "good_device (device s)" "vd_idle (vdisk s)" and n: "unat (b_blockno (bufs s b)) < 2 ^ 31"
  defines "k \<equiv> unat (b_blockno (bufs s b))"
  shows "\<exists>d v. vd_idle d \<and> virtio_disk_rw b w s = Done () (settle (s\<lparr>vdisk := d, mmio_wr := v,
      bufs := (bufs s)(b := (bufs s b)\<lparr>b_disk := False, b_data := (if w then b_data (bufs s b) else disk_block (platter s) k)\<rparr>),
      platter := (if w then disk_put (platter s) k (b_data (bufs s b)) else platter s)\<rparr>))"
proof -
  define sec :: u64 where "sec = ucast (b_blockno (bufs s b) * of_nat (BSIZE div 512))"
  have sec: "unat sec * 512 = k * BSIZE" using sector_offset [OF n] by (simp add: sec_def k_def)
  let ?L = "lock_on VdiskLock"
  let ?d = "vd_asked b w sec (vdisk s)"
  define s1 where "s1 = s\<lparr>vdisk := ?d, bufs := (bufs s)(b := (bufs s b)\<lparr>b_disk := True\<rparr>),
    mmio_wr := mmio_wr s @ [(VIRTIO_MMIO_QUEUE_NOTIFY, 0)]\<rparr>"
  have 1: "virtio_submit b w (?L s) = Done 0 (?L s1)"
    using alloc3_idle [of "?L s"] dev(2)
    by (simp add: virtio_submit_def Let_def) (simp add: s1_def vd_asked_def sec_def set_vdisk_def set_buf_def write_R_def)
  have al1: "alone p s1" using al by (simp add: alone_def s1_def)
  have acts: "device_acts s1 = s1\<lparr>vdisk := vd_served ?d,
    bufs := (if w then bufs s1 else (bufs s1)(b := (bufs s1 b)\<lparr>b_data := disk_block (platter s) k\<rparr>)),
    platter := (if w then disk_put (platter s) k (b_data (bufs s b)) else platter s)\<rparr>"
    using device_acts_served [of s1 "vdisk s" b w sec] dev by (simp add: s1_def disk_block_def disk_put_def sec)
  have vd: "vdisk (device_acts s1) = vd_served ?d" by (simp add: acts)
  have "\<exists>v. disk_sleep b (?L s1) = Done () (?L (set_vdisk (\<lambda>d. d\<lparr>seen_idx := seen_idx d + 1\<rparr>)
      (set_buf b (\<lambda>x. x\<lparr>b_disk := False\<rparr>) ((device_acts s1)\<lparr>mmio_wr := v\<rparr>))))"
    by (rule disk_sleep_eq [OF al1]; unfold vd) (use dev(2) in \<open>simp_all add: vd_served_def vd_idle_def\<close>)
  then obtain v where 2: "disk_sleep b (?L s1) = Done () (?L (set_vdisk (\<lambda>d. d\<lparr>seen_idx := seen_idx d + 1\<rparr>)
      (set_buf b (\<lambda>x. x\<lparr>b_disk := False\<rparr>) ((device_acts s1)\<lparr>mmio_wr := v\<rparr>))))" ..
  define s2 where "s2 = set_vdisk (\<lambda>d. d\<lparr>seen_idx := seen_idx d + 1\<rparr>)
      (set_buf b (\<lambda>x. x\<lparr>b_disk := False\<rparr>) ((device_acts s1)\<lparr>mmio_wr := v\<rparr>))"
  have w2: "disk_wait b (?L s1) = Done () (?L s2)"
    using 2 by (simp add: disk_wait_def s2_def) (simp add: s1_def)
  have al2: "alone p s2" using al1 by (simp add: alone_def s2_def)
  have vd2: "vdisk s2 = (vd_served ?d)\<lparr>seen_idx := seen_idx (vdisk s) + 1\<rparr>" by (simp add: s2_def acts) (simp add: vd_served_def)
  have 3: "virtio_finish 0 (?L s2) = Done () (settle (set_vdisk vd_freed s2))"
    using virtio_finish_eq [OF al2, of b w sec "vdisk s"] vd2 by (simp add: vd_served_def)
  have fin: "set_vdisk vd_freed s2 = s\<lparr>vdisk := vd_freed (vdisk s2), mmio_wr := v,
      bufs := (bufs s)(b := (bufs s b)\<lparr>b_disk := False, b_data := (if w then b_data (bufs s b) else disk_block (platter s) k)\<rparr>),
      platter := (if w then disk_put (platter s) k (b_data (bufs s b)) else platter s)\<rparr>"
    unfolding s2_def acts
    by (rule disk_st.equality) (simp_all add: set_vdisk_def set_buf_def s1_def buf_comm)
  have "virtio_disk_rw b w s = Done () (settle (set_vdisk vd_freed s2))"
    using al 1 w2 3 by (simp add: virtio_disk_rw_def alone_def acquire_free)
  then show ?thesis unfolding fin vd2 using vd_idle_freed [OF dev(2)] by blast
qed

lemma disk_block_length [simp]: "length (disk_block st n) = BSIZE"
  by (simp add: disk_block_def store_read_def)

lemma disk_block_put:
  assumes "length bs = BSIZE"
  shows "disk_block (disk_put st n bs) k = (if k = n then bs else disk_block st k)"
proof (cases "k = n")
  case True
  have "disk_block (disk_put st n bs) n = bs"
    using assms by (intro nth_equalityI) (simp_all add: disk_block_def disk_put_def store_read_def store_write_def)
  with True show ?thesis by simp
next
  case False
  have "store_write st (n * BSIZE) bs (k * BSIZE + i) = st (k * BSIZE + i)" if "i < BSIZE" for i
  proof -
    have "(k * BSIZE + i) div BSIZE = k" using that by simp
    moreover have "(n * BSIZE + j) div BSIZE = n" if "j < BSIZE" for j using that by simp
    ultimately have "n * BSIZE + j \<noteq> k * BSIZE + i" if "j < BSIZE" for j using that False by metis
    then show ?thesis using assms unfolding store_write_def
      by (metis le_add_diff_inverse less_diff_conv2 add.commute)
  qed
  with False assms show ?thesis by (simp add: disk_block_def disk_put_def store_read_def)
qed

lemma alone_settle [simp]: "alone p (settle s) = alone p s"
  by (simp add: alone_def)

lemma alone_disk [simp]:
  "alone p (s\<lparr>vdisk := d\<rparr>) = alone p s" "alone p (s\<lparr>mmio_wr := v\<rparr>) = alone p s" "alone p (s\<lparr>bufs := bs\<rparr>) = alone p s"
  "alone p (s\<lparr>platter := st\<rparr>) = alone p s"
  by (simp_all add: alone_def)


definition demo_vdisk :: vdisk where
  "demo_vdisk = \<lparr>desc = (\<lambda>_. \<lparr>d_addr = NullAddr, d_len = 0, d_flags = 0, d_next = 0\<rparr>), avail_idx = 0,
     avail_ring = (\<lambda>_. 0), used_idx = 0, used_ring = (\<lambda>_. 0), vfree = (\<lambda>_. True), seen_idx = 0, info_b = (\<lambda>_. None),
     info_status = (\<lambda>_. 0), ops = (\<lambda>_. \<lparr>rq_type = 0, rq_reserved = 0, rq_sector = 0\<rparr>), dev_idx = 0\<rparr>"

definition demo_buf :: buf where
  "demo_buf = \<lparr>b_valid = False, b_disk = False, b_dev = 1, b_blockno = 5, b_refcnt = 0, b_prev = 0, b_next = 0,
     b_data = replicate BSIZE 7\<rparr>"

text \<open>Process 0 runs on hart 0, the others sleep or do not exist, the disk is all zero.\<close>

definition demo_disk :: disk_st where
  "demo_disk = tty_st.extend
     (demo_tty\<lparr>procs := demo_table(0 := demo_proc), cpus := (\<lambda>_. quiet_cpu)(0 := \<lparr>c_proc = Some 0, noff = 0, intena = False\<rparr>)\<rparr>)
     \<lparr>bufs = (\<lambda>_. demo_buf), vdisk = demo_vdisk, platter = (\<lambda>_. 0), device = serve, mmio_dev = (\<lambda>_ _. 0), mmio_wr = []\<rparr>"

lemma demo_disk_ok [simp]:
  "alone 0 demo_disk" "good_device (device demo_disk)" "vd_idle (vdisk demo_disk)" "bufs demo_disk = (\<lambda>_. demo_buf)"
  "platter demo_disk = (\<lambda>_. 0)"
proof -
  have t: "tp demo_tty = 0" by (simp add: demo_tty_def proc_st.defs demo_procs_def demo_sleep_def con_st.defs boot_con_def
        kmem_st.defs boot_kmem_def machine.defs boot_machine_def)
  have l: "locks demo_disk = locks demo_tty" "tp demo_disk = 0" "cpus demo_disk 0 = \<lparr>c_proc = Some 0, noff = 0, intena = False\<rparr>"
    "procs demo_disk = demo_table(0 := demo_proc)"
    using t by (simp_all add: demo_disk_def tty_st.defs)
  have "free_lock demo_disk k" for k using demo_tty_simps(2) [of k] by (simp add: free_lock_def l)
  moreover have "fs_quiet (demo_table(0 := demo_proc))"
    by (auto simp: fs_quiet_def demo_table_def demo_proc_def)
  ultimately show "alone 0 demo_disk"
    by (simp add: alone_def cpu_ok_def cpu_defs l NPROC_def) (simp add: demo_proc_def)
  show "good_device (device demo_disk)" "vd_idle (vdisk demo_disk)" "bufs demo_disk = (\<lambda>_. demo_buf)" "platter demo_disk = (\<lambda>_. 0)"
    by (simp_all add: demo_disk_def tty_st.defs good_device_def vd_idle_def demo_vdisk_def)
qed


end
