(* ===== verification/Bio.thy ===== *)
theory Bio
  imports Diskio
begin

text \<open>
  The buffer cache \<^verbatim>\<open>kernel/bio.c\<close>: its operations and what they do to the cached view of the disk.

  The buffers are the indices below \<open>NBUF\<close>; the index \<open>NBUF\<close> itself is \<^verbatim>\<open>bcache.head\<close>. The two scans of
  \<^verbatim>\<open>bget\<close> follow the links with \<open>NBUF + 1\<close> rounds of fuel, which a well-formed list never uses up.
\<close>

section \<open>Operations\<close>

definition bhead :: nat where "bhead = NBUF"

definition set_next :: "nat \<Rightarrow> nat \<Rightarrow> (nat \<Rightarrow> buf) \<Rightarrow> nat \<Rightarrow> buf" where
  "set_next b n B = B(b := (B b)\<lparr>b_next := n\<rparr>)"

definition set_prev :: "nat \<Rightarrow> nat \<Rightarrow> (nat \<Rightarrow> buf) \<Rightarrow> nat \<Rightarrow> buf" where
  "set_prev b n B = B(b := (B b)\<lparr>b_prev := n\<rparr>)"

text \<open>The four link updates that put \<open>b\<close> at the front of the list.\<close>

definition lru_front :: "nat \<Rightarrow> (nat \<Rightarrow> buf) \<Rightarrow> nat \<Rightarrow> buf" where
  "lru_front b B =
     (let B1 = set_next b (b_next (B bhead)) B;
          B2 = set_prev b bhead B1;
          B3 = set_prev (b_next (B2 bhead)) b B2
      in set_next bhead b B3)"

primrec binit_loop :: "nat list \<Rightarrow> 'a disk_st_scheme \<Rightarrow> 'a disk_st_scheme" where
  "binit_loop [] s = s"
| "binit_loop (b # bs) s =
     (let s1 = initsleeplock (BufLock b) ''buffer'' s in binit_loop bs (s1\<lparr>bufs := lru_front b (bufs s1)\<rparr>))"

definition binit :: "'a disk_st_scheme \<Rightarrow> 'a disk_st_scheme" where
  "binit s =
     (let s1 = initlock BcacheLock ''bcache'' s
      in binit_loop [0..<NBUF] (s1\<lparr>bufs := set_next bhead bhead (set_prev bhead bhead (bufs s1))\<rparr>))"

primrec bget_cached :: "nat \<Rightarrow> nat \<Rightarrow> u32 \<Rightarrow> u32 \<Rightarrow> 'a disk_st_scheme \<Rightarrow> (nat option, 'a disk_st_scheme) out" where
  "bget_cached 0 b dev blockno s = Waits NoFuel s"
| "bget_cached (Suc k) b dev blockno s =
     (if b = bhead then Done None s
      else if b_dev (bufs s b) = dev \<and> b_blockno (bufs s b) = blockno then Done (Some b) s
      else bget_cached k (b_next (bufs s b)) dev blockno s)"

primrec bget_unused :: "nat \<Rightarrow> nat \<Rightarrow> 'a disk_st_scheme \<Rightarrow> (nat option, 'a disk_st_scheme) out" where
  "bget_unused 0 b s = Waits NoFuel s"
| "bget_unused (Suc k) b s =
     (if b = bhead then Done None s
      else if b_refcnt (bufs s b) = 0 then Done (Some b) s
      else bget_unused k (b_prev (bufs s b)) s)"

text \<open>The common end of the two ways to get a buffer.\<close>

definition bget_lock :: "nat \<Rightarrow> 'a disk_st_scheme \<Rightarrow> (nat, 'a disk_st_scheme) out" where
  "bget_lock b s =
     bnd (release BcacheLock s) (\<lambda>_ s1. bnd (acquiresleep (BufLock b) s1) (\<lambda>_ s2. Done b s2))"

definition bget :: "u32 \<Rightarrow> u32 \<Rightarrow> 'a disk_st_scheme \<Rightarrow> (nat, 'a disk_st_scheme) out" where
  "bget dev blockno s =
     bnd (acquire BcacheLock s) (\<lambda>_ s1.
     bnd (bget_cached (Suc NBUF) (b_next (bufs s1 bhead)) dev blockno s1) (\<lambda>r s2.
       case r of
         Some b \<Rightarrow> bget_lock b (set_buf b (\<lambda>x. x\<lparr>b_refcnt := b_refcnt x + 1\<rparr>) s2)
       | None \<Rightarrow>
         bnd (bget_unused (Suc NBUF) (b_prev (bufs s2 bhead)) s2) (\<lambda>r s3.
           case r of
             Some b \<Rightarrow> bget_lock b
               (set_buf b (\<lambda>x. x\<lparr>b_dev := dev, b_blockno := blockno, b_valid := False, b_refcnt := 1\<rparr>) s3)
           | None \<Rightarrow> Panic ''bget: no buffers'')))"

definition bread :: "u32 \<Rightarrow> u32 \<Rightarrow> 'a disk_st_scheme \<Rightarrow> (nat, 'a disk_st_scheme) out" where
  "bread dev blockno s =
     bnd (bget dev blockno s) (\<lambda>b s1.
       if \<not> b_valid (bufs s1 b)
       then bnd (virtio_disk_rw b False s1) (\<lambda>_ s2. Done b (set_buf b (\<lambda>x. x\<lparr>b_valid := True\<rparr>) s2))
       else Done b s1)"

definition bwrite :: "nat \<Rightarrow> 'a disk_st_scheme \<Rightarrow> (unit, 'a disk_st_scheme) out" where
  "bwrite b s =
     bnd (holdingsleep (BufLock b) s) (\<lambda>h s1. if \<not> h then Panic ''bwrite'' else virtio_disk_rw b True s1)"

text \<open>
  Dropping a reference: the buffer nobody refers to any more is unlinked and put at the front.
\<close>

definition drop_ref :: "nat \<Rightarrow> (nat \<Rightarrow> buf) \<Rightarrow> nat \<Rightarrow> buf" where
  "drop_ref b B =
     (let B1 = B(b := (B b)\<lparr>b_refcnt := b_refcnt (B b) - 1\<rparr>)
      in if b_refcnt (B1 b) = 0
         then let B2 = set_prev (b_next (B1 b)) (b_prev (B1 b)) B1;
                  B3 = set_next (b_prev (B2 b)) (b_next (B2 b)) B2
              in lru_front b B3
         else B1)"

definition brelse :: "nat \<Rightarrow> 'a disk_st_scheme \<Rightarrow> (unit, 'a disk_st_scheme) out" where
  "brelse b s =
     bnd (holdingsleep (BufLock b) s) (\<lambda>h s1.
       if \<not> h then Panic ''brelse''
       else bnd (releasesleep (BufLock b) s1) (\<lambda>_ s2.
            bnd (acquire BcacheLock s2) (\<lambda>_ s3. release BcacheLock (s3\<lparr>bufs := drop_ref b (bufs s3)\<rparr>))))"

definition bpin :: "nat \<Rightarrow> 'a disk_st_scheme \<Rightarrow> (unit, 'a disk_st_scheme) out" where
  "bpin b s =
     bnd (acquire BcacheLock s) (\<lambda>_ s1.
       release BcacheLock (set_buf b (\<lambda>x. x\<lparr>b_refcnt := b_refcnt x + 1\<rparr>) s1))"

definition bunpin :: "nat \<Rightarrow> 'a disk_st_scheme \<Rightarrow> (unit, 'a disk_st_scheme) out" where
  "bunpin b s =
     bnd (acquire BcacheLock s) (\<lambda>_ s1.
       release BcacheLock (set_buf b (\<lambda>x. x\<lparr>b_refcnt := b_refcnt x - 1\<rparr>) s1))"

section \<open>The LRU list\<close>

text \<open>\<open>links f a xs z\<close>: following \<open>f\<close> from \<open>a\<close> passes through \<open>xs\<close> and ends at \<open>z\<close>.\<close>

fun links :: "(nat \<Rightarrow> nat) \<Rightarrow> nat \<Rightarrow> nat list \<Rightarrow> nat \<Rightarrow> bool" where
  "links f a [] z \<longleftrightarrow> f a = z"
| "links f a (x # xs) z \<longleftrightarrow> f a = x \<and> links f x xs z"

lemma links_frame: "links f a xs z \<Longrightarrow> (\<And>x. x \<in> set (a # xs) \<Longrightarrow> g x = f x) \<Longrightarrow> links g a xs z"
  by (induction xs arbitrary: a) auto

lemma links_unlink:
  "links f a (ys @ b # zs) z \<Longrightarrow> distinct (a # ys @ b # zs) \<Longrightarrow> links (f(last (a # ys) := f b)) a (ys @ zs) z"
proof (induction ys arbitrary: a)
  case Nil
  then show ?case
    by (cases zs) (auto intro: links_frame [of f])
next
  case (Cons y ys)
  have "links (f(last (y # ys) := f b)) y (ys @ zs) z" using Cons.prems by (intro Cons.IH) auto
  moreover have "last (y # ys) \<noteq> a" using Cons.prems(2) last_in_set [of "y # ys"] by auto
  moreover have "last (a # y # ys) = last (y # ys)" by simp
  moreover have "(f(last (y # ys) := f b)) a = y" using calculation(2) Cons.prems(1) by simp
  ultimately show ?case by (simp only: append_Cons links.simps simp_thms)
qed

lemma links_front: "links f a xs z \<Longrightarrow> b \<notin> set (a # xs) \<Longrightarrow> a \<notin> set xs \<Longrightarrow> links (f(b := f a, a := b)) a (b # xs) z"
  by (cases xs) (auto elim!: links_frame)

lemma links_back:
  "links f a xs z \<Longrightarrow> distinct (a # xs) \<Longrightarrow> b \<notin> set (a # xs) \<Longrightarrow> links (f(b := w, last (a # xs) := b)) a (xs @ [b]) w"
proof (induction xs arbitrary: a)
  case (Cons x xs)
  have "links (f(b := w, last (x # xs) := b)) x (xs @ [b]) w" using Cons.prems by (intro Cons.IH) auto
  moreover have "last (x # xs) \<noteq> a" using Cons.prems(2) last_in_set [of "x # xs"] by auto
  moreover have "last (a # x # xs) = last (x # xs)" by simp
  moreover have "(f(b := w, last (x # xs) := b)) a = x" using calculation(2) Cons.prems(1,3) by simp
  ultimately show ?case by (simp only: append_Cons links.simps simp_thms)
qed auto

lemma links_last: "links f a (xs @ b # ys) z \<Longrightarrow> f b = hd (ys @ [z])"
  by (induction xs arbitrary: a) (cases ys; auto)+

definition lru :: "(nat \<Rightarrow> buf) \<Rightarrow> nat list \<Rightarrow> bool" where
  "lru B xs \<longleftrightarrow> links (\<lambda>b. b_next (B b)) bhead xs bhead \<and> links (\<lambda>b. b_prev (B b)) bhead (rev xs) bhead \<and>
     distinct xs \<and> set xs = {..<NBUF}"

text \<open>The same for a list from which some buffer may be missing.\<close>

definition ring_of :: "(nat \<Rightarrow> buf) \<Rightarrow> nat list \<Rightarrow> bool" where
  "ring_of B xs \<longleftrightarrow> links (\<lambda>b. b_next (B b)) bhead xs bhead \<and> links (\<lambda>b. b_prev (B b)) bhead (rev xs) bhead \<and>
     distinct xs \<and> bhead \<notin> set xs"

lemma last_rev_hd: "last (a # rev xs) = hd (xs @ [a])"
  by (cases xs) auto

lemma lru_front_ring:
  assumes "ring_of B xs" "b \<notin> set xs" "b \<noteq> bhead"
  shows "ring_of (lru_front b B) (b # xs)"
proof -
  let ?f = "\<lambda>b. b_next (B b)" and ?g = "\<lambda>b. b_prev (B b)"
  have f: "links ?f bhead xs bhead" and g: "links ?g bhead (rev xs) bhead" and d: "distinct xs" "bhead \<notin> set xs"
    using assms(1) by (auto simp: ring_of_def)
  have first: "?f bhead = hd (xs @ [bhead])" using f by (cases xs) auto
  have ne: "hd (xs @ [bhead]) \<noteq> b" using assms(2,3) by (cases xs) auto
  have nx: "(\<lambda>c. b_next (lru_front b B c)) = ?f(b := ?f bhead, bhead := b)"
    using assms(3) ne first
    by (auto simp: lru_front_def set_next_def set_prev_def Let_def fun_eq_iff)
  have pv: "(\<lambda>c. b_prev (lru_front b B c)) = ?g(b := bhead, hd (xs @ [bhead]) := b)"
    using assms(3) ne first
    by (auto simp: lru_front_def set_next_def set_prev_def Let_def fun_eq_iff)
  show ?thesis unfolding ring_of_def nx pv
    using links_front [OF f] links_back [OF g, of b bhead] assms(2,3) d unfolding last_rev_hd by auto
qed

lemma unlink_ring:
  assumes "ring_of B (ys @ b # zs)"
  defines "s5 \<equiv> set_prev (b_next (B b)) (b_prev (B b)) B"
  shows "ring_of (set_next (b_prev (s5 b)) (b_next (s5 b)) s5) (ys @ zs)"
proof -
  let ?f = "\<lambda>b. b_next (B b)" and ?g = "\<lambda>b. b_prev (B b)"
  have f: "links ?f bhead (ys @ b # zs) bhead" and g: "links ?g bhead (rev zs @ b # rev ys) bhead"
    and d: "distinct (bhead # ys @ b # zs)" "distinct (bhead # rev zs @ b # rev ys)"
    using assms(1) by (auto simp: ring_of_def)
  have n: "?f b = last (bhead # rev zs)" using links_last [OF f] by (simp only: last_rev_hd)
  have p: "?g b = last (bhead # ys)"
    using links_last [OF g] last_rev_hd [of bhead "rev ys"] by (simp only: rev_rev_ident)
  have ne: "?f b \<noteq> b" "?g b \<noteq> b"
  proof -
    have "last (bhead # rev zs) \<in> set (bhead # rev zs)" "last (bhead # ys) \<in> set (bhead # ys)"
      by (rule last_in_set, simp)+
    then show "?f b \<noteq> b" "?g b \<noteq> b" unfolding n p using d by auto
  qed
  let ?t = "set_next (b_prev (s5 b)) (b_next (s5 b)) s5"
  have nx: "(\<lambda>c. b_next (?t c)) = ?f(last (bhead # ys) := ?f b)"
    using ne unfolding p [symmetric] by (auto simp: s5_def set_next_def set_prev_def fun_eq_iff)
  have pv: "(\<lambda>c. b_prev (?t c)) = ?g(last (bhead # rev zs) := ?g b)"
    using ne unfolding n [symmetric] by (auto simp: s5_def set_next_def set_prev_def fun_eq_iff)
  show ?thesis unfolding ring_of_def nx pv
    using links_unlink [OF f d(1)] links_unlink [OF g d(2)] d(1) by auto
qed

lemma lru_ring: "lru B xs \<longleftrightarrow> ring_of B xs \<and> set xs = {..<NBUF}"
  by (auto simp: lru_def ring_of_def bhead_def)

lemma lru_upd:
  assumes "lru B xs" "b_next x = b_next (B b)" "b_prev x = b_prev (B b)"
  shows "lru (B(b := x)) xs"
proof -
  have "(\<lambda>c. b_next ((B(b := x)) c)) = (\<lambda>c. b_next (B c))" "(\<lambda>c. b_prev ((B(b := x)) c)) = (\<lambda>c. b_prev (B c))"
    using assms(2,3) by (simp_all add: fun_eq_iff)
  then show ?thesis using assms(1) by (simp only: lru_def)
qed

lemma move_front_lru:
  assumes "lru B xs" "b < NBUF"
  defines "B2 \<equiv> set_prev (b_next (B b)) (b_prev (B b)) B"
  shows "\<exists>ys. lru (lru_front b (set_next (b_prev (B2 b)) (b_next (B2 b)) B2)) ys"
proof -
  have "b \<in> set xs" using assms(1,2) by (simp add: lru_def)
  then obtain ys zs where xs: "xs = ys @ b # zs" by (meson split_list)
  have r: "ring_of B (ys @ b # zs)" "set (ys @ b # zs) = {..<NBUF}" "distinct (ys @ b # zs)"
    using assms(1) by (auto simp: lru_ring xs ring_of_def)
  have nb: "b \<noteq> bhead" using assms(2) by (simp add: bhead_def)
  from unlink_ring [OF r(1)] have "ring_of (set_next (b_prev (B2 b)) (b_next (B2 b)) B2) (ys @ zs)"
    by (simp add: B2_def)
  from lru_front_ring [OF this _ nb] r(2,3) show ?thesis
    by (intro exI [of _ "b # ys @ zs"]) (auto simp: lru_ring)
qed

lemma drop_ref_lru:
  assumes "lru B xs" "b < NBUF"
  shows "\<exists>xs. lru (drop_ref b B) xs"
proof -
  have "lru (B(b := (B b)\<lparr>b_refcnt := b_refcnt (B b) - 1\<rparr>)) xs" by (rule lru_upd [OF assms(1)]) simp_all
  with move_front_lru [OF this assms(2)] show ?thesis unfolding drop_ref_def Let_def by auto
qed

text \<open>Fields other than the links are not touched by list updates.\<close>

definition same_blocks :: "(nat \<Rightarrow> buf) \<Rightarrow> (nat \<Rightarrow> buf) \<Rightarrow> bool" where
  "same_blocks B B' \<longleftrightarrow> (\<forall>c. b_dev (B' c) = b_dev (B c) \<and> b_blockno (B' c) = b_blockno (B c) \<and>
     b_valid (B' c) = b_valid (B c) \<and> b_data (B' c) = b_data (B c))"

lemma links_only [simp]:
  "b_data (set_next a n B c) = b_data (B c)" "b_data (set_prev a n B c) = b_data (B c)"
  "b_refcnt (set_next a n B c) = b_refcnt (B c)" "b_refcnt (set_prev a n B c) = b_refcnt (B c)"
  "b_dev (set_next a n B c) = b_dev (B c)" "b_dev (set_prev a n B c) = b_dev (B c)"
  "b_blockno (set_next a n B c) = b_blockno (B c)" "b_blockno (set_prev a n B c) = b_blockno (B c)"
  "b_valid (set_next a n B c) = b_valid (B c)" "b_valid (set_prev a n B c) = b_valid (B c)"
  by (simp_all add: set_next_def set_prev_def)

lemma drop_ref_blocks:
  "same_blocks B (drop_ref b B)"
  "b_refcnt (drop_ref b B c) = (if c = b then b_refcnt (B b) - 1 else b_refcnt (B c))"
  by (simp_all add: drop_ref_def lru_front_def Let_def same_blocks_def)

lemma binit_loop_ring:
  "ring_of (bufs s) xs \<Longrightarrow> distinct bs \<Longrightarrow> set bs \<inter> set xs = {} \<Longrightarrow> bhead \<notin> set bs \<Longrightarrow>
   ring_of (bufs (binit_loop bs s)) (rev bs @ xs)"
proof (induction bs arbitrary: s xs)
  case (Cons b bs)
  let ?s = "initsleeplock (BufLock b) ''buffer'' s"
  have "bufs ?s = bufs s" by (simp add: initsleeplock_def set_sl_def initlock_def)
  with lru_front_ring [of "bufs s" xs b] Cons.prems
  have "ring_of (bufs (?s\<lparr>bufs := lru_front b (bufs ?s)\<rparr>)) (b # xs)" by auto
  from Cons.IH [OF this] Cons.prems show ?case by (simp add: Let_def)
qed simp

text \<open>\<^verbatim>\<open>binit\<close> links all buffers into one ring through the head, whatever the links were before.\<close>

lemma binit_links_all: "lru (bufs (binit s)) (rev [0..<NBUF])"
proof -
  let ?s = "initlock BcacheLock ''bcache'' s"
  have "ring_of (bufs (?s\<lparr>bufs := set_next bhead bhead (set_prev bhead bhead (bufs ?s))\<rparr>)) []"
    by (simp add: ring_of_def set_next_def set_prev_def)
  from binit_loop_ring [OF this, of "[0..<NBUF]"] show ?thesis
    by (simp add: binit_def lru_ring bhead_def atLeast_upt Let_def)
qed

section \<open>The cached view of the disk\<close>

text \<open>The buffer that caches block \<open>n\<close> of the root device, and the contents of the block as its users see it.\<close>

definition find_buf :: "(nat \<Rightarrow> buf) \<Rightarrow> u32 \<Rightarrow> nat option" where
  "find_buf B n = find (\<lambda>b. b_dev (B b) = ROOTDEV \<and> b_blockno (B b) = n) [0..<NBUF]"

definition blk :: "'a disk_st_scheme \<Rightarrow> u32 \<Rightarrow> u8 list" where
  "blk s n = (case find_buf (bufs s) n of
     Some b \<Rightarrow> if b_valid (bufs s b) then b_data (bufs s b) else disk_block (platter s) (unat n)
   | None \<Rightarrow> disk_block (platter s) (unat n))"

text \<open>
  The invariant of the cache: the links form the ring, no block has two buffers, a buffer nobody
  refers to agrees with the disk, and a locked buffer is referred to.
\<close>

definition buf_fine :: "buf \<Rightarrow> bool" where
  "buf_fine x \<longleftrightarrow> length (b_data x) = BSIZE \<and> unat (b_blockno x) < 2 ^ 31 \<and> b_dev x \<in> {0, ROOTDEV}"

definition buf_clean :: "(nat \<Rightarrow> u8) \<Rightarrow> buf \<Rightarrow> bool" where
  "buf_clean st x \<longleftrightarrow> (b_valid x \<and> b_dev x = ROOTDEV \<longrightarrow> b_data x = disk_block st (unat (b_blockno x)))"

definition bufs_ok :: "(nat \<Rightarrow> u8) \<Rightarrow> (sleeplockid \<Rightarrow> sleeplock) \<Rightarrow> (nat \<Rightarrow> buf) \<Rightarrow> bool" where
  "bufs_ok st L B \<longleftrightarrow> (\<exists>xs. lru B xs) \<and> (\<forall>b < NBUF. buf_fine (B b)) \<and>
     (\<forall>b < NBUF. b_dev (B b) = ROOTDEV \<longrightarrow> find_buf B (b_blockno (B b)) = Some b) \<and>
     (\<forall>b < NBUF. b_refcnt (B b) = 0 \<longrightarrow> buf_clean st (B b) \<and> \<not> sl_locked (L (BufLock b)))"

definition disk_ready :: "nat \<Rightarrow> 'a disk_st_scheme \<Rightarrow> bool" where
  "disk_ready p s \<longleftrightarrow> alone p s \<and> good_device (device s) \<and> vd_idle (vdisk s) \<and> bufs_ok (platter s) (sleeplocks s) (bufs s)"

definition holds :: "nat \<Rightarrow> 'a disk_st_scheme \<Rightarrow> nat \<Rightarrow> bool" where
  "holds p s b \<longleftrightarrow> sl_locked (sleeplocks s (BufLock b)) \<and> sl_pid (sleeplocks s (BufLock b)) = pid (procs s p)"

lemma find_in: "find P xs = Some b \<Longrightarrow> b \<in> set xs \<and> P b"
  by (auto simp: find_Some_iff)

lemma find_buf_Some:
  "find_buf B n = Some b \<Longrightarrow> b < NBUF \<and> b_dev (B b) = ROOTDEV \<and> b_blockno (B b) = n"
  by (auto simp: find_buf_def find_Some_iff)

lemma find_buf_None:
  "find_buf B n = None \<longleftrightarrow> (\<forall>b < NBUF. b_dev (B b) = ROOTDEV \<longrightarrow> b_blockno (B b) \<noteq> n)"
  by (auto simp: find_buf_def find_None_iff)

lemma find_buf_eq:
  assumes "bufs_ok st L B" "b < NBUF" "b_dev (B b) = ROOTDEV" "b_blockno (B b) = n"
  shows "find_buf B n = Some b"
  using assms by (auto simp: bufs_ok_def)

text \<open>The scans of \<^verbatim>\<open>bget\<close> find what a search of the whole list finds.\<close>

lemma bget_cached_find:
  "links (\<lambda>b. b_next (bufs s b)) a xs bhead \<Longrightarrow> bhead \<notin> set xs \<Longrightarrow> length xs < k \<Longrightarrow>
   bget_cached k (b_next (bufs s a)) dev n s = Done (find (\<lambda>b. b_dev (bufs s b) = dev \<and> b_blockno (bufs s b) = n) xs) s"
proof (induction xs arbitrary: a k)
  case Nil
  then show ?case by (cases k) auto
next
  case (Cons x xs)
  then obtain j where "k = Suc j" "length xs < j" by (cases k) auto
  with Cons show ?case by auto
qed

lemma bget_unused_find:
  "links (\<lambda>b. b_prev (bufs s b)) a xs bhead \<Longrightarrow> bhead \<notin> set xs \<Longrightarrow> length xs < k \<Longrightarrow>
   bget_unused k (b_prev (bufs s a)) s = Done (find (\<lambda>b. b_refcnt (bufs s b) = 0) xs) s"
proof (induction xs arbitrary: a k)
  case Nil
  then show ?case by (cases k) auto
next
  case (Cons x xs)
  then obtain j where "k = Suc j" "length xs < j" by (cases k) auto
  with Cons show ?case by auto
qed

declare bget_cached.simps [simp del] bget_unused.simps [simp del]

lemma lru_length: "lru B xs \<Longrightarrow> length xs = NBUF"
  by (metis card_lessThan distinct_card lru_def)

lemma find_unique:
  assumes "find P xs = r" "set xs = set ys" "\<And>a b. a \<in> set ys \<Longrightarrow> b \<in> set ys \<Longrightarrow> P a \<Longrightarrow> P b \<Longrightarrow> a = b"
  shows "find P ys = r"
proof (cases r)
  case None
  with assms(1,2) show ?thesis by (auto simp: find_None_iff)
next
  case (Some x)
  with assms(1) have x: "x \<in> set ys" "P x" unfolding assms(2) [symmetric] by (auto simp: find_Some_iff)
  show ?thesis
  proof (cases "find P ys")
    case (Some y)
    then have "y \<in> set ys" "P y" by (auto simp: find_Some_iff)
    with assms(3) [OF x(1) this(1) x(2) this(2)] Some \<open>r = Some x\<close> show ?thesis by simp
  qed (use x in \<open>auto simp: find_None_iff\<close>)
qed

lemma bget_scan:
  assumes ok: "bufs_ok (platter s) (sleeplocks s) (bufs s)"
  shows "bget_cached (Suc NBUF) (b_next (bufs s bhead)) ROOTDEV n s = Done (find_buf (bufs s) n) s"
    "\<exists>b < NBUF. b_refcnt (bufs s b) = 0 \<Longrightarrow>
      \<exists>b. b < NBUF \<and> b_refcnt (bufs s b) = 0 \<and> bget_unused (Suc NBUF) (b_prev (bufs s bhead)) s = Done (Some b) s"
proof -
  obtain xs where xs: "lru (bufs s) xs" using ok by (auto simp: bufs_ok_def)
  have l: "links (\<lambda>b. b_next (bufs s b)) bhead xs bhead" "links (\<lambda>b. b_prev (bufs s b)) bhead (rev xs) bhead"
    "bhead \<notin> set xs" "set xs = {..<NBUF}" "length xs < Suc NBUF"
    using xs lru_length [OF xs] by (auto simp: lru_def bhead_def)
  have "find (\<lambda>b. b_dev (bufs s b) = ROOTDEV \<and> b_blockno (bufs s b) = n) xs = find_buf (bufs s) n"
    unfolding find_buf_def
  proof (rule find_unique [OF refl])
    show "set [0..<NBUF] = set xs" using l(4) by (simp add: atLeast_upt)
    fix a b assume "a \<in> set xs" "b \<in> set xs" "b_dev (bufs s a) = ROOTDEV \<and> b_blockno (bufs s a) = n"
      "b_dev (bufs s b) = ROOTDEV \<and> b_blockno (bufs s b) = n"
    then show "a = b" using find_buf_eq [OF ok, of a n] find_buf_eq [OF ok, of b n] unfolding l(4) by simp
  qed
  with bget_cached_find [OF l(1,3,5)]
  show "bget_cached (Suc NBUF) (b_next (bufs s bhead)) ROOTDEV n s = Done (find_buf (bufs s) n) s" by simp
  assume ex: "\<exists>b < NBUF. b_refcnt (bufs s b) = 0"
  have rx: "set (rev xs) = {..<NBUF}" using l(4) by simp
  show "\<exists>b. b < NBUF \<and> b_refcnt (bufs s b) = 0 \<and> bget_unused (Suc NBUF) (b_prev (bufs s bhead)) s = Done (Some b) s"
  proof (cases "find (\<lambda>b. b_refcnt (bufs s b) = 0) (rev xs)")
    case None
    with ex rx show ?thesis by (auto simp: find_None_iff)
  next
    case (Some b)
    from find_in [OF Some] have "b < NBUF" "b_refcnt (bufs s b) = 0" unfolding rx by simp_all
    moreover have "bget_unused (Suc NBUF) (b_prev (bufs s bhead)) s = Done (Some b) s"
      using bget_unused_find [OF l(2), of "Suc NBUF"] l(3,5) Some by simp
    ultimately show ?thesis by blast
  qed
qed

section \<open>bget and bread\<close>

definition lock_buf :: "nat \<Rightarrow> nat \<Rightarrow> 'a disk_st_scheme \<Rightarrow> 'a disk_st_scheme" where
  "lock_buf p b s = set_sl (BufLock b) (\<lambda>x. x\<lparr>sl_locked := True, sl_pid := pid (procs s p)\<rparr>) s"

lemma set_buf_alone [simp]: "alone p (set_buf b f s) = alone p s" "alone p (set_vdisk g s) = alone p s"
  by (simp_all add: set_buf_def set_vdisk_def)

lemma set_sl_alone [simp]: "alone p (set_sl k f s) = alone p s"
  by (simp add: alone_def)

lemma bget_lock_eq:
  assumes "alone p s" "\<not> sl_locked (sleeplocks s (BufLock b))"
  shows "bget_lock b (lock_on BcacheLock s) = Done b (settle (lock_buf p b s))"
  using assms by (simp add: bget_lock_def alone_def release_lock_on acquiresleep_eq lock_buf_def)

lemma bget_hit:
  assumes rd: "disk_ready p s" and b: "find_buf (bufs s) n = Some b" "\<not> sl_locked (sleeplocks s (BufLock b))"
  shows "bget ROOTDEV n s = Done b (settle (lock_buf p b (set_buf b (\<lambda>x. x\<lparr>b_refcnt := b_refcnt x + 1\<rparr>) s)))"
proof -
  have al: "alone p s" and ok: "bufs_ok (platter s) (sleeplocks s) (bufs s)" using rd by (simp_all add: disk_ready_def)
  let ?s = "set_buf b (\<lambda>x. x\<lparr>b_refcnt := b_refcnt x + 1\<rparr>) s"
  have "bget_lock b (lock_on BcacheLock ?s) = Done b (settle (lock_buf p b ?s))"
    using al b(2) by (intro bget_lock_eq) (simp_all add: set_buf_def)
  then show ?thesis
    using bget_scan(1) [of "lock_on BcacheLock s" n] ok al b(1) by (simp add: bget_def alone_def acquire_free)
qed

lemma bget_miss:
  assumes rd: "disk_ready p s" and n: "find_buf (bufs s) n = None" and ex: "\<exists>b < NBUF. b_refcnt (bufs s b) = 0"
  shows "\<exists>b. b < NBUF \<and> b_refcnt (bufs s b) = 0 \<and> bget ROOTDEV n s = Done b (settle (lock_buf p b
    (set_buf b (\<lambda>x. x\<lparr>b_dev := ROOTDEV, b_blockno := n, b_valid := False, b_refcnt := 1\<rparr>) s)))"
proof -
  have al: "alone p s" and ok: "bufs_ok (platter s) (sleeplocks s) (bufs s)" using rd by (simp_all add: disk_ready_def)
  let ?L = "lock_on BcacheLock"
  from bget_scan(2) [of "?L s"] ok ex obtain b where b: "b < NBUF" "b_refcnt (bufs s b) = 0"
    "bget_unused (Suc NBUF) (b_prev (bufs s bhead)) (?L s) = Done (Some b) (?L s)" by auto
  let ?s = "set_buf b (\<lambda>x. x\<lparr>b_dev := ROOTDEV, b_blockno := n, b_valid := False, b_refcnt := 1\<rparr>) s"
  have "\<not> sl_locked (sleeplocks s (BufLock b))" using ok b(1,2) by (auto simp: bufs_ok_def)
  then have "bget_lock b (?L ?s) = Done b (settle (lock_buf p b ?s))"
    using al by (intro bget_lock_eq) (simp_all add: set_buf_def)
  then have "bget ROOTDEV n s = Done b (settle (lock_buf p b ?s))"
    using bget_scan(1) [of "?L s" n] ok al n b(3) by (simp add: bget_def alone_def acquire_free)
  with b(1,2) show ?thesis by blast
qed

text \<open>
  What changes of the state when \<open>p\<close> gets buffer \<open>b\<close>: the buffers, the lock of \<open>b\<close>, and the driver's
  own bookkeeping.
\<close>

definition got :: "nat \<Rightarrow> nat \<Rightarrow> (nat \<Rightarrow> buf) \<Rightarrow> vdisk \<Rightarrow> (nat \<times> u32) list \<Rightarrow> 'a disk_st_scheme \<Rightarrow> 'a disk_st_scheme" where
  "got p b B d v s = lock_buf p b ((settle s)\<lparr>bufs := B, vdisk := d, mmio_wr := v\<rparr>)"

lemma settle_lock_buf [simp]: "settle (lock_buf p b s) = lock_buf p b (settle s)"
  by (simp add: lock_buf_def)

lemma bread_hit:
  assumes rd: "disk_ready p s" and b: "find_buf (bufs s) n = Some b" "\<not> sl_locked (sleeplocks s (BufLock b))" "b_valid (bufs s b)"
  shows "bread ROOTDEV n s = Done b (got p b ((bufs s)(b := (bufs s b)\<lparr>b_refcnt := b_refcnt (bufs s b) + 1\<rparr>)) (vdisk s) (mmio_wr s) s)"
proof -
  have same: "t\<lparr>bufs := B\<rparr> = t\<lparr>bufs := B, vdisk := vdisk t, mmio_wr := mmio_wr t\<rparr>" for B and t :: "'a disk_st_scheme" by simp
  have "settle (set_buf b (\<lambda>x. x\<lparr>b_refcnt := b_refcnt x + 1\<rparr>) s) =
      (settle s)\<lparr>bufs := (bufs s)(b := (bufs s b)\<lparr>b_refcnt := b_refcnt (bufs s b) + 1\<rparr>), vdisk := vdisk s, mmio_wr := mmio_wr s\<rparr>"
    using same [where t = "settle s"] by (simp add: set_buf_def)
  then show ?thesis
    using bget_hit [OF rd b(1,2)] b(3) by (simp add: bread_def got_def lock_buf_def set_sl_def set_buf_def)
qed

section \<open>Updates of one buffer\<close>

lemma bufs_ok_upd:
  assumes "bufs_ok st L B" "b < NBUF" "b_next x = b_next (B b)" "b_prev x = b_prev (B b)" "buf_fine x"
    and "b_dev x = ROOTDEV \<Longrightarrow> find_buf B (b_blockno x) \<in> {None, Some b}"
    and "b_refcnt x = 0 \<Longrightarrow> buf_clean st x \<and> \<not> sl_locked (L' (BufLock b))"
    and "\<And>c. c \<noteq> b \<Longrightarrow> L' (BufLock c) = L (BufLock c)"
  shows "bufs_ok st L' (B(b := x))"
proof -
  from assms(1) obtain xs where "lru B xs" by (auto simp: bufs_ok_def)
  then have l: "\<exists>xs. lru (B(b := x)) xs" using lru_upd assms(3,4) by blast
  have clash: "c = b" if "c < NBUF" "b_dev (B c) = ROOTDEV" "b_dev x = ROOTDEV" "b_blockno (B c) = b_blockno x" for c
    using find_buf_eq [OF assms(1) that(1,2,4)] assms(6) [OF that(3)] by auto
  have uniq: "find_buf (B(b := x)) (b_blockno ((B(b := x)) c)) = Some c" if c: "c < NBUF" "b_dev ((B(b := x)) c) = ROOTDEV" for c
  proof (cases "find_buf (B(b := x)) (b_blockno ((B(b := x)) c))")
    case None
    then show ?thesis using c unfolding find_buf_None by blast
  next
    case (Some e)
    note e = find_buf_Some [OF Some]
    have e1: "e < NBUF" "b_dev ((B(b := x)) e) = ROOTDEV" "b_blockno ((B(b := x)) e) = b_blockno ((B(b := x)) c)"
      using e by simp_all
    have "e = c"
    proof (rule ccontr)
      assume ne: "e \<noteq> c"
      consider "c = b" "e \<noteq> b" | "e = b" "c \<noteq> b" | "c \<noteq> b" "e \<noteq> b" using ne by metis
      then show False
      proof cases
        case 1
        then have "b_dev (B e) = ROOTDEV" "b_dev x = ROOTDEV" "b_blockno (B e) = b_blockno x" using e1(2,3) c(2) by simp_all
        from clash [OF e1(1) this] 1 show False by simp
      next
        case 2
        then have "b_dev (B c) = ROOTDEV" "b_dev x = ROOTDEV" "b_blockno (B c) = b_blockno x" using e1(2,3) c(2) by simp_all
        from clash [OF c(1) this] 2 show False by simp
      next
        case 3
        then have m: "b_dev (B e) = ROOTDEV" "b_blockno (B e) = b_blockno (B c)" "b_dev (B c) = ROOTDEV"
          using e1(2,3) c(2) by simp_all
        from find_buf_eq [OF assms(1) e1(1) m(1,2)] find_buf_eq [OF assms(1) c(1) m(3) refl] ne show False by simp
      qed
    qed
    with Some show ?thesis by simp
  qed
  have fine: "\<forall>c < NBUF. buf_fine ((B(b := x)) c)" using assms(1,5) by (simp add: bufs_ok_def)
  have idle: "\<forall>c < NBUF. b_refcnt ((B(b := x)) c) = 0 \<longrightarrow> buf_clean st ((B(b := x)) c) \<and> \<not> sl_locked (L' (BufLock c))"
    using assms(1,7,8) by (simp add: bufs_ok_def)
  show ?thesis unfolding bufs_ok_def using l fine idle uniq by blast
qed

lemma find_buf_upd:
  assumes "bufs_ok st L (B(b := x))" "b < NBUF"
  shows "find_buf (B(b := x)) m = (if b_dev x = ROOTDEV \<and> b_blockno x = m then Some b
    else if find_buf B m = Some b then find_buf (B(b := x)) m else find_buf B m)"
proof (cases "b_dev x = ROOTDEV \<and> b_blockno x = m")
  case True
  with find_buf_eq [OF assms(1), of b m] assms(2) show ?thesis by simp
next
  case False
  show ?thesis
  proof (cases "find_buf B m")
    case None
    then have "find_buf (B(b := x)) m = None" using False by (auto simp: find_buf_None)
    with None False show ?thesis by simp
  next
    case (Some c)
    from find_buf_Some [OF Some] find_buf_eq [OF assms(1), of c m] False Some show ?thesis by (cases "c = b") auto
  qed
qed

lemma blk_cached:
  assumes "bufs_ok st L (bufs s)" "b < NBUF" "b_dev (bufs s b) = ROOTDEV" "b_valid (bufs s b)"
  shows "blk s (b_blockno (bufs s b)) = b_data (bufs s b)"
  using find_buf_eq [OF assms(1-3) refl] assms(4) by (simp add: blk_def)

lemma find_buf_lost:
  assumes "bufs_ok st L B" "find_buf B m = Some b" "\<not> (b_dev x = ROOTDEV \<and> b_blockno x = m)"
  shows "find_buf (B(b := x)) m = None"
proof (cases "find_buf (B(b := x)) m")
  case (Some e)
  from find_buf_Some [OF Some] assms(3) have "e \<noteq> b" by auto
  with find_buf_Some [OF Some] have "e < NBUF" "b_dev (B e) = ROOTDEV" "b_blockno (B e) = m" by simp_all
  from find_buf_eq [OF assms(1) this] assms(2) \<open>e \<noteq> b\<close> show ?thesis by simp
qed simp

lemma blk_upd:
  assumes "bufs_ok st L (bufs s)" "bufs_ok st L' ((bufs s)(b := x))" "b < NBUF"
    and "bufs t = (bufs s)(b := x)" "platter t = platter s"
  shows "blk t m = (if b_dev x = ROOTDEV \<and> b_blockno x = m
      then (if b_valid x then b_data x else disk_block (platter s) (unat m))
      else if find_buf (bufs s) m = Some b then disk_block (platter s) (unat m) else blk s m)"
proof (cases "b_dev x = ROOTDEV \<and> b_blockno x = m")
  case True
  with find_buf_upd [OF assms(2,3), of m] show ?thesis by (simp add: blk_def assms(4,5))
next
  case False
  show ?thesis
  proof (cases "find_buf (bufs s) m = Some b")
    case True
    from find_buf_lost [OF assms(1) this False] True False show ?thesis by (auto simp: blk_def assms(4,5))
  next
    case nb: False
    then have eq: "find_buf ((bufs s)(b := x)) m = find_buf (bufs s) m" using find_buf_upd [OF assms(2,3), of m] False by auto
    show ?thesis
    proof (cases "find_buf (bufs s) m")
      case None
      with eq False show ?thesis by (auto simp: blk_def assms(4,5))
    next
      case (Some c)
      with nb have "c \<noteq> b" by simp
      with Some eq False show ?thesis by (auto simp: blk_def assms(4,5))
    qed
  qed
qed

text \<open>The buffers after \<^verbatim>\<open>bread\<close> of block \<open>n\<close> returned \<open>b\<close>.\<close>

definition fetched :: "'a disk_st_scheme \<Rightarrow> u32 \<Rightarrow> nat \<Rightarrow> buf \<Rightarrow> bool" where
  "fetched s n b x \<longleftrightarrow> b < NBUF \<and> b_dev x = ROOTDEV \<and> b_blockno x = n \<and> b_valid x \<and> b_data x = blk s n \<and>
     b_refcnt x = b_refcnt (bufs s b) + 1 \<and> b_next x = b_next (bufs s b) \<and> b_prev x = b_prev (bufs s b) \<and>
     (find_buf (bufs s) n = Some b \<or> find_buf (bufs s) n = None \<and> b_refcnt (bufs s b) = 0)"

definition can_get :: "'a disk_st_scheme \<Rightarrow> u32 \<Rightarrow> bool" where
  "can_get s n \<longleftrightarrow> (case find_buf (bufs s) n of
     Some b \<Rightarrow> \<not> sl_locked (sleeplocks s (BufLock b)) | None \<Rightarrow> \<exists>b < NBUF. b_refcnt (bufs s b) = 0)"

lemma lock_buf_simps [simp]:
  "bufs (lock_buf p b s) = bufs s" "platter (lock_buf p b s) = platter s" "vdisk (lock_buf p b s) = vdisk s"
  "device (lock_buf p b s) = device s" "alone q (lock_buf p b s) = alone q s" "mmio_wr (lock_buf p b s) = mmio_wr s"
  by (simp_all add: lock_buf_def set_sl_def alone_def)

lemma lock_buf_comm [simp]:
  "lock_buf p b s\<lparr>vdisk := d\<rparr> = lock_buf p b (s\<lparr>vdisk := d\<rparr>)" "lock_buf p b s\<lparr>mmio_wr := v\<rparr> = lock_buf p b (s\<lparr>mmio_wr := v\<rparr>)"
  "lock_buf p b s\<lparr>bufs := B\<rparr> = lock_buf p b (s\<lparr>bufs := B\<rparr>)" "lock_buf p b s\<lparr>platter := st\<rparr> = lock_buf p b (s\<lparr>platter := st\<rparr>)"
  by (simp_all add: lock_buf_def set_sl_def)

text \<open>Reading the block into a buffer that is not valid.\<close>

lemma bread_fill:
  assumes "alone p s" "good_device (device s)" "vd_idle (vdisk s)" "unat (b_blockno (bufs s b)) < 2 ^ 31" "\<not> b_valid (bufs s b)"
    and "bget ROOTDEV n s0 = Done b (lock_buf p b (settle s))"
  shows "\<exists>d v. vd_idle d \<and> bread ROOTDEV n s0 = Done b (lock_buf p b ((settle s)\<lparr>bufs := (bufs s)(b := (bufs s b)
      \<lparr>b_disk := False, b_data := disk_block (platter s) (unat (b_blockno (bufs s b))), b_valid := True\<rparr>),
      vdisk := d, mmio_wr := v\<rparr>))"
proof -
  let ?s = "lock_buf p b (settle s)"
  obtain d v where "vd_idle d" and r: "virtio_disk_rw b False ?s = Done () (settle (?s\<lparr>vdisk := d, mmio_wr := v,
      bufs := (bufs ?s)(b := (bufs ?s b)\<lparr>b_disk := False, b_data := disk_block (platter ?s) (unat (b_blockno (bufs ?s b)))\<rparr>),
      platter := platter ?s\<rparr>))"
    using virtio_disk_rw_eq [of p ?s b False] assms by auto
  moreover have "set_buf b (b_valid_update (\<lambda>_. True)) (settle (?s\<lparr>vdisk := d, mmio_wr := v,
      bufs := (bufs ?s)(b := (bufs ?s b)\<lparr>b_disk := False, b_data := disk_block (platter ?s) (unat (b_blockno (bufs ?s b)))\<rparr>),
      platter := platter ?s\<rparr>)) = lock_buf p b ((settle s)\<lparr>bufs := (bufs s)(b := (bufs s b)
      \<lparr>b_disk := False, b_data := disk_block (platter s) (unat (b_blockno (bufs s b))), b_valid := True\<rparr>), vdisk := d, mmio_wr := v\<rparr>)"
    by (rule disk_st.equality) (simp_all add: set_buf_def, simp_all add: lock_buf_def set_sl_def)
  ultimately show ?thesis using assms(5,6) by (auto simp: bread_def)
qed

lemma bread_spec:
  assumes rd: "disk_ready p s" and n: "unat n < 2 ^ 31" and get: "can_get s n"
  shows "\<exists>b x d v. bread ROOTDEV n s = Done b (got p b ((bufs s)(b := x)) d v s) \<and> vd_idle d \<and> fetched s n b x"
proof -
  have al: "alone p s" "good_device (device s)" "vd_idle (vdisk s)" and ok: "bufs_ok (platter s) (sleeplocks s) (bufs s)"
    using rd by (simp_all add: disk_ready_def)
  show ?thesis
  proof (cases "find_buf (bufs s) n")
    case (Some b)
    note b = find_buf_Some [OF Some]
    have free: "\<not> sl_locked (sleeplocks s (BufLock b))" using get Some by (simp add: can_get_def)
    show ?thesis
    proof (cases "b_valid (bufs s b)")
      case True
      let ?x = "(bufs s b)\<lparr>b_refcnt := b_refcnt (bufs s b) + 1\<rparr>"
      have "blk s n = b_data (bufs s b)" using Some True by (simp add: blk_def)
      with bread_hit [OF rd Some free True] al(3) b Some True have
        "bread ROOTDEV n s = Done b (got p b ((bufs s)(b := ?x)) (vdisk s) (mmio_wr s) s) \<and> vd_idle (vdisk s) \<and> fetched s n b ?x"
        by (simp add: fetched_def)
      then show ?thesis by blast
    next
      case False
      let ?s = "set_buf b (\<lambda>x. x\<lparr>b_refcnt := b_refcnt x + 1\<rparr>) s"
      have "\<exists>d v. vd_idle d \<and> bread ROOTDEV n s = Done b (lock_buf p b ((settle ?s)\<lparr>bufs := (bufs ?s)(b := (bufs ?s b)
        \<lparr>b_disk := False, b_data := disk_block (platter ?s) (unat (b_blockno (bufs ?s b))), b_valid := True\<rparr>), vdisk := d, mmio_wr := v\<rparr>))"
        using al n b False bget_hit [OF rd Some free] by (intro bread_fill) (simp_all add: set_buf_def)
      then obtain d v where "vd_idle d" "bread ROOTDEV n s = Done b (got p b ((bufs s)(b := (bufs s b)\<lparr>b_refcnt := b_refcnt (bufs s b) + 1,
          b_disk := False, b_data := disk_block (platter s) (unat n), b_valid := True\<rparr>)) d v s)"
        using b by (auto simp: got_def set_buf_def)
      moreover have "fetched s n b ((bufs s b)\<lparr>b_refcnt := b_refcnt (bufs s b) + 1,
          b_disk := False, b_data := disk_block (platter s) (unat n), b_valid := True\<rparr>)"
        using b Some False by (simp add: fetched_def blk_def)
      ultimately show ?thesis by blast
    qed
  next
    case None
    then have "\<exists>b < NBUF. b_refcnt (bufs s b) = 0" using get by (simp add: can_get_def)
    from bget_miss [OF rd None this] obtain b where b: "b < NBUF" "b_refcnt (bufs s b) = 0"
      "bget ROOTDEV n s = Done b (settle (lock_buf p b
        (set_buf b (\<lambda>x. x\<lparr>b_dev := ROOTDEV, b_blockno := n, b_valid := False, b_refcnt := 1\<rparr>) s)))" by blast
    let ?s = "set_buf b (\<lambda>x. x\<lparr>b_dev := ROOTDEV, b_blockno := n, b_valid := False, b_refcnt := 1\<rparr>) s"
    have "\<exists>d v. vd_idle d \<and> bread ROOTDEV n s = Done b (lock_buf p b ((settle ?s)\<lparr>bufs := (bufs ?s)(b := (bufs ?s b)
      \<lparr>b_disk := False, b_data := disk_block (platter ?s) (unat (b_blockno (bufs ?s b))), b_valid := True\<rparr>), vdisk := d, mmio_wr := v\<rparr>))"
      using al n b by (intro bread_fill) (simp_all add: set_buf_def)
    then obtain d v where "vd_idle d" "bread ROOTDEV n s = Done b (got p b ((bufs s)(b := (bufs s b)\<lparr>b_dev := ROOTDEV,
        b_blockno := n, b_refcnt := 1, b_disk := False, b_data := disk_block (platter s) (unat n), b_valid := True\<rparr>)) d v s)"
      by (auto simp: got_def set_buf_def)
    moreover have "fetched s n b ((bufs s b)\<lparr>b_dev := ROOTDEV,
        b_blockno := n, b_refcnt := 1, b_disk := False, b_data := disk_block (platter s) (unat n), b_valid := True\<rparr>)"
      using b None by (simp add: fetched_def blk_def)
    ultimately show ?thesis by blast
  qed
qed

lemma got_simps [simp]:
  "bufs (got p b B d v s) = B" "platter (got p b B d v s) = platter s" "vdisk (got p b B d v s) = d"
  "device (got p b B d v s) = device s" "alone q (got p b B d v s) = alone q s" "procs (got p b B d v s) = procs s"
  "sleeplocks (got p b B d v s) = (sleeplocks s)(BufLock b := (sleeplocks s (BufLock b))\<lparr>sl_locked := True, sl_pid := pid (procs s p)\<rparr>)"
  by (simp_all add: got_def lock_buf_def set_sl_def) (simp add: alone_def)

lemma got_ready:
  assumes rd: "disk_ready p s" and n: "unat n < 2 ^ 31" and d: "vd_idle d" and f: "fetched s n b x"
    and small: "b_refcnt (bufs s b) \<noteq> -1"
  shows "disk_ready p (got p b ((bufs s)(b := x)) d v s)" "blk (got p b ((bufs s)(b := x)) d v s) m = blk s m"
    "holds p (got p b ((bufs s)(b := x)) d v s) b"
proof -
  let ?t = "got p b ((bufs s)(b := x)) d v s"
  have ok: "bufs_ok (platter s) (sleeplocks s) (bufs s)" using rd by (simp add: disk_ready_def)
  have b: "b < NBUF" and x: "b_dev x = ROOTDEV" "b_blockno x = n" "b_valid x" "b_data x = blk s n"
    using f by (simp_all add: fetched_def)
  have "length (blk s n) = BSIZE"
    using ok find_buf_Some [of "bufs s" n] by (auto simp: blk_def bufs_ok_def buf_fine_def split: option.splits)
  then have fine: "buf_fine x" using x n by (simp add: buf_fine_def)
  have r: "b_refcnt x \<noteq> 0"
    using f small by (auto simp: fetched_def eq_neg_iff_add_eq_0)
  have ok': "bufs_ok (platter s) (sleeplocks ?t) ((bufs s)(b := x))"
    using f r fine x by (intro bufs_ok_upd [OF ok b]) (auto simp: fetched_def)
  then show "disk_ready p ?t" using rd d by (simp add: disk_ready_def)
  show "holds p ?t b" by (simp add: holds_def)
  have lost: "blk s m = disk_block (platter s) (unat m)" if "find_buf (bufs s) m = Some b" "m \<noteq> n"
  proof -
    have "find_buf (bufs s) n \<noteq> Some b" using find_buf_Some [of "bufs s" _ b] that by metis
    then have "b_refcnt (bufs s b) = 0" using f by (auto simp: fetched_def)
    then have "buf_clean (platter s) (bufs s b)" using ok b by (simp add: bufs_ok_def)
    then show ?thesis using find_buf_Some [OF that(1)] that(1) by (auto simp: blk_def buf_clean_def)
  qed
  show "blk ?t m = blk s m"
    using blk_upd [OF ok ok' b, of ?t m] x lost by auto
qed

lemma blk_cong:
  assumes "\<And>c. b_dev (bufs t c) = b_dev (bufs s c) \<and> b_blockno (bufs t c) = b_blockno (bufs s c) \<and>
      b_valid (bufs t c) = b_valid (bufs s c) \<and> b_data (bufs t c) = b_data (bufs s c)" "platter t = platter s"
  shows "blk t m = blk s m" "find_buf (bufs t) m = find_buf (bufs s) m"
proof -
  show "find_buf (bufs t) m = find_buf (bufs s) m" unfolding find_buf_def using assms(1) by simp
  then show "blk t m = blk s m" unfolding blk_def using assms by (simp split: option.splits)
qed

section \<open>brelse and bwrite\<close>

definition unlock_buf :: "nat \<Rightarrow> 'a disk_st_scheme \<Rightarrow> 'a disk_st_scheme" where
  "unlock_buf b s = set_sl (BufLock b) (\<lambda>x. x\<lparr>sl_locked := False, sl_pid := 0\<rparr>) s"

lemma brelse_eq:
  assumes al: "alone p s" and h: "holds p s b"
  shows "brelse b s = Done () (unlock_buf b ((settle s)\<lparr>bufs := drop_ref b (bufs s)\<rparr>))"
proof -
  have ok: "cpu_ok s" "c_proc (mycpu s) = Some p" "proc_locks_free s" "fs_quiet (procs s)" and free: "free_lock s k" for k
    using al by (simp_all add: alone_def proc_locks_free_def)
  have hs: "holdingsleep (BufLock b) s = Done True (settle s)"
    using holdingsleep_eq [of s "BufLock b" p] ok free h by (simp add: holds_def)
  have "woken (Some (SleepLockChan (BufLock b))) (Some p) {..<NPROC} (procs s) = procs s"
    using woken_quiet [OF ok(4)] by simp
  then have rs: "releasesleep (BufLock b) (settle s) = Done () (unlock_buf b (settle s))"
    using releasesleep_eq [of "settle s" "BufLock b"] ok free by (simp add: unlock_buf_def set_sl_def)
  show ?thesis
    using hs rs free ok(1) by (simp add: brelse_def acquire_free unlock_buf_def release_lock_on) (simp add: set_sl_def)
qed

lemma unlock_buf_simps [simp]:
  "bufs (unlock_buf b s) = bufs s" "platter (unlock_buf b s) = platter s" "vdisk (unlock_buf b s) = vdisk s"
  "device (unlock_buf b s) = device s" "alone q (unlock_buf b s) = alone q s" "procs (unlock_buf b s) = procs s"
  "sleeplocks (unlock_buf b s) = (sleeplocks s)(BufLock b := (sleeplocks s (BufLock b))\<lparr>sl_locked := False, sl_pid := 0\<rparr>)"
  by (simp_all add: unlock_buf_def set_sl_def alone_def)

lemma same_blocks_find: "same_blocks B B' \<Longrightarrow> find_buf B' n = find_buf B n"
  unfolding find_buf_def same_blocks_def by simp

lemma same_blocks_blk: "same_blocks (bufs s) (bufs t) \<Longrightarrow> platter t = platter s \<Longrightarrow> blk t m = blk s m"
  using blk_cong(1) [of t s m] unfolding same_blocks_def by blast

lemma same_blocks_buf:
  "same_blocks B B' \<Longrightarrow> buf_fine (B' c) = buf_fine (B c)" "same_blocks B B' \<Longrightarrow> buf_clean st (B' c) = buf_clean st (B c)"
  by (simp_all add: same_blocks_def buf_fine_def buf_clean_def)

lemma bufs_ok_same:
  assumes ok: "bufs_ok st L B" and same: "same_blocks B B'" and lru: "\<exists>xs. lru B' xs"
    and idle: "\<And>c. c < NBUF \<Longrightarrow> b_refcnt (B' c) = 0 \<Longrightarrow> buf_clean st (B c) \<and> \<not> sl_locked (L' (BufLock c))"
  shows "bufs_ok st L' B'"
proof -
  have fields: "b_dev (B' c) = b_dev (B c)" "b_blockno (B' c) = b_blockno (B c)" for c using same by (simp_all add: same_blocks_def)
  show ?thesis
    using ok idle lru unfolding bufs_ok_def same_blocks_find [OF same] same_blocks_buf [OF same] fields by blast
qed

lemma brelse_ready:
  assumes rd: "disk_ready p s" and b: "b < NBUF" and last: "b_refcnt (bufs s b) = 1 \<longrightarrow> buf_clean (platter s) (bufs s b)"
  defines "t \<equiv> unlock_buf b ((settle s)\<lparr>bufs := drop_ref b (bufs s)\<rparr>)"
  shows "disk_ready p t" "blk t m = blk s m" "find_buf (bufs t) m = find_buf (bufs s) m"
proof -
  have ok: "bufs_ok (platter s) (sleeplocks s) (bufs s)" using rd by (simp add: disk_ready_def)
  then obtain xs where "lru (bufs s) xs" by (auto simp: bufs_ok_def)
  from drop_ref_lru [OF this b] have lru: "\<exists>xs. lru (drop_ref b (bufs s)) xs" .
  have "bufs_ok (platter s) (sleeplocks t) (drop_ref b (bufs s))"
  proof (rule bufs_ok_same [OF ok drop_ref_blocks(1) lru])
    fix c assume c: "c < NBUF" "b_refcnt (drop_ref b (bufs s) c) = 0"
    show "buf_clean (platter s) (bufs s c) \<and> \<not> sl_locked (sleeplocks t (BufLock c))"
    proof (cases "c = b")
      case True
      then show ?thesis using c last by (simp add: drop_ref_blocks t_def)
    next
      case False
      then show ?thesis using c ok by (simp add: drop_ref_blocks t_def bufs_ok_def)
    qed
  qed
  then show "disk_ready p t" using rd by (simp add: disk_ready_def t_def)
  show "blk t m = blk s m" "find_buf (bufs t) m = find_buf (bufs s) m"
    using same_blocks_blk [of s t m] same_blocks_find drop_ref_blocks(1) by (simp_all add: t_def)
qed

lemma bwrite_eq:
  assumes rd: "disk_ready p s" and h: "holds p s b" and b: "b < NBUF"
  shows "\<exists>d v. vd_idle d \<and> bwrite b s = Done () ((settle s)\<lparr>bufs := (bufs s)(b := (bufs s b)\<lparr>b_disk := False\<rparr>),
    vdisk := d, mmio_wr := v, platter := disk_put (platter s) (unat (b_blockno (bufs s b))) (b_data (bufs s b))\<rparr>)"
proof -
  have al: "alone p s" "good_device (device s)" "vd_idle (vdisk s)" and ok: "bufs_ok (platter s) (sleeplocks s) (bufs s)"
    using rd by (simp_all add: disk_ready_def)
  have "buf_fine (bufs s b)" using ok b by (simp add: bufs_ok_def)
  then have n: "unat (b_blockno (bufs s b)) < 2 ^ 31" by (simp add: buf_fine_def)
  have hs: "holdingsleep (BufLock b) s = Done True (settle s)"
    using holdingsleep_eq [of s "BufLock b" p] al(1) h by (simp add: holds_def alone_def)
  obtain d v where d: "vd_idle d" and r: "virtio_disk_rw b True (settle s) = Done () (settle ((settle s)\<lparr>vdisk := d, mmio_wr := v,
      bufs := (bufs s)(b := (bufs s b)\<lparr>b_disk := False, b_data := b_data (bufs s b)\<rparr>),
      platter := disk_put (platter s) (unat (b_blockno (bufs s b))) (b_data (bufs s b))\<rparr>))"
    using virtio_disk_rw_eq [of p "settle s" b True] al n by auto
  have "settle ((settle s)\<lparr>vdisk := d, mmio_wr := v,
      bufs := (bufs s)(b := (bufs s b)\<lparr>b_disk := False, b_data := b_data (bufs s b)\<rparr>),
      platter := disk_put (platter s) (unat (b_blockno (bufs s b))) (b_data (bufs s b))\<rparr>) =
    (settle s)\<lparr>bufs := (bufs s)(b := (bufs s b)\<lparr>b_disk := False\<rparr>),
    vdisk := d, mmio_wr := v, platter := disk_put (platter s) (unat (b_blockno (bufs s b))) (b_data (bufs s b))\<rparr>"
    by (rule disk_st.equality) simp_all
  with r hs have "bwrite b s = Done () ((settle s)\<lparr>bufs := (bufs s)(b := (bufs s b)\<lparr>b_disk := False\<rparr>),
    vdisk := d, mmio_wr := v, platter := disk_put (platter s) (unat (b_blockno (bufs s b))) (b_data (bufs s b))\<rparr>)"
    by (simp add: bwrite_def)
  with d show ?thesis by blast
qed

text \<open>Writing a buffer out: the disk has its contents, and the view does not change.\<close>

lemma bwrite_ready:
  fixes v :: "(nat \<times> u32) list"
  assumes rd: "disk_ready p s" and b: "b < NBUF" "b_dev (bufs s b) = ROOTDEV" "b_valid (bufs s b)" and d: "vd_idle d"
  defines "n \<equiv> b_blockno (bufs s b)"
  defines "t \<equiv> (settle s)\<lparr>bufs := (bufs s)(b := (bufs s b)\<lparr>b_disk := False\<rparr>),
    vdisk := d, mmio_wr := v, platter := disk_put (platter s) (unat n) (b_data (bufs s b))\<rparr>"
  shows "disk_ready p t" "blk t m = blk s m" "find_buf (bufs t) m = find_buf (bufs s) m"
    "disk_block (platter t) k = (if k = unat n then b_data (bufs s b) else disk_block (platter s) k)"
proof -
  have ok: "bufs_ok (platter s) (sleeplocks s) (bufs s)" using rd by (simp add: disk_ready_def)
  have fine: "buf_fine (bufs s b)" using ok b(1) by (simp add: bufs_ok_def)
  then have len: "length (b_data (bufs s b)) = BSIZE" by (simp add: buf_fine_def)
  have put: "disk_block (platter t) k = (if k = unat n then b_data (bufs s b) else disk_block (platter s) k)" for k
    by (simp add: t_def disk_block_put [OF len])
  then show "disk_block (platter t) k = (if k = unat n then b_data (bufs s b) else disk_block (platter s) k)" .
  have same: "same_blocks (bufs s) (bufs t)" by (simp add: same_blocks_def t_def)
  have other: "n \<noteq> b_blockno (bufs s c)" if "c < NBUF" "c \<noteq> b" "b_dev (bufs s c) = ROOTDEV" for c
    using find_buf_eq [OF ok that(1,3) refl] find_buf_eq [OF ok b(1,2) refl] that(2) by (auto simp: n_def)
  have clean: "buf_clean (platter t) (bufs s c)" if "c < NBUF" "b_refcnt (bufs s c) = 0" for c
  proof (cases "c = b")
    case True
    then show ?thesis by (simp add: buf_clean_def put n_def)
  next
    case False
    have "buf_clean (platter s) (bufs s c)" using ok that by (simp add: bufs_ok_def)
    then show ?thesis using other [OF that(1) False] by (auto simp: buf_clean_def put dest: word_unat_eqI)
  qed
  obtain xs where "lru (bufs s) xs" using ok by (auto simp: bufs_ok_def)
  then have lru: "lru (bufs t) xs" by (auto simp: t_def intro: lru_upd)
  have idle: "\<not> sl_locked (sleeplocks s (BufLock c))" if "c < NBUF" "b_refcnt (bufs s c) = 0" for c
    using ok that by (simp add: bufs_ok_def)
  have ref: "b_refcnt (bufs t c) = b_refcnt (bufs s c)" for c by (simp add: t_def)
  have "bufs_ok (platter t) (sleeplocks s) (bufs t)"
    unfolding bufs_ok_def same_blocks_find [OF same] same_blocks_buf [OF same] ref
    using ok clean idle lru same unfolding bufs_ok_def same_blocks_def by auto
  then show "disk_ready p t" using rd d by (simp add: disk_ready_def t_def)
  show "find_buf (bufs t) m = find_buf (bufs s) m" by (rule same_blocks_find [OF same])
  show "blk t m = blk s m"
  proof (cases "m = n")
    case True
    then show ?thesis using find_buf_eq [OF ok b(1,2) refl] b(3) same
      by (simp add: blk_def same_blocks_find [OF same] n_def same_blocks_def)
  next
    case False
    then have "disk_block (platter t) (unat m) = disk_block (platter s) (unat m)" by (auto simp: put dest: word_unat_eqI)
    then show ?thesis using same by (auto simp: blk_def same_blocks_find [OF same] same_blocks_def split: option.splits)
  qed
qed

section \<open>Changing a buffer that is in use\<close>

lemma upd_ready:
  assumes rd: "disk_ready p s" and b: "b < NBUF" "b_dev (bufs s b) = ROOTDEV"
    and x: "b_dev x = ROOTDEV" "b_blockno x = b_blockno (bufs s b)" "b_valid x = b_valid (bufs s b)" "b_next x = b_next (bufs s b)"
      "b_prev x = b_prev (bufs s b)" "length (b_data x) = BSIZE"
    and r: "b_refcnt x = 0 \<Longrightarrow> buf_clean (platter s) x \<and> \<not> sl_locked (sleeplocks s (BufLock b))"
    and t: "t = (settle s)\<lparr>bufs := (bufs s)(b := x)\<rparr> \<or> t = s\<lparr>bufs := (bufs s)(b := x)\<rparr>"
  shows "disk_ready p t" "find_buf (bufs t) m = find_buf (bufs s) m"
    "blk t m = (if m = b_blockno (bufs s b) \<and> b_valid x then b_data x else blk s m)"
proof -
  have ok: "bufs_ok (platter s) (sleeplocks s) (bufs s)" using rd by (simp add: disk_ready_def)
  have "buf_fine (bufs s b)" using ok b by (simp add: bufs_ok_def)
  then have fine: "buf_fine x" using x by (simp add: buf_fine_def)
  have here: "find_buf (bufs s) (b_blockno (bufs s b)) = Some b" by (rule find_buf_eq [OF ok b refl])
  have ok': "bufs_ok (platter s) (sleeplocks s) ((bufs s)(b := x))"
    using x r here by (intro bufs_ok_upd [OF ok b(1) x(4,5) fine]) simp_all
  have tf: "bufs t = (bufs s)(b := x)" "platter t = platter s" "sleeplocks t = sleeplocks s" "vdisk t = vdisk s"
    "device t = device s" "alone p t = alone p s"
    using t by auto
  show "disk_ready p t" using rd ok' by (simp add: disk_ready_def tf)
  have "b_dev (((bufs s)(b := x)) c) = b_dev (bufs s c)" "b_blockno (((bufs s)(b := x)) c) = b_blockno (bufs s c)" for c
    using x b(2) by simp_all
  then show "find_buf (bufs t) m = find_buf (bufs s) m" by (simp only: find_buf_def tf)
  show "blk t m = (if m = b_blockno (bufs s b) \<and> b_valid x then b_data x else blk s m)"
    using blk_upd [OF ok ok' b(1) tf(1,2), of m] x here find_buf_Some [of "bufs s" m b]
    by (cases "find_buf (bufs s) m = Some b") (auto simp: blk_def)
qed

lemma bpin_eq: "alone p s \<Longrightarrow> bpin b s = Done () ((settle s)\<lparr>bufs := (bufs s)(b := (bufs s b)\<lparr>b_refcnt := b_refcnt (bufs s b) + 1\<rparr>)\<rparr>)"
  by (simp add: bpin_def alone_def acquire_free release_lock_on) (simp add: set_buf_def)

lemma bunpin_eq: "alone p s \<Longrightarrow> bunpin b s = Done () ((settle s)\<lparr>bufs := (bufs s)(b := (bufs s b)\<lparr>b_refcnt := b_refcnt (bufs s b) - 1\<rparr>)\<rparr>)"
  by (simp add: bunpin_def alone_def acquire_free release_lock_on) (simp add: set_buf_def)

text \<open>
  Property C22. The buffer cache as its clients use it: \<^verbatim>\<open>bread\<close> returns a locked buffer with the current
  contents of the block and changes no block; after the client has replaced the data, \<^verbatim>\<open>bwrite\<close> and
  \<^verbatim>\<open>brelse\<close> return, that block has the new contents in the cache and on the disk, every other
  block is as it was, and the cache invariant holds again.
\<close>

theorem bcache_update_cycle:
  assumes rd: "disk_ready p s" and n: "unat n < 2 ^ 31" and get: "can_get s n" and bs: "length bs = BSIZE"
    and small: "\<forall>b < NBUF. b_refcnt (bufs s b) \<noteq> -1"
  shows "\<exists>b t u v. bread ROOTDEV n s = Done b t \<and> b_data (bufs t b) = blk s n \<and> (\<forall>m. blk t m = blk s m) \<and>
    bwrite b (set_buf b (\<lambda>x. x\<lparr>b_data := bs\<rparr>) t) = Done () u \<and> brelse b u = Done () v \<and> disk_ready p v \<and>
    (\<forall>m. blk v m = (if m = n then bs else blk s m)) \<and>
    (\<forall>k. disk_block (platter v) k = (if k = unat n then bs else disk_block (platter s) k))"
proof -
  from bread_spec [OF rd n get] obtain b x d w where
    r: "bread ROOTDEV n s = Done b (got p b ((bufs s)(b := x)) d w s)" and d: "vd_idle d" and f: "fetched s n b x" by blast
  define t where "t = got p b ((bufs s)(b := x)) d w s"
  have b: "b < NBUF" and xf: "b_dev x = ROOTDEV" "b_blockno x = n" "b_valid x" "b_data x = blk s n" using f by (simp_all add: fetched_def)
  have sm: "b_refcnt (bufs s b) \<noteq> -1" using small b by simp
  have rx: "b_refcnt x \<noteq> 0" using f sm by (auto simp: fetched_def eq_neg_iff_add_eq_0)
  have t: "disk_ready p t" "\<And>m. blk t m = blk s m" "holds p t b" "bufs t b = x"
    using got_ready [OF rd n d f sm] by (simp_all add: t_def)
  define t' where "t' = t\<lparr>bufs := (bufs t)(b := x\<lparr>b_data := bs\<rparr>)\<rparr>"
  have t': "disk_ready p t'" "\<And>m. blk t' m = (if m = n then bs else blk s m)"
    using upd_ready [OF t(1) b, of "x\<lparr>b_data := bs\<rparr>" t'] t(2,4) xf rx bs by (auto simp: t'_def)
  have h': "holds p t' b" and bt': "bufs t' b = x\<lparr>b_data := bs\<rparr>" using t(3) by (simp_all add: t'_def holds_def)
  from bwrite_eq [OF t'(1) h' b] obtain d2 v2 where d2: "vd_idle d2" and
    w: "bwrite b t' = Done () ((settle t')\<lparr>bufs := (bufs t')(b := (bufs t' b)\<lparr>b_disk := False\<rparr>), vdisk := d2, mmio_wr := v2,
      platter := disk_put (platter t') (unat (b_blockno (bufs t' b))) (b_data (bufs t' b))\<rparr>)" by blast
  define u where "u = (settle t')\<lparr>bufs := (bufs t')(b := (bufs t' b)\<lparr>b_disk := False\<rparr>), vdisk := d2, mmio_wr := v2,
      platter := disk_put (platter t') (unat (b_blockno (bufs t' b))) (b_data (bufs t' b))\<rparr>"
  have u: "disk_ready p u" "\<And>m. blk u m = (if m = n then bs else blk s m)"
    "\<And>k. disk_block (platter u) k = (if k = unat n then bs else disk_block (platter s) k)"
    using bwrite_ready [OF t'(1) b _ _ d2, of v2] t'(2) xf unfolding u_def bt' by (auto simp: t'_def t_def)
  have hu: "holds p u b" and bu: "bufs u b = x\<lparr>b_data := bs, b_disk := False\<rparr>"
    using h' by (simp_all add: u_def holds_def bt')
  have clean: "buf_clean (platter u) (bufs u b)" using u(3) xf by (simp add: buf_clean_def bu)
  have "brelse b u = Done () (unlock_buf b ((settle u)\<lparr>bufs := drop_ref b (bufs u)\<rparr>))"
    using u(1) hu by (intro brelse_eq) (simp_all add: disk_ready_def)
  moreover note brelse_ready [OF u(1) b]
  moreover have "set_buf b (\<lambda>x. x\<lparr>b_data := bs\<rparr>) t = t'" by (simp add: set_buf_def t'_def t(4))
  ultimately show ?thesis
    using r w u(2,3) clean t(2,4) xf(4) unfolding t_def [symmetric] u_def [symmetric] by auto
qed

lemma binit_loop_blocks:
  "same_blocks (bufs s) (bufs (binit_loop bs s)) \<and> (\<forall>c. b_refcnt (bufs (binit_loop bs s) c) = b_refcnt (bufs s c))"
proof (induction bs arbitrary: s)
  case (Cons b bs)
  let ?s = "(initsleeplock (BufLock b) ''buffer'' s)\<lparr>bufs := lru_front b (bufs (initsleeplock (BufLock b) ''buffer'' s))\<rparr>"
  have "bufs (initsleeplock (BufLock b) ''buffer'' s) = bufs s" by (simp add: initsleeplock_def set_sl_def initlock_def)
  then have e: "same_blocks (bufs s) (bufs ?s)" "b_refcnt (bufs ?s c) = b_refcnt (bufs s c)" for c
    by (simp_all add: lru_front_def Let_def same_blocks_def)
  from Cons.IH [of ?s] e show ?case by (simp add: Let_def same_blocks_def)
qed (simp add: same_blocks_def)

lemma binit_blocks: "same_blocks (bufs s) (bufs (binit s))" "b_refcnt (bufs (binit s) c) = b_refcnt (bufs s c)"
  unfolding binit_def Let_def
  using binit_loop_blocks [of "(initlock BcacheLock ''bcache'' s)
      \<lparr>bufs := set_next bhead bhead (set_prev bhead bhead (bufs (initlock BcacheLock ''bcache'' s)))\<rparr>" "[0..<NBUF]"]
  by (simp_all add: same_blocks_def initlock_def)

text \<open>A cache whose buffers have never been used.\<close>

definition demo_cache :: disk_st where
  "demo_cache = demo_disk\<lparr>bufs := bufs (binit (demo_disk\<lparr>bufs := (\<lambda>_. demo_buf\<lparr>b_dev := 0\<rparr>)\<rparr>))\<rparr>"

lemma demo_cache_buf: "same_blocks (\<lambda>_. demo_buf\<lparr>b_dev := 0\<rparr>) (bufs demo_cache)" "b_refcnt (bufs demo_cache c) = 0"
  using binit_blocks [of "demo_disk\<lparr>bufs := (\<lambda>_. demo_buf\<lparr>b_dev := 0\<rparr>)\<rparr>"]
  by (simp_all add: demo_cache_def demo_buf_def)

lemma demo_cache_ready: "disk_ready 0 demo_cache"
proof -
  have f: "b_dev (bufs demo_cache c) = 0" "length (b_data (bufs demo_cache c)) = BSIZE" "b_blockno (bufs demo_cache c) = 5" for c
    using demo_cache_buf(1) by (simp_all add: same_blocks_def demo_buf_def)
  have "sleeplocks demo_cache k = \<lparr>sl_locked = False, sl_name = [], sl_pid = 0\<rparr>" for k
    by (simp add: demo_cache_def demo_disk_def tty_st.defs demo_tty_def proc_st.defs demo_procs_def demo_sleep_def con_st.defs)
  moreover have "lru (bufs demo_cache) (rev [0..<NBUF])"
    using binit_links_all [of "demo_disk\<lparr>bufs := (\<lambda>_. demo_buf\<lparr>b_dev := 0\<rparr>)\<rparr>"] by (simp add: demo_cache_def)
  ultimately have "bufs_ok (platter demo_cache) (sleeplocks demo_cache) (bufs demo_cache)"
    unfolding bufs_ok_def using f by (auto simp: buf_fine_def buf_clean_def ROOTDEV_def)
  moreover have "vdisk demo_cache = vdisk demo_disk" "device demo_cache = device demo_disk" by (simp_all add: demo_cache_def)
  moreover have "alone 0 demo_cache" unfolding demo_cache_def by simp
  ultimately show ?thesis by (simp add: disk_ready_def)
qed

theorem bcache_update_cycle_witness:
  "\<exists>b t u v. bread ROOTDEV 9 demo_cache = Done b t \<and> bwrite b (set_buf b (\<lambda>x. x\<lparr>b_data := replicate BSIZE 3\<rparr>) t) = Done () u \<and>
     brelse b u = Done () v \<and> disk_block (platter v) 9 = replicate BSIZE 3 \<and> disk_block (platter v) 8 = disk_block (\<lambda>_. 0) 8"
proof -
  have "b_dev (bufs demo_cache c) \<noteq> ROOTDEV" for c
    using demo_cache_buf(1) by (simp add: same_blocks_def demo_buf_def ROOTDEV_def)
  then have "find_buf (bufs demo_cache) 9 = None" by (simp add: find_buf_None)
  moreover have "\<exists>b < NBUF. b_refcnt (bufs demo_cache b) = 0"
    using demo_cache_buf(2) by (intro exI [of _ 0]) (simp add: NBUF_def MAXOPBLOCKS_def)
  ultimately have "can_get demo_cache 9" by (simp add: can_get_def)
  moreover have "\<forall>b < NBUF. b_refcnt (bufs demo_cache b) \<noteq> -1" by (simp add: demo_cache_buf)
  moreover have "platter demo_cache = (\<lambda>_. 0)" by (simp add: demo_cache_def)
  ultimately show ?thesis
    using bcache_update_cycle [OF demo_cache_ready, of 9 "replicate BSIZE 3"] by fastforce
qed

end
