(* ===== verification/Cache.thy ===== *)
theory Cache
  imports Bio
begin

text \<open>
  The interface of the buffer cache for the layers above it. A state of the cache is described by four
  functions on block numbers: the contents \<open>V\<close> that users of the cache see, the contents \<open>D\<close> of the
  disk, the number \<open>R\<close> of references to a block, and the set \<open>H\<close> of blocks whose buffer is locked. Each
  operation of \<^verbatim>\<open>kernel/bio.c\<close> is specified by what it does to these.
\<close>

section \<open>Abstract state\<close>

definition refs :: "(nat \<Rightarrow> buf) \<Rightarrow> u32 \<Rightarrow> nat" where
  "refs B n = (case find_buf B n of Some b \<Rightarrow> unat (b_refcnt (B b)) | None \<Rightarrow> 0)"

text \<open>Buffer \<open>b\<close> holds block \<open>n\<close>.\<close>

definition at :: "'a disk_st_scheme \<Rightarrow> nat \<Rightarrow> u32 \<Rightarrow> bool" where
  "at s b n \<longleftrightarrow> find_buf (bufs s) n = Some b \<and> b_valid (bufs s b)"

definition cache :: "nat \<Rightarrow> (u32 \<Rightarrow> u8 list) \<Rightarrow> (u32 \<Rightarrow> u8 list) \<Rightarrow> (u32 \<Rightarrow> nat) \<Rightarrow> u32 set \<Rightarrow> 'a disk_st_scheme \<Rightarrow> bool" where
  "cache p V D R H s \<longleftrightarrow> disk_ready p s \<and> (\<forall>n. blk s n = V n) \<and> (\<forall>n. disk_block (platter s) (unat n) = D n) \<and>
     (\<forall>n. refs (bufs s) n = R n) \<and> (\<forall>n. R n < 1000) \<and>
     (\<forall>b < NBUF. b_refcnt (bufs s b) \<noteq> 0 \<longrightarrow> b_dev (bufs s b) = ROOTDEV) \<and>
     (\<forall>n b. find_buf (bufs s) n = Some b \<longrightarrow> (if n \<in> H then holds p s b else \<not> sl_locked (sleeplocks s (BufLock b)))) \<and>
     (\<forall>n \<in> H. \<exists>b. find_buf (bufs s) n = Some b)"

text \<open>Nothing but the cache, the buffers' locks and the driver changes.\<close>

definition disk_only :: "'a disk_st_scheme \<Rightarrow> 'a disk_st_scheme \<Rightarrow> bool" where
  "disk_only s t \<longleftrightarrow> (\<exists>B L d v P. (t = (settle s)\<lparr>bufs := B, sleeplocks := L, vdisk := d, mmio_wr := v, platter := P\<rparr> \<or>
       t = s\<lparr>bufs := B, sleeplocks := L, vdisk := d, mmio_wr := v, platter := P\<rparr>) \<and>
     (\<forall>k. (\<forall>b. k \<noteq> BufLock b) \<longrightarrow> L k = sleeplocks s k))"

lemma disk_onlyI:
  "(\<And>k. (\<forall>b. k \<noteq> BufLock b) \<Longrightarrow> L k = sleeplocks s k) \<Longrightarrow>
   disk_only s ((settle s)\<lparr>bufs := B, sleeplocks := L, vdisk := d, mmio_wr := v, platter := P\<rparr>)"
  unfolding disk_only_def by blast

lemma disk_only_refl: "disk_only s s"
proof -
  have "s = s\<lparr>bufs := bufs s, sleeplocks := sleeplocks s, vdisk := vdisk s, mmio_wr := mmio_wr s, platter := platter s\<rparr>" by simp
  then show ?thesis unfolding disk_only_def by blast
qed

lemma disk_upd_absorb:
  "s\<lparr>bufs := B, sleeplocks := L, vdisk := d, mmio_wr := v, platter := P\<rparr>
     \<lparr>bufs := B', sleeplocks := L', vdisk := d', mmio_wr := v', platter := P'\<rparr> =
   s\<lparr>bufs := B', sleeplocks := L', vdisk := d', mmio_wr := v', platter := P'\<rparr>"
  by simp

lemma disk_only_trans:
  assumes "disk_only s t" "disk_only t u"
  shows "disk_only s u"
proof -
  obtain B L d v P where 1: "t = (settle s)\<lparr>bufs := B, sleeplocks := L, vdisk := d, mmio_wr := v, platter := P\<rparr> \<or>
      t = s\<lparr>bufs := B, sleeplocks := L, vdisk := d, mmio_wr := v, platter := P\<rparr>"
    "\<forall>k. (\<forall>b. k \<noteq> BufLock b) \<longrightarrow> L k = sleeplocks s k"
    using assms(1) unfolding disk_only_def by blast
  obtain B' L' d' v' P' where 2: "u = (settle t)\<lparr>bufs := B', sleeplocks := L', vdisk := d', mmio_wr := v', platter := P'\<rparr> \<or>
      u = t\<lparr>bufs := B', sleeplocks := L', vdisk := d', mmio_wr := v', platter := P'\<rparr>"
    "\<forall>k. (\<forall>b. k \<noteq> BufLock b) \<longrightarrow> L' k = sleeplocks t k"
    using assms(2) unfolding disk_only_def by blast
  have "u = (settle s)\<lparr>bufs := B', sleeplocks := L', vdisk := d', mmio_wr := v', platter := P'\<rparr> \<or>
      u = s\<lparr>bufs := B', sleeplocks := L', vdisk := d', mmio_wr := v', platter := P'\<rparr>"
    using 1(1) 2(1) by auto
  moreover have "\<forall>k. (\<forall>b. k \<noteq> BufLock b) \<longrightarrow> L' k = sleeplocks s k" using 1 2(2) by auto
  ultimately show ?thesis unfolding disk_only_def by blast
qed

lemma disk_only_fields:
  assumes "disk_only s t"
  shows "procs t = procs s" "mem t = mem s" "freelist t = freelist s" "kend t = kend s" "locks t = locks s"
    "sleeplocks t (InodeLock i) = sleeplocks s (InodeLock i)" "device t = device s" "tp t = tp s"
    "c_proc (mycpu t) = c_proc (mycpu s)"
proof -
  obtain B L d v P where t: "t = (settle s)\<lparr>bufs := B, sleeplocks := L, vdisk := d, mmio_wr := v, platter := P\<rparr> \<or>
      t = s\<lparr>bufs := B, sleeplocks := L, vdisk := d, mmio_wr := v, platter := P\<rparr>"
    and L: "\<And>k. (\<forall>b. k \<noteq> BufLock b) \<longrightarrow> L k = sleeplocks s k"
    using assms unfolding disk_only_def by blast
  have "L (InodeLock i) = sleeplocks s (InodeLock i)" using L [of "InodeLock i"] by simp
  then show "sleeplocks t (InodeLock i) = sleeplocks s (InodeLock i)" using t by (elim disjE) simp_all
  show "procs t = procs s" "mem t = mem s" "freelist t = freelist s" "kend t = kend s" "locks t = locks s" "device t = device s"
    "tp t = tp s" "c_proc (mycpu t) = c_proc (mycpu s)"
    using t by (elim disjE; simp)+
qed

section \<open>Facts about a cache state\<close>

lemma cache_at: "cache p V D R H s \<Longrightarrow> at s b n \<Longrightarrow> b_data (bufs s b) = V n"
proof -
  assume c: "cache p V D R H s" and a: "at s b n"
  have "blk s n = V n" using c by (simp add: cache_def)
  with a show ?thesis by (simp add: at_def blk_def)
qed

lemma cache_clean: "cache p V D R H s \<Longrightarrow> R n = 0 \<Longrightarrow> V n = D n"
proof -
  assume c: "cache p V D R H s" and r: "R n = 0"
  have ok: "bufs_ok (platter s) (sleeplocks s) (bufs s)" and v: "blk s n = V n" "disk_block (platter s) (unat n) = D n"
    "refs (bufs s) n = 0" using c r by (simp_all add: cache_def disk_ready_def)
  show "V n = D n"
  proof (cases "find_buf (bufs s) n")
    case None
    then show ?thesis using v by (simp add: blk_def)
  next
    case (Some b)
    then have "b_refcnt (bufs s b) = 0" using v(3) by (simp add: refs_def unat_eq_0)
    then have "buf_clean (platter s) (bufs s b)" using ok find_buf_Some [OF Some] by (simp add: bufs_ok_def)
    with find_buf_Some [OF Some] have "b_valid (bufs s b) \<Longrightarrow> b_data (bufs s b) = D n" using v(2) by (simp add: buf_clean_def)
    moreover have "V n = (if b_valid (bufs s b) then b_data (bufs s b) else D n)" unfolding v(1) [symmetric] using v(2) Some by (simp add: blk_def)
    ultimately show ?thesis by (cases "b_valid (bufs s b)") simp_all
  qed
qed

lemma cache_length: "cache p V D R H s \<Longrightarrow> length (V n) = BSIZE"
proof -
  assume c: "cache p V D R H s"
  then have ok: "bufs_ok (platter s) (sleeplocks s) (bufs s)" and "blk s n = V n" by (simp_all add: cache_def disk_ready_def)
  moreover have "length (blk s n) = BSIZE"
    using ok find_buf_Some [of "bufs s" n] by (auto simp: blk_def bufs_ok_def buf_fine_def split: option.splits)
  ultimately show ?thesis by simp
qed

text \<open>When fewer than \<open>NBUF\<close> blocks are referred to, some buffer is unused.\<close>

lemma unused_buffer:
  assumes c: "cache p V D R H s" and few: "finite {n. R n \<noteq> 0}" "card {n. R n \<noteq> 0} < NBUF"
  shows "\<exists>b < NBUF. b_refcnt (bufs s b) = 0"
proof (rule ccontr)
  assume "\<not> ?thesis"
  then have all: "b_refcnt (bufs s b) \<noteq> 0" "b_dev (bufs s b) = ROOTDEV" if "b < NBUF" for b
    using that c by (auto simp: cache_def)
  have ok: "bufs_ok (platter s) (sleeplocks s) (bufs s)" using c by (simp add: cache_def disk_ready_def)
  let ?f = "\<lambda>b. b_blockno (bufs s b)"
  have here: "find_buf (bufs s) (?f b) = Some b" if "b < NBUF" for b using find_buf_eq [OF ok that all(2) [OF that] refl] .
  have "inj_on ?f {..<NBUF}"
  proof (rule inj_onI)
    fix x y assume xy: "x \<in> {..<NBUF}" "y \<in> {..<NBUF}" and eq: "?f x = ?f y"
    have "find_buf (bufs s) (?f x) = Some x" "find_buf (bufs s) (?f y) = Some y" using here xy by simp_all
    then show "x = y" unfolding eq by simp
  qed
  moreover have "?f ` {..<NBUF} \<subseteq> {n. R n \<noteq> 0}"
  proof (rule image_subsetI)
    fix b assume "b \<in> {..<NBUF}"
    then have b: "b < NBUF" by simp
    have "refs (bufs s) (?f b) = unat (b_refcnt (bufs s b))" using here [OF b] by (simp add: refs_def)
    moreover have "refs (bufs s) (?f b) = R (?f b)" using c by (simp add: cache_def)
    ultimately have "R (?f b) \<noteq> 0" using all(1) [OF b] by (simp add: unat_eq_0)
    then show "?f b \<in> {n. R n \<noteq> 0}" by simp
  qed
  ultimately have "NBUF \<le> card {n. R n \<noteq> 0}" using few(1) by (metis card_image card_lessThan card_mono)
  with few(2) show False by simp
qed

section \<open>The operations\<close>

lemma refs_upd:
  assumes "bufs_ok st L B" "bufs_ok st' L' (B(b := x))" "b < NBUF" "b_dev x = ROOTDEV"
  shows "refs (B(b := x)) m = (if m = b_blockno x then unat (b_refcnt x) else if find_buf B m = Some b then 0 else refs B m)"
proof (cases "m = b_blockno x")
  case True
  then show ?thesis using find_buf_upd [OF assms(2,3), of m] assms(4) by (simp add: refs_def)
next
  case False
  show ?thesis
  proof (cases "find_buf B m = Some b")
    case True
    from find_buf_lost [OF assms(1) this] False True show ?thesis by (simp add: refs_def)
  next
    case nb: False
    then have "find_buf (B(b := x)) m = find_buf B m" using find_buf_upd [OF assms(2,3), of m] False by auto
    then show ?thesis using nb False by (auto simp: refs_def split: option.splits)
  qed
qed

lemma refs_same:
  "same_blocks B B' \<Longrightarrow> (\<And>c. c < NBUF \<Longrightarrow> c \<noteq> b \<Longrightarrow> b_refcnt (B' c) = b_refcnt (B c)) \<Longrightarrow> find_buf B n = Some b \<Longrightarrow> bufs_ok st L B \<Longrightarrow>
   refs B' m = (if m = n then unat (b_refcnt (B' b)) else refs B m)"
proof -
  assume same: "same_blocks B B'" and r: "\<And>c. c < NBUF \<Longrightarrow> c \<noteq> b \<Longrightarrow> b_refcnt (B' c) = b_refcnt (B c)"
    and n: "find_buf B n = Some b" and ok: "bufs_ok st L B"
  show ?thesis
  proof (cases "find_buf B m")
    case None
    then show ?thesis using n by (auto simp: refs_def same_blocks_find [OF same])
  next
    case (Some c)
    note c = find_buf_Some [OF Some] and b = find_buf_Some [OF n]
    show ?thesis
    proof (cases "c = b")
      case True
      then have "m = n" using c b by blast
      then show ?thesis using n by (simp add: refs_def same_blocks_find [OF same])
    next
      case False
      then have "m \<noteq> n" using Some n by auto
      then show ?thesis using Some r [OF conjunct1 [OF c] False] by (simp add: refs_def same_blocks_find [OF same])
    qed
  qed
qed

lemma cacheD:
  assumes "cache p V D R H s"
  shows "disk_ready p s" "bufs_ok (platter s) (sleeplocks s) (bufs s)" "blk s n = V n" "disk_block (platter s) (unat n) = D n"
    "refs (bufs s) n = R n" "R n < 1000"
    "b < NBUF \<Longrightarrow> b_refcnt (bufs s b) \<noteq> 0 \<Longrightarrow> b_dev (bufs s b) = ROOTDEV"
    "find_buf (bufs s) n = Some b \<Longrightarrow> n \<in> H \<Longrightarrow> holds p s b"
    "find_buf (bufs s) n = Some b \<Longrightarrow> n \<notin> H \<Longrightarrow> \<not> sl_locked (sleeplocks s (BufLock b))"
    "n \<in> H \<Longrightarrow> \<exists>b. find_buf (bufs s) n = Some b"
proof -
  show "disk_ready p s" "bufs_ok (platter s) (sleeplocks s) (bufs s)" "blk s n = V n" "disk_block (platter s) (unat n) = D n"
    "refs (bufs s) n = R n" "R n < 1000" using assms by (simp_all add: cache_def disk_ready_def)
  show "b < NBUF \<Longrightarrow> b_refcnt (bufs s b) \<noteq> 0 \<Longrightarrow> b_dev (bufs s b) = ROOTDEV" "n \<in> H \<Longrightarrow> \<exists>b. find_buf (bufs s) n = Some b"
    using assms unfolding cache_def by blast+
  show "find_buf (bufs s) n = Some b \<Longrightarrow> n \<in> H \<Longrightarrow> holds p s b"
    "find_buf (bufs s) n = Some b \<Longrightarrow> n \<notin> H \<Longrightarrow> \<not> sl_locked (sleeplocks s (BufLock b))"
    using assms unfolding cache_def by metis+
qed

lemma cache_locked:
  assumes "cache p V D R H s" "n \<in> H"
  shows "R n > 0"
proof -
  obtain b where b: "find_buf (bufs s) n = Some b" using cacheD(10) [OF assms] by blast
  have "sl_locked (sleeplocks s (BufLock b))" using cacheD(8) [OF assms(1) b assms(2)] by (simp add: holds_def)
  then have "b_refcnt (bufs s b) \<noteq> 0" using cacheD(2) [OF assms(1)] find_buf_Some [OF b] by (auto simp: bufs_ok_def)
  then have "refs (bufs s) n \<noteq> 0" using b by (simp add: refs_def unat_eq_0)
  then show ?thesis using cacheD(5) [OF assms(1)] by simp
qed

text \<open>\<^verbatim>\<open>bread\<close> gets a block that is referred to, or any block while a buffer is unused.\<close>

definition room :: "(u32 \<Rightarrow> nat) \<Rightarrow> u32 \<Rightarrow> bool" where
  "room R n \<longleftrightarrow> R n \<noteq> 0 \<or> finite {m. R m \<noteq> 0} \<and> card {m. R m \<noteq> 0} < NBUF"

lemma room_get:
  assumes c: "cache p V D R H s" and "n \<notin> H" "room R n"
  shows "can_get s n"
proof (cases "find_buf (bufs s) n")
  case None
  then have "R n = 0" using cacheD(5) [OF c, of n] by (simp add: refs_def)
  then show ?thesis using assms(3) unused_buffer [OF c] None by (simp add: room_def can_get_def)
next
  case (Some b)
  then show ?thesis using cacheD(9) [OF c Some assms(2)] by (simp add: can_get_def)
qed

definition kept :: "'a disk_st_scheme \<Rightarrow> 'a disk_st_scheme \<Rightarrow> bool" where
  "kept s t \<longleftrightarrow> disk_only s t \<and> (\<forall>b m. at s b m \<and> refs (bufs s) m \<noteq> 0 \<longrightarrow> at t b m)"

lemma kept_at: "kept s t \<Longrightarrow> cache p V D R H s \<Longrightarrow> at s b m \<Longrightarrow> R m \<noteq> 0 \<Longrightarrow> at t b m"
  unfolding kept_def using cacheD(5) by metis

lemma fetched_refs:
  assumes c: "cache p V D R H s" and n: "unat n < 2 ^ 31" and d: "vd_idle d" and f: "fetched s n b x"
  shows "b_refcnt (bufs s b) \<noteq> -1" "unat (b_refcnt x) = Suc (R n)"
    "R m \<noteq> 0 \<Longrightarrow> m \<noteq> n \<Longrightarrow> find_buf (bufs s) m \<noteq> Some b" "m \<in> H \<Longrightarrow> m \<noteq> n \<Longrightarrow> find_buf (bufs s) m \<noteq> Some b"
proof -
  have r: "unat (b_refcnt (bufs s b)) = R n"
    using f cacheD(5) [OF c, of n] by (auto simp: fetched_def refs_def)
  then have lt: "unat (b_refcnt (bufs s b)) < 1000" using cacheD(6) [OF c, of n] by simp
  moreover have "unat (- 1 :: u32) = 2 ^ 32 - 1" by (simp add: unsigned_minus_1_eq_mask mask_eq_exp_minus_1)
  ultimately show "b_refcnt (bufs s b) \<noteq> -1" by auto
  have "unat (b_refcnt (bufs s b) + 1) = Suc (R n)" using lt r unat_add_small [of "b_refcnt (bufs s b)" 1] by simp
  then show "unat (b_refcnt x) = Suc (R n)" using f by (simp add: fetched_def)
  show other: "find_buf (bufs s) m \<noteq> Some b" if "R m \<noteq> 0" "m \<noteq> n" for m
  proof
    assume m: "find_buf (bufs s) m = Some b"
    then have "refs (bufs s) m = unat (b_refcnt (bufs s b))" by (simp add: refs_def)
    then have "b_refcnt (bufs s b) \<noteq> 0" using cacheD(5) [OF c, of m] that(1) by (auto simp: unat_eq_0)
    then have "find_buf (bufs s) n = Some b" using f by (auto simp: fetched_def)
    with find_buf_Some [OF m] find_buf_Some that(2) show False by blast
  qed
  show "find_buf (bufs s) m \<noteq> Some b" if "m \<in> H" "m \<noteq> n"
    using other that cache_locked [OF c] by simp
qed

lemma bread_cache:
  assumes c: "cache p V D R H s" and n: "n \<notin> H" "room R n" "unat n < 2 ^ 31" "R n < 999"
  shows "\<exists>b t. bread ROOTDEV n s = Done b t \<and> cache p V D (R(n := Suc (R n))) (insert n H) t \<and> at t b n \<and> kept s t"
proof -
  note rd = cacheD(1) [OF c] and ok = cacheD(2) [OF c]
  obtain b x d v where br: "bread ROOTDEV n s = Done b (got p b ((bufs s)(b := x)) d v s)" and d: "vd_idle d" and f: "fetched s n b x"
    using bread_spec [OF rd n(3) room_get [OF c n(1,2)]] by blast
  let ?t = "got p b ((bufs s)(b := x)) d v s"
  note fr = fetched_refs [OF c n(3) d f]
  note rdy = got_ready [OF rd n(3) d f fr(1), where v = v]
  have b: "b < NBUF" and x: "b_dev x = ROOTDEV" "b_blockno x = n" "b_valid x" using f by (simp_all add: fetched_def)
  have ok': "bufs_ok (platter s) (sleeplocks ?t) ((bufs s)(b := x))" using rdy(1) by (simp add: disk_ready_def)
  have find: "find_buf ((bufs s)(b := x)) m = (if m = n then Some b else if find_buf (bufs s) m = Some b then None else find_buf (bufs s) m)" for m
    using find_buf_upd [OF ok' b, of m] find_buf_lost [OF ok, of m b x] x by auto
  have refs: "refs (bufs ?t) m = (R(n := Suc (R n))) m" for m
  proof (cases "find_buf (bufs s) m = Some b \<and> m \<noteq> n")
    case True
    then have "R m = 0" using fr(3) by blast
    then show ?thesis using refs_upd [OF ok ok' b x(1), of m] True x(2) by simp
  next
    case False
    then show ?thesis using refs_upd [OF ok ok' b x(1), of m] x(2) fr(2) cacheD(5) [OF c, of m] by auto
  qed
  have lock: "if m \<in> insert n H then holds p ?t e else \<not> sl_locked (sleeplocks ?t (BufLock e))"
    if m: "find_buf (bufs ?t) m = Some e" for m e
  proof (cases "m = n")
    case True
    then show ?thesis using m rdy(3) by (simp add: find)
  next
    case False
    then have e: "find_buf (bufs s) m = Some e" "e \<noteq> b" using m by (auto simp: find split: if_splits)
    then show ?thesis using cacheD(8,9) [OF c e(1)] False by (auto simp: holds_def)
  qed
  have "cache p V D (R(n := Suc (R n))) (insert n H) ?t"
    unfolding cache_def
  proof (intro conjI allI ballI impI)
    fix m show "blk ?t m = V m" using rdy(2) cacheD(3) [OF c] by simp
  next
    fix m show "disk_block (platter ?t) (unat m) = D m" using cacheD(4) [OF c] by simp
  next
    fix m show "(R(n := Suc (R n))) m < 1000" using cacheD(6) [OF c, of m] n(4) by simp
  next
    fix e assume "e < NBUF" "b_refcnt (bufs ?t e) \<noteq> 0"
    then show "b_dev (bufs ?t e) = ROOTDEV" using cacheD(7) [OF c, of e] x by (cases "e = b") simp_all
  next
    fix m assume "m \<in> insert n H"
    then show "\<exists>e. find_buf (bufs ?t) m = Some e" using cacheD(10) [OF c, of m] fr(4) [of m] by (auto simp: find)
  qed (use rdy(1) refs lock in \<open>simp_all only:\<close>)
  moreover have "at ?t b n" using x by (simp add: at_def find)
  moreover have "disk_only s ?t"
  proof -
    have "?t = (settle s)\<lparr>bufs := (bufs s)(b := x), sleeplocks := sleeplocks ?t, vdisk := d, mmio_wr := v, platter := platter s\<rparr>"
      by (rule disk_st.equality) (simp_all add: got_def lock_buf_def set_sl_def)
    moreover have "\<forall>k. (\<forall>b. k \<noteq> BufLock b) \<longrightarrow> sleeplocks ?t k = sleeplocks s k" by simp
    ultimately show ?thesis unfolding disk_only_def by blast
  qed
  moreover have "at ?t e m" if "at s e m" "refs (bufs s) m \<noteq> 0" for e m
  proof (cases "m = n")
    case True
    then show ?thesis using that f x by (auto simp: at_def find fetched_def)
  next
    case False
    then have "find_buf (bufs s) m \<noteq> Some b" using fr(3) that(2) cacheD(5) [OF c, of m] by simp
    then show ?thesis using that False by (auto simp: at_def find)
  qed
  ultimately show ?thesis using br unfolding kept_def by blast
qed


text \<open>The other operations leave every block in its buffer.\<close>

lemma cache_step:
  assumes c: "cache p V D R H s" and rd: "disk_ready p t" and fb: "\<And>m. find_buf (bufs t) m = find_buf (bufs s) m"
    and V: "\<And>m. blk t m = V' m" and D: "\<And>m. disk_block (platter t) (unat m) = D' m"
    and R: "\<And>m. refs (bufs t) m = R' m" "\<And>m. R' m < 1000"
    and dev: "\<And>e. b_dev (bufs t e) = b_dev (bufs s e)" "\<And>e. b_refcnt (bufs t e) = 0 \<or> b_refcnt (bufs s e) \<noteq> 0"
    and H: "H' \<subseteq> H" "\<And>m e. find_buf (bufs s) m = Some e \<Longrightarrow> m \<in> H' \<Longrightarrow> holds p t e"
      "\<And>m e. find_buf (bufs s) m = Some e \<Longrightarrow> m \<notin> H' \<Longrightarrow> \<not> sl_locked (sleeplocks t (BufLock e))"
  shows "cache p V' D' R' H' t"
  unfolding cache_def
proof (intro conjI allI ballI impI)
  fix e assume "e < NBUF" "b_refcnt (bufs t e) \<noteq> 0"
  then show "b_dev (bufs t e) = ROOTDEV" using cacheD(7) [OF c, of e] dev [of e] by metis
next
  fix m e assume "find_buf (bufs t) m = Some e"
  then show "if m \<in> H' then holds p t e else \<not> sl_locked (sleeplocks t (BufLock e))" using H(2,3) [of m e] fb by simp
next
  fix m assume "m \<in> H'"
  then show "\<exists>e. find_buf (bufs t) m = Some e" using cacheD(10) [OF c, of m] H(1) fb by auto
qed (use rd V D R in \<open>simp_all only:\<close>)

lemma at_buf:
  assumes "cache p V D R H s" "at s b n"
  shows "b < NBUF" "b_dev (bufs s b) = ROOTDEV" "b_blockno (bufs s b) = n" "b_valid (bufs s b)" "find_buf (bufs s) n = Some b"
    "b_data (bufs s b) = V n" "unat (b_refcnt (bufs s b)) = R n" "n \<in> H \<Longrightarrow> holds p s b" "length (V n) = BSIZE"
    "b_refcnt (bufs s b) = 0 \<longleftrightarrow> R n = 0"
proof -
  show f: "find_buf (bufs s) n = Some b" and "b_valid (bufs s b)" using assms(2) by (simp_all add: at_def)
  show "b < NBUF" "b_dev (bufs s b) = ROOTDEV" "b_blockno (bufs s b) = n" using find_buf_Some [OF f] by simp_all
  show "b_data (bufs s b) = V n" by (rule cache_at [OF assms])
  show r: "unat (b_refcnt (bufs s b)) = R n" using cacheD(5) [OF assms(1), of n] f by (simp add: refs_def)
  then show "b_refcnt (bufs s b) = 0 \<longleftrightarrow> R n = 0" by (metis unat_eq_0)
  show "n \<in> H \<Longrightarrow> holds p s b" using cacheD(8) [OF assms(1) f] .
  show "length (V n) = BSIZE" using cache_length [OF assms(1)] .
qed

lemma kept_same:
  "disk_only s t \<Longrightarrow> same_blocks (bufs s) (bufs t) \<Longrightarrow> kept s t"
  by (auto simp: kept_def at_def same_blocks_find) (simp add: same_blocks_def)

text \<open>Changing the data of a locked buffer.\<close>

lemma set_data_cache:
  assumes c: "cache p V D R H s" and a: "at s b n" "n \<in> H" and len: "length bs = BSIZE"
  defines "t \<equiv> set_buf b (\<lambda>x. x\<lparr>b_data := bs\<rparr>) s"
  shows "cache p (V(n := bs)) D R H t" "at t b n" "kept s t"
proof -
  note b = at_buf [OF c a(1)]
  have R: "b_refcnt (bufs s b) \<noteq> 0" using cache_locked [OF c a(2)] b(10) by simp
  have t: "t = s\<lparr>bufs := (bufs s)(b := (bufs s b)\<lparr>b_data := bs\<rparr>)\<rparr>" by (simp add: t_def set_buf_def)
  have u: "disk_ready p t" "find_buf (bufs t) m = find_buf (bufs s) m" "blk t m = (if m = n then bs else blk s m)" for m
    using upd_ready [OF cacheD(1) [OF c] b(1,2), where x = "(bufs s b)\<lparr>b_data := bs\<rparr>" and t = t] b(2,3,4) R len t by simp_all
  show "cache p (V(n := bs)) D R H t"
  proof (rule cache_step [OF c u(1,2)])
    fix m show "blk t m = (V(n := bs)) m" using u(3) cacheD(3) [OF c] by simp
    show "disk_block (platter t) (unat m) = D m" "R m < 1000" using cacheD(4,6) [OF c] by (simp_all add: t)
    show "refs (bufs t) m = R m" unfolding refs_def u(2) cacheD(5) [OF c, symmetric] by (simp add: t split: option.split)
    fix e show "find_buf (bufs s) m = Some e \<Longrightarrow> m \<in> H \<Longrightarrow> holds p t e"
      using cacheD(8) [OF c] by (simp add: holds_def t)
    show "find_buf (bufs s) m = Some e \<Longrightarrow> m \<notin> H \<Longrightarrow> \<not> sl_locked (sleeplocks t (BufLock e))"
      using cacheD(9) [OF c] by (simp add: t)
  qed (auto simp: t)
  have at: "at s e m \<Longrightarrow> at t e m" for e m unfolding at_def u(2) by (auto simp: t)
  then show "at t b n" using a(1) .
  have "t = s\<lparr>bufs := bufs t, sleeplocks := sleeplocks s, vdisk := vdisk s, mmio_wr := mmio_wr s, platter := platter s\<rparr>" by (simp add: t)
  then have "disk_only s t" unfolding disk_only_def by blast
  with at show "kept s t" by (simp add: kept_def)
qed

lemma bwrite_cache:
  assumes c: "cache p V D R H s" and a: "at s b n" "n \<in> H"
  shows "\<exists>t. bwrite b s = Done () t \<and> cache p V (D(n := V n)) R H t \<and> at t b n \<and> kept s t"
proof -
  note b = at_buf [OF c a(1)] and rd = cacheD(1) [OF c]
  obtain d v where d: "vd_idle d" and w: "bwrite b s = Done () ((settle s)\<lparr>bufs := (bufs s)(b := (bufs s b)\<lparr>b_disk := False\<rparr>),
      vdisk := d, mmio_wr := v, platter := disk_put (platter s) (unat (b_blockno (bufs s b))) (b_data (bufs s b))\<rparr>)"
    using bwrite_eq [OF rd b(8) [OF a(2)] b(1)] by blast
  define t where "t = (settle s)\<lparr>bufs := (bufs s)(b := (bufs s b)\<lparr>b_disk := False\<rparr>),
      vdisk := d, mmio_wr := v, platter := disk_put (platter s) (unat (b_blockno (bufs s b))) (b_data (bufs s b))\<rparr>"
  note rdy = bwrite_ready [OF rd b(1,2,4) d, where v = v, folded t_def]
  have same: "same_blocks (bufs s) (bufs t)" by (simp add: same_blocks_def t_def)
  have "cache p V (D(n := V n)) R H t"
  proof (rule cache_step [OF c rdy(1,3)])
    fix m show "blk t m = V m" using rdy(2) cacheD(3) [OF c] by simp
    show "disk_block (platter t) (unat m) = (D(n := V n)) m" using rdy(4) [of "unat m"] cacheD(4) [OF c, of m] b(3,6)
      by (auto dest: word_unat_eqI)
    show "R m < 1000" using cacheD(6) [OF c] .
    show "refs (bufs t) m = R m" unfolding refs_def rdy(3) cacheD(5) [OF c, symmetric] by (simp add: t_def split: option.split)
    fix e show "find_buf (bufs s) m = Some e \<Longrightarrow> m \<in> H \<Longrightarrow> holds p t e"
      using cacheD(8) [OF c] by (simp add: holds_def t_def)
    show "find_buf (bufs s) m = Some e \<Longrightarrow> m \<notin> H \<Longrightarrow> \<not> sl_locked (sleeplocks t (BufLock e))"
      using cacheD(9) [OF c] by (simp add: t_def)
  qed (auto simp: t_def)
  moreover have "disk_only s t"
  proof -
    have "t = (settle s)\<lparr>bufs := bufs t, sleeplocks := sleeplocks s, vdisk := d, mmio_wr := v, platter := platter t\<rparr>"
      by (rule disk_st.equality) (simp_all add: t_def)
    then show ?thesis unfolding disk_only_def by blast
  qed
  moreover from this have "kept s t" using same by (rule kept_same)
  moreover have "at t b n" using b(4,5) by (simp add: at_def rdy(3)) (simp add: t_def)
  ultimately show ?thesis using w unfolding t_def [symmetric] by blast
qed


lemma brelse_cache:
  assumes c: "cache p V D R H s" and a: "at s b n" "n \<in> H" and last: "R n = 1 \<Longrightarrow> V n = D n"
  shows "\<exists>t. brelse b s = Done () t \<and> cache p V D (R(n := R n - 1)) (H - {n}) t \<and> at t b n \<and> kept s t"
proof -
  note b = at_buf [OF c a(1)] and rd = cacheD(1) [OF c]
  have al: "alone p s" using rd by (simp add: disk_ready_def)
  have pos: "R n > 0" by (rule cache_locked [OF c a(2)])
  define t where "t = unlock_buf b ((settle s)\<lparr>bufs := drop_ref b (bufs s)\<rparr>)"
  have r: "brelse b s = Done () t" unfolding t_def by (rule brelse_eq [OF al b(8) [OF a(2)]])
  have "b_refcnt (bufs s b) = 1 \<longrightarrow> buf_clean (platter s) (bufs s b)"
    using last b(3,6,7) cacheD(4) [OF c, of n] by (auto simp: buf_clean_def)
  note rdy = brelse_ready [OF rd b(1) this, folded t_def]
  have same: "same_blocks (bufs s) (bufs t)" by (simp add: t_def drop_ref_blocks(1))
  have cnt: "b_refcnt (bufs t e) = (if e = b then b_refcnt (bufs s b) - 1 else b_refcnt (bufs s e))" for e
    by (simp add: t_def drop_ref_blocks)
  have dec: "unat (b_refcnt (bufs s b) - 1) = R n - 1" using pos b(7) unat_sub_le [of 1 "b_refcnt (bufs s b)"]
    by (simp add: word_le_nat_alt)
  have "cache p V D (R(n := R n - 1)) (H - {n}) t"
  proof (rule cache_step [OF c rdy(1,3)])
    fix m show "blk t m = V m" using rdy(2) cacheD(3) [OF c] by simp
    show "disk_block (platter t) (unat m) = D m" using cacheD(4) [OF c] by (simp add: t_def)
    show "(R(n := R n - 1)) m < 1000" using cacheD(6) [OF c, of m] cacheD(6) [OF c, of n] by auto
    show "refs (bufs t) m = (R(n := R n - 1)) m"
      using refs_same [OF same _ b(5) cacheD(2) [OF c], of m] cnt dec cacheD(5) [OF c, of m] by simp
    fix e show "b_dev (bufs t e) = b_dev (bufs s e)" using same by (simp add: same_blocks_def)
    show "b_refcnt (bufs t e) = 0 \<or> b_refcnt (bufs s e) \<noteq> 0" using cnt [of e] b(10) pos by auto
    show "holds p t e" if "find_buf (bufs s) m = Some e" "m \<in> H - {n}"
    proof -
      have "e \<noteq> b" using find_buf_Some [OF that(1)] that(2) b(3) by auto
      then show ?thesis using cacheD(8) [OF c that(1)] that(2) by (simp add: holds_def t_def)
    qed
    show "\<not> sl_locked (sleeplocks t (BufLock e))" if "find_buf (bufs s) m = Some e" "m \<notin> H - {n}"
    proof (cases "e = b")
      case False
      then have "m \<notin> H" using that b(5) by auto
      then show ?thesis using cacheD(9) [OF c that(1)] False by (simp add: t_def)
    qed (simp add: t_def)
  qed auto
  moreover have "disk_only s t"
  proof -
    have "t = (settle s)\<lparr>bufs := bufs t, sleeplocks := sleeplocks t, vdisk := vdisk s, mmio_wr := mmio_wr s, platter := platter s\<rparr>"
      by (rule disk_st.equality) (simp_all add: t_def unlock_buf_def set_sl_def)
    moreover have "\<forall>k. (\<forall>b. k \<noteq> BufLock b) \<longrightarrow> sleeplocks t k = sleeplocks s k" by (simp add: t_def)
    ultimately show ?thesis unfolding disk_only_def by blast
  qed
  moreover from this have "kept s t" using same by (rule kept_same)
  moreover have "at t b n" using b(4,5) same by (simp add: at_def rdy(3)) (simp add: same_blocks_def)
  ultimately show ?thesis using r by blast
qed

text \<open>A change of the reference count alone.\<close>

lemma recount_cache:
  assumes c: "cache p V D R H s" and a: "at s b n" and k: "unat k = r" "r < 1000" "r = 0 \<Longrightarrow> n \<notin> H \<and> V n = D n"
    and pos: "R n \<noteq> 0"
  defines "t \<equiv> (settle s)\<lparr>bufs := (bufs s)(b := (bufs s b)\<lparr>b_refcnt := k\<rparr>)\<rparr>"
  shows "cache p V D (R(n := r)) H t" "at t b n" "kept s t"
proof -
  note b = at_buf [OF c a]
  have same: "same_blocks (bufs s) (bufs t)" by (simp add: same_blocks_def t_def)
  have z: "buf_clean (platter s) ((bufs s b)\<lparr>b_refcnt := k\<rparr>) \<and> \<not> sl_locked (sleeplocks s (BufLock b))" if "k = 0"
    using k that cacheD(9) [OF c b(5)] b(3,6) cacheD(4) [OF c, of n] by (auto simp: buf_clean_def)
  have u: "disk_ready p t" "blk t m = blk s m" for m
    using upd_ready [OF cacheD(1) [OF c] b(1,2), where x = "(bufs s b)\<lparr>b_refcnt := k\<rparr>" and t = t] b z
      same_blocks_blk [OF same] by (simp_all add: t_def)
  have f: "find_buf (bufs t) m = find_buf (bufs s) m" for m using same_blocks_find [OF same] .
  show "cache p V D (R(n := r)) H t"
  proof (rule cache_step [OF c u(1) f])
    fix m show "blk t m = V m" using u(2) cacheD(3) [OF c] by simp
    show "disk_block (platter t) (unat m) = D m" using cacheD(4) [OF c] by (simp add: t_def)
    show "(R(n := r)) m < 1000" using cacheD(6) [OF c, of m] k(2) by simp
    show "refs (bufs t) m = (R(n := r)) m"
      using refs_same [OF same _ b(5) cacheD(2) [OF c], of m] cacheD(5) [OF c, of m] k(1) by (simp add: t_def)
    fix e show "b_dev (bufs t e) = b_dev (bufs s e)" by (simp add: t_def)
    show "b_refcnt (bufs t e) = 0 \<or> b_refcnt (bufs s e) \<noteq> 0" using b(10) pos by (auto simp: t_def)
    show "holds p t e" if "find_buf (bufs s) m = Some e" "m \<in> H"
      using cacheD(8) [OF c that] by (simp add: holds_def t_def)
    show "\<not> sl_locked (sleeplocks t (BufLock e))" if "find_buf (bufs s) m = Some e" "m \<notin> H"
      using cacheD(9) [OF c that] by (simp add: t_def)
  qed auto
  have "t = (settle s)\<lparr>bufs := bufs t, sleeplocks := sleeplocks s, vdisk := vdisk s, mmio_wr := mmio_wr s, platter := platter s\<rparr>"
    by (rule disk_st.equality) (simp_all add: t_def)
  then have "disk_only s t" unfolding disk_only_def by blast
  then show "kept s t" using same by (rule kept_same)
  show "at t b n" using b(4,5) f by (simp add: at_def) (simp add: t_def)
qed

lemma bpin_cache:
  assumes c: "cache p V D R H s" and a: "at s b n" and r: "R n \<noteq> 0" "R n < 999"
  shows "\<exists>t. bpin b s = Done () t \<and> cache p V D (R(n := Suc (R n))) H t \<and> at t b n \<and> kept s t"
proof -
  have al: "alone p s" using cacheD(1) [OF c] by (simp add: disk_ready_def)
  have "unat (b_refcnt (bufs s b) + 1) = Suc (R n)"
    using at_buf(7) [OF c a] r(2) unat_add_small [of "b_refcnt (bufs s b)" 1] by simp
  from recount_cache [OF c a this _ _ r(1)] r show ?thesis unfolding bpin_eq [OF al] by simp
qed

lemma bunpin_cache:
  assumes c: "cache p V D R H s" and a: "at s b n" and r: "R n \<noteq> 0" "R n = 1 \<Longrightarrow> n \<notin> H \<and> V n = D n"
  shows "\<exists>t. bunpin b s = Done () t \<and> cache p V D (R(n := R n - 1)) H t \<and> at t b n \<and> kept s t"
proof -
  have al: "alone p s" using cacheD(1) [OF c] by (simp add: disk_ready_def)
  have "unat (b_refcnt (bufs s b) - 1) = R n - 1"
    using at_buf(7) [OF c a] r(1) unat_sub_le [of 1 "b_refcnt (bufs s b)"] by (simp add: word_le_nat_alt)
  from recount_cache [OF c a this _ _ r(1)] r cacheD(6) [OF c, of n] show ?thesis unfolding bunpin_eq [OF al]
    by (simp add: less_imp_diff_less le_Suc_eq)
qed

end
