(* ===== verification/Blockdata.thy ===== *)
theory Blockdata
  imports Memory
begin

text \<open>
  Little-endian fields inside the bytes of a disk block, as the C code reads and writes them through a
  pointer to a struct: reading and writing at a byte offset, and their laws.
\<close>

definition get_at :: "u8 list \<Rightarrow> nat \<Rightarrow> nat \<Rightarrow> u8 list" where
  "get_at bs off n = take n (drop off bs)"

definition put_at :: "u8 list \<Rightarrow> nat \<Rightarrow> u8 list \<Rightarrow> u8 list" where
  "put_at bs off xs = take off bs @ xs @ drop (off + length xs) bs"

definition get16 :: "u8 list \<Rightarrow> nat \<Rightarrow> u16" where "get16 bs off = of_le (get_at bs off 2)"
definition get32 :: "u8 list \<Rightarrow> nat \<Rightarrow> u32" where "get32 bs off = of_le (get_at bs off 4)"
definition get64 :: "u8 list \<Rightarrow> nat \<Rightarrow> u64" where "get64 bs off = of_le (get_at bs off 8)"
definition put16 :: "u8 list \<Rightarrow> nat \<Rightarrow> u16 \<Rightarrow> u8 list" where "put16 bs off v = put_at bs off (le_bytes 2 v)"
definition put32 :: "u8 list \<Rightarrow> nat \<Rightarrow> u32 \<Rightarrow> u8 list" where "put32 bs off v = put_at bs off (le_bytes 4 v)"

lemma length_put_at [simp]: "off + length xs \<le> length bs \<Longrightarrow> length (put_at bs off xs) = length bs"
  by (simp add: put_at_def)

lemma length_get_at [simp]: "off + n \<le> length bs \<Longrightarrow> length (get_at bs off n) = n"
  by (simp add: get_at_def)

lemma get_put_same [simp]: "off + length xs \<le> length bs \<Longrightarrow> n = length xs \<Longrightarrow> get_at (put_at bs off xs) off n = xs"
  by (simp add: get_at_def put_at_def)

lemma nth_put_at:
  "off + length xs \<le> length bs \<Longrightarrow> i < length bs \<Longrightarrow>
   put_at bs off xs ! i = (if off \<le> i \<and> i < off + length xs then xs ! (i - off) else bs ! i)"
  by (auto simp: put_at_def nth_append)

lemma get_put_apart:
  assumes "off + length xs \<le> length bs" "a + n \<le> off \<or> off + length xs \<le> a"
  shows "get_at (put_at bs off xs) a n = get_at bs a n"
proof (rule nth_equalityI)
  show "length (get_at (put_at bs off xs) a n) = length (get_at bs a n)"
    unfolding get_at_def using length_put_at [OF assms(1)] by simp
  fix i assume "i < length (get_at (put_at bs off xs) a n)"
  then have i: "i < n" "a + i < length bs" unfolding get_at_def using length_put_at [OF assms(1)] by auto
  show "get_at (put_at bs off xs) a n ! i = get_at bs a n ! i"
    using i nth_put_at [OF assms(1) i(2)] assms length_put_at [OF assms(1)] by (auto simp: get_at_def)
qed

lemma put_get_at [simp]: "off + n \<le> length bs \<Longrightarrow> put_at bs off (get_at bs off n) = bs"
  by (rule nth_equalityI) (auto simp: nth_put_at, auto simp: get_at_def)

lemma length_put16 [simp]: "off + 2 \<le> length bs \<Longrightarrow> length (put16 bs off v) = length bs"
  by (simp add: put16_def)

lemma length_put32 [simp]: "off + 4 \<le> length bs \<Longrightarrow> length (put32 bs off v) = length bs"
  by (simp add: put32_def)

lemma get16_put16 [simp]: "off + 2 \<le> length bs \<Longrightarrow> get16 (put16 bs off v) off = v"
  by (simp add: get16_def put16_def of_le_le_bytes)

lemma get32_put32 [simp]: "off + 4 \<le> length bs \<Longrightarrow> get32 (put32 bs off v) off = v"
  by (simp add: get32_def put32_def of_le_le_bytes)

lemma get32_put32_apart: "off + 4 \<le> length bs \<Longrightarrow> a + 4 \<le> off \<or> off + 4 \<le> a \<Longrightarrow> get32 (put32 bs off v) a = get32 bs a"
  by (simp add: get32_def put32_def get_put_apart)

lemma get16_put32_apart: "off + 4 \<le> length bs \<Longrightarrow> a + 2 \<le> off \<or> off + 4 \<le> a \<Longrightarrow> get16 (put32 bs off v) a = get16 bs a"
  by (simp add: get16_def put32_def get_put_apart)

lemma get16_put16_apart: "off + 2 \<le> length bs \<Longrightarrow> a + 2 \<le> off \<or> off + 2 \<le> a \<Longrightarrow> get16 (put16 bs off v) a = get16 bs a"
  by (simp add: get16_def put16_def get_put_apart)

lemma get32_put16_apart: "off + 2 \<le> length bs \<Longrightarrow> a + 4 \<le> off \<or> off + 2 \<le> a \<Longrightarrow> get32 (put16 bs off v) a = get32 bs a"
  by (simp add: get32_def put16_def get_put_apart)

end
