(* ===== verification/Log.thy ===== *)
theory Log
  imports Cache Blockdata
begin

text \<open>
  The log \<^verbatim>\<open>kernel/log.c\<close>, which makes the block writes of a group of file system calls atomic with
  respect to crashes.

  The loops over the logged blocks run over the list of their indices; a prefix of that list is the work
  done before a crash in the middle of the loop. \<^verbatim>\<open>begin_op\<close> sleeps in its loop, which is a definition of
  its own that a woken process enters again.
\<close>

section \<open>State\<close>

record superblock =
  sb_magic :: u32
  sb_size :: u32
  sb_nblocks :: u32
  sb_ninodes :: u32
  sb_nlog :: u32
  sb_logstart :: u32
  sb_inodestart :: u32
  sb_bmapstart :: u32

record log_st = disk_st +
  log_start :: int
  log_size :: int
  outstanding :: int
  committing :: bool
  log_dev :: int
  lh_n :: int
  lh_block :: "nat \<Rightarrow> u32"

section \<open>Operations\<close>

text \<open>The bytes of a header block: \<^verbatim>\<open>n\<close>, then the block numbers, each a 32-bit word.\<close>

primrec head_blocks :: "(nat \<Rightarrow> u32) \<Rightarrow> nat \<Rightarrow> u8 list \<Rightarrow> u8 list" where
  "head_blocks f 0 bs = bs"
| "head_blocks f (Suc i) bs = put32 (head_blocks f i bs) (4 + 4 * i) (f i)"

definition log_block :: "nat \<Rightarrow> 'a log_st_scheme \<Rightarrow> u32" where
  "log_block tail s = word_of_int (log_start s + int tail + 1)"

primrec install_loop :: "bool \<Rightarrow> nat list \<Rightarrow> 'a log_st_scheme \<Rightarrow> (unit, 'a log_st_scheme) out" where
  "install_loop recovering [] s = Done () s"
| "install_loop recovering (tail # ts) s =
     bnd (bread (word_of_int (log_dev s)) (log_block tail s) s) (\<lambda>lbuf s1.
     bnd (bread (word_of_int (log_dev s1)) (lh_block s1 tail) s1) (\<lambda>dbuf s2.
     bnd (bwrite dbuf (set_buf dbuf (\<lambda>x. x\<lparr>b_data := b_data (bufs s2 lbuf)\<rparr>) s2)) (\<lambda>_ s3.
     bnd (if recovering then Done () s3 else bunpin dbuf s3) (\<lambda>_ s4.
     bnd (brelse lbuf s4) (\<lambda>_ s5.
     bnd (brelse dbuf s5) (\<lambda>_ s6. install_loop recovering ts s6))))))"

definition install_trans :: "bool \<Rightarrow> 'a log_st_scheme \<Rightarrow> (unit, 'a log_st_scheme) out" where
  "install_trans recovering s = install_loop recovering [0..<nat (lh_n s)] s"

definition read_head :: "'a log_st_scheme \<Rightarrow> (unit, 'a log_st_scheme) out" where
  "read_head s =
     bnd (bread (word_of_int (log_dev s)) (word_of_int (log_start s)) s) (\<lambda>b s1.
       let lh = b_data (bufs s1 b);
           n = sint (get32 lh 0)
       in brelse b (s1\<lparr>lh_n := n,
            lh_block := (\<lambda>i. if i < nat n then get32 lh (4 + 4 * i) else lh_block s1 i)\<rparr>))"

definition write_head :: "'a log_st_scheme \<Rightarrow> (unit, 'a log_st_scheme) out" where
  "write_head s =
     bnd (bread (word_of_int (log_dev s)) (word_of_int (log_start s)) s) (\<lambda>b s1.
       let hb = put32 (b_data (bufs s1 b)) 0 (word_of_int (lh_n s1))
       in bnd (bwrite b (set_buf b (\<lambda>x. x\<lparr>b_data := head_blocks (lh_block s1) (nat (lh_n s1)) hb\<rparr>) s1)) (\<lambda>_ s2.
          brelse b s2))"

definition recover_from_log :: "'a log_st_scheme \<Rightarrow> (unit, 'a log_st_scheme) out" where
  "recover_from_log s =
     bnd (read_head s) (\<lambda>_ s1.
     bnd (install_trans True s1) (\<lambda>_ s2. write_head (s2\<lparr>lh_n := 0\<rparr>)))"

definition initlog :: "int \<Rightarrow> superblock \<Rightarrow> 'a log_st_scheme \<Rightarrow> (unit, 'a log_st_scheme) out" where
  "initlog dev sb s =
     (if 4 + 4 * LOGSIZE \<ge> BSIZE then Panic ''initlog: too big logheader''
      else recover_from_log ((initlock LogLock ''log'' s)
        \<lparr>log_start := sint (sb_logstart sb), log_size := sint (sb_nlog sb), log_dev := dev\<rparr>))"

definition begin_op_loop :: "'a log_st_scheme \<Rightarrow> (unit, 'a log_st_scheme) out" where
  "begin_op_loop s =
     (if committing s then sleep LogChan LogLock s
      else if lh_n s + (outstanding s + 1) * int MAXOPBLOCKS > int LOGSIZE then sleep LogChan LogLock s
      else release LogLock (s\<lparr>outstanding := outstanding s + 1\<rparr>))"

definition begin_op :: "'a log_st_scheme \<Rightarrow> (unit, 'a log_st_scheme) out" where
  "begin_op s = bnd (acquire LogLock s) (\<lambda>_ s1. begin_op_loop s1)"

primrec write_log_loop :: "nat list \<Rightarrow> 'a log_st_scheme \<Rightarrow> (unit, 'a log_st_scheme) out" where
  "write_log_loop [] s = Done () s"
| "write_log_loop (tail # ts) s =
     bnd (bread (word_of_int (log_dev s)) (log_block tail s) s) (\<lambda>to s1.
     bnd (bread (word_of_int (log_dev s1)) (lh_block s1 tail) s1) (\<lambda>from s2.
     bnd (bwrite to (set_buf to (\<lambda>x. x\<lparr>b_data := b_data (bufs s2 from)\<rparr>) s2)) (\<lambda>_ s3.
     bnd (brelse from s3) (\<lambda>_ s4.
     bnd (brelse to s4) (\<lambda>_ s5. write_log_loop ts s5)))))"

definition write_log :: "'a log_st_scheme \<Rightarrow> (unit, 'a log_st_scheme) out" where
  "write_log s = write_log_loop [0..<nat (lh_n s)] s"

definition commit :: "'a log_st_scheme \<Rightarrow> (unit, 'a log_st_scheme) out" where
  "commit s =
     (if lh_n s > 0 then
        bnd (write_log s) (\<lambda>_ s1.
        bnd (write_head s1) (\<lambda>_ s2.
        bnd (install_trans False s2) (\<lambda>_ s3. write_head (s3\<lparr>lh_n := 0\<rparr>))))
      else Done () s)"

definition end_op :: "'a log_st_scheme \<Rightarrow> (unit, 'a log_st_scheme) out" where
  "end_op s =
     bnd (acquire LogLock s) (\<lambda>_ s1.
       let s2 = s1\<lparr>outstanding := outstanding s1 - 1\<rparr>
       in if committing s2 then Panic ''log.committing''
          else let do_commit = (outstanding s2 = 0)
          in bnd (if do_commit then Done () (s2\<lparr>committing := True\<rparr>) else wakeup (Some LogChan) s2) (\<lambda>_ s3.
             bnd (release LogLock s3) (\<lambda>_ s4.
               if do_commit then
                 bnd (commit s4) (\<lambda>_ s5.
                 bnd (acquire LogLock s5) (\<lambda>_ s6.
                 bnd (wakeup (Some LogChan) (s6\<lparr>committing := False\<rparr>)) (\<lambda>_ s7.
                   release LogLock s7)))
               else Done () s4)))"

text \<open>The scan of \<^verbatim>\<open>log_write\<close> stops at the first entry of the block, or at \<^verbatim>\<open>n\<close>.\<close>

primrec log_scan :: "u32 \<Rightarrow> (nat \<Rightarrow> u32) \<Rightarrow> nat \<Rightarrow> nat \<Rightarrow> nat" where
  "log_scan n f 0 i = i"
| "log_scan n f (Suc k) i = (if f i = n then i else log_scan n f k (Suc i))"

definition log_write :: "nat \<Rightarrow> 'a log_st_scheme \<Rightarrow> (unit, 'a log_st_scheme) out" where
  "log_write b s =
     bnd (acquire LogLock s) (\<lambda>_ s1.
       if lh_n s1 \<ge> int LOGSIZE \<or> lh_n s1 \<ge> log_size s1 - 1 then Panic ''too big a transaction''
       else if outstanding s1 < 1 then Panic ''log_write outside of trans''
       else
         let i = log_scan (b_blockno (bufs s1 b)) (lh_block s1) (nat (lh_n s1)) 0;
             s2 = s1\<lparr>lh_block := (lh_block s1)(i := b_blockno (bufs s1 b))\<rparr>
         in bnd (if int i = lh_n s2 then bnd (bpin b s2) (\<lambda>_ s3. Done () (s3\<lparr>lh_n := lh_n s3 + 1\<rparr>)) else Done () s2) (\<lambda>_ s4.
            release LogLock s4))"

section \<open>Frame lemmas\<close>

lemma log_locks [simp]:
  "log_start (lock_on lk s) = log_start s"
  "log_start_update f1 (lock_on lk s) = lock_on lk (log_start_update f1 s)"
  "log_size (lock_on lk s) = log_size s"
  "log_size_update f2 (lock_on lk s) = lock_on lk (log_size_update f2 s)"
  "outstanding (lock_on lk s) = outstanding s"
  "outstanding_update f3 (lock_on lk s) = lock_on lk (outstanding_update f3 s)"
  "committing (lock_on lk s) = committing s"
  "committing_update f4 (lock_on lk s) = lock_on lk (committing_update f4 s)"
  "log_dev (lock_on lk s) = log_dev s"
  "log_dev_update f5 (lock_on lk s) = lock_on lk (log_dev_update f5 s)"
  "lh_n (lock_on lk s) = lh_n s"
  "lh_n_update f6 (lock_on lk s) = lock_on lk (lh_n_update f6 s)"
  "lh_block (lock_on lk s) = lh_block s"
  "lh_block_update f7 (lock_on lk s) = lock_on lk (lh_block_update f7 s)"
  by (simp_all add: lock_on_def acquire_own_def acquire_swap_def push_off_def intr_defs cpu_defs Let_def)

lemma log_push [simp]:
  "log_start (push_off s) = log_start s"
  "log_start_update f1 (push_off s) = push_off (log_start_update f1 s)"
  "log_size (push_off s) = log_size s"
  "log_size_update f2 (push_off s) = push_off (log_size_update f2 s)"
  "outstanding (push_off s) = outstanding s"
  "outstanding_update f3 (push_off s) = push_off (outstanding_update f3 s)"
  "committing (push_off s) = committing s"
  "committing_update f4 (push_off s) = push_off (committing_update f4 s)"
  "log_dev (push_off s) = log_dev s"
  "log_dev_update f5 (push_off s) = push_off (log_dev_update f5 s)"
  "lh_n (push_off s) = lh_n s"
  "lh_n_update f6 (push_off s) = push_off (lh_n_update f6 s)"
  "lh_block (push_off s) = lh_block s"
  "lh_block_update f7 (push_off s) = push_off (lh_block_update f7 s)"
  by (simp_all add: push_off_def intr_defs cpu_defs Let_def)

lemma log_settle [simp]:
  "log_start (settle s) = log_start s"
  "settle (log_start_update f1 s) = log_start_update f1 (settle s)"
  "log_size (settle s) = log_size s"
  "settle (log_size_update f2 s) = log_size_update f2 (settle s)"
  "outstanding (settle s) = outstanding s"
  "settle (outstanding_update f3 s) = outstanding_update f3 (settle s)"
  "committing (settle s) = committing s"
  "settle (committing_update f4 s) = committing_update f4 (settle s)"
  "log_dev (settle s) = log_dev s"
  "settle (log_dev_update f5 s) = log_dev_update f5 (settle s)"
  "lh_n (settle s) = lh_n s"
  "settle (lh_n_update f6 s) = lh_n_update f6 (settle s)"
  "lh_block (settle s) = lh_block s"
  "settle (lh_block_update f7 s) = lh_block_update f7 (settle s)"
  by (simp_all add: settle_def intr_defs cpu_defs)

lemma log_machine [simp]:
  "free_lock (log_start_update f1 s) lk = free_lock s lk"
  "cpu_ok (log_start_update f1 s) = cpu_ok s"
  "mycpu (log_start_update f1 s) = mycpu s"
  "cpuid (log_start_update f1 s) = cpuid s"
  "intr_get (log_start_update f1 s) = intr_get s"
  "holding lk (log_start_update f1 s) = holding lk s"
  "free_lock (log_size_update f2 s) lk = free_lock s lk"
  "cpu_ok (log_size_update f2 s) = cpu_ok s"
  "mycpu (log_size_update f2 s) = mycpu s"
  "cpuid (log_size_update f2 s) = cpuid s"
  "intr_get (log_size_update f2 s) = intr_get s"
  "holding lk (log_size_update f2 s) = holding lk s"
  "free_lock (outstanding_update f3 s) lk = free_lock s lk"
  "cpu_ok (outstanding_update f3 s) = cpu_ok s"
  "mycpu (outstanding_update f3 s) = mycpu s"
  "cpuid (outstanding_update f3 s) = cpuid s"
  "intr_get (outstanding_update f3 s) = intr_get s"
  "holding lk (outstanding_update f3 s) = holding lk s"
  "free_lock (committing_update f4 s) lk = free_lock s lk"
  "cpu_ok (committing_update f4 s) = cpu_ok s"
  "mycpu (committing_update f4 s) = mycpu s"
  "cpuid (committing_update f4 s) = cpuid s"
  "intr_get (committing_update f4 s) = intr_get s"
  "holding lk (committing_update f4 s) = holding lk s"
  "free_lock (log_dev_update f5 s) lk = free_lock s lk"
  "cpu_ok (log_dev_update f5 s) = cpu_ok s"
  "mycpu (log_dev_update f5 s) = mycpu s"
  "cpuid (log_dev_update f5 s) = cpuid s"
  "intr_get (log_dev_update f5 s) = intr_get s"
  "holding lk (log_dev_update f5 s) = holding lk s"
  "free_lock (lh_n_update f6 s) lk = free_lock s lk"
  "cpu_ok (lh_n_update f6 s) = cpu_ok s"
  "mycpu (lh_n_update f6 s) = mycpu s"
  "cpuid (lh_n_update f6 s) = cpuid s"
  "intr_get (lh_n_update f6 s) = intr_get s"
  "holding lk (lh_n_update f6 s) = holding lk s"
  "free_lock (lh_block_update f7 s) lk = free_lock s lk"
  "cpu_ok (lh_block_update f7 s) = cpu_ok s"
  "mycpu (lh_block_update f7 s) = mycpu s"
  "cpuid (lh_block_update f7 s) = cpuid s"
  "intr_get (lh_block_update f7 s) = intr_get s"
  "holding lk (lh_block_update f7 s) = holding lk s"
  by (simp_all add: free_lock_def cpu_ok_def holding_def cpu_defs intr_defs)

end
