(* ===== verification/Commit.thy ===== *)
theory Commit
  imports Log
begin

text \<open>
  What the log does: a commit moves exactly the logged blocks to their home locations, and whenever the
  machine stops during a commit, recovery leaves either all of the logged blocks or none of them.
\<close>

section \<open>The log and the cache\<close>

lemma disk_only_log:
  assumes "disk_only s t"
  shows "log_start t = log_start s" "log_size t = log_size s" "outstanding t = outstanding s" "committing t = committing s"
    "log_dev t = log_dev s" "lh_n t = lh_n s" "lh_block t = lh_block s" "log_block i t = log_block i s"
proof -
  obtain B L d v P where t: "t = (settle s)\<lparr>bufs := B, sleeplocks := L, vdisk := d, mmio_wr := v, platter := P\<rparr> \<or>
      t = s\<lparr>bufs := B, sleeplocks := L, vdisk := d, mmio_wr := v, platter := P\<rparr>"
    using assms unfolding disk_only_def by blast
  show "log_start t = log_start s" "log_size t = log_size s" "outstanding t = outstanding s" "committing t = committing s"
    "log_dev t = log_dev s" "lh_n t = lh_n s" "lh_block t = lh_block s"
    using t by (elim disjE; simp)+
  then show "log_block i t = log_block i s" by (simp add: log_block_def)
qed

lemma kept_only: "kept s t \<Longrightarrow> disk_only s t"
  by (simp add: kept_def)

lemma write_log_step:
  assumes c: "cache p V D R {} s" and dev: "word_of_int (log_dev s) = ROOTDEV"
    and a: "log_block i s = a" "unat a < 2 ^ 31" "room R a" "R a < 998"
    and b: "lh_block s i = b" "unat b < 2 ^ 31" "R b \<noteq> 0" "R b < 998" and ab: "a \<noteq> b"
  shows "\<exists>t. write_log_loop (i # ts) s = write_log_loop ts t \<and> cache p (V(a := V b)) (D(a := V b)) R {} t \<and> disk_only s t"
proof -
  obtain x s1 where 1: "bread ROOTDEV a s = Done x s1" "cache p V D (R(a := Suc (R a))) {a} s1" "at s1 x a" "kept s s1"
    using bread_cache [OF c _ a(3,2)] a(4) by auto
  note o1 = disk_only_log [OF kept_only [OF 1(4)]]
  obtain y s2 where 2: "bread ROOTDEV b s1 = Done y s2" "cache p V D (R(a := Suc (R a), b := Suc (R b))) {b, a} s2" "at s2 y b" "kept s1 s2"
    using bread_cache [OF 1(2), of b] b ab by (auto simp: room_def)
  have x2: "at s2 x a" using kept_at [OF 2(4) 1(2,3)] by simp
  define s3 where "s3 = set_buf x (\<lambda>q. q\<lparr>b_data := b_data (bufs s2 y)\<rparr>) s2"
  have V: "b_data (bufs s2 y) = V b" "length (V b) = BSIZE" using at_buf [OF 2(2,3)] by simp_all
  have 3: "cache p (V(a := V b)) D (R(a := Suc (R a), b := Suc (R b))) {b, a} s3" "at s3 x a" "kept s2 s3"
    using set_data_cache [OF 2(2) x2 _ V(2)] by (simp_all add: s3_def V(1))
  have y3: "at s3 y b" using kept_at [OF 3(3) 2(2,3)] by simp
  obtain s4 where 4: "bwrite x s3 = Done () s4" "cache p (V(a := V b)) (D(a := V b)) (R(a := Suc (R a), b := Suc (R b))) {b, a} s4"
    "at s4 x a" "kept s3 s4"
    using bwrite_cache [OF 3(1,2)] by auto
  have y4: "at s4 y b" using kept_at [OF 4(4) 3(1) y3] by simp
  obtain s5 where 5: "brelse y s4 = Done () s5" "cache p (V(a := V b)) (D(a := V b)) (R(a := Suc (R a), b := R b)) {a} s5" "kept s4 s5"
    using brelse_cache [OF 4(2) y4] b(3) ab by auto
  have x5: "at s5 x a" using kept_at [OF 5(3) 4(2,3)] ab by simp
  obtain s6 where 6: "brelse x s5 = Done () s6" "cache p (V(a := V b)) (D(a := V b)) (R(a := R a, b := R b)) {} s6" "kept s5 s6"
    using brelse_cache [OF 5(2) x5] ab by (auto simp: fun_upd_twist)
  have "R(a := R a, b := R b) = R" by auto
  moreover have "disk_only s s6"
    using 1(4) 2(4) 3(3) 4(4) 5(3) 6(3) by (meson disk_only_trans kept_only)
  moreover have "write_log_loop (i # ts) s = write_log_loop ts s6"
    using 1(1) 2(1) 4(1) 5(1) 6(1) o1 by (simp add: dev a(1) b(1) s3_def)
  ultimately show ?thesis using 6(2) by auto
qed

lemma install_step:
  assumes c: "cache p V D R {} s" and dev: "word_of_int (log_dev s) = ROOTDEV"
    and a: "log_block i s = a" "unat a < 2 ^ 31" "room R a" "R a < 998"
    and b: "lh_block s i = b" "unat b < 2 ^ 31" "room (R(a := Suc (R a))) b" "R b < 998" "\<not> recovering \<Longrightarrow> R b \<noteq> 0"
    and ab: "a \<noteq> b"
  shows "\<exists>t. install_loop recovering (i # ts) s = install_loop recovering ts t \<and>
    cache p (V(b := V a)) (D(b := V a)) (R(b := if recovering then R b else R b - 1)) {} t \<and> disk_only s t"
proof -
  obtain x s1 where 1: "bread ROOTDEV a s = Done x s1" "cache p V D (R(a := Suc (R a))) {a} s1" "at s1 x a" "kept s s1"
    using bread_cache [OF c _ a(3,2)] a(4) by auto
  note o1 = disk_only_log [OF kept_only [OF 1(4)]]
  obtain y s2 where 2: "bread ROOTDEV b s1 = Done y s2" "cache p V D (R(a := Suc (R a), b := Suc (R b))) {b, a} s2" "at s2 y b" "kept s1 s2"
    using bread_cache [OF 1(2) _ b(3,2)] b ab by auto
  have x2: "at s2 x a" using kept_at [OF 2(4) 1(2,3)] by simp
  define s3 where "s3 = set_buf y (\<lambda>q. q\<lparr>b_data := b_data (bufs s2 x)\<rparr>) s2"
  have V: "b_data (bufs s2 x) = V a" "length (V a) = BSIZE" using at_buf [OF 2(2) x2] by simp_all
  have 3: "cache p (V(b := V a)) D (R(a := Suc (R a), b := Suc (R b))) {b, a} s3" "at s3 y b" "kept s2 s3"
    using set_data_cache [OF 2(2,3) _ V(2)] by (simp_all add: s3_def V(1))
  have x3: "at s3 x a" using kept_at [OF 3(3) 2(2) x2] by simp
  obtain s4 where 4: "bwrite y s3 = Done () s4" "cache p (V(b := V a)) (D(b := V a)) (R(a := Suc (R a), b := Suc (R b))) {b, a} s4"
    "at s4 y b" "kept s3 s4"
    using bwrite_cache [OF 3(1,2)] by auto
  have x4: "at s4 x a" using kept_at [OF 4(4) 3(1) x3] by simp
  let ?r = "if recovering then R b else R b - 1"
  obtain s5 where 5: "(if recovering then Done () s4 else bunpin y s4) = Done () s5"
    "cache p (V(b := V a)) (D(b := V a)) (R(a := Suc (R a), b := Suc ?r)) {b, a} s5" "at s5 y b" "at s5 x a" "disk_only s4 s5"
  proof (cases recovering)
    case True
    then show ?thesis using that [of s4] 4 x4 disk_only_refl [of s4] by simp
  next
    case False
    then obtain t where t: "bunpin y s4 = Done () t" "cache p (V(b := V a)) (D(b := V a)) (R(a := Suc (R a), b := R b)) {b, a} t"
      "at t y b" "kept s4 t"
      using bunpin_cache [OF 4(2,3)] b(5) by auto
    have "at t x a" using kept_at [OF t(4) 4(2) x4] ab by simp
    with that [of t] t False b(5) kept_only [OF t(4)] show ?thesis by simp
  qed
  have cl: "R a = 0 \<Longrightarrow> V a = D a" by (rule cache_clean [OF c])
  obtain s6 where 6: "brelse x s5 = Done () s6" "cache p (V(b := V a)) (D(b := V a)) (R(a := R a, b := Suc ?r)) {b} s6" "kept s5 s6"
    using brelse_cache [OF 5(2,4)] ab cl insert_Diff_if [of b "{a}" "{a}"] by (auto simp: fun_upd_twist)
  have y6: "at s6 y b" using kept_at [OF 6(3) 5(2,3)] by simp
  obtain s7 where 7: "brelse y s6 = Done () s7" "cache p (V(b := V a)) (D(b := V a)) (R(a := R a, b := ?r)) {} s7" "kept s6 s7"
    using brelse_cache [OF 6(2) y6] by auto
  have "R(a := R a, b := ?r) = R(b := ?r)" by auto
  moreover have "disk_only s s7"
    using 1(4) 2(4) 3(3) 4(4) 5(5) 6(3) 7(3) by (meson disk_only_trans kept_only)
  moreover have "install_loop recovering (i # ts) s = install_loop recovering ts s7"
    using 1(1) 2(1) 4(1) 5(1) 6(1) 7(1) o1 by (simp add: dev a(1) b(1) s3_def)
  ultimately show ?thesis using 7(2) by auto
qed

text \<open>The fields of a header block that was written.\<close>

lemma head_blocks_get:
  assumes "length bs = BSIZE" "k \<le> LOGSIZE"
  shows "length (head_blocks f k bs) = BSIZE" "get32 (head_blocks f k bs) 0 = get32 bs 0"
    "i < k \<Longrightarrow> get32 (head_blocks f k bs) (4 + 4 * i) = f i"
proof -
  have L: "LOGSIZE = 30" by (simp add: LOGSIZE_def MAXOPBLOCKS_def)
  have len: "length (head_blocks f j bs) = BSIZE" if "j \<le> LOGSIZE" for j
    using that assms(1) by (induction j) (simp_all add: BSIZE_def L)
  then show "length (head_blocks f k bs) = BSIZE" using assms(2) .
  show "get32 (head_blocks f k bs) 0 = get32 bs 0"
    using assms(2)
  proof (induction k)
    case (Suc k)
    have "length (head_blocks f k bs) = 1024" using len [of k] Suc.prems by (simp add: BSIZE_def)
    then show ?case using Suc by (simp add: get32_put32_apart L)
  qed simp
  show "get32 (head_blocks f k bs) (4 + 4 * i) = f i" if "i < k"
    using that assms(2)
  proof (induction k)
    case (Suc k)
    have "length (head_blocks f k bs) = 1024" using len [of k] Suc.prems by (simp add: BSIZE_def)
    then show ?case using Suc by (cases "i = k") (simp_all add: get32_put32_apart L)
  qed simp
qed

lemma write_head_step:
  assumes c: "cache p V D R {} s" and dev: "word_of_int (log_dev s) = ROOTDEV"
    and a: "word_of_int (log_start s) = a" "unat a < 2 ^ 31" "room R a" "R a < 998" and n: "lh_n s \<le> int LOGSIZE"
  defines "h \<equiv> head_blocks (lh_block s) (nat (lh_n s)) (put32 (V a) 0 (word_of_int (lh_n s)))"
  shows "\<exists>t. write_head s = Done () t \<and> cache p (V(a := h)) (D(a := h)) R {} t \<and> disk_only s t"
proof -
  obtain x s1 where 1: "bread ROOTDEV a s = Done x s1" "cache p V D (R(a := Suc (R a))) {a} s1" "at s1 x a" "kept s s1"
    using bread_cache [OF c _ a(3,2)] a(4) by auto
  note o1 = disk_only_log [OF kept_only [OF 1(4)]]
  have V: "b_data (bufs s1 x) = V a" "length (V a) = BSIZE" using at_buf [OF 1(2,3)] by simp_all
  have h: "length h = BSIZE" using head_blocks_get(1) [of "put32 (V a) 0 (word_of_int (lh_n s))" "nat (lh_n s)"] V(2) n
    unfolding h_def by (simp add: BSIZE_def nat_le_iff)
  define s2 where "s2 = set_buf x (\<lambda>q. q\<lparr>b_data := h\<rparr>) s1"
  have 2: "cache p (V(a := h)) D (R(a := Suc (R a))) {a} s2" "at s2 x a" "kept s1 s2"
    using set_data_cache [OF 1(2,3) _ h] by (simp_all add: s2_def)
  obtain s3 where 3: "bwrite x s2 = Done () s3" "cache p (V(a := h)) (D(a := h)) (R(a := Suc (R a))) {a} s3" "at s3 x a" "kept s2 s3"
    using bwrite_cache [OF 2(1,2)] by auto
  obtain s4 where 4: "brelse x s3 = Done () s4" "cache p (V(a := h)) (D(a := h)) (R(a := R a)) {} s4" "kept s3 s4"
    using brelse_cache [OF 3(2,3)] by auto
  have "write_head s = Done () s4"
    using 1(1) 3(1) 4(1) o1 V(1) unfolding write_head_def dev a(1) by (simp add: s2_def h_def Let_def)
  moreover have "disk_only s s4" using 1(4) 2(3) 3(4) 4(3) by (meson disk_only_trans kept_only)
  ultimately show ?thesis using 4(2) by auto
qed

section \<open>States of the log\<close>

text \<open>The blocks of the log, header included, and the blocks the current transaction has logged.\<close>

definition log_area :: "'a log_st_scheme \<Rightarrow> u32 set" where
  "log_area s = {b. log_start s \<le> uint b \<and> uint b \<le> log_start s + int LOGSIZE}"

definition logged :: "'a log_st_scheme \<Rightarrow> u32 set" where
  "logged s = lh_block s ` {..<nat (lh_n s)}"

definition pins :: "'a log_st_scheme \<Rightarrow> u32 \<Rightarrow> nat" where
  "pins s = (\<lambda>m. if m \<in> logged s then 1 else 0)"

definition log_geom :: "'a log_st_scheme \<Rightarrow> bool" where
  "log_geom s \<longleftrightarrow> word_of_int (log_dev s) = ROOTDEV \<and> 0 \<le> log_start s \<and> log_start s + int LOGSIZE + 1 < 2 ^ 31"

definition log_list :: "'a log_st_scheme \<Rightarrow> bool" where
  "log_list s \<longleftrightarrow> 0 \<le> lh_n s \<and> lh_n s < int LOGSIZE \<and> inj_on (lh_block s) {..<nat (lh_n s)} \<and>
     logged s \<inter> log_area s = {} \<and> (\<forall>b \<in> logged s. unat b < 2 ^ 31)"

text \<open>
  Between operations: the cache holds the contents \<open>V\<close> over the disk \<open>D\<close>, exactly the logged blocks are
  pinned, and the header on the disk says that nothing is committed.
\<close>

definition log_quiet :: "nat \<Rightarrow> (u32 \<Rightarrow> u8 list) \<Rightarrow> (u32 \<Rightarrow> u8 list) \<Rightarrow> 'a log_st_scheme \<Rightarrow> bool" where
  "log_quiet p V D s \<longleftrightarrow> cache p V D (pins s) {} s \<and> log_geom s \<and> log_list s \<and>
     get32 (D (word_of_int (log_start s))) 0 = 0"

lemma LOGSIZE_30: "LOGSIZE = 30" "NBUF = 30"
  by (simp_all add: LOGSIZE_def NBUF_def MAXOPBLOCKS_def)

lemma uint_log_block: "log_geom s \<Longrightarrow> i < LOGSIZE \<Longrightarrow> uint (log_block i s) = log_start s + int i + 1"
  unfolding log_geom_def log_block_def LOGSIZE_30 uint_word_of_int_eq by (rule take_bit_int_eq_self) simp_all

lemma uint_log_start: "log_geom s \<Longrightarrow> uint (word_of_int (log_start s) :: u32) = log_start s"
  by (simp add: log_geom_def uint_word_of_int_eq take_bit_int_eq_self LOGSIZE_30)

lemma log_block_facts:
  assumes "log_geom s" "i < LOGSIZE"
  shows "log_block i s \<in> log_area s" "unat (log_block i s) < 2 ^ 31" "log_block i s \<noteq> word_of_int (log_start s)"
    "word_of_int (log_start s) \<in> log_area s" "unat (word_of_int (log_start s) :: u32) < 2 ^ 31"
proof -
  note u = uint_log_block [OF assms] uint_log_start [OF assms(1)]
  have g: "0 \<le> log_start s" "log_start s + 31 < 2 ^ 31" using assms(1) by (simp_all add: log_geom_def LOGSIZE_30)
  show "log_block i s \<in> log_area s" "word_of_int (log_start s) \<in> log_area s"
    using u assms(2) by (simp_all add: log_area_def LOGSIZE_30)
  show "log_block i s \<noteq> word_of_int (log_start s)" using u by auto
  have small: "uint b < 2 ^ 31 \<Longrightarrow> unat b < 2 ^ 31" for b :: u32 by (simp add: nat_less_iff flip: nat_uint_eq)
  show "unat (log_block i s) < 2 ^ 31" "unat (word_of_int (log_start s) :: u32) < 2 ^ 31"
    using u g assms(2) by (intro small, simp add: LOGSIZE_30)+
qed

lemma logged_in: "i < nat (lh_n s) \<Longrightarrow> lh_block s i \<in> logged s"
  by (simp add: logged_def)

lemma card_logged: "log_list s \<Longrightarrow> card (logged s) = nat (lh_n s) \<and> finite (logged s)"
  by (simp add: log_list_def logged_def card_image)

lemma pins_room:
  assumes "log_list s"
  shows "room (pins s) a" "pins s a < 998"
proof -
  have "{m. pins s m \<noteq> 0} = logged s" by (auto simp: pins_def)
  moreover have "nat (lh_n s) < 30" using assms by (auto simp: log_list_def LOGSIZE_30)
  ultimately show "room (pins s) a" using card_logged [OF assms] by (simp add: room_def LOGSIZE_30)
  show "pins s a < 998" by (simp add: pins_def)
qed

section \<open>write\_log\<close>

text \<open>Blocks with the first \<open>k\<close> logged blocks copied to the log.\<close>

definition copied :: "'a log_st_scheme \<Rightarrow> (u32 \<Rightarrow> u8 list) \<Rightarrow> nat \<Rightarrow> (u32 \<Rightarrow> u8 list) \<Rightarrow> u32 \<Rightarrow> u8 list" where
  "copied s V k D = (\<lambda>m. if log_start s < uint m \<and> uint m \<le> log_start s + int k
     then V (lh_block s (nat (uint m - log_start s - 1))) else D m)"

lemma copied_0 [simp]: "copied s V 0 D = D"
  by (rule ext) (auto simp: copied_def)

lemma copied_Suc:
  assumes "log_geom s" "k < LOGSIZE"
  shows "copied s V (Suc k) D = (copied s V k D)(log_block k s := V (lh_block s k))"
proof
  fix m
  note u = uint_log_block [OF assms]
  have "uint m = log_start s + int k + 1 \<longleftrightarrow> m = log_block k s" using u by (metis word_uint_eqI)
  then show "copied s V (Suc k) D m = ((copied s V k D)(log_block k s := V (lh_block s k))) m"
    using u by (auto simp: copied_def)
qed

lemma copied_out: "m \<notin> log_area s \<Longrightarrow> k \<le> LOGSIZE \<Longrightarrow> copied s V k D m = D m"
  by (auto simp: copied_def log_area_def)

lemma copied_head: "log_geom s \<Longrightarrow> copied s V k D (word_of_int (log_start s)) = D (word_of_int (log_start s))"
  by (simp add: copied_def uint_log_start)

lemma copied_block: "log_geom s \<Longrightarrow> i < k \<Longrightarrow> k \<le> LOGSIZE \<Longrightarrow> copied s V k D (log_block i s) = V (lh_block s i)"
  by (simp add: copied_def uint_log_block)

lemma write_log_loop_cache:
  assumes "k + length is \<le> nat (lh_n s)" "is = [k..<k + length is]" "log_geom s" "log_list s"
    and "cache p (copied s V k V) (copied s V k D) (pins s) {} t" "disk_only s t"
  shows "\<exists>u. write_log_loop is t = Done () u \<and>
    cache p (copied s V (k + length is) V) (copied s V (k + length is) D) (pins s) {} u \<and> disk_only s u"
  using assms
proof (induction "is" arbitrary: k t)
  case Nil
  then show ?case by simp
next
  case (Cons i "is")
  have i: "i = k" "is = [Suc k..<Suc k + length is]" using Cons.prems(2) by (simp_all add: upt_rec)
  have k: "k < nat (lh_n s)" "k < LOGSIZE" using Cons.prems(1,4) by (auto simp: log_list_def LOGSIZE_30)
  note g = log_block_facts [OF Cons.prems(3) k(2)] and o = disk_only_log [OF Cons.prems(6)]
  let ?a = "log_block k s" and ?b = "lh_block s k"
  have b: "?b \<in> logged s" using logged_in [OF k(1)] .
  have bo: "?b \<notin> log_area s" "unat ?b < 2 ^ 31" using b Cons.prems(4) by (auto simp: log_list_def)
  have Vb: "copied s V k V ?b = V ?b" using copied_out [OF bo(1)] k(2) by simp
  have "\<exists>u. write_log_loop (i # is) t = write_log_loop is u \<and>
      cache p ((copied s V k V)(?a := copied s V k V ?b)) ((copied s V k D)(?a := copied s V k V ?b)) (pins s) {} u \<and> disk_only t u"
    unfolding i(1)
  proof (rule write_log_step [OF Cons.prems(5)])
    show "word_of_int (log_dev t) = ROOTDEV" using Cons.prems(3) o(5) by (simp add: log_geom_def)
    show "log_block k t = ?a" "lh_block t k = ?b" using o by simp_all
    show "pins s ?b \<noteq> 0" using b by (simp add: pins_def)
    show "?a \<noteq> ?b" using g(1) bo(1) by auto
  qed (use g(2) bo(2) pins_room [OF Cons.prems(4)] in simp_all)
  then obtain u where u: "write_log_loop (i # is) t = write_log_loop is u"
    "cache p (copied s V (Suc k) V) (copied s V (Suc k) D) (pins s) {} u" "disk_only t u"
    unfolding Vb copied_Suc [OF Cons.prems(3) k(2)] by blast
  have "\<exists>v. write_log_loop is u = Done () v \<and>
    cache p (copied s V (Suc k + length is) V) (copied s V (Suc k + length is) D) (pins s) {} v \<and> disk_only s v"
    using Cons.IH [of "Suc k" u] Cons.prems i(2) u(2) disk_only_trans [OF Cons.prems(6) u(3)] by simp
  then show ?case using u(1) by simp
qed

section \<open>install\_trans\<close>

text \<open>Blocks with the first \<open>k\<close> logged blocks replaced, and the pins that are left.\<close>

definition over :: "'a log_st_scheme \<Rightarrow> (u32 \<Rightarrow> u8 list) \<Rightarrow> nat \<Rightarrow> (u32 \<Rightarrow> u8 list) \<Rightarrow> u32 \<Rightarrow> u8 list" where
  "over s Y k D = (\<lambda>m. if m \<in> lh_block s ` {..<k} then Y m else D m)"

definition left_pins :: "'a log_st_scheme \<Rightarrow> bool \<Rightarrow> nat \<Rightarrow> u32 \<Rightarrow> nat" where
  "left_pins s recovering k = (\<lambda>m. if \<not> recovering \<and> m \<in> lh_block s ` {k..<nat (lh_n s)} then 1 else 0)"

lemma over_0 [simp]: "over s Y 0 D = D"
  by (simp add: over_def)

lemma over_Suc: "over s Y (Suc k) D = (over s Y k D)(lh_block s k := Y (lh_block s k))"
  by (rule ext) (auto simp: over_def less_Suc_eq)

lemma over_all: "over s Y (nat (lh_n s)) D m = (if m \<in> logged s then Y m else D m)"
  by (simp add: over_def logged_def)

lemma over_out:
  assumes "log_list s" "m \<in> log_area s" "k \<le> nat (lh_n s)"
  shows "over s Y k D m = D m"
proof -
  have "lh_block s ` {..<k} \<subseteq> logged s" unfolding logged_def using assms(3) by auto
  then have "m \<notin> lh_block s ` {..<k}" using assms(1,2) unfolding log_list_def by blast
  then show ?thesis by (simp add: over_def)
qed

lemma left_pins_ends:
  "left_pins s False 0 = pins s" "left_pins s False (nat (lh_n s)) = (\<lambda>_. 0)" "left_pins s True k = (\<lambda>_. 0)"
  by (auto simp: left_pins_def pins_def logged_def fun_eq_iff lessThan_atLeast0)

lemma left_pins_Suc:
  assumes "log_list s" "k < nat (lh_n s)"
  shows "left_pins s recovering (Suc k) = (left_pins s recovering k)
    (lh_block s k := if recovering then left_pins s recovering k (lh_block s k) else left_pins s recovering k (lh_block s k) - 1)"
proof -
  have inj: "lh_block s k \<notin> lh_block s ` {Suc k..<nat (lh_n s)}"
  proof
    assume "lh_block s k \<in> lh_block s ` {Suc k..<nat (lh_n s)}"
    then obtain x where "lh_block s k = lh_block s x" "Suc k \<le> x" "x < nat (lh_n s)" by auto
    moreover have "inj_on (lh_block s) {..<nat (lh_n s)}" using assms(1) by (simp add: log_list_def)
    ultimately show False using assms(2) inj_onD [of "lh_block s" "{..<nat (lh_n s)}" k x] by simp
  qed
  have "{k..<nat (lh_n s)} = insert k {Suc k..<nat (lh_n s)}" using assms(2) by auto
  then show ?thesis using inj by (auto simp: left_pins_def fun_eq_iff)
qed

lemma left_pins_room:
  assumes "log_list s" "k < nat (lh_n s)"
  shows "room (left_pins s recovering k) a" "left_pins s recovering k m < 998"
    "a \<notin> logged s \<Longrightarrow> room ((left_pins s recovering k)(a := Suc (left_pins s recovering k a))) (lh_block s k)"
    "\<not> recovering \<Longrightarrow> left_pins s recovering k (lh_block s k) \<noteq> 0"
proof -
  let ?S = "{m. left_pins s recovering k m \<noteq> 0}"
  have sub: "?S \<subseteq> logged s" by (auto simp: left_pins_def logged_def)
  have n: "nat (lh_n s) < 30" using assms by (auto simp: log_list_def LOGSIZE_30)
  note c = card_logged [OF assms(1)]
  have "finite ?S" "card ?S \<le> nat (lh_n s)" using sub c finite_subset card_mono by metis+
  then show "room (left_pins s recovering k) a" using n by (simp add: room_def LOGSIZE_30)
  show "left_pins s recovering k m < 998" by (simp add: left_pins_def)
  show pos: "left_pins s recovering k (lh_block s k) \<noteq> 0" if "\<not> recovering"
    using assms that by (simp add: left_pins_def)
  show "room ((left_pins s recovering k)(a := Suc (left_pins s recovering k a))) (lh_block s k)" if "a \<notin> logged s"
  proof (cases recovering)
    case False
    then show ?thesis using pos that logged_in [OF assms(2)] by (auto simp: room_def)
  next
    case True
    then have "{m. ((left_pins s recovering k)(a := Suc (left_pins s recovering k a))) m \<noteq> 0} = {a}"
      by (auto simp: left_pins_def)
    then show ?thesis by (simp add: room_def LOGSIZE_30)
  qed
qed

lemma install_loop_cache:
  assumes "k + length is \<le> nat (lh_n s)" "is = [k..<k + length is]" "log_geom s" "log_list s"
    and "\<And>i. i < nat (lh_n s) \<Longrightarrow> Y (lh_block s i) = V (log_block i s)"
    and "cache p (over s Y k V) (over s Y k D) (left_pins s recovering k) {} t" "disk_only s t"
  shows "\<exists>u. install_loop recovering is t = Done () u \<and>
    cache p (over s Y (k + length is) V) (over s Y (k + length is) D) (left_pins s recovering (k + length is)) {} u \<and> disk_only s u"
  using assms
proof (induction "is" arbitrary: k t)
  case Nil
  then show ?case by simp
next
  case (Cons i "is")
  have i: "i = k" "is = [Suc k..<Suc k + length is]" using Cons.prems(2) by (simp_all add: upt_rec)
  have k: "k < nat (lh_n s)" "k < LOGSIZE" using Cons.prems(1,4) by (auto simp: log_list_def LOGSIZE_30)
  note g = log_block_facts [OF Cons.prems(3) k(2)] and o = disk_only_log [OF Cons.prems(7)]
  let ?a = "log_block k s" and ?b = "lh_block s k"
  have b: "?b \<in> logged s" using logged_in [OF k(1)] .
  have bo: "?b \<notin> log_area s" "unat ?b < 2 ^ 31" and al: "?a \<notin> logged s" using b g(1) Cons.prems(4) by (auto simp: log_list_def)
  have Va: "over s Y k V ?a = Y ?b" using over_out [OF Cons.prems(4) g(1)] k(1) Cons.prems(5) by simp
  note room = left_pins_room [OF Cons.prems(4) k(1)]
  have "\<exists>u. install_loop recovering (i # is) t = install_loop recovering is u \<and>
      cache p ((over s Y k V)(?b := over s Y k V ?a)) ((over s Y k D)(?b := over s Y k V ?a))
        ((left_pins s recovering k)(?b := if recovering then left_pins s recovering k ?b else left_pins s recovering k ?b - 1)) {} u \<and> disk_only t u"
    unfolding i(1)
  proof (rule install_step [OF Cons.prems(6)])
    show "word_of_int (log_dev t) = ROOTDEV" using Cons.prems(3) o(5) by (simp add: log_geom_def)
    show "log_block k t = ?a" "lh_block t k = ?b" using o by simp_all
    show "?a \<noteq> ?b" using g(1) bo(1) by auto
    show "room ((left_pins s recovering k)(?a := Suc (left_pins s recovering k ?a))) ?b" by (rule room(3) [OF al])
  qed (use g(2) bo(2) room(1,2,4) in simp_all)
  then obtain u where u: "install_loop recovering (i # is) t = install_loop recovering is u"
    "cache p (over s Y (Suc k) V) (over s Y (Suc k) D) (left_pins s recovering (Suc k)) {} u" "disk_only t u"
    unfolding Va over_Suc left_pins_Suc [OF Cons.prems(4) k(1)] by blast
  have "\<exists>v. install_loop recovering is u = Done () v \<and> cache p (over s Y (Suc k + length is) V)
      (over s Y (Suc k + length is) D) (left_pins s recovering (Suc k + length is)) {} v \<and> disk_only s v"
    using Cons.IH [of "Suc k" u] Cons.prems i(2) u(2) disk_only_trans [OF Cons.prems(7) u(3)] by simp
  then show ?case using u(1) by simp
qed

section \<open>commit, stage by stage\<close>

text \<open>
  The work of a commit up to a point between two writes to the disk: \<open>k\<close> blocks are copied to the log;
  or the header is written and \<open>k\<close> blocks are installed; or the transaction is erased again.
\<close>

datatype commit_stage = Copying nat | Installing nat | Erased

fun commit_until :: "commit_stage \<Rightarrow> 'a log_st_scheme \<Rightarrow> (unit, 'a log_st_scheme) out" where
  "commit_until (Copying k) s = write_log_loop [0..<k] s"
| "commit_until (Installing k) s =
     bnd (write_log s) (\<lambda>_ s1. bnd (write_head s1) (\<lambda>_ s2. install_loop False [0..<k] s2))"
| "commit_until Erased s = commit s"

fun stage_ok :: "commit_stage \<Rightarrow> nat \<Rightarrow> bool" where
  "stage_ok (Copying k) n = (k \<le> n)"
| "stage_ok (Installing k) n = (k \<le> n)"
| "stage_ok Erased n = True"

fun committed :: "commit_stage \<Rightarrow> bool" where
  "committed (Copying k) = False"
| "committed _ = True"

definition header_of :: "'a log_st_scheme \<Rightarrow> u8 list \<Rightarrow> u8 list" where
  "header_of s bs = head_blocks (lh_block s) (nat (lh_n s)) (put32 bs 0 (word_of_int (lh_n s)))"

lemma cache_log_upd [simp]:
  "cache p V D R H (s\<lparr>lh_n := n\<rparr>) = cache p V D R H s" "cache p V D R H (s\<lparr>lh_block := f\<rparr>) = cache p V D R H s"
proof -
  have "blk (s\<lparr>lh_n := n\<rparr>) m = blk s m" "blk (s\<lparr>lh_block := f\<rparr>) m = blk s m" for m
    by (simp_all add: blk_def cong: option.case_cong if_cong)
  then show "cache p V D R H (s\<lparr>lh_n := n\<rparr>) = cache p V D R H s" "cache p V D R H (s\<lparr>lh_block := f\<rparr>) = cache p V D R H s"
    by (simp_all add: cache_def disk_ready_def alone_def holds_def)
qed

lemma copying_cache:
  assumes "log_quiet p V D s" "k \<le> nat (lh_n s)"
  shows "\<exists>t. write_log_loop [0..<k] s = Done () t \<and> cache p (copied s V k V) (copied s V k D) (pins s) {} t \<and> disk_only s t"
  using write_log_loop_cache [of 0 "[0..<k]" s p V D s] assms disk_only_refl [of s] by (simp add: log_quiet_def)

text \<open>The contents after the header is written: those seen through the cache, and those of the disk.\<close>

definition headed :: "'a log_st_scheme \<Rightarrow> (u32 \<Rightarrow> u8 list) \<Rightarrow> (u32 \<Rightarrow> u8 list) \<Rightarrow> u32 \<Rightarrow> u8 list" where
  "headed s V D = (copied s V (nat (lh_n s)) D)
     (word_of_int (log_start s) := header_of s (V (word_of_int (log_start s))))"

lemma headed_cache:
  assumes q: "log_quiet p V D s"
  shows "\<exists>t. bnd (write_log s) (\<lambda>_ s1. write_head s1) = Done () t \<and> cache p (headed s V V) (headed s V D) (pins s) {} t \<and> disk_only s t"
proof -
  have g: "log_geom s" "log_list s" using q by (simp_all add: log_quiet_def)
  let ?hb = "word_of_int (log_start s) :: u32" and ?n = "nat (lh_n s)"
  obtain s1 where 1: "write_log_loop [0..<?n] s = Done () s1" "cache p (copied s V ?n V) (copied s V ?n D) (pins s) {} s1" "disk_only s s1"
    using copying_cache [OF q order_refl] by blast
  note o = disk_only_log [OF 1(3)]
  have hb: "unat ?hb < 2 ^ 31" using log_block_facts(5) [OF g(1), of 0] by (simp add: LOGSIZE_30)
  have "\<exists>t. write_head s1 = Done () t \<and>
    cache p ((copied s V ?n V)(?hb := head_blocks (lh_block s1) (nat (lh_n s1)) (put32 (copied s V ?n V ?hb) 0 (word_of_int (lh_n s1)))))
      ((copied s V ?n D)(?hb := head_blocks (lh_block s1) (nat (lh_n s1)) (put32 (copied s V ?n V ?hb) 0 (word_of_int (lh_n s1)))))
      (pins s) {} t \<and> disk_only s1 t"
    using g o hb pins_room [OF g(2)] by (intro write_head_step [OF 1(2)]) (simp_all add: log_geom_def log_list_def)
  then obtain t where t: "write_head s1 = Done () t" "cache p (headed s V V) (headed s V D) (pins s) {} t" "disk_only s1 t"
    unfolding headed_def header_of_def o copied_head [OF g(1)] by blast
  then show ?thesis using 1 disk_only_trans [OF 1(3) t(3)] by (auto simp: write_log_def)
qed

lemma installing_cache:
  assumes q: "log_quiet p V D s" and k: "k \<le> nat (lh_n s)"
  shows "\<exists>t. commit_until (Installing k) s = Done () t \<and>
    cache p (headed s V V) (over s V k (headed s V D)) (left_pins s False k) {} t \<and> disk_only s t"
proof -
  have g: "log_geom s" "log_list s" using q by (simp_all add: log_quiet_def)
  obtain s2 where 2: "bnd (write_log s) (\<lambda>_ s1. write_head s1) = Done () s2"
    "cache p (headed s V V) (headed s V D) (pins s) {} s2" "disk_only s s2" using headed_cache [OF q] by blast
  have n: "nat (lh_n s) \<le> LOGSIZE" using g(2) by (simp add: log_list_def nat_le_iff)
  have lb: "V (lh_block s i) = headed s V V (log_block i s)" if "i < nat (lh_n s)" for i
    using that n log_block_facts(3) [OF g(1), of i] copied_block [OF g(1) that n] by (simp add: headed_def)
  have "\<exists>u. install_loop False [0..<k] s2 = Done () u \<and>
    cache p (over s V (0 + length [0..<k]) (headed s V V)) (over s V (0 + length [0..<k]) (headed s V D))
      (left_pins s False (0 + length [0..<k])) {} u \<and> disk_only s u"
    using k 2(2,3) g lb by (intro install_loop_cache) (simp_all add: left_pins_ends)
  then obtain u where u: "install_loop False [0..<k] s2 = Done () u"
    "cache p (over s V k (headed s V V)) (over s V k (headed s V D)) (left_pins s False k) {} u" "disk_only s u" by auto
  have "over s V k (headed s V V) = headed s V V"
  proof
    fix m
    show "over s V k (headed s V V) m = headed s V V m"
    proof (cases "m \<in> lh_block s ` {..<k}")
      case True
      then have "m \<in> logged s" using k by (auto simp: logged_def)
      then have "m \<notin> log_area s" using g(2) by (auto simp: log_list_def)
      moreover have "word_of_int (log_start s) \<in> log_area s" using log_block_facts(4) [OF g(1), of 0] by (simp add: LOGSIZE_30)
      ultimately show ?thesis using True copied_out [OF _ n, of m s V V] by (auto simp: over_def headed_def)
    qed (simp add: over_def)
  qed
  moreover have "commit_until (Installing k) s = Done () u"
    using 2(1) u(1) by (simp add: bnd_assoc) (auto simp: out_conv)
  ultimately show ?thesis using u by auto
qed

lemma erased_cache:
  assumes q: "log_quiet p V D s" and pos: "0 < lh_n s"
  defines "hb \<equiv> word_of_int (log_start s)"
  defines "h \<equiv> put32 (header_of s (V hb)) 0 0"
  shows "\<exists>t. commit s = Done () t \<and> cache p ((headed s V V)(hb := h)) ((over s V (nat (lh_n s)) (headed s V D))(hb := h)) (\<lambda>_. 0) {} t \<and>
    lh_n t = 0 \<and> log_start t = log_start s \<and> log_dev t = log_dev s \<and> log_size t = log_size s \<and> outstanding t = outstanding s"
proof -
  have g: "log_geom s" "log_list s" using q by (simp_all add: log_quiet_def)
  obtain s3 where 3: "commit_until (Installing (nat (lh_n s))) s = Done () s3"
    "cache p (headed s V V) (over s V (nat (lh_n s)) (headed s V D)) (\<lambda>_. 0) {} s3" "disk_only s s3"
    using installing_cache [OF q order_refl] by (auto simp: left_pins_ends)
  note o = disk_only_log [OF 3(3)]
  let ?s = "s3\<lparr>lh_n := 0\<rparr>"
  have hb: "unat hb < 2 ^ 31" using log_block_facts(5) [OF g(1), of 0] by (simp add: LOGSIZE_30 hb_def)
  have V: "headed s V V hb = header_of s (V hb)" by (simp add: headed_def hb_def)
  have "\<exists>t. write_head ?s = Done () t \<and>
    cache p ((headed s V V)(hb := head_blocks (lh_block ?s) (nat (lh_n ?s)) (put32 (headed s V V hb) 0 (word_of_int (lh_n ?s)))))
      ((over s V (nat (lh_n s)) (headed s V D))(hb := head_blocks (lh_block ?s) (nat (lh_n ?s)) (put32 (headed s V V hb) 0 (word_of_int (lh_n ?s)))))
      (\<lambda>_. 0) {} t \<and> disk_only ?s t"
    using g o hb 3(2) by (intro write_head_step) (simp_all add: log_geom_def room_def LOGSIZE_30 hb_def)
  then obtain t where t: "write_head ?s = Done () t" "disk_only ?s t"
    "cache p ((headed s V V)(hb := h)) ((over s V (nat (lh_n s)) (headed s V D))(hb := h)) (\<lambda>_. 0) {} t"
    unfolding V h_def by auto
  note ot = disk_only_log [OF t(2)]
  obtain s2 where 2: "bnd (write_log s) (\<lambda>_ s1. write_head s1) = Done () s2" "disk_only s s2" using headed_cache [OF q] by blast
  then obtain s1 where s1: "write_log s = Done () s1" "write_head s1 = Done () s2" by (auto simp: out_conv)
  have "install_loop False [0..<nat (lh_n s)] s2 = Done () s3" using 3(1) s1 by simp
  then have "commit s = Done () t"
    using s1 t(1) pos disk_only_log(6) [OF 2(2)] by (simp add: commit_def install_trans_def)
  then show ?thesis using t(3) ot o by auto
qed

section \<open>Recovery\<close>

lemma read_head_cache:
  assumes c: "cache p W D R {} s" and dev: "word_of_int (log_dev s) = ROOTDEV"
    and a: "word_of_int (log_start s) = a" "unat a < 2 ^ 31" "room R a" "R a < 998"
  shows "\<exists>t. read_head s = Done () t \<and> cache p W D R {} t \<and> lh_n t = sint (get32 (W a) 0) \<and>
    (\<forall>i < nat (lh_n t). lh_block t i = get32 (W a) (4 + 4 * i)) \<and> log_start t = log_start s \<and> log_dev t = log_dev s"
proof -
  obtain x s1 where 1: "bread ROOTDEV a s = Done x s1" "cache p W D (R(a := Suc (R a))) {a} s1" "at s1 x a" "kept s s1"
    using bread_cache [OF c _ a(3,2)] a(4) by auto
  note o1 = disk_only_log [OF kept_only [OF 1(4)]]
  have V: "b_data (bufs s1 x) = W a" using at_buf [OF 1(2,3)] by simp
  let ?n = "sint (get32 (W a) 0)"
  let ?f = "\<lambda>i. if i < nat ?n then get32 (W a) (4 + 4 * i) else lh_block s1 i"
  define s2 where "s2 = s1\<lparr>lh_n := ?n, lh_block := ?f\<rparr>"
  have 2: "cache p W D (R(a := Suc (R a))) {a} s2" "at s2 x a" using 1(2,3) by (simp_all add: s2_def at_def)
  have cl: "R a = 0 \<Longrightarrow> W a = D a" by (rule cache_clean [OF c])
  obtain t where t: "brelse x s2 = Done () t" "cache p W D (R(a := R a)) {} t" "kept s2 t"
    using brelse_cache [OF 2] cl by auto
  note ot = disk_only_log [OF kept_only [OF t(3)]]
  have "read_head s = Done () t" using 1(1) t(1) V unfolding read_head_def dev a(1) by (simp add: s2_def Let_def cong: if_cong)
  then show ?thesis using t(2) ot o1 by (auto simp: s2_def)
qed

text \<open>
  Recovery from the contents \<open>W\<close>: if the header lists the blocks of \<open>Y\<close>, each block in the list gets the
  contents that its copy in the log has.
\<close>

definition header_lists :: "'a log_st_scheme \<Rightarrow> (u32 \<Rightarrow> u8 list) \<Rightarrow> nat \<Rightarrow> (nat \<Rightarrow> u32) \<Rightarrow> bool" where
  "header_lists s W n f \<longleftrightarrow> get32 (W (word_of_int (log_start s))) 0 = of_nat n \<and>
     (\<forall>i < n. get32 (W (word_of_int (log_start s))) (4 + 4 * i) = f i)"

lemma recover_cache:
  assumes c: "cache p W W (\<lambda>_. 0) {} s" and g: "log_geom s" and h: "header_lists s W n f" "n < LOGSIZE"
    and f: "inj_on f {..<n}" "f ` {..<n} \<inter> log_area s = {}" "\<And>i. i < n \<Longrightarrow> unat (f i) < 2 ^ 31"
    and Y: "\<And>i. i < n \<Longrightarrow> Y (f i) = W (log_block i s)"
  shows "\<exists>t W'. recover_from_log s = Done () t \<and> cache p W' W' (\<lambda>_. 0) {} t \<and> lh_n t = 0 \<and>
    (\<forall>m. m \<noteq> word_of_int (log_start s) \<longrightarrow> W' m = (if m \<in> f ` {..<n} then Y m else W m))"
proof -
  let ?hb = "word_of_int (log_start s) :: u32"
  have hb: "unat ?hb < 2 ^ 31" using log_block_facts(5) [OF g, of 0] by (simp add: LOGSIZE_30)
  have room: "room (\<lambda>_. 0) a" for a by (simp add: room_def LOGSIZE_30)
  have dev: "word_of_int (log_dev s) = ROOTDEV" using g by (simp add: log_geom_def)
  obtain s1 where 1: "read_head s = Done () s1" "cache p W W (\<lambda>_. 0) {} s1" "lh_n s1 = sint (get32 (W ?hb) 0)"
    "\<forall>i < nat (lh_n s1). lh_block s1 i = get32 (W ?hb) (4 + 4 * i)" "log_start s1 = log_start s" "log_dev s1 = log_dev s"
    using read_head_cache [OF c dev refl hb room] by auto
  have "sint (of_nat n :: u32) = int n"
    using h(2) by (simp add: sint_uint unsigned_of_nat take_bit_nat_eq_self signed_take_bit_int_eq_self LOGSIZE_30)
  then have n: "lh_n s1 = int n" using 1(3) h(1) by (simp add: header_lists_def)
  have blk: "lh_block s1 i = f i" if "i < n" for i using 1(4) n h that by (simp add: header_lists_def)
  have img: "lh_block s1 ` {..<n} = f ` {..<n}" using blk by auto
  have g1: "log_geom s1" and area: "log_area s1 = log_area s" and lb: "log_block i s1 = log_block i s" for i
    using g 1(5,6) by (simp_all add: log_geom_def log_area_def log_block_def)
  have "inj_on (lh_block s1) {..<n}" using f(1) blk by (auto simp: inj_on_def)
  then have l1: "log_list s1" using f(2,3) h(2) n img area by (auto simp: log_list_def logged_def)
  have "\<exists>u. install_loop True [0..<n] s1 = Done () u \<and> cache p (over s1 Y (0 + length [0..<n]) W) (over s1 Y (0 + length [0..<n]) W)
      (left_pins s1 True (0 + length [0..<n])) {} u \<and> disk_only s1 u"
    using 1(2) n Y blk lb disk_only_refl [of s1] g1 l1 by (intro install_loop_cache) (simp_all add: left_pins_ends)
  then obtain s2 where 2: "install_loop True [0..<n] s1 = Done () s2" "cache p (over s1 Y n W) (over s1 Y n W) (\<lambda>_. 0) {} s2" "disk_only s1 s2"
    by (auto simp: left_pins_ends)
  note o = disk_only_log [OF 2(3)]
  let ?s = "s2\<lparr>lh_n := 0\<rparr>"
  let ?h = "head_blocks (lh_block ?s) (nat (lh_n ?s)) (put32 (over s1 Y n W ?hb) 0 (word_of_int (lh_n ?s)))"
  have "\<exists>t. write_head ?s = Done () t \<and> cache p ((over s1 Y n W)(?hb := ?h)) ((over s1 Y n W)(?hb := ?h)) (\<lambda>_. 0) {} t \<and> disk_only ?s t"
    using 1(5,6) o hb dev 2(2) room by (intro write_head_step) simp_all
  then obtain t where t: "write_head ?s = Done () t" "cache p ((over s1 Y n W)(?hb := ?h)) ((over s1 Y n W)(?hb := ?h)) (\<lambda>_. 0) {} t"
    "disk_only ?s t" by blast
  have "recover_from_log s = Done () t" using 1(1) 2(1) t(1) n by (simp add: recover_from_log_def install_trans_def)
  moreover have "lh_n t = 0" using disk_only_log(6) [OF t(3)] by simp
  moreover have "\<forall>m. m \<noteq> ?hb \<longrightarrow> ((over s1 Y n W)(?hb := ?h)) m = (if m \<in> f ` {..<n} then Y m else W m)"
    by (simp add: over_def img)
  ultimately show ?thesis using t(2) by blast
qed

section \<open>Crash safety\<close>

text \<open>The kernel has come up again on the disk that \<open>t\<close> left: nothing is cached.\<close>

definition booted :: "nat \<Rightarrow> 'b disk_st_scheme \<Rightarrow> 'a disk_st_scheme \<Rightarrow> bool" where
  "booted p t u \<longleftrightarrow> disk_ready p u \<and> platter u = platter t \<and> (\<forall>n. find_buf (bufs u) n = None) \<and>
     (\<forall>b < NBUF. b_refcnt (bufs u b) = 0)"

lemma booted_cache:
  assumes "booted p t u" "cache q V D R H t"
  shows "cache p D D (\<lambda>_. 0) {} u"
proof -
  have "disk_block (platter u) (unat n) = D n" for n using assms cacheD(4) [OF assms(2)] by (simp add: booted_def)
  then show ?thesis using assms(1) by (simp add: booted_def cache_def blk_def refs_def)
qed

lemma cache_initlog:
  assumes "cache p V D R H u"
  shows "cache p V D R H ((initlock LogLock nm u)\<lparr>log_start := a, log_size := b, log_dev := c\<rparr>)"
proof -
  let ?t = "(initlock LogLock nm u)\<lparr>log_start := a, log_size := b, log_dev := c\<rparr>"
  have f: "bufs ?t = bufs u" "platter ?t = platter u" "vdisk ?t = vdisk u" "device ?t = device u" "sleeplocks ?t = sleeplocks u"
    "procs ?t = procs u" by (simp_all add: initlock_def)
  have "alone p u" using cacheD(1) [OF assms] by (simp add: disk_ready_def)
  then have "alone p ?t" by (simp add: alone_def initlock_def free_lock_def cpu_ok_def cpu_defs intr_defs fun_upd_def)
  then have "disk_ready p ?t" using cacheD(1) [OF assms] by (simp add: disk_ready_def f)
  moreover have "blk ?t n = blk u n" for n by (simp add: blk_def f cong: option.case_cong if_cong)
  moreover have "holds p ?t e = holds p u e" for e by (simp add: holds_def f)
  ultimately show ?thesis using assms unfolding cache_def f by simp
qed

lemma initlog_cache:
  assumes c: "cache p W W (\<lambda>_. 0) {} u" and g: "log_geom s" "sint (sb_logstart sb) = log_start s" and h: "header_lists s W n f" "n < LOGSIZE"
    and f: "inj_on f {..<n}" "f ` {..<n} \<inter> log_area s = {}" "\<And>i. i < n \<Longrightarrow> unat (f i) < 2 ^ 31"
    and Y: "\<And>i. i < n \<Longrightarrow> Y (f i) = W (log_block i s)"
  shows "\<exists>v X. initlog (sint ROOTDEV) sb u = Done () v \<and> cache p X X (\<lambda>_. 0) {} v \<and> lh_n v = 0 \<and>
    (\<forall>m. m \<notin> log_area s \<longrightarrow> X m = (if m \<in> f ` {..<n} then Y m else W m))"
proof -
  let ?u = "(initlock LogLock ''log'' u)\<lparr>log_start := sint (sb_logstart sb), log_size := sint (sb_nlog sb), log_dev := sint ROOTDEV\<rparr>"
  have geo: "log_geom ?u" "log_area ?u = log_area s" "log_block i ?u = log_block i s" "header_lists ?u W n f" for i
    using g h by (simp_all add: log_geom_def log_area_def log_block_def header_lists_def ROOTDEV_def)
  obtain v X where r: "recover_from_log ?u = Done () v" "cache p X X (\<lambda>_. 0) {} v" "lh_n v = 0"
    "\<forall>m. m \<noteq> word_of_int (log_start ?u) \<longrightarrow> X m = (if m \<in> f ` {..<n} then Y m else W m)"
    using recover_cache [OF cache_initlog [OF c] geo(1,4) h(2) f(1) _ f(3)] f(2) geo(2,3) Y by metis
  have "word_of_int (log_start ?u) \<in> log_area s" using log_block_facts(4) [OF geo(1), of 0] geo(2) by (simp add: LOGSIZE_30)
  moreover have "initlog (sint ROOTDEV) sb u = Done () v" using r(1) by (simp add: initlog_def LOGSIZE_30 BSIZE_def)
  moreover have "X m = (if m \<in> f ` {..<n} then Y m else W m)" if "m \<notin> log_area s" for m
    using r(4) that calculation(1) by metis
  ultimately show ?thesis using r(2,3) by blast
qed

text \<open>What recovery finds at each stage.\<close>

lemma quiet_unlogged: "log_quiet p V D s \<Longrightarrow> m \<notin> logged s \<Longrightarrow> V m = D m"
  using cache_clean [of p V D "pins s" "{}" s m] by (simp add: log_quiet_def pins_def)

lemma header_of_get:
  assumes "length bs = BSIZE" "log_list s"
  shows "get32 (header_of s bs) 0 = of_nat (nat (lh_n s))" "i < nat (lh_n s) \<Longrightarrow> get32 (header_of s bs) (4 + 4 * i) = lh_block s i"
    "length (header_of s bs) = BSIZE"
proof -
  have n: "nat (lh_n s) \<le> LOGSIZE" "0 \<le> lh_n s" using assms(2) by (simp_all add: log_list_def nat_le_iff)
  have len: "length (put32 bs 0 (word_of_int (lh_n s))) = BSIZE" using assms(1) by (simp add: BSIZE_def)
  show "get32 (header_of s bs) 0 = of_nat (nat (lh_n s))"
    using head_blocks_get(2) [OF len n(1), of "lh_block s"] assms(1) n(2) by (simp add: header_of_def BSIZE_def)
  show "i < nat (lh_n s) \<Longrightarrow> get32 (header_of s bs) (4 + 4 * i) = lh_block s i"
    using head_blocks_get(3) [OF len n(1)] by (simp add: header_of_def)
  show "length (header_of s bs) = BSIZE" using head_blocks_get(1) [OF len n(1)] by (simp add: header_of_def)
qed

lemma crash_copying:
  assumes q: "log_quiet p V D s" and k: "k \<le> nat (lh_n s)" and sb: "sint (sb_logstart sb) = log_start s"
    and c: "cache p (copied s V k D) (copied s V k D) (\<lambda>_. 0) {} u"
  shows "\<exists>v X. initlog (sint ROOTDEV) sb u = Done () v \<and> cache p X X (\<lambda>_. 0) {} v \<and> lh_n v = 0 \<and> (\<forall>m. m \<notin> log_area s \<longrightarrow> X m = D m)"
proof -
  have g: "log_geom s" "log_list s" using q by (simp_all add: log_quiet_def)
  have kl: "k \<le> LOGSIZE" using k g(2) by (auto simp: log_list_def LOGSIZE_30)
  have "header_lists s (copied s V k D) 0 (\<lambda>_. 0)" using q copied_head [OF g(1)] by (simp add: header_lists_def log_quiet_def)
  from initlog_cache [OF c g(1) sb this, of D] obtain v X where
    "initlog (sint ROOTDEV) sb u = Done () v" "cache p X X (\<lambda>_. 0) {} v" "lh_n v = 0"
    "\<forall>m. m \<notin> log_area s \<longrightarrow> X m = copied s V k D m" by (auto simp: LOGSIZE_30)
  then show ?thesis using copied_out [OF _ kl] by (intro exI [of _ v] exI [of _ X]) auto
qed

lemma headed_out:
  assumes "log_geom s" "log_list s" "m \<notin> log_area s"
  shows "headed s V D m = D m"
proof -
  have "word_of_int (log_start s) \<in> log_area s" using log_block_facts(4) [OF assms(1), of 0] by (simp add: LOGSIZE_30)
  then have "m \<noteq> word_of_int (log_start s)" using assms(3) by auto
  moreover have "nat (lh_n s) \<le> LOGSIZE" using assms(2) by (simp add: log_list_def nat_le_iff)
  ultimately show ?thesis using copied_out [OF assms(3)] by (simp add: headed_def)
qed

lemma crash_installing:
  assumes q: "log_quiet p V D s" and k: "k \<le> nat (lh_n s)" and sb: "sint (sb_logstart sb) = log_start s"
    and c: "cache p (over s V k (headed s V D)) (over s V k (headed s V D)) (\<lambda>_. 0) {} u"
  shows "\<exists>v X. initlog (sint ROOTDEV) sb u = Done () v \<and> cache p X X (\<lambda>_. 0) {} v \<and> lh_n v = 0 \<and> (\<forall>m. m \<notin> log_area s \<longrightarrow> X m = V m)"
proof -
  have g: "log_geom s" "log_list s" and cq: "cache p V D (pins s) {} s" using q by (simp_all add: log_quiet_def)
  let ?hb = "word_of_int (log_start s) :: u32" and ?n = "nat (lh_n s)" and ?W = "over s V k (headed s V D)"
  have n: "?n < LOGSIZE" "?n \<le> LOGSIZE" using g(2) by (auto simp: log_list_def LOGSIZE_30)
  have area: "?hb \<in> log_area s" using log_block_facts(4) [OF g(1), of 0] by (simp add: LOGSIZE_30)
  have W: "?W m = headed s V D m" if "m \<in> log_area s" for m using over_out [OF g(2) that k] .
  note hg = header_of_get [OF cache_length [OF cq] g(2)]
  have "header_lists s ?W ?n (lh_block s)" using W [OF area] hg by (simp add: header_lists_def headed_def)
  moreover have "V (lh_block s i) = ?W (log_block i s)" if "i < ?n" for i
    using W [OF log_block_facts(1) [OF g(1)], of i] log_block_facts(3) [OF g(1), of i] copied_block [OF g(1) that n(2)] that n
    by (simp add: headed_def)
  ultimately obtain v X where v: "initlog (sint ROOTDEV) sb u = Done () v" "cache p X X (\<lambda>_. 0) {} v" "lh_n v = 0"
    "\<forall>m. m \<notin> log_area s \<longrightarrow> X m = (if m \<in> lh_block s ` {..<?n} then V m else ?W m)"
    using initlog_cache [OF c g(1) sb, of ?n "lh_block s" V] n(1) g(2) by (auto simp: log_list_def logged_def)
  have "(if m \<in> lh_block s ` {..<?n} then V m else ?W m) = V m" if "m \<notin> log_area s" for m
  proof (cases "m \<in> logged s")
    case False
    then have "m \<notin> lh_block s ` {..<k}" using k by (auto simp: logged_def)
    then show ?thesis using quiet_unlogged [OF q False] headed_out [OF g that] by (simp add: over_def)
  qed (simp add: logged_def)
  then show ?thesis using v by (intro exI [of _ v] exI [of _ X]) auto
qed

lemma crash_erased:
  assumes q: "log_quiet p V D s" and sb: "sint (sb_logstart sb) = log_start s"
  defines "hb \<equiv> word_of_int (log_start s)"
  assumes c: "cache p ((over s V (nat (lh_n s)) (headed s V D))(hb := put32 (header_of s (V hb)) 0 0))
      ((over s V (nat (lh_n s)) (headed s V D))(hb := put32 (header_of s (V hb)) 0 0)) (\<lambda>_. 0) {} u"
  shows "\<exists>v X. initlog (sint ROOTDEV) sb u = Done () v \<and> cache p X X (\<lambda>_. 0) {} v \<and> lh_n v = 0 \<and> (\<forall>m. m \<notin> log_area s \<longrightarrow> X m = V m)"
proof -
  have g: "log_geom s" "log_list s" and cq: "cache p V D (pins s) {} s" using q by (simp_all add: log_quiet_def)
  let ?W = "(over s V (nat (lh_n s)) (headed s V D))(hb := put32 (header_of s (V hb)) 0 0)"
  have "get32 (put32 (header_of s (V hb)) 0 0) 0 = 0" using header_of_get(3) [OF cache_length [OF cq] g(2)] by (simp add: BSIZE_def)
  then have "header_lists s ?W 0 (\<lambda>_. 0)" by (simp add: header_lists_def hb_def)
  from initlog_cache [OF c g(1) sb this, of D] obtain v X where
    v: "initlog (sint ROOTDEV) sb u = Done () v" "cache p X X (\<lambda>_. 0) {} v" "lh_n v = 0" "\<forall>m. m \<notin> log_area s \<longrightarrow> X m = ?W m"
    by (auto simp: LOGSIZE_30)
  have "?W m = V m" if "m \<notin> log_area s" for m
  proof -
    have "m \<noteq> hb" using that log_block_facts(4) [OF g(1), of 0] by (auto simp: hb_def LOGSIZE_30)
    then show ?thesis using over_all [of s V "headed s V D" m] quiet_unlogged [OF q] headed_out [OF g that] by simp
  qed
  then show ?thesis using v by (intro exI [of _ v] exI [of _ X]) auto
qed

section \<open>log\_write\<close>

lemma log_scan_spec:
  "i \<le> log_scan n f k i \<and> log_scan n f k i \<le> i + k \<and> n \<notin> f ` {i..<log_scan n f k i} \<and>
   (log_scan n f k i < i + k \<longrightarrow> f (log_scan n f k i) = n)"
proof (induction k arbitrary: i)
  case (Suc k)
  have "{i..<j} = insert i {Suc i..<j}" if "Suc i \<le> j" for j using that by auto
  then show ?case using Suc.IH [of "Suc i"] by auto
qed simp

lemma log_scan_logged:
  fixes n :: u32
  assumes "0 \<le> lh_n s"
  defines "i \<equiv> log_scan n (lh_block s) (nat (lh_n s)) 0"
  shows "n \<in> logged s \<Longrightarrow> i < nat (lh_n s) \<and> lh_block s i = n" "n \<notin> logged s \<Longrightarrow> i = nat (lh_n s)"
proof -
  have sp: "i \<le> nat (lh_n s)" "n \<notin> lh_block s ` {0..<i}" "i < nat (lh_n s) \<longrightarrow> lh_block s i = n"
    using log_scan_spec [of 0 n "lh_block s" "nat (lh_n s)"] by (simp_all add: i_def)
  have all: "i = nat (lh_n s) \<Longrightarrow> n \<notin> logged s" using sp(2) by (simp add: logged_def atLeast0LessThan)
  show "i < nat (lh_n s) \<and> lh_block s i = n" if "n \<in> logged s" using sp all that by linarith
  show "i = nat (lh_n s)" if "n \<notin> logged s" using sp that logged_in [of i s] by fastforce
qed

text \<open>A new block is appended and pinned; a block that is in the log already changes nothing.\<close>

lemma log_write_eq:
  fixes b :: nat
  assumes al: "alone p s" and n: "0 \<le> lh_n s" "lh_n s < int LOGSIZE" "lh_n s < log_size s - 1" "1 \<le> outstanding s"
  defines "m \<equiv> b_blockno (bufs s b)"
  shows "log_write b s = Done () (if m \<in> logged s then settle s
    else (settle s)\<lparr>bufs := (bufs s)(b := (bufs s b)\<lparr>b_refcnt := b_refcnt (bufs s b) + 1\<rparr>),
           lh_n := lh_n s + 1, lh_block := (lh_block s)(nat (lh_n s) := m)\<rparr>)"
proof -
  have free: "free_lock s LogLock" "free_lock s BcacheLock" "cpu_ok s" using al by (simp_all add: alone_def)
  let ?i = "log_scan m (lh_block s) (nat (lh_n s)) 0"
  note sc = log_scan_logged [OF n(1), of m]
  have pin: "bpin b (lock_on LogLock t) = Done () (lock_on LogLock (t\<lparr>bufs := (bufs t)(b := (bufs t b)\<lparr>b_refcnt := b_refcnt (bufs t b) + 1\<rparr>)\<rparr>))"
    if "cpu_ok t" "free_lock t BcacheLock" for t :: "'a log_st_scheme"
    using that by (simp add: bpin_def acquire_free release_lock_on lock_on_ok set_buf_def)
  show ?thesis
  proof (cases "m \<in> logged s")
    case True
    then have i: "int ?i \<noteq> lh_n s" "(lh_block s)(?i := m) = lh_block s" using sc(1) by auto
    show ?thesis using n free i True by (simp add: log_write_def acquire_free release_lock_on m_def)
  next
    case False
    then have i: "?i = nat (lh_n s)" "int ?i = lh_n s" using sc(2) n(1) by auto
    show ?thesis using n free i False pin by (simp add: log_write_def acquire_free release_lock_on m_def)
  qed
qed

lemma log_write_cache:
  assumes c: "cache p V D R H s" and a: "at s b m" "m \<in> H" "R m < 999"
    and g: "log_list s" "lh_n s < log_size s - 1" "lh_n s + 1 < int LOGSIZE" "1 \<le> outstanding s" and m: "m \<notin> log_area s" "unat m < 2 ^ 31"
  shows "\<exists>t. log_write b s = Done () t \<and> cache p V D (if m \<in> logged s then R else R(m := Suc (R m))) H t \<and> at t b m \<and>
    log_list t \<and> logged t = insert m (logged s) \<and> lh_n t \<le> lh_n s + 1 \<and> log_start t = log_start s \<and> log_size t = log_size s \<and>
    log_dev t = log_dev s \<and> outstanding t = outstanding s"
proof -
  note b = at_buf [OF c a(1)]
  have al: "alone p s" using cacheD(1) [OF c] by (simp add: disk_ready_def)
  have n: "0 \<le> lh_n s" "lh_n s < int LOGSIZE" using g(1) by (simp_all add: log_list_def)
  note eq = log_write_eq [OF al n g(2,4), of b, unfolded b(3)]
  show ?thesis
  proof (cases "m \<in> logged s")
    case True
    have e: "(settle s)\<lparr>bufs := bufs s\<rparr> = settle s" by (rule disk_st.equality) simp_all
    have "cache p V D (R(m := R m)) H (settle s)" "at (settle s) b m"
      using recount_cache [OF c a(1) b(7) cacheD(6) [OF c]] cache_locked [OF c a(2)] by (simp_all add: e)
    then show ?thesis using eq True g(1) by (auto simp: log_list_def log_area_def logged_def)
  next
    case False
    let ?B = "(bufs s)(b := (bufs s b)\<lparr>b_refcnt := b_refcnt (bufs s b) + 1\<rparr>)"
    let ?t = "(settle s)\<lparr>bufs := ?B, lh_n := lh_n s + 1, lh_block := (lh_block s)(nat (lh_n s) := m)\<rparr>"
    have "unat (b_refcnt (bufs s b) + 1) = Suc (R m)" using b(7) a(3) unat_add_small [of "b_refcnt (bufs s b)" 1] by simp
    then have "cache p V D (R(m := Suc (R m))) H ((settle s)\<lparr>bufs := ?B\<rparr>)" "at ((settle s)\<lparr>bufs := ?B\<rparr>) b m"
      using recount_cache [OF c a(1), of "b_refcnt (bufs s b) + 1" "Suc (R m)"] a(3) cache_locked [OF c a(2)] by simp_all
    then have "cache p V D (R(m := Suc (R m))) H ?t" "at ?t b m" by (simp_all add: at_def)
    moreover have N: "{..<nat (lh_n s + 1)} = insert (nat (lh_n s)) {..<nat (lh_n s)}" using n(1) by auto
    have lg: "logged ?t = insert m (logged s)" by (simp add: logged_def N Int_absorb2 subset_eq)
    moreover have "log_list ?t"
    proof -
      have "inj_on ((lh_block s)(nat (lh_n s) := m)) (insert (nat (lh_n s)) {..<nat (lh_n s)})"
        using g(1) False by (auto simp: log_list_def logged_def inj_on_def)
      then show ?thesis using g(1,3) m n lg unfolding log_list_def by (simp add: log_area_def N)
    qed
    ultimately show ?thesis using eq False by auto
  qed
qed

section \<open>Transactions\<close>

text \<open>
  What the file system does between \<^verbatim>\<open>begin_op\<close> and \<^verbatim>\<open>end_op\<close>: each block is read, changed,
  given to \<^verbatim>\<open>log_write\<close> and released.
\<close>

fun updates :: "(u32 \<times> u8 list) list \<Rightarrow> 'a log_st_scheme \<Rightarrow> (unit, 'a log_st_scheme) out" where
  "updates [] s = Done () s"
| "updates ((n, bs) # ws) s =
     bnd (bread ROOTDEV n s) (\<lambda>b s1.
     bnd (log_write b (set_buf b (\<lambda>x. x\<lparr>b_data := bs\<rparr>) s1)) (\<lambda>_ s2.
     bnd (brelse b s2) (\<lambda>_ s3. updates ws s3)))"

fun effect :: "(u32 \<times> u8 list) list \<Rightarrow> (u32 \<Rightarrow> u8 list) \<Rightarrow> u32 \<Rightarrow> u8 list" where
  "effect [] V = V"
| "effect ((n, bs) # ws) V = effect ws (V(n := bs))"

definition updates_ok :: "'a log_st_scheme \<Rightarrow> (u32 \<times> u8 list) list \<Rightarrow> bool" where
  "updates_ok s ws \<longleftrightarrow> (\<forall>(n, bs) \<in> set ws. n \<notin> log_area s \<and> unat n < 2 ^ 31 \<and> length bs = BSIZE) \<and>
     1 \<le> outstanding s \<and> lh_n s + int (length ws) < log_size s \<and> lh_n s + int (length ws) < int LOGSIZE"

lemma log_list_same:
  "lh_n t = lh_n s \<Longrightarrow> lh_block t = lh_block s \<Longrightarrow> log_start t = log_start s \<Longrightarrow>
   log_list t = log_list s \<and> logged t = logged s \<and> log_area t = log_area s \<and> pins t = pins s"
  by (auto simp: log_list_def logged_def log_area_def pins_def)

text \<open>One block changed through the log: every call of the sequence returns, and only the log's list and the contents of the block change.\<close>

lemma update_steps:
  assumes q: "log_quiet p V D s" and ok: "updates_ok s ((n, bs) # ws)"
  obtains b s1 s2 s3 t where "bread ROOTDEV n s = Done b s1" "b_data (bufs s1 b) = V n" "kept s s1"
    "s2 = set_buf b (\<lambda>x. x\<lparr>b_data := bs\<rparr>) s1" "kept s1 s2" "alone p s2" "log_write b s2 = Done () s3" "brelse b s3 = Done () t" "kept s3 t"
    "log_quiet p (V(n := bs)) D t" "updates_ok t ws" "lh_n t \<le> lh_n s + 1" "0 < lh_n t" "logged t = insert n (logged s)"
    "log_start t = log_start s" "log_size t = log_size s" "outstanding t = outstanding s"
proof -
  have g: "log_geom s" "log_list s" and c: "cache p V D (pins s) {} s" and hd: "get32 (D (word_of_int (log_start s))) 0 = 0"
    using q by (simp_all add: log_quiet_def)
  have n: "n \<notin> log_area s" "unat n < 2 ^ 31" "length bs = BSIZE" "1 \<le> outstanding s" "lh_n s < log_size s - 1" "lh_n s + 1 < int LOGSIZE"
    using ok by (auto simp: updates_ok_def)
  note room = pins_room [OF g(2)]
  obtain b s1 where 1: "bread ROOTDEV n s = Done b s1" "cache p V D ((pins s)(n := Suc (pins s n))) {n} s1" "at s1 b n" "kept s s1"
    using bread_cache [OF c _ room(1) n(2)] room(2) [of n] by auto
  define s2 where "s2 = set_buf b (\<lambda>x. x\<lparr>b_data := bs\<rparr>) s1"
  have 2: "cache p (V(n := bs)) D ((pins s)(n := Suc (pins s n))) {n} s2" "at s2 b n" "kept s1 s2"
    using set_data_cache [OF 1(2,3) _ n(3)] by (simp_all add: s2_def)
  note o = disk_only_log [OF disk_only_trans [OF kept_only [OF 1(4)] kept_only [OF 2(3)]]]
  note same = log_list_same [OF o(6,7,1)]
  have "\<exists>t. log_write b s2 = Done () t \<and>
    cache p (V(n := bs)) D (if n \<in> logged s2 then (pins s)(n := Suc (pins s n))
       else ((pins s)(n := Suc (pins s n)))(n := Suc (((pins s)(n := Suc (pins s n))) n))) {n} t \<and> at t b n \<and>
    log_list t \<and> logged t = insert n (logged s2) \<and> lh_n t \<le> lh_n s2 + 1 \<and> log_start t = log_start s2 \<and> log_size t = log_size s2 \<and>
    log_dev t = log_dev s2 \<and> outstanding t = outstanding s2"
    using same o g(2) n room(2) [of n] by (intro log_write_cache [OF 2(1,2)]) simp_all
  moreover have "(if n \<in> logged s2 then (pins s)(n := Suc (pins s n))
      else ((pins s)(n := Suc (pins s n)))(n := Suc (((pins s)(n := Suc (pins s n))) n))) = (pins s)(n := 2)"
    using same by (simp add: pins_def numeral_2_eq_2)
  ultimately obtain s3 where 3: "log_write b s2 = Done () s3" "at s3 b n" "log_list s3" "logged s3 = insert n (logged s)" "lh_n s3 \<le> lh_n s + 1"
    "cache p (V(n := bs)) D ((pins s)(n := 2)) {n} s3"
    and f: "log_start s3 = log_start s" "log_size s3 = log_size s" "log_dev s3 = log_dev s" "outstanding s3 = outstanding s"
    using same o by auto
  obtain t where t: "brelse b s3 = Done () t" "cache p (V(n := bs)) D ((pins s)(n := 1)) {} t" "kept s3 t"
    using brelse_cache [OF 3(6,2)] by auto
  note ot = disk_only_log [OF kept_only [OF t(3)]]
  note st = log_list_same [OF ot(6,7,1)]
  have "(pins s)(n := 1) = pins t" using st 3(4) by (auto simp: pins_def)
  then have "log_quiet p (V(n := bs)) D t"
    using t(2) g(1) hd st 3(3) ot f by (simp add: log_quiet_def log_geom_def)
  moreover have "updates_ok t ws" "lh_n t \<le> lh_n s + 1" using ok 3(5) ot f by (auto simp: updates_ok_def log_area_def)
  moreover have "0 < lh_n t" using ot(6) 3(4) by (auto simp: logged_def not_less)
  moreover have "alone p s2" using cacheD(1) [OF 2(1)] by (simp add: disk_ready_def)
  ultimately show thesis
    using that [OF 1(1) cache_at [OF 1(2,3)] 1(4) s2_def 2(3) _ 3(1) t(1,3)] 3(4) st ot f by simp
qed

lemma update_quiet:
  assumes q: "log_quiet p V D s" and ok: "updates_ok s ((n, bs) # ws)"
  shows "\<exists>t. updates ((n, bs) # ws) s = updates ws t \<and> log_quiet p (V(n := bs)) D t \<and> updates_ok t ws \<and> lh_n t \<le> lh_n s + 1 \<and>
    0 < lh_n t \<and> logged t = insert n (logged s) \<and> log_start t = log_start s"
  by (rule update_steps [OF assms]) auto

lemma updates_quiet:
  assumes "log_quiet p V D s" "updates_ok s ws"
  shows "\<exists>t. updates ws s = Done () t \<and> log_quiet p (effect ws V) D t \<and> logged t = fst ` set ws \<union> logged s \<and>
    log_start t = log_start s \<and> (ws \<noteq> [] \<or> 0 < lh_n s \<longrightarrow> 0 < lh_n t)"
  using assms
proof (induction ws arbitrary: V s)
  case (Cons w ws)
  obtain n bs where w: "w = (n, bs)" by fastforce
  obtain t where t: "updates (w # ws) s = updates ws t" "log_quiet p (V(n := bs)) D t" "updates_ok t ws" "0 < lh_n t"
    "logged t = insert n (logged s)" "log_start t = log_start s"
    using update_quiet [of p V D s n bs ws] Cons.prems unfolding w by blast
  obtain u where u: "updates ws t = Done () u" "log_quiet p (effect ws (V(n := bs))) D u" "logged u = fst ` set ws \<union> logged t"
    "log_start u = log_start t" "0 < lh_n u" using Cons.IH [OF t(2,3)] t(4) by blast
  then show ?case using t(1,5,6) w by (intro exI [of _ u]) simp
qed simp

text \<open>Whatever stage the commit has reached, recovery finds all of the logged blocks or none.\<close>

lemma stage_recovers:
  assumes q: "log_quiet p V D s" and pos: "0 < lh_n s" and st: "stage_ok st (nat (lh_n s))"
    and sb: "sint (sb_logstart sb) = log_start s"
  shows "\<exists>t. commit_until st s = Done () t \<and> (\<forall>u. booted p t u \<longrightarrow> (\<exists>v X. initlog (sint ROOTDEV) sb u = Done () v \<and>
    cache p X X (\<lambda>_. 0) {} v \<and> lh_n v = 0 \<and> (\<forall>m. m \<notin> log_area s \<longrightarrow> X m = (if committed st then V m else D m))))"
proof (cases st)
  case (Copying k)
  then have k: "k \<le> nat (lh_n s)" using st by simp
  obtain t where t: "write_log_loop [0..<k] s = Done () t" "cache p (copied s V k V) (copied s V k D) (pins s) {} t"
    using copying_cache [OF q k] by blast
  show ?thesis using t(1) unfolding Copying commit_until.simps committed.simps if_False
    by (intro exI [of _ t] conjI allI impI) (simp, rule crash_copying [OF q k sb booted_cache [OF _ t(2)]])
next
  case (Installing k)
  then have k: "k \<le> nat (lh_n s)" using st by simp
  obtain t where t: "commit_until (Installing k) s = Done () t"
    "cache p (headed s V V) (over s V k (headed s V D)) (left_pins s False k) {} t" using installing_cache [OF q k] by blast
  show ?thesis using t(1) unfolding Installing committed.simps if_True
    by (intro exI [of _ t] conjI allI impI) (simp, rule crash_installing [OF q k sb booted_cache [OF _ t(2)]])
next
  case Erased
  let ?h = "word_of_int (log_start s)"
  obtain t where t: "commit s = Done () t" "cache p ((headed s V V)(?h := put32 (header_of s (V ?h)) 0 0))
      ((over s V (nat (lh_n s)) (headed s V D))(?h := put32 (header_of s (V ?h)) 0 0)) (\<lambda>_. 0) {} t"
    using erased_cache [OF q pos] by blast
  show ?thesis using t(1) unfolding Erased commit_until.simps committed.simps if_True
    by (intro exI [of _ t] conjI allI impI) (simp, rule crash_erased [OF q sb booted_cache [OF _ t(2)]])
qed

section \<open>Properties\<close>


text \<open>A formatted disk whose log is empty, with one operation begun.\<close>

definition demo_log :: log_st where
  "demo_log = disk_st.extend demo_cache
     \<lparr>log_start = 2, log_size = 30, outstanding = 1, committing = False, log_dev = 1, lh_n = 0, lh_block = (\<lambda>_. 0)\<rparr>"

definition zeros :: "u32 \<Rightarrow> u8 list" where
  "zeros n = replicate BSIZE 0"

lemma disk_block_zero: "disk_block (\<lambda>_. 0) n = replicate BSIZE 0"
  by (simp add: disk_block_def store_read_def map_replicate_const)

lemma of_le_zero: "of_le (replicate n 0) = 0"
  by (induction n) simp_all

lemma demo_log_fields [simp]:
  "bufs demo_log = bufs demo_cache" "platter demo_log = (\<lambda>_. 0)" "log_start demo_log = 2" "log_size demo_log = 30"
  "outstanding demo_log = 1" "log_dev demo_log = 1" "lh_n demo_log = 0"
  by (simp_all add: demo_log_def disk_st.defs demo_cache_def)

lemma demo_log_ready: "disk_ready 0 (demo_log\<lparr>platter := P\<rparr>)"
proof -
  let ?s = "demo_log\<lparr>platter := P\<rparr>"
  have r: "alone 0 demo_cache" "good_device (device demo_cache)" "vd_idle (vdisk demo_cache)"
    "bufs_ok (platter demo_cache) (sleeplocks demo_cache) (bufs demo_cache)"
    using demo_cache_ready by (simp_all add: disk_ready_def)
  have f: "sleeplocks ?s = sleeplocks demo_cache" "vdisk ?s = vdisk demo_cache" "device ?s = device demo_cache"
    "procs ?s = procs demo_cache" "cpus ?s = cpus demo_cache" "locks ?s = locks demo_cache" "tp ?s = tp demo_cache"
    by (simp_all add: demo_log_def disk_st.defs)
  have "alone 0 ?s" using r(1) by (simp add: alone_def free_lock_def cpu_ok_def cpu_defs f)
  moreover have "b_dev (bufs demo_cache c) = 0" for c using demo_cache_buf(1) by (simp add: same_blocks_def)
  then have "bufs_ok P (sleeplocks demo_cache) (bufs demo_cache)"
    using r(4) by (simp add: bufs_ok_def buf_clean_def ROOTDEV_def)
  ultimately show ?thesis using r(2,3) by (simp add: disk_ready_def f)
qed

lemma demo_log_booted: "booted 0 t (demo_log\<lparr>platter := platter t\<rparr>)"
proof -
  have "b_dev (bufs demo_cache c) \<noteq> ROOTDEV" for c
    using demo_cache_buf(1) by (simp add: same_blocks_def demo_buf_def ROOTDEV_def)
  then have "find_buf (bufs demo_cache) n = None" for n by (simp add: find_buf_None)
  then show ?thesis using demo_log_ready [of "platter t"] by (simp add: booted_def demo_cache_buf)
qed

lemma demo_log_quiet: "log_quiet 0 zeros zeros demo_log"
proof -
  have e: "demo_log\<lparr>platter := platter demo_log\<rparr> = demo_log" by (rule disk_st.equality) simp_all
  have b: "booted 0 demo_log demo_log" using demo_log_booted [of demo_log, unfolded e] .
  then have "cache 0 zeros zeros (\<lambda>_. 0) {} demo_log"
    by (simp add: booted_def cache_def blk_def refs_def zeros_def disk_block_zero)
  moreover have "pins demo_log = (\<lambda>_. 0)" by (simp add: pins_def logged_def)
  ultimately show ?thesis
    by (simp add: log_quiet_def log_geom_def log_list_def logged_def zeros_def ROOTDEV_def LOGSIZE_30 get32_def get_at_def BSIZE_def of_le_zero)
qed




text \<open>
  Property C25. \<^verbatim>\<open>log_write\<close> on every branch, for a process that is alone: it panics if the log has no slot
  left or no operation is running; a block that is logged already is absorbed, nothing changes; a new block is appended to the
  list, one entry longer, and its buffer gets one more reference so that it stays cached until the commit.
\<close>

theorem log_write_branches:
  assumes "alone p s" and "0 \<le> lh_n s"
  shows "log_write b s =
    (if int LOGSIZE \<le> lh_n s \<or> log_size s - 1 \<le> lh_n s then Panic ''too big a transaction''
     else if outstanding s < 1 then Panic ''log_write outside of trans''
     else if b_blockno (bufs s b) \<in> logged s then Done () (settle s)
     else Done () ((settle s)\<lparr>bufs := (bufs s)(b := (bufs s b)\<lparr>b_refcnt := b_refcnt (bufs s b) + 1\<rparr>),
            lh_n := lh_n s + 1, lh_block := (lh_block s)(nat (lh_n s) := b_blockno (bufs s b))\<rparr>))"
proof (cases "lh_n s < int LOGSIZE \<and> lh_n s < log_size s - 1 \<and> 1 \<le> outstanding s")
  case True
  then show ?thesis using log_write_eq [OF assms, of b] by auto
next
  case False
  have "free_lock s LogLock" "cpu_ok s" using assms by (simp_all add: alone_def)
  then show ?thesis using False by (auto simp: log_write_def acquire_free)
qed

theorem log_write_branches_witness:
  "\<exists>t. log_write 3 demo_log = Done () t \<and> lh_n t = 1 \<and> lh_block t 0 = 5 \<and> b_refcnt (bufs t 3) = 1 \<and>
     log_write 3 (demo_log\<lparr>lh_n := 29\<rparr>) = Panic ''too big a transaction''"
proof -
  have a: "alone 0 demo_log" using demo_log_quiet by (simp add: log_quiet_def cache_def disk_ready_def)
  then have a29: "alone 0 (demo_log\<lparr>lh_n := 29\<rparr>)" by (simp add: alone_def)
  have b: "b_blockno (bufs demo_cache 3) = 5" "b_refcnt (bufs demo_cache 3) = 0"
    using demo_cache_buf(1) by (simp_all add: same_blocks_def demo_buf_def demo_cache_buf(2))
  have "logged demo_log = {}" by (simp add: logged_def)
  then show ?thesis using log_write_branches [OF a, of 3] log_write_branches [OF a29, of 3] b by (simp add: LOGSIZE_30)
qed

text \<open>
  Property C26. What \<^verbatim>\<open>begin_op\<close> admits is more than the log holds. For a log of thirty blocks, as
  \<^verbatim>\<open>mkfs\<close> makes it, \<^verbatim>\<open>begin_op\<close> admits a third operation beside two running ones when nothing is
  logged, so that the three may log ten blocks each; \<^verbatim>\<open>log_write\<close> panics at the thirtieth of these blocks.
\<close>

theorem log_reservation_exceeds_log:
  assumes "alone p s" and "\<not> committing s" and "outstanding s = 2" and "lh_n s = 0" and "log_size s = int LOGSIZE"
  shows "begin_op s = Done () ((settle s)\<lparr>outstanding := 3\<rparr>) \<and> 3 * int MAXOPBLOCKS = int LOGSIZE \<and>
    (\<forall>b f B. log_write b (s\<lparr>outstanding := 3, lh_n := 3 * int MAXOPBLOCKS - 1, lh_block := f, bufs := B\<rparr>) = Panic ''too big a transaction'')"
proof -
  have f: "free_lock s LogLock" "cpu_ok s" using assms(1) by (simp_all add: alone_def)
  then have "begin_op s = Done () ((settle s)\<lparr>outstanding := 3\<rparr>)"
    using assms by (simp add: begin_op_def begin_op_loop_def acquire_free release_lock_on LOGSIZE_30 MAXOPBLOCKS_def)
  moreover have "log_write b (s\<lparr>outstanding := 3, lh_n := 29, lh_block := g, bufs := B\<rparr>) = Panic ''too big a transaction''" for b g B
    using f assms by (simp add: log_write_def acquire_free LOGSIZE_30)
  ultimately show ?thesis by (simp add: LOGSIZE_30 MAXOPBLOCKS_def)
qed

theorem log_reservation_exceeds_log_witness:
  "begin_op (demo_log\<lparr>outstanding := 2\<rparr>) = Done () ((settle (demo_log\<lparr>outstanding := 2\<rparr>))\<lparr>outstanding := 3\<rparr>) \<and>
   log_write 3 (demo_log\<lparr>outstanding := 2, outstanding := 3, lh_n := 29, lh_block := (\<lambda>i. of_nat (i + 50)), bufs := (\<lambda>_. demo_buf)\<rparr>) =
     Panic ''too big a transaction''"
proof -
  have "alone 0 demo_log" using demo_log_quiet by (simp add: log_quiet_def cache_def disk_ready_def)
  then have a: "alone 0 (demo_log\<lparr>outstanding := 2\<rparr>)" by (simp add: alone_def)
  moreover have "\<not> committing demo_log" by (simp add: demo_log_def disk_st.defs)
  ultimately show ?thesis using log_reservation_exceeds_log [OF a] by (simp add: LOGSIZE_30 MAXOPBLOCKS_def)
qed

end
