(* ===== verification/Fs.thy ===== *)
theory Fs
  imports Log
begin

text \<open>
  The file system \<^verbatim>\<open>kernel/fs.c\<close>: blocks, inodes, directories and path names.

  A pointer to an in-memory inode is the index of its slot in \<^verbatim>\<open>itable\<close>; where the code tests it for null
  it is an option. A C string is the list of its bytes before the nul. What \<^verbatim>\<open>readi\<close> and \<^verbatim>\<open>writei\<close> copy to or
  from is memory, or a local variable of the caller, whose bytes are then part of the result or of the
  argument (\<open>iobuf\<close>).
\<close>

section \<open>Data\<close>

definition ROOTINO :: u32 where "ROOTINO = 1"
definition FSMAGIC :: u32 where "FSMAGIC = 0x10203040"
definition NDIRECT :: nat where "NDIRECT = 12"
definition NINDIRECT :: nat where "NINDIRECT = BSIZE div 4"
definition MAXFILE :: nat where "MAXFILE = NDIRECT + NINDIRECT"
definition IPB :: nat where "IPB = BSIZE div 64"
definition BPB :: nat where "BPB = BSIZE * 8"
definition DIRSIZ :: nat where "DIRSIZ = 14"
definition T_DIR :: u16 where "T_DIR = 1"
definition T_FILE :: u16 where "T_FILE = 2"
definition T_DEVICE :: u16 where "T_DEVICE = 3"

lemmas fs_consts = ROOTINO_def FSMAGIC_def NDIRECT_def NINDIRECT_def MAXFILE_def IPB_def BPB_def DIRSIZ_def
  T_DIR_def T_FILE_def T_DEVICE_def BSIZE_def

definition IBLOCK :: "u32 \<Rightarrow> superblock \<Rightarrow> u32" where
  "IBLOCK i sb = i div of_nat IPB + sb_inodestart sb"

definition BBLOCK :: "u32 \<Rightarrow> superblock \<Rightarrow> u32" where
  "BBLOCK b sb = b div of_nat BPB + sb_bmapstart sb"

text \<open>A \<^verbatim>\<open>struct dinode\<close> is 64 bytes of its block: its fields are at fixed offsets.\<close>

record dinode =
  di_type :: u16
  di_major :: u16
  di_minor :: u16
  di_nlink :: u16
  di_size :: u32
  di_addrs :: "u32 list"

definition dinode_off :: "u32 \<Rightarrow> nat" where
  "dinode_off inum = 64 * (unat inum mod IPB)"

definition get_dinode :: "u8 list \<Rightarrow> u32 \<Rightarrow> dinode" where
  "get_dinode bs inum =
     (let q = dinode_off inum
      in \<lparr>di_type = get16 bs q, di_major = get16 bs (q + 2), di_minor = get16 bs (q + 4), di_nlink = get16 bs (q + 6),
          di_size = get32 bs (q + 8), di_addrs = map (\<lambda>i. get32 bs (q + 12 + 4 * i)) [0..<NDIRECT + 1]\<rparr>)"

definition dinode_bytes :: "dinode \<Rightarrow> u8 list" where
  "dinode_bytes d =
     le_bytes 2 (di_type d) @ le_bytes 2 (di_major d) @ le_bytes 2 (di_minor d) @ le_bytes 2 (di_nlink d) @
     le_bytes 4 (di_size d) @ concat (map (le_bytes 4) (di_addrs d))"

definition put_dinode :: "u8 list \<Rightarrow> u32 \<Rightarrow> dinode \<Rightarrow> u8 list" where
  "put_dinode bs inum d = put_at bs (dinode_off inum) (dinode_bytes d)"

record inode =
  i_dev :: u32
  i_inum :: u32
  i_ref :: int
  i_valid :: bool
  i_type :: u16
  i_major :: u16
  i_minor :: u16
  i_nlink :: u16
  i_size :: u32
  i_addrs :: "u32 list"

definition disk_inode :: "inode \<Rightarrow> dinode" where
  "disk_inode ip = \<lparr>di_type = i_type ip, di_major = i_major ip, di_minor = i_minor ip, di_nlink = i_nlink ip,
     di_size = i_size ip, di_addrs = i_addrs ip\<rparr>"

record fs_st = log_st +
  sb :: superblock
  inodes :: "nat \<Rightarrow> inode"

definition set_inode :: "nat \<Rightarrow> (inode \<Rightarrow> inode) \<Rightarrow> 'a fs_st_scheme \<Rightarrow> 'a fs_st_scheme" where
  "set_inode ip f s = s\<lparr>inodes := (inodes s)(ip := f (inodes s ip))\<rparr>"

definition set_data :: "nat \<Rightarrow> (u8 list \<Rightarrow> u8 list) \<Rightarrow> 'a disk_st_scheme \<Rightarrow> 'a disk_st_scheme" where
  "set_data b f s = set_buf b (\<lambda>x. x\<lparr>b_data := f (b_data x)\<rparr>) s"

section \<open>Superblock and blocks\<close>

definition get_superblock :: "u8 list \<Rightarrow> superblock" where
  "get_superblock bs = \<lparr>sb_magic = get32 bs 0, sb_size = get32 bs 4, sb_nblocks = get32 bs 8, sb_ninodes = get32 bs 12,
     sb_nlog = get32 bs 16, sb_logstart = get32 bs 20, sb_inodestart = get32 bs 24, sb_bmapstart = get32 bs 28\<rparr>"

definition readsb :: "u32 \<Rightarrow> 'a fs_st_scheme \<Rightarrow> (unit, 'a fs_st_scheme) out" where
  "readsb dev s =
     bnd (bread dev 1 s) (\<lambda>bp s1. brelse bp (s1\<lparr>sb := get_superblock (b_data (bufs s1 bp))\<rparr>))"

definition fsinit :: "u32 \<Rightarrow> 'a fs_st_scheme \<Rightarrow> (unit, 'a fs_st_scheme) out" where
  "fsinit dev s =
     bnd (readsb dev s) (\<lambda>_ s1.
       if sb_magic (sb s1) \<noteq> FSMAGIC then Panic ''invalid file system''
       else initlog (sint dev) (sb s1) s1)"

definition bzero :: "u32 \<Rightarrow> u32 \<Rightarrow> 'a fs_st_scheme \<Rightarrow> (unit, 'a fs_st_scheme) out" where
  "bzero dev bno s =
     bnd (bread dev bno s) (\<lambda>bp s1.
     bnd (log_write bp (set_data bp (\<lambda>_. replicate BSIZE 0) s1)) (\<lambda>_ s2. brelse bp s2))"

definition bit_mask :: "nat \<Rightarrow> u8" where
  "bit_mask bi = push_bit (bi mod 8) 1"

definition bit_free :: "u8 list \<Rightarrow> nat \<Rightarrow> bool" where
  "bit_free bs bi \<longleftrightarrow> and (bs ! (bi div 8)) (bit_mask bi) = 0"

text \<open>The inner loop of \<^verbatim>\<open>balloc\<close>: the first free bit of the bitmap block for the blocks from \<open>b\<close>.\<close>

primrec balloc_bit :: "u8 list \<Rightarrow> nat \<Rightarrow> nat \<Rightarrow> nat list \<Rightarrow> nat option" where
  "balloc_bit bs b limit [] = None"
| "balloc_bit bs b limit (bi # bis) =
     (if b + bi < limit then (if bit_free bs bi then Some bi else balloc_bit bs b limit bis) else None)"

primrec balloc_loop :: "u32 \<Rightarrow> nat list \<Rightarrow> 'a fs_st_scheme \<Rightarrow> (u32, 'a fs_st_scheme) out" where
  "balloc_loop dev [] s = bnd (printf (Some (bytes ''balloc: out of blocks'' @ [10])) [] s) (\<lambda>_ s1. Done 0 s1)"
| "balloc_loop dev (b # bs) s =
     bnd (bread dev (BBLOCK (of_nat b) (sb s)) s) (\<lambda>bp s1.
       case balloc_bit (b_data (bufs s1 bp)) b (unat (sb_size (sb s1))) [0..<BPB] of
         Some bi \<Rightarrow>
           bnd (log_write bp (set_data bp (\<lambda>d. d[bi div 8 := or (d ! (bi div 8)) (bit_mask bi)]) s1)) (\<lambda>_ s2.
           bnd (brelse bp s2) (\<lambda>_ s3.
           bnd (bzero dev (of_nat (b + bi)) s3) (\<lambda>_ s4. Done (of_nat (b + bi)) s4)))
       | None \<Rightarrow> bnd (brelse bp s1) (\<lambda>_ s2. balloc_loop dev bs s2))"

definition balloc :: "u32 \<Rightarrow> 'a fs_st_scheme \<Rightarrow> (u32, 'a fs_st_scheme) out" where
  "balloc dev s = balloc_loop dev (map (\<lambda>i. i * BPB) [0..<(unat (sb_size (sb s)) + BPB - 1) div BPB]) s"

definition bfree :: "u32 \<Rightarrow> u32 \<Rightarrow> 'a fs_st_scheme \<Rightarrow> (unit, 'a fs_st_scheme) out" where
  "bfree dev b s =
     bnd (bread dev (BBLOCK b (sb s)) s) (\<lambda>bp s1.
       let bi = unat b mod BPB
       in if bit_free (b_data (bufs s1 bp)) bi then Panic ''freeing free block''
          else bnd (log_write bp (set_data bp (\<lambda>d. d[bi div 8 := and (d ! (bi div 8)) (not (bit_mask bi))]) s1)) (\<lambda>_ s2.
               brelse bp s2))"

section \<open>Inodes\<close>

primrec iinit_loop :: "nat list \<Rightarrow> 'a fs_st_scheme \<Rightarrow> 'a fs_st_scheme" where
  "iinit_loop [] s = s"
| "iinit_loop (i # is) s = iinit_loop is (initsleeplock (InodeLock i) ''inode'' s)"

definition iinit :: "'a fs_st_scheme \<Rightarrow> 'a fs_st_scheme" where
  "iinit s = iinit_loop [0..<NINODE] (initlock ItableLock ''itable'' s)"

text \<open>The scan of \<^verbatim>\<open>iget\<close>: the entry of the inode, or the first empty slot seen.\<close>

primrec iget_scan :: "u32 \<Rightarrow> u32 \<Rightarrow> nat list \<Rightarrow> nat option \<Rightarrow> (nat \<Rightarrow> inode) \<Rightarrow> nat + nat option" where
  "iget_scan dev inum [] slot I = Inr slot"
| "iget_scan dev inum (ip # ips) slot I =
     (if i_ref (I ip) > 0 \<and> i_dev (I ip) = dev \<and> i_inum (I ip) = inum then Inl ip
      else iget_scan dev inum ips (if slot = None \<and> i_ref (I ip) = 0 then Some ip else slot) I)"

definition iget :: "u32 \<Rightarrow> u32 \<Rightarrow> 'a fs_st_scheme \<Rightarrow> (nat, 'a fs_st_scheme) out" where
  "iget dev inum s =
     bnd (acquire ItableLock s) (\<lambda>_ s1.
       case iget_scan dev inum [0..<NINODE] None (inodes s1) of
         Inl ip \<Rightarrow> bnd (release ItableLock (set_inode ip (\<lambda>x. x\<lparr>i_ref := i_ref x + 1\<rparr>) s1)) (\<lambda>_ s2. Done ip s2)
       | Inr None \<Rightarrow> Panic ''iget: no inodes''
       | Inr (Some ip) \<Rightarrow>
           bnd (release ItableLock (set_inode ip (\<lambda>x. x\<lparr>i_dev := dev, i_inum := inum, i_ref := 1, i_valid := False\<rparr>) s1)) (\<lambda>_ s2.
             Done ip s2))"

primrec ialloc_loop :: "u32 \<Rightarrow> u16 \<Rightarrow> nat list \<Rightarrow> 'a fs_st_scheme \<Rightarrow> (nat option, 'a fs_st_scheme) out" where
  "ialloc_loop dev ty [] s = bnd (printf (Some (bytes ''ialloc: no inodes'' @ [10])) [] s) (\<lambda>_ s1. Done None s1)"
| "ialloc_loop dev ty (i # is) s =
     (let inum = of_nat i
      in bnd (bread dev (IBLOCK inum (sb s)) s) (\<lambda>bp s1.
        if di_type (get_dinode (b_data (bufs s1 bp)) inum) = 0 then
          bnd (log_write bp (set_data bp (\<lambda>d. put16 (put_at d (dinode_off inum) (replicate 64 0)) (dinode_off inum) ty) s1)) (\<lambda>_ s2.
          bnd (brelse bp s2) (\<lambda>_ s3.
          bnd (iget dev inum s3) (\<lambda>ip s4. Done (Some ip) s4)))
        else bnd (brelse bp s1) (\<lambda>_ s2. ialloc_loop dev ty is s2)))"

definition ialloc :: "u32 \<Rightarrow> u16 \<Rightarrow> 'a fs_st_scheme \<Rightarrow> (nat option, 'a fs_st_scheme) out" where
  "ialloc dev ty s = ialloc_loop dev ty [1..<unat (sb_ninodes (sb s))] s"

definition iupdate :: "nat \<Rightarrow> 'a fs_st_scheme \<Rightarrow> (unit, 'a fs_st_scheme) out" where
  "iupdate ip s =
     bnd (bread (i_dev (inodes s ip)) (IBLOCK (i_inum (inodes s ip)) (sb s)) s) (\<lambda>bp s1.
     bnd (log_write bp (set_data bp (\<lambda>d. put_dinode d (i_inum (inodes s1 ip)) (disk_inode (inodes s1 ip))) s1)) (\<lambda>_ s2.
       brelse bp s2))"

definition idup :: "nat \<Rightarrow> 'a fs_st_scheme \<Rightarrow> (nat, 'a fs_st_scheme) out" where
  "idup ip s =
     bnd (acquire ItableLock s) (\<lambda>_ s1.
     bnd (release ItableLock (set_inode ip (\<lambda>x. x\<lparr>i_ref := i_ref x + 1\<rparr>) s1)) (\<lambda>_ s2. Done ip s2))"

definition load_inode :: "dinode \<Rightarrow> inode \<Rightarrow> inode" where
  "load_inode d x = x\<lparr>i_type := di_type d, i_major := di_major d, i_minor := di_minor d, i_nlink := di_nlink d,
     i_size := di_size d, i_addrs := di_addrs d\<rparr>"

definition ilock :: "nat option \<Rightarrow> 'a fs_st_scheme \<Rightarrow> (unit, 'a fs_st_scheme) out" where
  "ilock ip0 s = (case ip0 of None \<Rightarrow> Panic ''ilock'' | Some ip \<Rightarrow>
     if i_ref (inodes s ip) < 1 then Panic ''ilock''
     else bnd (acquiresleep (InodeLock ip) s) (\<lambda>_ s1.
       if \<not> i_valid (inodes s1 ip) then
         bnd (bread (i_dev (inodes s1 ip)) (IBLOCK (i_inum (inodes s1 ip)) (sb s1)) s1) (\<lambda>bp s2.
         bnd (brelse bp (set_inode ip (load_inode (get_dinode (b_data (bufs s2 bp)) (i_inum (inodes s2 ip)))) s2)) (\<lambda>_ s3.
           let s4 = set_inode ip (\<lambda>x. x\<lparr>i_valid := True\<rparr>) s3
           in if i_type (inodes s4 ip) = 0 then Panic ''ilock: no type'' else Done () s4))
       else Done () s1))"

definition iunlock :: "nat option \<Rightarrow> 'a fs_st_scheme \<Rightarrow> (unit, 'a fs_st_scheme) out" where
  "iunlock ip0 s = (case ip0 of None \<Rightarrow> Panic ''iunlock'' | Some ip \<Rightarrow>
     bnd (holdingsleep (InodeLock ip) s) (\<lambda>h s1.
       if \<not> h \<or> i_ref (inodes s1 ip) < 1 then Panic ''iunlock''
       else releasesleep (InodeLock ip) s1))"

section \<open>Inode contents\<close>

definition bmap :: "nat \<Rightarrow> u32 \<Rightarrow> 'a fs_st_scheme \<Rightarrow> (u32, 'a fs_st_scheme) out" where
  "bmap ip bn0 s =
     (if unat bn0 < NDIRECT then
        let addr = i_addrs (inodes s ip) ! unat bn0
        in if addr = 0 then
             bnd (balloc (i_dev (inodes s ip)) s) (\<lambda>addr s1.
               if addr = 0 then Done 0 s1
               else Done addr (set_inode ip (\<lambda>x. x\<lparr>i_addrs := (i_addrs x)[unat bn0 := addr]\<rparr>) s1))
           else Done addr s
      else let bn = unat bn0 - NDIRECT
      in if bn < NINDIRECT then
           let addr = i_addrs (inodes s ip) ! NDIRECT
           in bnd (if addr = 0 then
                     bnd (balloc (i_dev (inodes s ip)) s) (\<lambda>addr s1.
                       if addr = 0 then Done 0 s1
                       else Done addr (set_inode ip (\<lambda>x. x\<lparr>i_addrs := (i_addrs x)[NDIRECT := addr]\<rparr>) s1))
                   else Done addr s) (\<lambda>addr s1.
              if addr = 0 then Done 0 s1
              else bnd (bread (i_dev (inodes s1 ip)) addr s1) (\<lambda>bp s2.
                let addr = get32 (b_data (bufs s2 bp)) (4 * bn)
                in bnd (if addr = 0 then
                          bnd (balloc (i_dev (inodes s2 ip)) s2) (\<lambda>addr s3.
                            if addr \<noteq> 0 then
                              bnd (log_write bp (set_data bp (\<lambda>d. put32 d (4 * bn) addr) s3)) (\<lambda>_ s4. Done addr s4)
                            else Done 0 s3)
                        else Done addr s2) (\<lambda>addr s5.
                   bnd (brelse bp s5) (\<lambda>_ s6. Done addr s6))))
         else Panic ''bmap: out of range'')"

primrec itrunc_direct :: "nat \<Rightarrow> nat list \<Rightarrow> 'a fs_st_scheme \<Rightarrow> (unit, 'a fs_st_scheme) out" where
  "itrunc_direct ip [] s = Done () s"
| "itrunc_direct ip (i # is) s =
     (if i_addrs (inodes s ip) ! i \<noteq> 0 then
        bnd (bfree (i_dev (inodes s ip)) (i_addrs (inodes s ip) ! i) s) (\<lambda>_ s1.
          itrunc_direct ip is (set_inode ip (\<lambda>x. x\<lparr>i_addrs := (i_addrs x)[i := 0]\<rparr>) s1))
      else itrunc_direct ip is s)"

primrec itrunc_indirect :: "nat \<Rightarrow> nat \<Rightarrow> nat list \<Rightarrow> 'a fs_st_scheme \<Rightarrow> (unit, 'a fs_st_scheme) out" where
  "itrunc_indirect ip bp [] s = Done () s"
| "itrunc_indirect ip bp (j # js) s =
     (let a = get32 (b_data (bufs s bp)) (4 * j)
      in if a \<noteq> 0 then bnd (bfree (i_dev (inodes s ip)) a s) (\<lambda>_ s1. itrunc_indirect ip bp js s1)
         else itrunc_indirect ip bp js s)"

definition itrunc :: "nat \<Rightarrow> 'a fs_st_scheme \<Rightarrow> (unit, 'a fs_st_scheme) out" where
  "itrunc ip s =
     bnd (itrunc_direct ip [0..<NDIRECT] s) (\<lambda>_ s1.
     bnd (if i_addrs (inodes s1 ip) ! NDIRECT \<noteq> 0 then
            bnd (bread (i_dev (inodes s1 ip)) (i_addrs (inodes s1 ip) ! NDIRECT) s1) (\<lambda>bp s2.
            bnd (itrunc_indirect ip bp [0..<NINDIRECT] s2) (\<lambda>_ s3.
            bnd (brelse bp s3) (\<lambda>_ s4.
            bnd (bfree (i_dev (inodes s4 ip)) (i_addrs (inodes s4 ip) ! NDIRECT) s4) (\<lambda>_ s5.
              Done () (set_inode ip (\<lambda>x. x\<lparr>i_addrs := (i_addrs x)[NDIRECT := 0]\<rparr>) s5)))))
          else Done () s1) (\<lambda>_ s6.
       iupdate ip (set_inode ip (\<lambda>x. x\<lparr>i_size := 0\<rparr>) s6)))"

definition iput :: "nat \<Rightarrow> 'a fs_st_scheme \<Rightarrow> (unit, 'a fs_st_scheme) out" where
  "iput ip s =
     bnd (acquire ItableLock s) (\<lambda>_ s1.
     bnd (if i_ref (inodes s1 ip) = 1 \<and> i_valid (inodes s1 ip) \<and> i_nlink (inodes s1 ip) = 0 then
            bnd (acquiresleep (InodeLock ip) s1) (\<lambda>_ s2.
            bnd (release ItableLock s2) (\<lambda>_ s3.
            bnd (itrunc ip s3) (\<lambda>_ s4.
            bnd (iupdate ip (set_inode ip (\<lambda>x. x\<lparr>i_type := 0\<rparr>) s4)) (\<lambda>_ s5.
            bnd (releasesleep (InodeLock ip) (set_inode ip (\<lambda>x. x\<lparr>i_valid := False\<rparr>) s5)) (\<lambda>_ s6.
              acquire ItableLock s6)))))
          else Done () s1) (\<lambda>_ s7.
       release ItableLock (set_inode ip (\<lambda>x. x\<lparr>i_ref := i_ref x - 1\<rparr>) s7)))"

definition iunlockput :: "nat \<Rightarrow> 'a fs_st_scheme \<Rightarrow> (unit, 'a fs_st_scheme) out" where
  "iunlockput ip s = bnd (iunlock (Some ip) s) (\<lambda>_ s1. iput ip s1)"

record fstat =
  st_dev :: u32
  st_ino :: u32
  st_type :: u16
  st_nlink :: u16
  st_size :: u64

definition stati :: "nat \<Rightarrow> 'a fs_st_scheme \<Rightarrow> fstat" where
  "stati ip s = \<lparr>st_dev = i_dev (inodes s ip), st_ino = i_inum (inodes s ip), st_type = i_type (inodes s ip),
     st_nlink = i_nlink (inodes s ip), st_size = ucast (i_size (inodes s ip))\<rparr>"

text \<open>
  The two ends of a transfer: memory at an address of the user or of the kernel, or a local variable.
\<close>

datatype iobuf = Mem bool u64 | Local "u8 list"

definition io_put :: "iobuf \<Rightarrow> u8 list \<Rightarrow> 'a fs_st_scheme \<Rightarrow> (int \<times> iobuf, 'a fs_st_scheme) out" where
  "io_put d bs s = (case d of
     Mem user a \<Rightarrow> bnd (either_copyout user a bs s) (\<lambda>r s1. Done (r, Mem user (a + of_nat (length bs))) s1)
   | Local xs \<Rightarrow> bnd (myproc s) (\<lambda>_ s1. Done (0, Local (xs @ bs)) s1))"

definition io_get :: "iobuf \<Rightarrow> nat \<Rightarrow> 'a fs_st_scheme \<Rightarrow> (int \<times> u8 list \<times> iobuf, 'a fs_st_scheme) out" where
  "io_get d m s = (case d of
     Mem user a \<Rightarrow> bnd (either_copyin user a m s) (\<lambda>r s1. Done (fst r, snd r, Mem user (a + of_nat m)) s1)
   | Local xs \<Rightarrow> bnd (myproc s) (\<lambda>_ s1. Done (0, take m xs, Local (drop m xs)) s1))"

lemma chunk_pos: "tot < n \<Longrightarrow> n - (tot + min (n - tot) (BSIZE - off mod BSIZE)) < n - tot"
  using mod_less_divisor [of BSIZE off] by (simp add: BSIZE_def)

text \<open>The loop of \<^verbatim>\<open>readi\<close>; the result is \<^verbatim>\<open>tot\<close>, which is -1 after a failed copy.\<close>

function readi_loop :: "nat \<Rightarrow> iobuf \<Rightarrow> nat \<Rightarrow> nat \<Rightarrow> nat \<Rightarrow> 'a fs_st_scheme \<Rightarrow> (int \<times> iobuf, 'a fs_st_scheme) out" where
  "readi_loop ip d off tot n s =
     (if tot < n then
        bnd (bmap ip (of_nat (off div BSIZE)) s) (\<lambda>addr s1.
          if addr = 0 then Done (int tot, d) s1
          else bnd (bread (i_dev (inodes s1 ip)) addr s1) (\<lambda>bp s2.
            let m = min (n - tot) (BSIZE - off mod BSIZE)
            in bnd (io_put d (get_at (b_data (bufs s2 bp)) (off mod BSIZE) m) s2) (\<lambda>r s3.
               if fst r = -1 then bnd (brelse bp s3) (\<lambda>_ s4. Done (-1, snd r) s4)
               else bnd (brelse bp s3) (\<lambda>_ s4. readi_loop ip (snd r) (off + m) (tot + m) n s4))))
      else Done (int tot, d) s)"
  by pat_completeness auto
termination
  by (relation "measure (\<lambda>(ip, d, off, tot, n, s). n - tot)") (simp_all add: chunk_pos)

declare readi_loop.simps [simp del]

definition readi :: "nat \<Rightarrow> iobuf \<Rightarrow> u32 \<Rightarrow> u32 \<Rightarrow> 'a fs_st_scheme \<Rightarrow> (int \<times> iobuf, 'a fs_st_scheme) out" where
  "readi ip d off n s =
     (let fsize = i_size (inodes s ip)
      in if off > fsize \<or> off + n < off then Done (0, d) s
         else let n = (if off + n > fsize then fsize - off else n)
              in readi_loop ip d (unat off) 0 (unat n) s)"

text \<open>The loop of \<^verbatim>\<open>writei\<close>; the result is \<^verbatim>\<open>tot\<close> and \<^verbatim>\<open>off\<close>.\<close>

function writei_loop :: "nat \<Rightarrow> iobuf \<Rightarrow> nat \<Rightarrow> nat \<Rightarrow> nat \<Rightarrow> 'a fs_st_scheme \<Rightarrow> (nat \<times> nat, 'a fs_st_scheme) out" where
  "writei_loop ip d off tot n s =
     (if tot < n then
        bnd (bmap ip (of_nat (off div BSIZE)) s) (\<lambda>addr s1.
          if addr = 0 then Done (tot, off) s1
          else bnd (bread (i_dev (inodes s1 ip)) addr s1) (\<lambda>bp s2.
            let m = min (n - tot) (BSIZE - off mod BSIZE)
            in bnd (io_get d m s2) (\<lambda>r s3.
               let s4 = set_data bp (\<lambda>x. put_at x (off mod BSIZE) (fst (snd r))) s3
               in if fst r = -1 then bnd (brelse bp s4) (\<lambda>_ s5. Done (tot, off) s5)
                  else bnd (log_write bp s4) (\<lambda>_ s5.
                       bnd (brelse bp s5) (\<lambda>_ s6. writei_loop ip (snd (snd r)) (off + m) (tot + m) n s6)))))
      else Done (tot, off) s)"
  by pat_completeness auto
termination
  by (relation "measure (\<lambda>(ip, d, off, tot, n, s). n - tot)") (simp_all add: chunk_pos)

declare writei_loop.simps [simp del]

definition writei :: "nat \<Rightarrow> iobuf \<Rightarrow> u32 \<Rightarrow> u32 \<Rightarrow> 'a fs_st_scheme \<Rightarrow> (int, 'a fs_st_scheme) out" where
  "writei ip d off n s =
     (if off > i_size (inodes s ip) \<or> off + n < off then Done (-1) s
      else if unat (off + n) > MAXFILE * BSIZE then Done (-1) s
      else bnd (writei_loop ip d (unat off) 0 (unat n) s) (\<lambda>r s1.
        let s2 = (if snd r > unat (i_size (inodes s1 ip))
                  then set_inode ip (\<lambda>x. x\<lparr>i_size := of_nat (snd r)\<rparr>) s1 else s1)
        in bnd (iupdate ip s2) (\<lambda>_ s3. Done (int (fst r)) s3)))"

section \<open>Directories\<close>

definition namecmp :: "u8 list \<Rightarrow> u8 list \<Rightarrow> int" where
  "namecmp s t = strncmp (cstr s) (cstr t) DIRSIZ"

text \<open>A \<^verbatim>\<open>struct dirent\<close> is 16 bytes: the inode number and the name.\<close>

definition de_inum :: "u8 list \<Rightarrow> u16" where "de_inum de = get16 de 0"
definition de_name :: "u8 list \<Rightarrow> u8 list" where "de_name de = drop 2 de"

definition dirent_offs :: "u32 \<Rightarrow> nat list" where
  "dirent_offs fsize = map (\<lambda>i. 16 * i) [0..<(unat fsize + 15) div 16]"

text \<open>Reading the entry at an offset, with the panic of the two loops over a directory.\<close>

definition read_dirent :: "string \<Rightarrow> nat \<Rightarrow> nat \<Rightarrow> 'a fs_st_scheme \<Rightarrow> (u8 list, 'a fs_st_scheme) out" where
  "read_dirent msg dp off s =
     bnd (readi dp (Local []) (of_nat off) 16 s) (\<lambda>r s1.
       if fst r \<noteq> 16 then Panic msg
       else case snd r of Local de \<Rightarrow> Done de s1 | Mem _ _ \<Rightarrow> Panic msg)"

primrec dirlookup_loop :: "nat \<Rightarrow> u8 list \<Rightarrow> nat list \<Rightarrow> 'a fs_st_scheme \<Rightarrow> ((nat \<times> nat) option, 'a fs_st_scheme) out" where
  "dirlookup_loop dp name [] s = Done None s"
| "dirlookup_loop dp name (off # offs) s =
     bnd (read_dirent ''dirlookup read'' dp off s) (\<lambda>de s1.
       if de_inum de = 0 then dirlookup_loop dp name offs s1
       else if namecmp name (de_name de) = 0
       then bnd (iget (i_dev (inodes s1 dp)) (ucast (de_inum de)) s1) (\<lambda>ip s2. Done (Some (ip, off)) s2)
       else dirlookup_loop dp name offs s1)"

text \<open>The inode found, and the offset of the entry, which the code stores in \<^verbatim>\<open>*poff\<close>.\<close>

definition dirlookup :: "nat \<Rightarrow> u8 list \<Rightarrow> 'a fs_st_scheme \<Rightarrow> ((nat \<times> nat) option, 'a fs_st_scheme) out" where
  "dirlookup dp name s =
     (if i_type (inodes s dp) \<noteq> T_DIR then Panic ''dirlookup not DIR''
      else dirlookup_loop dp name (dirent_offs (i_size (inodes s dp))) s)"

text \<open>The offset of the first unused entry, or the end of the directory.\<close>

primrec dirlink_loop :: "nat \<Rightarrow> nat list \<Rightarrow> nat \<Rightarrow> 'a fs_st_scheme \<Rightarrow> (nat, 'a fs_st_scheme) out" where
  "dirlink_loop dp [] end_off s = Done end_off s"
| "dirlink_loop dp (off # offs) end_off s =
     bnd (read_dirent ''dirlink read'' dp off s) (\<lambda>de s1.
       if de_inum de = 0 then Done off s1 else dirlink_loop dp offs end_off s1)"

definition dirlink :: "nat \<Rightarrow> u8 list \<Rightarrow> u32 \<Rightarrow> 'a fs_st_scheme \<Rightarrow> (int, 'a fs_st_scheme) out" where
  "dirlink dp name inum s =
     bnd (dirlookup dp name s) (\<lambda>r s1. case r of
       Some (ip, _) \<Rightarrow> bnd (iput ip s1) (\<lambda>_ s2. Done (-1) s2)
     | None \<Rightarrow>
         let offs = dirent_offs (i_size (inodes s1 dp))
         in bnd (dirlink_loop dp offs (16 * length offs) s1) (\<lambda>off s2.
              let de = le_bytes 2 (ucast inum :: u16) @ strncpy (replicate DIRSIZ 0) (cstr name) DIRSIZ
              in bnd (writei dp (Local de) (of_nat off) 16 s2) (\<lambda>r s3.
                   if r \<noteq> 16 then Done (-1) s3 else Done 0 s3)))"

section \<open>Path names\<close>

definition slash :: u8 where "slash = 0x2f"

definition skipelem :: "u8 list \<Rightarrow> u8 list \<Rightarrow> (u8 list \<times> u8 list) option" where
  "skipelem path0 name =
     (let path = dropWhile (\<lambda>c. c = slash) path0
      in if path = [] then None
         else let elem = takeWhile (\<lambda>c. c \<noteq> slash) path;
                  rest = dropWhile (\<lambda>c. c \<noteq> slash) path;
                  len = length elem;
                  name1 = (if len \<ge> DIRSIZ then put_at name 0 (take DIRSIZ elem)
                           else (put_at name 0 elem)[len := 0])
              in Some (dropWhile (\<lambda>c. c = slash) rest, name1))"

lemma skipelem_shorter: "skipelem path name = Some (path1, name1) \<Longrightarrow> length path1 < length path"
proof -
  assume a: "skipelem path name = Some (path1, name1)"
  define q where "q = dropWhile (\<lambda>c. c = slash) path"
  have q: "q \<noteq> []" and p1: "path1 = dropWhile (\<lambda>c. c = slash) (dropWhile (\<lambda>c. c \<noteq> slash) q)"
    using a by (auto simp: skipelem_def Let_def q_def split: if_splits)
  have "hd q \<noteq> slash" using q hd_dropWhile [of "\<lambda>c. c = slash" path] unfolding q_def by simp
  with q obtain c r where "q = c # r" "c \<noteq> slash" by (cases q) auto
  then have "length (dropWhile (\<lambda>c. c \<noteq> slash) q) < length q" using length_dropWhile_le [of _ r] by (simp add: le_imp_less_Suc)
  moreover have "length q \<le> length path" unfolding q_def by (rule length_dropWhile_le)
  moreover have "length path1 \<le> length (dropWhile (\<lambda>c. c \<noteq> slash) q)" unfolding p1 by (rule length_dropWhile_le)
  ultimately show ?thesis by simp
qed

text \<open>The loop of \<^verbatim>\<open>namex\<close>: the inode and the last name element.\<close>

function namex_loop :: "u8 list \<Rightarrow> bool \<Rightarrow> u8 list \<Rightarrow> nat \<Rightarrow> 'a fs_st_scheme \<Rightarrow> (nat option \<times> u8 list, 'a fs_st_scheme) out" where
  "namex_loop path nameiparent name ip s =
     (case skipelem path name of
        None \<Rightarrow> if nameiparent then bnd (iput ip s) (\<lambda>_ s1. Done (None, name) s1) else Done (Some ip, name) s
      | Some (path1, name1) \<Rightarrow>
          bnd (ilock (Some ip) s) (\<lambda>_ s1.
            if i_type (inodes s1 ip) \<noteq> T_DIR then bnd (iunlockput ip s1) (\<lambda>_ s2. Done (None, name1) s2)
            else if nameiparent \<and> path1 = [] then bnd (iunlock (Some ip) s1) (\<lambda>_ s2. Done (Some ip, name1) s2)
            else bnd (dirlookup ip name1 s1) (\<lambda>r s2. case r of
                None \<Rightarrow> bnd (iunlockput ip s2) (\<lambda>_ s3. Done (None, name1) s3)
              | Some (ip2, _) \<Rightarrow> bnd (iunlockput ip s2) (\<lambda>_ s3. namex_loop path1 nameiparent name1 ip2 s3))))"
  by pat_completeness auto
termination
  by (relation "measure (\<lambda>(path, _). length path)") (auto intro: skipelem_shorter)

declare namex_loop.simps [simp del]

definition namex :: "u8 list \<Rightarrow> bool \<Rightarrow> u8 list \<Rightarrow> 'a fs_st_scheme \<Rightarrow> (nat option \<times> u8 list, 'a fs_st_scheme) out" where
  "namex path nameiparent name s =
     bnd (if path \<noteq> [] \<and> hd path = slash then iget ROOTDEV ROOTINO s
          else bnd (myproc s) (\<lambda>me s1. case me of None \<Rightarrow> Panic ''kerneltrap'' | Some p \<Rightarrow>
            (case cwd (procs s1 p) of None \<Rightarrow> Panic ''kerneltrap'' | Some ip \<Rightarrow> idup ip s1))) (\<lambda>ip s2.
       namex_loop path nameiparent name ip s2)"

definition namei :: "u8 list \<Rightarrow> 'a fs_st_scheme \<Rightarrow> (nat option, 'a fs_st_scheme) out" where
  "namei path s = bnd (namex path False (replicate DIRSIZ 0) s) (\<lambda>r s1. Done (fst r) s1)"

definition nameiparent :: "u8 list \<Rightarrow> u8 list \<Rightarrow> 'a fs_st_scheme \<Rightarrow> (nat option \<times> u8 list, 'a fs_st_scheme) out" where
  "nameiparent path name s = namex path True name s"

section \<open>Framing\<close>

lemma fs_locks [simp]:
  "sb (lock_on lk s) = sb s"
  "sb_update f1 (lock_on lk s) = lock_on lk (sb_update f1 s)"
  "inodes (lock_on lk s) = inodes s"
  "inodes_update f2 (lock_on lk s) = lock_on lk (inodes_update f2 s)"
  by (simp_all add: lock_on_def acquire_own_def acquire_swap_def push_off_def intr_defs cpu_defs Let_def)

lemma fs_push [simp]:
  "sb (push_off s) = sb s"
  "sb_update f1 (push_off s) = push_off (sb_update f1 s)"
  "inodes (push_off s) = inodes s"
  "inodes_update f2 (push_off s) = push_off (inodes_update f2 s)"
  by (simp_all add: push_off_def intr_defs cpu_defs Let_def)

lemma fs_settle [simp]:
  "sb (settle s) = sb s"
  "settle (sb_update f1 s) = sb_update f1 (settle s)"
  "inodes (settle s) = inodes s"
  "settle (inodes_update f2 s) = inodes_update f2 (settle s)"
  by (simp_all add: settle_def intr_defs cpu_defs)

lemma fs_machine [simp]:
  "free_lock (sb_update f1 s) lk = free_lock s lk"
  "cpu_ok (sb_update f1 s) = cpu_ok s"
  "mycpu (sb_update f1 s) = mycpu s"
  "cpuid (sb_update f1 s) = cpuid s"
  "intr_get (sb_update f1 s) = intr_get s"
  "holding lk (sb_update f1 s) = holding lk s"
  "free_lock (inodes_update f2 s) lk = free_lock s lk"
  "cpu_ok (inodes_update f2 s) = cpu_ok s"
  "mycpu (inodes_update f2 s) = mycpu s"
  "cpuid (inodes_update f2 s) = cpuid s"
  "intr_get (inodes_update f2 s) = intr_get s"
  "holding lk (inodes_update f2 s) = holding lk s"
  by (simp_all add: free_lock_def cpu_ok_def holding_def cpu_defs intr_defs)

end
