(* ===== verification/Fsblocks.thy ===== *)
theory Fsblocks
  imports Commit Fs
begin

text \<open>
  Blocks of the file system inside an operation. What \<^verbatim>\<open>fs.c\<close> relies on when it reads a block and when it changes one
  through the log is one lemma about \<^verbatim>\<open>bread\<close>, \<^verbatim>\<open>log_write\<close> and \<^verbatim>\<open>brelse\<close>; on it rest the specifications of the block
  allocator.
\<close>

text \<open>The contents \<open>V\<close> over the disk \<open>D\<close>, in an operation that may still log \<open>k\<close> blocks.\<close>

definition fs_view :: "nat \<Rightarrow> (u32 \<Rightarrow> u8 list) \<Rightarrow> (u32 \<Rightarrow> u8 list) \<Rightarrow> nat \<Rightarrow> 'a fs_st_scheme \<Rightarrow> bool" where
  "fs_view p V D k s \<longleftrightarrow> log_quiet p V D s \<and> 1 \<le> outstanding s \<and> lh_n s + int k < log_size s \<and> lh_n s + int k < int LOGSIZE"

definition fs_same :: "'a fs_st_scheme \<Rightarrow> 'a fs_st_scheme \<Rightarrow> bool" where
  "fs_same s t \<longleftrightarrow> sb t = sb s \<and> inodes t = inodes s \<and> log_start t = log_start s"

lemma fs_same_refl [simp]: "fs_same s s"
  by (simp add: fs_same_def)

lemma fs_same_trans: "fs_same s t \<Longrightarrow> fs_same t u \<Longrightarrow> fs_same s u"
  by (simp add: fs_same_def)

lemma fs_same_area: "fs_same s t \<Longrightarrow> log_area t = log_area s"
  by (simp add: fs_same_def log_area_def)

lemma disk_only_fs: "disk_only s t \<Longrightarrow> fs_same s t"
proof -
  assume "disk_only s t"
  then obtain B L d v P where t: "t = (settle s)\<lparr>bufs := B, sleeplocks := L, vdisk := d, mmio_wr := v, platter := P\<rparr> \<or>
      t = s\<lparr>bufs := B, sleeplocks := L, vdisk := d, mmio_wr := v, platter := P\<rparr>"
    unfolding disk_only_def by blast
  then show ?thesis by (elim disjE; simp add: fs_same_def)
qed

lemma fs_view_less: "fs_view p V D k s \<Longrightarrow> j \<le> k \<Longrightarrow> fs_view p V D j s"
  by (simp add: fs_view_def)

text \<open>Reading a block and releasing it.\<close>

lemma block_read:
  assumes v: "fs_view p V D k s" and n: "unat n < 2 ^ 31"
  shows "\<exists>b s1 t. bread ROOTDEV n s = Done b s1 \<and> b_data (bufs s1 b) = V n \<and> fs_same s s1 \<and>
    brelse b s1 = Done () t \<and> fs_view p V D k t \<and> fs_same s t"
proof -
  have g: "log_geom s" "log_list s" and c: "cache p V D (pins s) {} s" and q: "log_quiet p V D s"
    using v by (simp_all add: fs_view_def log_quiet_def)
  note room = pins_room [OF g(2)]
  obtain b s1 where 1: "bread ROOTDEV n s = Done b s1" "cache p V D ((pins s)(n := Suc (pins s n))) {n} s1" "at s1 b n" "kept s s1"
    using bread_cache [OF c _ room(1) n] room(2) [of n] by auto
  have clean: "((pins s)(n := Suc (pins s n))) n = 1 \<Longrightarrow> V n = D n" using cache_clean [OF c] by simp
  obtain t where t: "brelse b s1 = Done () t" "cache p V D (((pins s)(n := Suc (pins s n)))(n := ((pins s)(n := Suc (pins s n))) n - 1)) ({n} - {n}) t"
    "kept s1 t" using brelse_cache [OF 1(2,3) _ clean] by blast
  note d = disk_only_trans [OF kept_only [OF 1(4)] kept_only [OF t(3)]]
  note o = disk_only_log [OF d]
  have "cache p V D (pins t) {} t" using t(2) log_list_same [OF o(6,7,1)] by simp
  then have "log_quiet p V D t" using q log_list_same [OF o(6,7,1)] o by (simp add: log_quiet_def log_geom_def)
  then have "fs_view p V D k t" using v o by (simp add: fs_view_def)
  moreover have "b_data (bufs s1 b) = V n" by (rule cache_at [OF 1(2,3)])
  ultimately show ?thesis using 1(1) t(1) disk_only_fs [OF kept_only [OF 1(4)]] disk_only_fs [OF d] by blast
qed

text \<open>Reading a block, changing it through the log and releasing it.\<close>

lemma block_update:
  assumes v: "fs_view p V D (Suc k) s" and n: "unat n < 2 ^ 31" "n \<notin> log_area s" and f: "length (f (V n)) = BSIZE"
  shows "\<exists>b s1 s2 t. bread ROOTDEV n s = Done b s1 \<and> b_data (bufs s1 b) = V n \<and> fs_same s s1 \<and>
    log_write b (set_data b f s1) = Done () s2 \<and> fs_same s s2 \<and>
    brelse b s2 = Done () t \<and> fs_view p (V(n := f (V n))) D k t \<and> fs_same s t"
proof -
  have "updates_ok s ((n, f (V n)) # replicate k (n, f (V n)))" using v n f by (auto simp: updates_ok_def fs_view_def)
  with v obtain b s1 s2 s3 t where u: "bread ROOTDEV n s = Done b s1" "b_data (bufs s1 b) = V n" "kept s s1"
    "s2 = set_buf b (\<lambda>x. x\<lparr>b_data := f (V n)\<rparr>) s1" "kept s1 s2" "alone p s2" "log_write b s2 = Done () s3" "brelse b s3 = Done () t" "kept s3 t"
    "log_quiet p (V(n := f (V n))) D t" "updates_ok t (replicate k (n, f (V n)))"
    using update_steps [of p V D s n "f (V n)" "replicate k (n, f (V n))"] unfolding fs_view_def by metis
  have sd: "set_data b f s1 = s2" using u(2,4) by (simp add: set_data_def set_buf_def)
  note d = disk_only_trans [OF kept_only [OF u(3)] kept_only [OF u(5)]]
  have "fs_same s2 s3"
    using u(7) log_write_eq [OF u(6), of b] v disk_only_log [OF d]
    by (auto simp: fs_view_def log_quiet_def log_list_def fs_same_def split: if_splits)
  then have s3: "fs_same s s3" using disk_only_fs [OF d] fs_same_trans by blast
  moreover have "fs_same s t" using s3 disk_only_fs [OF kept_only [OF u(9)]] fs_same_trans by blast
  moreover have "fs_view p (V(n := f (V n))) D k t" using u(10,11) by (simp add: fs_view_def updates_ok_def)
  ultimately show ?thesis using u(1,2,7,8) sd disk_only_fs [OF kept_only [OF u(3)]] by blast
qed

section \<open>The bitmap\<close>

definition used :: "(u32 \<Rightarrow> u8 list) \<Rightarrow> superblock \<Rightarrow> nat \<Rightarrow> bool" where
  "used V sbl b \<longleftrightarrow> \<not> bit_free (V (BBLOCK (of_nat b) sbl)) (b mod BPB)"

text \<open>What \<^verbatim>\<open>mkfs\<close> lays out: the bitmap is outside the log, and the log and the bitmap themselves are marked as used.\<close>

definition bitmap_ok :: "(u32 \<Rightarrow> u8 list) \<Rightarrow> 'a fs_st_scheme \<Rightarrow> bool" where
  "bitmap_ok V s \<longleftrightarrow> unat (sb_size (sb s)) < 2 ^ 31 \<and>
     (\<forall>b < unat (sb_size (sb s)). unat (BBLOCK (of_nat b) (sb s)) < 2 ^ 31 \<and> BBLOCK (of_nat b) (sb s) \<notin> log_area s \<and>
        (\<not> used V (sb s) b \<longrightarrow> of_nat b \<notin> log_area s \<and> (\<forall>c < unat (sb_size (sb s)). BBLOCK (of_nat c) (sb s) \<noteq> of_nat b)))"

lemma BPB_8192: "BPB = 8192"
  by (simp add: BPB_def BSIZE_def)

lemma BBLOCK_nat: "b < 2 ^ 31 \<Longrightarrow> BBLOCK (of_nat b) sbl = of_nat (b div BPB) + sb_bmapstart sbl"
proof -
  assume b: "b < 2 ^ 31"
  have "(of_nat b :: u32) div of_nat BPB = of_nat (b div BPB)"
    using b by (intro word_unat_eqI) (simp add: unat_div BPB_8192 unat_of_nat)
  then show ?thesis by (simp add: BBLOCK_def)
qed

lemma bit_free_bit: "bit_free bs bi \<longleftrightarrow> \<not> bit (bs ! (bi div 8)) (bi mod 8)"
proof -
  have "and x (push_bit n 1) = 0 \<longleftrightarrow> \<not> bit x n" if "n < 8" for x :: u8 and n
    unfolding bit_eq_iff [of "and x (push_bit n 1)" 0] using that by (auto simp: bit_simps)
  then show ?thesis by (simp add: bit_free_def bit_mask_def)
qed

text \<open>Marking a bit and clearing it changes that bit and no other; clearing undoes marking.\<close>

definition bit_set :: "nat \<Rightarrow> u8 list \<Rightarrow> u8 list" where
  "bit_set bi d = d[bi div 8 := or (d ! (bi div 8)) (bit_mask bi)]"

definition bit_clear :: "nat \<Rightarrow> u8 list \<Rightarrow> u8 list" where
  "bit_clear bi d = d[bi div 8 := and (d ! (bi div 8)) (not (bit_mask bi))]"

lemma bit_set_length [simp]: "length (bit_set bi d) = length d" "length (bit_clear bi d) = length d"
  by (simp_all add: bit_set_def bit_clear_def)

lemma same_bit: "bi div 8 = bj div 8 \<Longrightarrow> bi mod 8 = bj mod 8 \<Longrightarrow> bi = (bj :: nat)"
  by (metis div_mult_mod_eq)

lemma bit_free_set: "length d = BSIZE \<Longrightarrow> bi < BPB \<Longrightarrow> bit_free (bit_set bi d) bj \<longleftrightarrow> bit_free d bj \<and> bj \<noteq> bi"
  by (auto simp: bit_free_bit bit_set_def BPB_def nth_list_update bit_simps bit_mask_def less_mult_imp_div_less dest: same_bit)

lemma bit_free_clear: "length d = BSIZE \<Longrightarrow> bi < BPB \<Longrightarrow> bit_free (bit_clear bi d) bj \<longleftrightarrow> bit_free d bj \<or> bj = bi"
  by (auto simp: bit_free_bit bit_clear_def BPB_def nth_list_update bit_simps bit_mask_def less_mult_imp_div_less dest: same_bit)

lemma bit_clear_set: "length d = BSIZE \<Longrightarrow> bi < BPB \<Longrightarrow> bit_free d bi \<Longrightarrow> bit_clear bi (bit_set bi d) = d"
proof (rule nth_equalityI)
  fix i assume a: "length d = BSIZE" "bi < BPB" "bit_free d bi"
  have "bi div 8 < BSIZE" using a(2) by (simp add: BPB_def less_mult_imp_div_less)
  moreover have "and (or x (push_bit n 1)) (not (push_bit n 1)) = x" if "\<not> bit x n" for x :: u8 and n
    using that by (intro bit_word_eqI) (auto simp: bit_simps)
  ultimately show "bit_clear bi (bit_set bi d) ! i = d ! i"
    using a by (simp add: bit_clear_def bit_set_def nth_list_update bit_free_bit bit_mask_def)
qed simp

lemma balloc_bit_Some:
  assumes "bi < n" "k \<le> bi" "b + bi < limit" "bit_free d bi" "\<forall>j < bi. \<not> bit_free d j"
  shows "balloc_bit d b limit [k..<n] = Some bi"
  using assms(1,2)
proof (induction "bi - k" arbitrary: k)
  case 0
  then show ?case using assms by (simp add: upt_conv_Cons)
next
  case (Suc m)
  then have "k < bi" "k < n" by simp_all
  moreover have "balloc_bit d b limit [Suc k..<n] = Some bi" using Suc by simp
  ultimately show ?case using assms(3,5) by (simp add: upt_conv_Cons)
qed

lemma balloc_bit_None: "\<forall>j \<in> set js. b + j < limit \<longrightarrow> \<not> bit_free d j \<Longrightarrow> balloc_bit d b limit js = None"
  by (induction js) auto

section \<open>The block allocator\<close>

lemma bzero_view:
  assumes "fs_view p V D (Suc k) s" "unat n < 2 ^ 31" "n \<notin> log_area s"
  shows "\<exists>t. bzero ROOTDEV n s = Done () t \<and> fs_view p (V(n := replicate BSIZE 0)) D k t \<and> fs_same s t"
  using block_update [OF assms, of "\<lambda>_. replicate BSIZE 0"] by (auto simp: bzero_def)

lemma view_length: "fs_view p V D k s \<Longrightarrow> length (V n) = BSIZE"
  unfolding fs_view_def log_quiet_def using cache_length by blast

text \<open>The contents once block \<open>b\<close> is allocated.\<close>

definition allocated :: "superblock \<Rightarrow> nat \<Rightarrow> (u32 \<Rightarrow> u8 list) \<Rightarrow> u32 \<Rightarrow> u8 list" where
  "allocated sbl b V = (let n = BBLOCK (of_nat b) sbl in V(n := bit_set (b mod BPB) (V n), of_nat b := replicate BSIZE 0))"

text \<open>The bitmap block that holds the first free bit.\<close>

lemma balloc_here:
  assumes v: "fs_view p V D (Suc (Suc k)) s" and ok: "bitmap_ok V s"
    and b: "b < unat (sb_size (sb s))" "\<not> used V (sb s) b" "\<forall>c < b. used V (sb s) c"
  shows "\<exists>t. balloc_loop ROOTDEV (b div BPB * BPB # bs) s = Done (of_nat b) t \<and>
    fs_view p (allocated (sb s) b V) D k t \<and> fs_same s t"
proof -
  define n where "n = BBLOCK (of_nat b) (sb s)"
  let ?c = "b div BPB * BPB" and ?f = "bit_set (b mod BPB)"
  have sz: "b < 2 ^ 31" using ok b(1) by (simp add: bitmap_ok_def)
  have blk_c: "BBLOCK (of_nat (?c + j)) (sb s) = n" if "?c + j \<le> b" for j
  proof -
    have "(?c + j) div BPB = b div BPB"
      using that div_le_mono [OF that, of BPB] by (intro order_antisym) (simp_all add: BPB_8192)
    then show ?thesis using that sz by (simp add: n_def BBLOCK_nat del: of_nat_add of_nat_mult)
  qed
  have n: "unat n < 2 ^ 31" "n \<notin> log_area s" "of_nat b \<notin> log_area s" using ok b by (auto simp: bitmap_ok_def n_def)
  have len: "length (V n) = BSIZE" by (rule view_length [OF v])
  obtain x s1 s2 s3 where u: "bread ROOTDEV n s = Done x s1" "b_data (bufs s1 x) = V n" "fs_same s s1"
    "log_write x (set_data x ?f s1) = Done () s2" "brelse x s2 = Done () s3" "fs_view p (V(n := ?f (V n))) D (Suc k) s3" "fs_same s s3"
    using block_update [OF v n(1,2), of ?f] len by auto
  have "\<not> bit_free (V n) j" if "j < b mod BPB" for j
  proof -
    have "?c + j < b" using that div_mult_mod_eq [of b BPB] by linarith
    moreover have "(?c + j) mod BPB = j" using that mod_less_divisor [of BPB b] by (simp add: BPB_8192)
    ultimately show ?thesis using b(3) blk_c [of j] by (auto simp: used_def simp del: of_nat_add of_nat_mult)
  qed
  then have "balloc_bit (V n) ?c (unat (sb_size (sb s))) [0..<BPB] = Some (b mod BPB)"
    using b(1,2) by (intro balloc_bit_Some) (simp_all add: used_def n_def BPB_8192)
  moreover obtain t where "bzero ROOTDEV (of_nat b) s3 = Done () t"
    "fs_view p (V(n := ?f (V n), of_nat b := replicate BSIZE 0)) D k t" "fs_same s3 t"
    using bzero_view [OF u(6), of "of_nat b"] n(3) fs_same_area [OF u(7)] sz by (auto simp: unat_of_nat)
  moreover have "fs_same s t" using u(7) \<open>fs_same s3 t\<close> fs_same_trans by blast
  ultimately show ?thesis
    using u blk_c [of 0] by (simp add: fs_same_def bit_set_def [abs_def] allocated_def n_def Let_def del: of_nat_mult fun_upd_apply)
qed

lemma balloc_skip:
  assumes v: "fs_view p V D k s" and ok: "bitmap_ok V s" and c: "i * BPB < unat (sb_size (sb s))"
    "\<forall>c < Suc i * BPB. c < unat (sb_size (sb s)) \<longrightarrow> used V (sb s) c"
  shows "\<exists>t. balloc_loop ROOTDEV (i * BPB # bs) s = balloc_loop ROOTDEV bs t \<and> fs_view p V D k t \<and> fs_same s t"
proof -
  let ?n = "BBLOCK (of_nat (i * BPB)) (sb s)"
  have n: "unat ?n < 2 ^ 31" using ok c(1) by (auto simp: bitmap_ok_def)
  obtain x s1 t where u: "bread ROOTDEV ?n s = Done x s1" "b_data (bufs s1 x) = V ?n" "fs_same s s1"
    "brelse x s1 = Done () t" "fs_view p V D k t" "fs_same s t" using block_read [OF v n] by blast
  have "\<not> bit_free (V ?n) j" if "j < BPB" "i * BPB + j < unat (sb_size (sb s))" for j
  proof -
    have "used V (sb s) (i * BPB + j)" using c(2) that by simp
    moreover have "BBLOCK (of_nat (i * BPB + j)) (sb s) = ?n"
      using that ok c(1) by (simp add: BBLOCK_nat bitmap_ok_def BPB_8192 del: of_nat_add of_nat_mult)
    ultimately show ?thesis using that by (simp add: used_def del: of_nat_add of_nat_mult)
  qed
  then have "balloc_bit (V ?n) (i * BPB) (unat (sb_size (sb s))) [0..<BPB] = None" by (intro balloc_bit_None) auto
  then show ?thesis using u by (auto simp: fs_same_def simp del: of_nat_mult)
qed

lemma balloc_finds:
  assumes v: "fs_view p V D (Suc (Suc k)) s" and ok: "bitmap_ok V s"
    and b: "b < unat (sb_size (sb s))" "\<not> used V (sb s) b" "\<forall>c < b. used V (sb s) c"
  shows "i \<le> b div BPB \<Longrightarrow> b div BPB < N \<Longrightarrow> \<exists>t. balloc_loop ROOTDEV (map (\<lambda>i. i * BPB) [i..<N]) s = Done (of_nat b) t \<and>
    fs_view p (allocated (sb s) b V) D k t \<and> fs_same s t"
  using v ok b
proof (induction "b div BPB - i" arbitrary: i s)
  case 0
  then have "i = b div BPB" by simp
  then show ?case using balloc_here [OF 0(4-8)] 0(3) by (simp add: upt_conv_Cons del: balloc_loop.simps)
next
  case (Suc m)
  then have i: "Suc i \<le> b div BPB" "i < N" by simp_all
  then have le: "Suc i * BPB \<le> b" by (metis div_times_less_eq_dividend dual_order.trans mult_le_mono1)
  moreover have "i * BPB < unat (sb_size (sb s))" using le Suc.prems(5) by (simp add: BPB_8192)
  ultimately obtain t where t: "balloc_loop ROOTDEV (i * BPB # map (\<lambda>i. i * BPB) [Suc i..<N]) s = balloc_loop ROOTDEV (map (\<lambda>i. i * BPB) [Suc i..<N]) t"
    "fs_view p V D (Suc (Suc k)) t" "fs_same s t" using balloc_skip [OF Suc.prems(3,4)] Suc.prems(7) by (meson order_less_le_trans)
  have "bitmap_ok V t" using Suc.prems(4) t(3) fs_same_area [OF t(3)] by (simp add: bitmap_ok_def fs_same_def)
  moreover have m: "m = b div BPB - Suc i" using Suc.hyps(2) by linarith
  moreover have sb: "sb t = sb s" using t(3) by (simp add: fs_same_def)
  ultimately obtain u where "balloc_loop ROOTDEV (map (\<lambda>i. i * BPB) [Suc i..<N]) t = Done (of_nat b) u"
    "fs_view p (allocated (sb s) b V) D k u" "fs_same t u"
    using Suc.hyps(1) [OF m i(1) Suc.prems(2) t(2)] Suc.prems(5-7) sb by auto
  moreover from this have "fs_same s u" using t(3) fs_same_trans by blast
  ultimately show ?case using t(1) i(2) by (simp add: upt_conv_Cons del: balloc_loop.simps)
qed

lemma balloc_view:
  assumes "fs_view p V D (Suc (Suc k)) s" and "bitmap_ok V s"
    and b: "b < unat (sb_size (sb s))" "\<not> used V (sb s) b" "\<forall>c < b. used V (sb s) c"
  shows "\<exists>t. balloc ROOTDEV s = Done (of_nat b) t \<and>
    fs_view p (allocated (sb s) b V) D k t \<and> fs_same s t"
proof -
  have "b div BPB < (unat (sb_size (sb s)) + BPB - 1) div BPB" using b(1) by (simp add: BPB_8192)
  then show ?thesis using balloc_finds [OF assms(1-5), of 0] by (simp add: balloc_def)
qed

lemma bfree_view:
  assumes v: "fs_view p V D (Suc k) s" and b: "b < 2 ^ 31" "used V (sb s) b"
  defines "n \<equiv> BBLOCK (of_nat b) (sb s)"
  assumes n: "unat n < 2 ^ 31" "n \<notin> log_area s"
  shows "\<exists>t. bfree ROOTDEV (of_nat b) s = Done () t \<and> fs_view p (V(n := bit_clear (b mod BPB) (V n))) D k t \<and> fs_same s t"
proof -
  have bi: "unat (of_nat b :: u32) mod BPB = b mod BPB" using b(1) by (simp add: unat_of_nat)
  obtain x s1 s2 t where u: "bread ROOTDEV n s = Done x s1" "b_data (bufs s1 x) = V n" "fs_same s s1"
    "log_write x (set_data x (bit_clear (b mod BPB)) s1) = Done () s2" "brelse x s2 = Done () t"
    "fs_view p (V(n := bit_clear (b mod BPB) (V n))) D k t" "fs_same s t"
    using block_update [OF v n, of "bit_clear (b mod BPB)"] view_length [OF v] by auto
  show ?thesis using b(2) u bi by (auto simp: bfree_def used_def n_def bit_clear_def [abs_def] Let_def)
qed

lemma bfree_free:
  assumes v: "fs_view p V D k s" and b: "b < 2 ^ 31" "\<not> used V (sb s) b" "unat (BBLOCK (of_nat b) (sb s)) < 2 ^ 31"
  shows "bfree ROOTDEV (of_nat b) s = Panic ''freeing free block''"
proof -
  have bi: "unat (of_nat b :: u32) mod BPB = b mod BPB" using b(1) by (simp add: unat_of_nat)
  obtain x s1 where "bread ROOTDEV (BBLOCK (of_nat b) (sb s)) s = Done x s1" "b_data (bufs s1 x) = V (BBLOCK (of_nat b) (sb s))"
    using block_read [OF v b(3)] by blast
  then show ?thesis using b(2) bi by (simp add: bfree_def used_def Let_def)
qed

lemma used_marked:
  assumes v: "fs_view p V D k s" and ok: "bitmap_ok V s" and b: "b < unat (sb_size (sb s))" "\<not> used V (sb s) b"
    and c: "c < unat (sb_size (sb s))"
  shows "used (allocated (sb s) b V) (sb s) c \<longleftrightarrow> used V (sb s) c \<or> c = b"
proof -
  define n where "n = BBLOCK (of_nat b) (sb s)"
  have sz: "b < 2 ^ 31" "c < 2 ^ 31" using ok b(1) c by (simp_all add: bitmap_ok_def)
  have ne: "BBLOCK (of_nat c) (sb s) \<noteq> of_nat b" using ok b c by (auto simp: bitmap_ok_def)
  have same: "BBLOCK (of_nat c) (sb s) = n \<longleftrightarrow> c div BPB = b div BPB"
    using sz by (simp add: n_def BBLOCK_nat BPB_8192 word_of_nat_eq_iff take_bit_nat_eq_self)
  have W: "allocated (sb s) b V (BBLOCK (of_nat c) (sb s)) =
      (if c div BPB = b div BPB then bit_set (b mod BPB) (V n) else V (BBLOCK (of_nat c) (sb s)))"
    using ne same by (simp add: allocated_def Let_def n_def)
  show ?thesis
  proof (cases "c div BPB = b div BPB")
    case True
    then have "c mod BPB = b mod BPB \<longleftrightarrow> c = b" by (metis div_mult_mod_eq)
    moreover have "b mod BPB < BPB" by (simp add: BPB_8192)
    ultimately show ?thesis unfolding used_def W using True same bit_free_set [OF view_length [OF v]] by simp
  next
    case False
    then show ?thesis by (auto simp: used_def W)
  qed
qed

text \<open>
  Property C23. The block allocator. While the bitmap has a free block, \<^verbatim>\<open>balloc\<close> returns the free block with the lowest number:
  afterwards exactly that block is used in addition, it holds zeros, and no other block but its bitmap block has changed. \<^verbatim>\<open>bfree\<close>
  of that block succeeds and restores the bitmap bit for bit, so that only the zeroed block itself differs from before; to free
  it a second time panics. All of it goes through the log: the disk \<open>D\<close> is untouched, and three blocks of log space are enough.
\<close>

theorem balloc_bfree:
  assumes v: "fs_view p V D 3 s" and ok: "bitmap_ok V s" and ex: "\<exists>b < unat (sb_size (sb s)). \<not> used V (sb s) b"
  shows "\<exists>b t u W. b < unat (sb_size (sb s)) \<and> \<not> used V (sb s) b \<and> (\<forall>c < b. used V (sb s) c) \<and>
    balloc ROOTDEV s = Done (of_nat b) t \<and> fs_view p W D 1 t \<and> fs_same s t \<and> W (of_nat b) = replicate BSIZE 0 \<and>
    (\<forall>c < unat (sb_size (sb s)). used W (sb s) c \<longleftrightarrow> used V (sb s) c \<or> c = b) \<and>
    (\<forall>m. m \<noteq> of_nat b \<and> m \<noteq> BBLOCK (of_nat b) (sb s) \<longrightarrow> W m = V m) \<and>
    bfree ROOTDEV (of_nat b) t = Done () u \<and> fs_view p (V(of_nat b := replicate BSIZE 0)) D 0 u \<and> fs_same s u \<and>
    bfree ROOTDEV (of_nat b) u = Panic ''freeing free block''"
proof -
  obtain b where b: "b < unat (sb_size (sb s))" "\<not> used V (sb s) b"
    and least: "\<forall>c < b. \<not> (c < unat (sb_size (sb s)) \<and> \<not> used V (sb s) c)"
    using ex exists_least_iff [of "\<lambda>b. b < unat (sb_size (sb s)) \<and> \<not> used V (sb s) b"] by blast
  have low: "\<forall>c < b. used V (sb s) c" using least b(1) order_less_trans by blast
  let ?n = "BBLOCK (of_nat b) (sb s)" and ?Z = "V(of_nat b := replicate BSIZE 0)"
  let ?W = "allocated (sb s) b V"
  have n: "unat ?n < 2 ^ 31" "?n \<notin> log_area s" "?n \<noteq> of_nat b" "b < 2 ^ 31" using ok b(1,2) by (auto simp: bitmap_ok_def)
  obtain t where t: "balloc ROOTDEV s = Done (of_nat b) t" "fs_view p ?W D 1 t" "fs_same s t"
    using balloc_view [of p V D 1 s, OF _ ok b low] v by (auto simp: numeral_3_eq_3)
  note m = used_marked [OF v ok b(1,2)]
  have "used ?W (sb t) b" using m [OF b(1)] t(3) by (simp add: fs_same_def)
  then obtain u where u: "bfree ROOTDEV (of_nat b) t = Done () u" "fs_view p (?W(?n := bit_clear (b mod BPB) (?W ?n))) D 0 u" "fs_same t u"
    using bfree_view [of p ?W D 0 t b] t(2,3) n fs_same_area [OF t(3)] by (auto simp: fs_same_def)
  have "bit_clear (b mod BPB) (?W ?n) = V ?n"
    using n(3) b(2) bit_clear_set [OF view_length [OF v]] by (simp add: used_def BPB_8192 allocated_def Let_def)
  then have "?W(?n := bit_clear (b mod BPB) (?W ?n)) = ?Z" using n(3) by (auto simp: fun_eq_iff allocated_def Let_def)
  moreover have su: "fs_same s u" using t(3) u(3) fs_same_trans by blast
  moreover from calculation have "bfree ROOTDEV (of_nat b) u = Panic ''freeing free block''"
    using bfree_free [of p ?Z D 0 u b] u(2) n b(2) by (auto simp: fs_same_def used_def)
  moreover have "?W (of_nat b) = replicate BSIZE 0" "\<forall>m. m \<noteq> of_nat b \<and> m \<noteq> ?n \<longrightarrow> ?W m = V m"
    by (simp_all add: allocated_def Let_def)
  ultimately show ?thesis
    using b low t u(1,2) m
    by - (rule exI [of _ b], rule exI [of _ t], rule exI [of _ u], rule exI [of _ ?W], simp del: fun_upd_apply)
qed

text \<open>A file system of 2000 blocks, laid out as \<^verbatim>\<open>mkfs\<close> does it, whose first 48 blocks are in use.\<close>

definition demo_fs :: fs_st where
  "demo_fs = log_st.extend demo_log
     \<lparr>sb = \<lparr>sb_magic = FSMAGIC, sb_size = 2000, sb_nblocks = 1953, sb_ninodes = 200, sb_nlog = 30, sb_logstart = 2, sb_inodestart = 32,
        sb_bmapstart = 45\<rparr>,
      inodes = (\<lambda>_. \<lparr>i_dev = 0, i_inum = 0, i_ref = 0, i_valid = False, i_type = 0, i_major = 0, i_minor = 0, i_nlink = 0, i_size = 0,
        i_addrs = replicate 13 0\<rparr>)\<rparr>"

definition demo_map :: "u8 list" where
  "demo_map = replicate 6 255 @ replicate (BSIZE - 6) 0"

lemma demo_fs_view: "fs_view 0 zeros zeros 4 demo_fs"
proof -
  have f: "sleeplocks demo_fs = sleeplocks demo_log" "vdisk demo_fs = vdisk demo_log" "device demo_fs = device demo_log"
    "procs demo_fs = procs demo_log" "cpus demo_fs = cpus demo_log" "locks demo_fs = locks demo_log" "tp demo_fs = tp demo_log"
    "bufs demo_fs = bufs demo_log" "platter demo_fs = platter demo_log" "csrs demo_fs = csrs demo_log"
    "lh_n demo_fs = lh_n demo_log" "lh_block demo_fs = lh_block demo_log" "log_start demo_fs = log_start demo_log"
    "log_size demo_fs = log_size demo_log" "log_dev demo_fs = log_dev demo_log" "outstanding demo_fs = outstanding demo_log"
    by (simp_all add: demo_fs_def log_st.defs)
  have "alone 0 demo_fs = alone 0 demo_log" by (simp add: alone_def free_lock_def cpu_ok_def cpu_defs intr_defs f)
  moreover have "pins demo_fs = pins demo_log" by (simp add: pins_def logged_def f)
  moreover have "blk demo_fs n = blk demo_log n" for n unfolding blk_def f ..
  ultimately have "log_quiet 0 zeros zeros demo_fs"
    using demo_log_quiet
    by (simp add: log_quiet_def cache_def disk_ready_def log_geom_def log_list_def logged_def log_area_def f)
  then show ?thesis by (simp add: fs_view_def f LOGSIZE_30)
qed

lemma demo_fs_used:
  assumes "b < 2000"
  shows "BBLOCK (of_nat b) (sb demo_fs) = 45" "used (zeros(45 := demo_map)) (sb demo_fs) b \<longleftrightarrow> b < 48"
proof -
  show n: "BBLOCK (of_nat b) (sb demo_fs) = 45" using assms by (simp add: BBLOCK_nat BPB_8192 demo_fs_def log_st.defs)
  have "demo_map ! (b div 8) = (if b < 48 then - 1 else 0)"
    using assms by (auto simp: demo_map_def nth_append BSIZE_def)
  then show "used (zeros(45 := demo_map)) (sb demo_fs) b \<longleftrightarrow> b < 48"
    using assms by (simp add: used_def n bit_free_bit BPB_8192)
qed

theorem balloc_bfree_witness:
  "\<exists>x s1 s2 s t u. bread ROOTDEV 45 demo_fs = Done x s1 \<and> log_write x (set_data x (\<lambda>_. demo_map) s1) = Done () s2 \<and>
     brelse x s2 = Done () s \<and> balloc ROOTDEV s = Done 48 t \<and> bfree ROOTDEV 48 t = Done () u \<and>
     bfree ROOTDEV 48 u = Panic ''freeing free block''"
proof -
  let ?V = "zeros(45 := demo_map)"
  have sz: "unat (sb_size (sb demo_fs)) = 2000" by (simp add: demo_fs_def log_st.defs)
  have ls: "log_area demo_fs = {b. 2 \<le> uint b \<and> uint b \<le> 32}" by (simp add: log_area_def LOGSIZE_30 demo_fs_def log_st.defs)
  have v: "fs_view 0 zeros zeros (Suc 3) demo_fs" using demo_fs_view by (simp add: eval_nat_numeral)
  obtain x s1 s2 s where u: "bread ROOTDEV 45 demo_fs = Done x s1" "log_write x (set_data x (\<lambda>_. demo_map) s1) = Done () s2"
    "brelse x s2 = Done () s" "fs_view 0 ?V zeros 3 s" "fs_same demo_fs s"
    using block_update [OF v, of 45 "\<lambda>_. demo_map"] by (auto simp: ls demo_map_def BSIZE_def)
  have sb: "sb s = sb demo_fs" using u(5) by (simp add: fs_same_def)
  have "of_nat b \<notin> log_area demo_fs \<and> of_nat b \<noteq> (45 :: u32)" if "b < 2000" "48 \<le> b" for b
  proof -
    have "uint (of_nat b :: u32) = int b" using that by (simp add: uint_nat unat_of_nat)
    then show ?thesis using that by (auto simp: ls)
  qed
  then have ok: "bitmap_ok ?V s"
    using fs_same_area [OF u(5)] by (auto simp: bitmap_ok_def sb sz demo_fs_used ls not_less simp del: fun_upd_apply)
  have ex: "\<exists>b < unat (sb_size (sb s)). \<not> used ?V (sb s) b" using demo_fs_used(2) [of 48] unfolding sb sz by (intro exI [of _ 48]) simp
  obtain b t w where b: "b < 2000" "\<not> used ?V (sb s) b" "\<forall>c < b. used ?V (sb s) c" "balloc ROOTDEV s = Done (of_nat b) t"
    "bfree ROOTDEV (of_nat b) t = Done () w" "bfree ROOTDEV (of_nat b) w = Panic ''freeing free block''"
    using balloc_bfree [OF u(4) ok ex] unfolding sb sz by blast
  have "\<not> b < 48" using b(1,2) demo_fs_used(2) [of b] unfolding sb by blast
  moreover have "\<not> 48 < b" using b(3) [rule_format, of 48] demo_fs_used(2) [of 48] unfolding sb by auto
  ultimately have "b = 48" by simp
  then show ?thesis using u(1-3) b(4-6) by auto
qed

end
