(* ===== verification/Fairness.thy ===== *)
theory Fairness
  imports Sched "HOL-Library.Sublist"
begin

text \<open>
  One round of the loop of \<^verbatim>\<open>scheduler\<close>: a hart visits the process table in order, and what a process does between the
  switch to it and its switch back is a parameter. No \<^verbatim>\<open>RUNNABLE\<close> process is passed over.
\<close>

primrec scheduler_round :: "(nat \<Rightarrow> 'a proc_st_scheme \<Rightarrow> 'a proc_st_scheme) \<Rightarrow> nat list \<Rightarrow> 'a proc_st_scheme \<Rightarrow>
    (nat list, 'a proc_st_scheme) out" where
  "scheduler_round turn [] s = Done [] s"
| "scheduler_round turn (p # ps) s =
     (case scheduler_visit p s of
        Done _ s1 \<Rightarrow> scheduler_round turn ps s1
      | Panic m \<Rightarrow> Panic m
      | Waits c s1 \<Rightarrow>
          if c = Switched
          then bnd (scheduler_back p (turn p s1)) (\<lambda>_ s2. bnd (scheduler_round turn ps s2) (\<lambda>qs s3. Done (p # qs) s3))
          else Waits c s1)"

text \<open>The hart in the scheduler between two visits, and in process \<open>p\<close> as \<^verbatim>\<open>swtch\<close> finds and leaves it.\<close>

definition idle_hart :: "'a proc_st_scheme \<Rightarrow> bool" where
  "idle_hart s \<longleftrightarrow> noff (mycpu s) = 0 \<and> proc_locks_free s"

definition in_turn :: "nat \<Rightarrow> 'a proc_st_scheme \<Rightarrow> bool" where
  "in_turn p s \<longleftrightarrow> lk_locked (locks s (ProcLock p)) \<and> lk_cpu (locks s (ProcLock p)) = Some (cpuid s) \<and>
     noff (mycpu s) = 1 \<and> \<not> intr_get s \<and> (\<forall>q < NPROC. q \<noteq> p \<longrightarrow> free_lock s (ProcLock q))"

text \<open>
  A process that \<^verbatim>\<open>sched\<close> lets go holds exactly its own lock; other processes may have become \<^verbatim>\<open>RUNNABLE\<close> meanwhile, but
  none has stopped being so.
\<close>

definition turn_ok :: "(nat \<Rightarrow> 'a proc_st_scheme \<Rightarrow> 'a proc_st_scheme) \<Rightarrow> bool" where
  "turn_ok turn \<longleftrightarrow> (\<forall>p < NPROC. \<forall>s. in_turn p s \<longrightarrow> in_turn p (turn p s) \<and>
     (\<forall>q. q \<noteq> p \<and> pstate (procs s q) = RUNNABLE \<longrightarrow> pstate (procs (turn p s) q) = RUNNABLE))"

lemma idle_cpu: "idle_hart s \<Longrightarrow> cpu_ok s"
  by (simp add: idle_hart_def cpu_ok_def)

lemma visit_runnable:
  assumes "idle_hart s" "p < NPROC" "pstate (procs s p) = RUNNABLE"
  obtains t where "scheduler_visit p s = Waits Switched t" "in_turn p t" "\<And>q. q \<noteq> p \<Longrightarrow> procs t q = procs s q"
proof -
  have free: "free_lock s (ProcLock q)" if "q < NPROC" for q using assms(1) that by (simp add: idle_hart_def proc_locks_free_def)
  let ?s1 = "lock_on (ProcLock p) s"
  let ?t = "set_mycpu ((mycpu (set_proc p (\<lambda>x. x\<lparr>pstate := RUNNING\<rparr>) ?s1))\<lparr>c_proc := Some p\<rparr>)
    (set_proc p (\<lambda>x. x\<lparr>pstate := RUNNING\<rparr>) ?s1)"
  have "scheduler_visit p s = Waits Switched ?t"
    using assms(3) acquire_free [OF free [OF assms(2)]] by (simp add: scheduler_visit_def Let_def)
  moreover have "in_turn p ?t"
    using assms(1) free
    by (auto simp: in_turn_def idle_hart_def lock_on_def acquire_own_def acquire_swap_def push_off_def intr_defs cpu_defs
        set_proc_def free_lock_def SIE_bits Let_def)
  moreover have "procs ?t q = procs s q" if "q \<noteq> p" for q using that by (simp add: set_proc_def cpu_defs)
  ultimately show ?thesis using that by blast
qed

lemma visit_other:
  assumes "idle_hart s" "p < NPROC" "pstate (procs s p) \<noteq> RUNNABLE"
  shows "\<exists>t. scheduler_visit p s = Done () t \<and> idle_hart t \<and> procs t = procs s"
proof -
  have free: "free_lock s (ProcLock q)" if "q < NPROC" for q using assms(1) that by (simp add: idle_hart_def proc_locks_free_def)
  have "scheduler_visit p s = Done () (settle s)"
    using assms(3) acquire_free [OF free [OF assms(2)]] release_lock_on [OF idle_cpu [OF assms(1)] free [OF assms(2)]]
    by (simp add: scheduler_visit_def)
  moreover have "idle_hart (settle s)" using assms(1) by (simp add: idle_hart_def proc_locks_free_def)
  ultimately show ?thesis by simp
qed

lemma turn_back:
  assumes "in_turn p s"
  shows "\<exists>t. scheduler_back p s = Done () t \<and> idle_hart t \<and> procs t = procs s"
  using assms
  by (auto simp: scheduler_back_def release_def release_disown_def release_unlock_def pop_off_def holding_def in_turn_def
      idle_hart_def proc_locks_free_def free_lock_def intr_defs cpu_defs Let_def)

lemma round_dispatches:
  assumes ok: "turn_ok turn"
  shows "idle_hart s \<Longrightarrow> distinct ps \<Longrightarrow> set ps \<subseteq> {..< NPROC} \<Longrightarrow>
   \<exists>qs t. scheduler_round turn ps s = Done qs t \<and> idle_hart t \<and> subseq qs ps \<and>
     {p \<in> set ps. pstate (procs s p) = RUNNABLE} \<subseteq> set qs"
proof (induction ps arbitrary: s)
  case (Cons p ps)
  have p: "p < NPROC" "p \<notin> set ps" using Cons.prems by auto
  show ?case
  proof (cases "pstate (procs s p) = RUNNABLE")
    case True
    obtain t where t: "scheduler_visit p s = Waits Switched t" "in_turn p t" "\<And>q. q \<noteq> p \<Longrightarrow> procs t q = procs s q"
      using visit_runnable [OF Cons.prems(1) p(1) True] by metis
    have sl: "in_turn p (turn p t)" "\<And>q. q \<noteq> p \<Longrightarrow> pstate (procs t q) = RUNNABLE \<Longrightarrow> pstate (procs (turn p t) q) = RUNNABLE"
      using ok t(2) p(1) by (auto simp: turn_ok_def)
    obtain u where u: "scheduler_back p (turn p t) = Done () u" "idle_hart u" "procs u = procs (turn p t)"
      using turn_back [OF sl(1)] by blast
    obtain qs v where v: "scheduler_round turn ps u = Done qs v" "idle_hart v" "subseq qs ps"
      "{q \<in> set ps. pstate (procs u q) = RUNNABLE} \<subseteq> set qs" using Cons.IH [OF u(2)] Cons.prems by auto
    have "{q \<in> set (p # ps). pstate (procs s q) = RUNNABLE} \<subseteq> set (p # qs)"
      using v(4) sl(2) t(3) u(3) p(2) by fastforce
    then show ?thesis using t(1) u(1) v by (intro exI [of _ "p # qs"] exI [of _ v]) simp
  next
    case False
    obtain t where t: "scheduler_visit p s = Done () t" "idle_hart t" "procs t = procs s"
      using visit_other [OF Cons.prems(1) p(1) False] by blast
    obtain qs v where v: "scheduler_round turn ps t = Done qs v" "idle_hart v" "subseq qs ps"
      "{q \<in> set ps. pstate (procs t q) = RUNNABLE} \<subseteq> set qs" using Cons.IH [OF t(2)] Cons.prems by auto
    then have "{q \<in> set (p # ps). pstate (procs s q) = RUNNABLE} \<subseteq> set qs" using t(3) False by auto
    then show ?thesis using t(1) v by (intro exI [of _ qs] exI [of _ v]) auto
  qed
qed simp

lemma subseq_sorted: "subseq xs ys \<Longrightarrow> sorted_wrt P ys \<Longrightarrow> sorted_wrt P xs"
proof (induction rule: list_emb.induct)
  case (list_emb_Cons2 x y xs ys)
  then have "set xs \<subseteq> set ys" using list_emb_set by fastforce
  with list_emb_Cons2 show ?case by auto
qed auto



end
