(* ===== verification/File.thy ===== *)
theory File
  imports Fs
begin

text \<open>
  Open files and pipes: \<^verbatim>\<open>kernel/file.c\<close> and \<^verbatim>\<open>kernel/pipe.c\<close>.

  A file is the index of its slot in \<^verbatim>\<open>ftable\<close>. A pipe is the address of the page that holds it; its fields
  are kept as a record under that address. The loops that sleep are definitions of their own, which
  a woken process enters again with the arguments it slept with.
\<close>

section \<open>Data\<close>

datatype ftype = FD_NONE | FD_PIPE | FD_INODE | FD_DEVICE

record filestruct =
  f_type :: ftype
  f_ref :: int
  f_readable :: bool
  f_writable :: bool
  f_pipe :: u64
  f_ip :: "nat option"
  f_off :: u32
  f_major :: u16

definition PIPESIZE :: nat where "PIPESIZE = 512"

record pipe =
  pi_data :: "u8 list"
  nread :: u32
  nwrite :: u32
  readopen :: bool
  writeopen :: bool

record file_st = fs_st +
  files :: "nat \<Rightarrow> filestruct"
  pipes :: "u64 \<Rightarrow> pipe"

definition set_file :: "nat \<Rightarrow> (filestruct \<Rightarrow> filestruct) \<Rightarrow> 'a file_st_scheme \<Rightarrow> 'a file_st_scheme" where
  "set_file f g s = s\<lparr>files := (files s)(f := g (files s f))\<rparr>"

definition set_pipe :: "u64 \<Rightarrow> (pipe \<Rightarrow> pipe) \<Rightarrow> 'a file_st_scheme \<Rightarrow> 'a file_st_scheme" where
  "set_pipe pi g s = s\<lparr>pipes := (pipes s)(pi := g (pipes s pi))\<rparr>"

section \<open>kernel/pipe.c\<close>

definition pipeclose :: "u64 \<Rightarrow> bool \<Rightarrow> 'a file_st_scheme \<Rightarrow> (unit, 'a file_st_scheme) out" where
  "pipeclose pi writable s =
     bnd (acquire (PipeLock pi) s) (\<lambda>_ s1.
     bnd (if writable then wakeup (Some (PipeReadChan pi)) (set_pipe pi (\<lambda>x. x\<lparr>writeopen := False\<rparr>) s1)
          else wakeup (Some (PipeWriteChan pi)) (set_pipe pi (\<lambda>x. x\<lparr>readopen := False\<rparr>) s1)) (\<lambda>_ s2.
       if \<not> readopen (pipes s2 pi) \<and> \<not> writeopen (pipes s2 pi)
       then bnd (release (PipeLock pi) s2) (\<lambda>_ s3. kfree pi s3)
       else release (PipeLock pi) s2))"

definition pipewrite_end :: "u64 \<Rightarrow> int \<Rightarrow> 'a file_st_scheme \<Rightarrow> (int, 'a file_st_scheme) out" where
  "pipewrite_end pi i s =
     bnd (wakeup (Some (PipeReadChan pi)) s) (\<lambda>_ s1. bnd (release (PipeLock pi) s1) (\<lambda>_ s2. Done i s2))"

text \<open>The loop of \<^verbatim>\<open>pipewrite\<close> of process \<open>pr\<close> with \<open>k\<close> bytes to go, from byte \<open>i\<close>.\<close>

primrec pipewrite_loop :: "nat \<Rightarrow> u64 \<Rightarrow> u64 \<Rightarrow> nat \<Rightarrow> int \<Rightarrow> 'a file_st_scheme \<Rightarrow> (int, 'a file_st_scheme) out" where
  "pipewrite_loop pr pi addr 0 i s = pipewrite_end pi i s"
| "pipewrite_loop pr pi addr (Suc k) i s =
     bnd (if \<not> readopen (pipes s pi) then Done 1 s else killed pr s) (\<lambda>stop s1.
       if stop \<noteq> 0 then bnd (release (PipeLock pi) s1) (\<lambda>_ s2. Done (-1) s2)
       else if nwrite (pipes s1 pi) = nread (pipes s1 pi) + of_nat PIPESIZE
       then bnd (wakeup (Some (PipeReadChan pi)) s1) (\<lambda>_ s2.
            bnd (sleep (PipeWriteChan pi) (PipeLock pi) s2) (\<lambda>_ s3. Done (-1) s3))
       else bnd (copyin (pagetable (procs s1 pr)) (addr + of_int i) 1 s1) (\<lambda>r s2.
         if fst r = -1 then pipewrite_end pi i s2
         else pipewrite_loop pr pi addr k (i + 1)
           (set_pipe pi (\<lambda>x. x\<lparr>pi_data := (pi_data x)[unat (nwrite x) mod PIPESIZE := snd r ! 0], nwrite := nwrite x + 1\<rparr>) s2)))"

definition pipewrite :: "u64 \<Rightarrow> u64 \<Rightarrow> int \<Rightarrow> 'a file_st_scheme \<Rightarrow> (int, 'a file_st_scheme) out" where
  "pipewrite pi addr n s =
     bnd (myproc s) (\<lambda>me s1. case me of None \<Rightarrow> Panic ''kerneltrap'' | Some pr \<Rightarrow>
       bnd (acquire (PipeLock pi) s1) (\<lambda>_ s2. pipewrite_loop pr pi addr (nat n) 0 s2))"

text \<open>The copying loop of \<^verbatim>\<open>piperead\<close>: the number of bytes copied.\<close>

primrec piperead_copy :: "nat \<Rightarrow> u64 \<Rightarrow> u64 \<Rightarrow> nat \<Rightarrow> int \<Rightarrow> 'a file_st_scheme \<Rightarrow> (int, 'a file_st_scheme) out" where
  "piperead_copy pr pi addr 0 i s = Done i s"
| "piperead_copy pr pi addr (Suc k) i s =
     (if nread (pipes s pi) = nwrite (pipes s pi) then Done i s
      else let ch = pi_data (pipes s pi) ! (unat (nread (pipes s pi)) mod PIPESIZE);
               s1 = set_pipe pi (\<lambda>x. x\<lparr>nread := nread x + 1\<rparr>) s
           in bnd (copyout (pagetable (procs s1 pr)) (addr + of_int i) [ch] s1) (\<lambda>r s2.
                if r = -1 then Done i s2 else piperead_copy pr pi addr k (i + 1) s2))"

definition piperead_loop :: "nat \<Rightarrow> u64 \<Rightarrow> u64 \<Rightarrow> int \<Rightarrow> 'a file_st_scheme \<Rightarrow> (int, 'a file_st_scheme) out" where
  "piperead_loop pr pi addr n s =
     (if nread (pipes s pi) = nwrite (pipes s pi) \<and> writeopen (pipes s pi) then
        bnd (killed pr s) (\<lambda>k s1.
          if k \<noteq> 0 then bnd (release (PipeLock pi) s1) (\<lambda>_ s2. Done (-1) s2)
          else bnd (sleep (PipeReadChan pi) (PipeLock pi) s1) (\<lambda>_ s2. Done (-1) s2))
      else bnd (piperead_copy pr pi addr (nat n) 0 s) (\<lambda>i s1.
           bnd (wakeup (Some (PipeWriteChan pi)) s1) (\<lambda>_ s2.
           bnd (release (PipeLock pi) s2) (\<lambda>_ s3. Done i s3))))"

definition piperead :: "u64 \<Rightarrow> u64 \<Rightarrow> int \<Rightarrow> 'a file_st_scheme \<Rightarrow> (int, 'a file_st_scheme) out" where
  "piperead pi addr n s =
     bnd (myproc s) (\<lambda>me s1. case me of None \<Rightarrow> Panic ''kerneltrap'' | Some pr \<Rightarrow>
       bnd (acquire (PipeLock pi) s1) (\<lambda>_ s2. piperead_loop pr pi addr n s2))"

section \<open>kernel/file.c\<close>

definition fileinit :: "'a file_st_scheme \<Rightarrow> 'a file_st_scheme" where
  "fileinit s = initlock FtableLock ''ftable'' s"

primrec filealloc_scan :: "nat list \<Rightarrow> (nat \<Rightarrow> filestruct) \<Rightarrow> nat option" where
  "filealloc_scan [] F = None"
| "filealloc_scan (f # fs) F = (if f_ref (F f) = 0 then Some f else filealloc_scan fs F)"

definition filealloc :: "'a file_st_scheme \<Rightarrow> (nat option, 'a file_st_scheme) out" where
  "filealloc s =
     bnd (acquire FtableLock s) (\<lambda>_ s1.
       case filealloc_scan [0..<NFILE] (files s1) of
         Some f \<Rightarrow> bnd (release FtableLock (set_file f (\<lambda>x. x\<lparr>f_ref := 1\<rparr>) s1)) (\<lambda>_ s2. Done (Some f) s2)
       | None \<Rightarrow> bnd (release FtableLock s1) (\<lambda>_ s2. Done None s2))"

definition filedup :: "nat \<Rightarrow> 'a file_st_scheme \<Rightarrow> (nat, 'a file_st_scheme) out" where
  "filedup f s =
     bnd (acquire FtableLock s) (\<lambda>_ s1.
       if f_ref (files s1 f) < 1 then Panic ''filedup''
       else bnd (release FtableLock (set_file f (\<lambda>x. x\<lparr>f_ref := f_ref x + 1\<rparr>) s1)) (\<lambda>_ s2. Done f s2))"

definition file_ip :: "filestruct \<Rightarrow> (nat \<Rightarrow> 'a file_st_scheme \<Rightarrow> ('b, 'a file_st_scheme) out) \<Rightarrow> 'a file_st_scheme \<Rightarrow> ('b, 'a file_st_scheme) out" where
  "file_ip ff k s = (case f_ip ff of None \<Rightarrow> Panic ''kerneltrap'' | Some ip \<Rightarrow> k ip s)"

definition fileclose :: "nat \<Rightarrow> 'a file_st_scheme \<Rightarrow> (unit, 'a file_st_scheme) out" where
  "fileclose f s =
     bnd (acquire FtableLock s) (\<lambda>_ s1.
       if f_ref (files s1 f) < 1 then Panic ''fileclose''
       else let s2 = set_file f (\<lambda>x. x\<lparr>f_ref := f_ref x - 1\<rparr>) s1
       in if f_ref (files s2 f) > 0 then release FtableLock s2
          else let ff = files s2 f
          in bnd (release FtableLock (set_file f (\<lambda>x. x\<lparr>f_ref := 0, f_type := FD_NONE\<rparr>) s2)) (\<lambda>_ s3.
               if f_type ff = FD_PIPE then pipeclose (f_pipe ff) (f_writable ff) s3
               else if f_type ff = FD_INODE \<or> f_type ff = FD_DEVICE then
                 bnd (begin_op s3) (\<lambda>_ s4.
                 bnd (file_ip ff iput s4) (\<lambda>_ s5. end_op s5))
               else Done () s3))"

text \<open>The bytes of a \<^verbatim>\<open>struct stat\<close>: 24 bytes, with the 64-bit size at offset 16 after four bytes of padding.\<close>

definition stat_bytes :: "fstat \<Rightarrow> u8 list" where
  "stat_bytes st = le_bytes 4 (st_dev st) @ le_bytes 4 (st_ino st) @ le_bytes 2 (st_type st) @ le_bytes 2 (st_nlink st) @
     replicate 4 0 @ le_bytes 8 (st_size st)"

definition filestat :: "nat \<Rightarrow> u64 \<Rightarrow> 'a file_st_scheme \<Rightarrow> (int, 'a file_st_scheme) out" where
  "filestat f addr s =
     bnd (myproc s) (\<lambda>me s1. case me of None \<Rightarrow> Panic ''kerneltrap'' | Some p \<Rightarrow>
       if f_type (files s1 f) = FD_INODE \<or> f_type (files s1 f) = FD_DEVICE then
         bnd (ilock (f_ip (files s1 f)) s1) (\<lambda>_ s2.
         bnd (file_ip (files s2 f) (\<lambda>ip s3. Done (stati ip s3) s3) s2) (\<lambda>st s3.
         bnd (iunlock (f_ip (files s3 f)) s3) (\<lambda>_ s4.
         bnd (copyout (pagetable (procs s4 p)) addr (stat_bytes st) s4) (\<lambda>r s5.
           if r < 0 then Done (-1) s5 else Done 0 s5))))
       else Done (-1) s1)"

definition dev_ops :: "u16 \<Rightarrow> 'a tty_st_scheme \<Rightarrow> devops option" where
  "dev_ops mj s = (if sint mj < 0 \<or> sint mj \<ge> int NDEV then None else devsw s (nat (sint mj)))"

definition fileread :: "nat \<Rightarrow> u64 \<Rightarrow> int \<Rightarrow> 'a file_st_scheme \<Rightarrow> (int, 'a file_st_scheme) out" where
  "fileread f addr n s =
     (if \<not> f_readable (files s f) then Done (-1) s
      else case f_type (files s f) of
        FD_PIPE \<Rightarrow> piperead (f_pipe (files s f)) addr n s
      | FD_DEVICE \<Rightarrow> (case dev_ops (f_major (files s f)) s of
            None \<Rightarrow> Done (-1) s | Some ConsoleOps \<Rightarrow> consoleread True addr n s)
      | FD_INODE \<Rightarrow>
          bnd (ilock (f_ip (files s f)) s) (\<lambda>_ s1.
          bnd (file_ip (files s1 f) (\<lambda>ip. readi ip (Mem True addr) (f_off (files s1 f)) (word_of_int n)) s1) (\<lambda>r s2.
            let s3 = (if fst r > 0 then set_file f (\<lambda>x. x\<lparr>f_off := f_off x + word_of_int (fst r)\<rparr>) s2 else s2)
            in bnd (iunlock (f_ip (files s3 f)) s3) (\<lambda>_ s4. Done (fst r) s4)))
      | FD_NONE \<Rightarrow> Panic ''fileread'')"

text \<open>The largest write of one transaction: \<^verbatim>\<open>((MAXOPBLOCKS-1-1-2) / 2) * BSIZE\<close>.\<close>

definition write_max :: nat where
  "write_max = ((MAXOPBLOCKS - 1 - 1 - 2) div 2) * BSIZE"

lemma write_step: "i < n \<Longrightarrow> n - (i + min (n - i) write_max) < n - i"
  by (simp add: write_max_def MAXOPBLOCKS_def BSIZE_def)

text \<open>The loop of \<^verbatim>\<open>filewrite\<close>: the number of bytes written when it ends.\<close>

function filewrite_loop :: "nat \<Rightarrow> u64 \<Rightarrow> nat \<Rightarrow> nat \<Rightarrow> 'a file_st_scheme \<Rightarrow> (nat, 'a file_st_scheme) out" where
  "filewrite_loop f addr n i s =
     (if i < n then
        let n1 = min (n - i) write_max
        in bnd (begin_op s) (\<lambda>_ s1.
           bnd (ilock (f_ip (files s1 f)) s1) (\<lambda>_ s2.
           bnd (file_ip (files s2 f) (\<lambda>ip. writei ip (Mem True (addr + of_nat i)) (f_off (files s2 f)) (of_nat n1)) s2) (\<lambda>r s3.
             let s4 = (if r > 0 then set_file f (\<lambda>x. x\<lparr>f_off := f_off x + word_of_int r\<rparr>) s3 else s3)
             in bnd (iunlock (f_ip (files s4 f)) s4) (\<lambda>_ s5.
                bnd (end_op s5) (\<lambda>_ s6.
                  if r \<noteq> int n1 then Done i s6 else filewrite_loop f addr n (i + n1) s6)))))
      else Done i s)"
  by pat_completeness auto
termination
  by (relation "measure (\<lambda>(f, addr, n, i, s). n - i)") (simp_all add: write_step)

declare filewrite_loop.simps [simp del]

definition filewrite :: "nat \<Rightarrow> u64 \<Rightarrow> int \<Rightarrow> 'a file_st_scheme \<Rightarrow> (int, 'a file_st_scheme) out" where
  "filewrite f addr n s =
     (if \<not> f_writable (files s f) then Done (-1) s
      else case f_type (files s f) of
        FD_PIPE \<Rightarrow> pipewrite (f_pipe (files s f)) addr n s
      | FD_DEVICE \<Rightarrow> (case dev_ops (f_major (files s f)) s of
            None \<Rightarrow> Done (-1) s | Some ConsoleOps \<Rightarrow> consolewrite True addr n s)
      | FD_INODE \<Rightarrow> bnd (filewrite_loop f addr (nat n) 0 s) (\<lambda>i s1. Done (if int i = n then n else -1) s1)
      | FD_NONE \<Rightarrow> Panic ''filewrite'')"

section \<open>pipealloc\<close>

definition pipealloc_bad :: "nat option \<Rightarrow> nat option \<Rightarrow> 'a file_st_scheme \<Rightarrow> ((nat \<times> nat) option, 'a file_st_scheme) out" where
  "pipealloc_bad f0 f1 s =
     bnd (case f0 of Some f \<Rightarrow> fileclose f s | None \<Rightarrow> Done () s) (\<lambda>_ s1.
     bnd (case f1 of Some f \<Rightarrow> fileclose f s1 | None \<Rightarrow> Done () s1) (\<lambda>_ s2. Done None s2))"

text \<open>
  The two files of the new pipe, or \<open>None\<close> for the result -1. The data of the pipe is what \<^verbatim>\<open>kalloc\<close> filled
  the page with.
\<close>

definition pipealloc :: "'a file_st_scheme \<Rightarrow> ((nat \<times> nat) option, 'a file_st_scheme) out" where
  "pipealloc s =
     bnd (filealloc s) (\<lambda>r0 s1. case r0 of None \<Rightarrow> pipealloc_bad None None s1 | Some f0 \<Rightarrow>
     bnd (filealloc s1) (\<lambda>r1 s2. case r1 of None \<Rightarrow> pipealloc_bad (Some f0) None s2 | Some f1 \<Rightarrow>
     bnd (kalloc s2) (\<lambda>pi s3.
       if pi = 0 then pipealloc_bad (Some f0) (Some f1) s3
       else let s4 = initlock (PipeLock pi) ''pipe''
                (set_pipe pi (\<lambda>x. x\<lparr>pi_data := replicate PIPESIZE 5, readopen := True, writeopen := True, nwrite := 0, nread := 0\<rparr>) s3);
              s5 = set_file f0 (\<lambda>x. x\<lparr>f_type := FD_PIPE, f_readable := True, f_writable := False, f_pipe := pi\<rparr>) s4;
              s6 = set_file f1 (\<lambda>x. x\<lparr>f_type := FD_PIPE, f_readable := False, f_writable := True, f_pipe := pi\<rparr>) s5
            in Done (Some (f0, f1)) s6)))"

section \<open>Framing\<close>

lemma file_locks [simp]:
  "files (lock_on lk s) = files s"
  "files_update f1 (lock_on lk s) = lock_on lk (files_update f1 s)"
  "pipes (lock_on lk s) = pipes s"
  "pipes_update f2 (lock_on lk s) = lock_on lk (pipes_update f2 s)"
  by (simp_all add: lock_on_def acquire_own_def acquire_swap_def push_off_def intr_defs cpu_defs Let_def)

lemma file_push [simp]:
  "files (push_off s) = files s"
  "files_update f1 (push_off s) = push_off (files_update f1 s)"
  "pipes (push_off s) = pipes s"
  "pipes_update f2 (push_off s) = push_off (pipes_update f2 s)"
  by (simp_all add: push_off_def intr_defs cpu_defs Let_def)

lemma file_settle [simp]:
  "files (settle s) = files s"
  "settle (files_update f1 s) = files_update f1 (settle s)"
  "pipes (settle s) = pipes s"
  "settle (pipes_update f2 s) = pipes_update f2 (settle s)"
  by (simp_all add: settle_def intr_defs cpu_defs)

lemma file_machine [simp]:
  "free_lock (files_update f1 s) lk = free_lock s lk"
  "cpu_ok (files_update f1 s) = cpu_ok s"
  "mycpu (files_update f1 s) = mycpu s"
  "cpuid (files_update f1 s) = cpuid s"
  "intr_get (files_update f1 s) = intr_get s"
  "holding lk (files_update f1 s) = holding lk s"
  "free_lock (pipes_update f2 s) lk = free_lock s lk"
  "cpu_ok (pipes_update f2 s) = cpu_ok s"
  "mycpu (pipes_update f2 s) = mycpu s"
  "cpuid (pipes_update f2 s) = cpuid s"
  "intr_get (pipes_update f2 s) = intr_get s"
  "holding lk (pipes_update f2 s) = holding lk s"
  by (simp_all add: free_lock_def cpu_ok_def holding_def cpu_defs intr_defs)

end
