(* ===== verification/Procfs.thy ===== *)
theory Procfs
  imports File
begin

text \<open>
  The parts of \<^verbatim>\<open>kernel/proc.c\<close> that use files: \<^verbatim>\<open>userinit\<close>, \<^verbatim>\<open>fork\<close> and \<^verbatim>\<open>exit\<close>; and the access to
  system call arguments of \<^verbatim>\<open>kernel/syscall.c\<close>.

  The trapframe of a process is in the page its field \<^verbatim>\<open>trapframe\<close> points to; its registers are 64-bit
  words at the offsets of \<^verbatim>\<open>struct trapframe\<close>.
\<close>

section \<open>Trapframes\<close>

definition tf_kernel_satp :: u64 where "tf_kernel_satp = 0"
definition tf_kernel_sp :: u64 where "tf_kernel_sp = 8"
definition tf_kernel_trap :: u64 where "tf_kernel_trap = 16"
definition tf_epc :: u64 where "tf_epc = 24"
definition tf_kernel_hartid :: u64 where "tf_kernel_hartid = 32"
definition tf_sp :: u64 where "tf_sp = 48"
definition tf_a0 :: u64 where "tf_a0 = 112"
definition tf_a1 :: u64 where "tf_a1 = 120"
definition tf_a2 :: u64 where "tf_a2 = 128"
definition tf_a3 :: u64 where "tf_a3 = 136"
definition tf_a4 :: u64 where "tf_a4 = 144"
definition tf_a5 :: u64 where "tf_a5 = 152"
definition tf_a7 :: u64 where "tf_a7 = 168"
definition tf_size :: nat where "tf_size = 288"

definition tf_get :: "nat \<Rightarrow> u64 \<Rightarrow> 'a proc_st_scheme \<Rightarrow> u64" where
  "tf_get p reg s = load64 (mem s) (trapframe (procs s p) + reg)"

definition tf_set :: "nat \<Rightarrow> u64 \<Rightarrow> u64 \<Rightarrow> 'a proc_st_scheme \<Rightarrow> 'a proc_st_scheme" where
  "tf_set p reg v s = s\<lparr>mem := store64 (mem s) (trapframe (procs s p) + reg) v\<rparr>"

section \<open>userinit, fork and exit\<close>

definition initcode :: "u8 list" where
  "initcode = [
     0x17, 0x05, 0x00, 0x00, 0x13, 0x05, 0x45, 0x02,
     0x97, 0x05, 0x00, 0x00, 0x93, 0x85, 0x35, 0x02,
     0x93, 0x08, 0x70, 0x00, 0x73, 0x00, 0x00, 0x00,
     0x93, 0x08, 0x20, 0x00, 0x73, 0x00, 0x00, 0x00,
     0xef, 0xf0, 0x9f, 0xff, 0x2f, 0x69, 0x6e, 0x69,
     0x74, 0x00, 0x00, 0x24, 0x00, 0x00, 0x00, 0x00,
     0x00, 0x00, 0x00, 0x00]"

definition name_size :: int where "name_size = 16"

definition userinit :: "'a file_st_scheme \<Rightarrow> (unit, 'a file_st_scheme) out" where
  "userinit s =
     bnd (allocproc s) (\<lambda>r s0. case r of None \<Rightarrow> Panic ''kerneltrap'' | Some p \<Rightarrow>
       let s1 = s0\<lparr>initproc := Some p\<rparr>
       in bnd (uvmfirst (pagetable (procs s1 p)) initcode s1) (\<lambda>_ s2.
          let s3 = set_proc p (\<lambda>x. x\<lparr>sz := PGSIZE\<rparr>) s2;
              s4 = tf_set p tf_sp PGSIZE (tf_set p tf_epc 0 s3);
              s5 = set_proc p (\<lambda>x. x\<lparr>pname := safestrcpy (pname x) (cstr (bytes ''initcode'')) name_size\<rparr>) s4
          in bnd (namei (bytes ''/'') s5) (\<lambda>ip s6.
             release (ProcLock p) (set_proc p (\<lambda>x. x\<lparr>cwd := ip, pstate := RUNNABLE\<rparr>) s6))))"

primrec fork_files :: "nat \<Rightarrow> nat \<Rightarrow> nat list \<Rightarrow> 'a file_st_scheme \<Rightarrow> (unit, 'a file_st_scheme) out" where
  "fork_files p np [] s = Done () s"
| "fork_files p np (i # is) s = (case ofile (procs s p) i of
     None \<Rightarrow> fork_files p np is s
   | Some f \<Rightarrow> bnd (filedup f s) (\<lambda>g s1.
       fork_files p np is (set_proc np (\<lambda>x. x\<lparr>ofile := (ofile x)(i := Some g)\<rparr>) s1)))"

definition fork :: "'a file_st_scheme \<Rightarrow> (int, 'a file_st_scheme) out" where
  "fork s =
     myproc_deref (\<lambda>p s0.
     bnd (allocproc s0) (\<lambda>r s1. case r of None \<Rightarrow> Done (-1) s1 | Some np \<Rightarrow>
     bnd (uvmcopy (pagetable (procs s1 p)) (pagetable (procs s1 np)) (sz (procs s1 p)) s1) (\<lambda>c s2.
       if c < 0 then
         bnd (freeproc np s2) (\<lambda>_ s3. bnd (release (ProcLock np) s3) (\<lambda>_ s4. Done (-1) s4))
       else
         let s3 = set_proc np (\<lambda>x. x\<lparr>sz := sz (procs s2 p)\<rparr>) s2;
             s4 = s3\<lparr>mem := write_bytes (mem s3) (trapframe (procs s3 np)) (read_bytes (mem s3) (trapframe (procs s3 p)) tf_size)\<rparr>;
             s5 = tf_set np tf_a0 0 s4
         in bnd (fork_files p np [0..<NOFILE] s5) (\<lambda>_ s6.
            bnd (case cwd (procs s6 p) of None \<Rightarrow> Panic ''kerneltrap'' | Some ip \<Rightarrow> idup ip s6) (\<lambda>ip s7.
              let s8 = set_proc np (\<lambda>x. x\<lparr>cwd := Some ip,
                         pname := safestrcpy (pname x) (cstr (pname (procs s7 p))) name_size\<rparr>) s7;
                  child = pid (procs s8 np)
              in bnd (release (ProcLock np) s8) (\<lambda>_ s9.
                 bnd (acquire WaitLock s9) (\<lambda>_ s10.
                 bnd (release WaitLock (set_proc np (\<lambda>x. x\<lparr>parent := Some p\<rparr>) s10)) (\<lambda>_ s11.
                 bnd (acquire (ProcLock np) s11) (\<lambda>_ s12.
                 bnd (release (ProcLock np) (set_proc np (\<lambda>x. x\<lparr>pstate := RUNNABLE\<rparr>) s12)) (\<lambda>_ s13.
                   Done (sint child) s13))))))))))
     s"

primrec exit_files :: "nat \<Rightarrow> nat list \<Rightarrow> 'a file_st_scheme \<Rightarrow> (unit, 'a file_st_scheme) out" where
  "exit_files p [] s = Done () s"
| "exit_files p (fd # fds) s = (case ofile (procs s p) fd of
     None \<Rightarrow> exit_files p fds s
   | Some f \<Rightarrow> bnd (fileclose f s) (\<lambda>_ s1.
       exit_files p fds (set_proc p (\<lambda>x. x\<lparr>ofile := (ofile x)(fd := None)\<rparr>) s1)))"

definition exit :: "u32 \<Rightarrow> 'a file_st_scheme \<Rightarrow> (unit, 'a file_st_scheme) out" where
  "exit status s =
     myproc_deref (\<lambda>p s1.
       if initproc s1 = Some p then Panic ''init exiting''
       else bnd (exit_files p [0..<NOFILE] s1) (\<lambda>_ s2.
         bnd (begin_op s2) (\<lambda>_ s3.
         bnd (case cwd (procs s3 p) of None \<Rightarrow> Panic ''kerneltrap'' | Some ip \<Rightarrow> iput ip s3) (\<lambda>_ s4.
         bnd (end_op s4) (\<lambda>_ s5.
         bnd (acquire WaitLock (set_proc p (\<lambda>x. x\<lparr>cwd := None\<rparr>) s5)) (\<lambda>_ s6.
         bnd (reparent p s6) (\<lambda>_ s7.
         bnd (wakeup (map_option ProcChan (parent (procs s7 p))) s7) (\<lambda>_ s8.
         bnd (acquire (ProcLock p) s8) (\<lambda>_ s9.
         bnd (release WaitLock (set_proc p (\<lambda>x. x\<lparr>xstate := status, pstate := ZOMBIE\<rparr>) s9)) (\<lambda>_ s10.
         bnd (sched s10) (\<lambda>_ s11. Panic ''zombie exit''))))))))))) s"

section \<open>System call arguments\<close>

definition fetchaddr :: "u64 \<Rightarrow> 'a file_st_scheme \<Rightarrow> (int \<times> u64, 'a file_st_scheme) out" where
  "fetchaddr addr s =
     myproc_deref (\<lambda>p s1.
       if addr \<ge> sz (procs s1 p) \<or> addr + 8 > sz (procs s1 p) then Done (-1, 0) s1
       else bnd (copyin (pagetable (procs s1 p)) addr 8 s1) (\<lambda>r s2.
         if fst r \<noteq> 0 then Done (-1, 0) s2 else Done (0, of_le (snd r)) s2)) s"

text \<open>The result and the bytes copied into \<^verbatim>\<open>buf\<close>.\<close>

definition fetchstr :: "u64 \<Rightarrow> nat \<Rightarrow> 'a file_st_scheme \<Rightarrow> (int \<times> u8 list, 'a file_st_scheme) out" where
  "fetchstr addr maxlen s =
     myproc_deref (\<lambda>p s1.
       bnd (copyinstr (pagetable (procs s1 p)) addr maxlen s1) (\<lambda>r s2.
         if fst r < 0 then Done (-1, snd r) s2
         else case strlen (cstr (snd r)) of None \<Rightarrow> Waits NoFuel s2 | Some n \<Rightarrow> Done (int n, snd r) s2)) s"

definition argraw :: "nat \<Rightarrow> 'a file_st_scheme \<Rightarrow> (u64, 'a file_st_scheme) out" where
  "argraw n s =
     myproc_deref (\<lambda>p s1.
       if n = 0 then Done (tf_get p tf_a0 s1) s1
       else if n = 1 then Done (tf_get p tf_a1 s1) s1
       else if n = 2 then Done (tf_get p tf_a2 s1) s1
       else if n = 3 then Done (tf_get p tf_a3 s1) s1
       else if n = 4 then Done (tf_get p tf_a4 s1) s1
       else if n = 5 then Done (tf_get p tf_a5 s1) s1
       else Panic ''argraw'') s"

definition argint :: "nat \<Rightarrow> 'a file_st_scheme \<Rightarrow> (u32, 'a file_st_scheme) out" where
  "argint n s = bnd (argraw n s) (\<lambda>v s1. Done (ucast v) s1)"

definition argaddr :: "nat \<Rightarrow> 'a file_st_scheme \<Rightarrow> (u64, 'a file_st_scheme) out" where
  "argaddr n s = argraw n s"

definition argstr :: "nat \<Rightarrow> nat \<Rightarrow> 'a file_st_scheme \<Rightarrow> (int \<times> u8 list, 'a file_st_scheme) out" where
  "argstr n maxlen s = bnd (argaddr n s) (\<lambda>addr s1. fetchstr addr maxlen s1)"

end
