(* ===== verification/Sysfile.thy ===== *)
theory Sysfile
  imports Procfs
begin

text \<open>
  The file system calls \<^verbatim>\<open>kernel/sysfile.c\<close>, except \<^verbatim>\<open>sys_exec\<close>. A system call returns the 64-bit value
  that ends up in register \<^verbatim>\<open>a0\<close>; \<^verbatim>\<open>-1\<close> is the word of ones. Local path buffers are the lists of their bytes.
\<close>

definition O_RDONLY :: u32 where "O_RDONLY = 0"
definition O_WRONLY :: u32 where "O_WRONLY = 1"
definition O_RDWR :: u32 where "O_RDWR = 2"
definition O_CREATE :: u32 where "O_CREATE = 0x200"
definition O_TRUNC :: u32 where "O_TRUNC = 0x400"

section \<open>Descriptors\<close>

text \<open>The descriptor and the file, or \<open>None\<close> for the result -1.\<close>

definition argfd :: "nat \<Rightarrow> 'a file_st_scheme \<Rightarrow> ((nat \<times> nat) option, 'a file_st_scheme) out" where
  "argfd n s =
     bnd (argint n s) (\<lambda>v s1.
       let fd = sint v
       in if fd < 0 \<or> fd \<ge> int NOFILE then Done None s1
          else myproc_deref (\<lambda>p s2. case ofile (procs s2 p) (nat fd) of
                 None \<Rightarrow> Done None s2 | Some f \<Rightarrow> Done (Some (nat fd, f)) s2) s1)"

primrec fdalloc_scan :: "nat list \<Rightarrow> (nat \<Rightarrow> nat option) \<Rightarrow> nat option" where
  "fdalloc_scan [] fds = None"
| "fdalloc_scan (fd # rest) fds = (if fds fd = None then Some fd else fdalloc_scan rest fds)"

definition fdalloc :: "nat \<Rightarrow> 'a file_st_scheme \<Rightarrow> (nat option, 'a file_st_scheme) out" where
  "fdalloc f s =
     myproc_deref (\<lambda>p s1. case fdalloc_scan [0..<NOFILE] (ofile (procs s1 p)) of
       None \<Rightarrow> Done None s1
     | Some fd \<Rightarrow> Done (Some fd) (set_proc p (\<lambda>x. x\<lparr>ofile := (ofile x)(fd := Some f)\<rparr>) s1)) s"

definition sys_dup :: "'a file_st_scheme \<Rightarrow> (u64, 'a file_st_scheme) out" where
  "sys_dup s =
     bnd (argfd 0 s) (\<lambda>a s1. case a of None \<Rightarrow> Done (-1) s1 | Some (_, f) \<Rightarrow>
     bnd (fdalloc f s1) (\<lambda>b s2. case b of None \<Rightarrow> Done (-1) s2 | Some fd \<Rightarrow>
     bnd (filedup f s2) (\<lambda>_ s3. Done (of_nat fd) s3)))"

definition sys_read :: "'a file_st_scheme \<Rightarrow> (u64, 'a file_st_scheme) out" where
  "sys_read s =
     bnd (argaddr 1 s) (\<lambda>p s1. bnd (argint 2 s1) (\<lambda>n s2.
     bnd (argfd 0 s2) (\<lambda>a s3. case a of None \<Rightarrow> Done (-1) s3 | Some (_, f) \<Rightarrow>
     bnd (fileread f p (sint n) s3) (\<lambda>r s4. Done (word_of_int r) s4))))"

definition sys_write :: "'a file_st_scheme \<Rightarrow> (u64, 'a file_st_scheme) out" where
  "sys_write s =
     bnd (argaddr 1 s) (\<lambda>p s1. bnd (argint 2 s1) (\<lambda>n s2.
     bnd (argfd 0 s2) (\<lambda>a s3. case a of None \<Rightarrow> Done (-1) s3 | Some (_, f) \<Rightarrow>
     bnd (filewrite f p (sint n) s3) (\<lambda>r s4. Done (word_of_int r) s4))))"

definition sys_close :: "'a file_st_scheme \<Rightarrow> (u64, 'a file_st_scheme) out" where
  "sys_close s =
     bnd (argfd 0 s) (\<lambda>a s1. case a of None \<Rightarrow> Done (-1) s1 | Some (fd, f) \<Rightarrow>
     bnd (myproc_deref (\<lambda>p s2. Done () (set_proc p (\<lambda>x. x\<lparr>ofile := (ofile x)(fd := None)\<rparr>) s2)) s1) (\<lambda>_ s3.
     bnd (fileclose f s3) (\<lambda>_ s4. Done 0 s4)))"

definition sys_fstat :: "'a file_st_scheme \<Rightarrow> (u64, 'a file_st_scheme) out" where
  "sys_fstat s =
     bnd (argaddr 1 s) (\<lambda>st s1.
     bnd (argfd 0 s1) (\<lambda>a s2. case a of None \<Rightarrow> Done (-1) s2 | Some (_, f) \<Rightarrow>
     bnd (filestat f st s2) (\<lambda>r s3. Done (word_of_int r) s3)))"

section \<open>Links\<close>

definition end_fail :: "'a file_st_scheme \<Rightarrow> (u64, 'a file_st_scheme) out" where
  "end_fail s = bnd (end_op s) (\<lambda>_ s1. Done (-1) s1)"

definition put_fail :: "nat \<Rightarrow> 'a file_st_scheme \<Rightarrow> (u64, 'a file_st_scheme) out" where
  "put_fail ip s = bnd (iunlockput ip s) (\<lambda>_ s1. end_fail s1)"

definition link_bad :: "nat \<Rightarrow> 'a file_st_scheme \<Rightarrow> (u64, 'a file_st_scheme) out" where
  "link_bad ip s =
     bnd (ilock (Some ip) s) (\<lambda>_ s1.
     bnd (iupdate ip (set_inode ip (\<lambda>x. x\<lparr>i_nlink := i_nlink x - 1\<rparr>) s1)) (\<lambda>_ s2. put_fail ip s2))"

definition link_inodes :: "u8 list \<Rightarrow> nat \<Rightarrow> 'a file_st_scheme \<Rightarrow> (u64, 'a file_st_scheme) out" where
  "link_inodes new ip s =
     bnd (nameiparent new (replicate DIRSIZ 0) s) (\<lambda>r s1. case fst r of None \<Rightarrow> link_bad ip s1 | Some dp \<Rightarrow>
     bnd (ilock (Some dp) s1) (\<lambda>_ s2.
     bnd (if i_dev (inodes s2 dp) \<noteq> i_dev (inodes s2 ip) then Done (-1) s2
          else dirlink dp (snd r) (i_inum (inodes s2 ip)) s2) (\<lambda>l s3.
       if l < 0 then bnd (iunlockput dp s3) (\<lambda>_ s4. link_bad ip s4)
       else bnd (iunlockput dp s3) (\<lambda>_ s4.
            bnd (iput ip s4) (\<lambda>_ s5.
            bnd (end_op s5) (\<lambda>_ s6. Done 0 s6))))))"

definition sys_link :: "'a file_st_scheme \<Rightarrow> (u64, 'a file_st_scheme) out" where
  "sys_link s =
     bnd (argstr 0 MAXPATH s) (\<lambda>old s0. if fst old < 0 then Done (-1) s0 else
     bnd (argstr 1 MAXPATH s0) (\<lambda>new s1. if fst new < 0 then Done (-1) s1 else
     bnd (begin_op s1) (\<lambda>_ s2.
     bnd (namei (cstring (snd old)) s2) (\<lambda>r s3. case r of None \<Rightarrow> end_fail s3 | Some ip \<Rightarrow>
     bnd (ilock (Some ip) s3) (\<lambda>_ s4.
       if i_type (inodes s4 ip) = T_DIR then put_fail ip s4
       else bnd (iupdate ip (set_inode ip (\<lambda>x. x\<lparr>i_nlink := i_nlink x + 1\<rparr>) s4)) (\<lambda>_ s5.
            bnd (iunlock (Some ip) s5) (\<lambda>_ s6. link_inodes (cstring (snd new)) ip s6)))))))"

primrec isdirempty_loop :: "nat \<Rightarrow> nat list \<Rightarrow> 'a file_st_scheme \<Rightarrow> (bool, 'a file_st_scheme) out" where
  "isdirempty_loop dp [] s = Done True s"
| "isdirempty_loop dp (off # offs) s =
     bnd (read_dirent ''isdirempty: readi'' dp off s) (\<lambda>de s1.
       if de_inum de \<noteq> 0 then Done False s1 else isdirempty_loop dp offs s1)"

definition isdirempty :: "nat \<Rightarrow> 'a file_st_scheme \<Rightarrow> (bool, 'a file_st_scheme) out" where
  "isdirempty dp s = isdirempty_loop dp (drop 2 (dirent_offs (i_size (inodes s dp)))) s"

text \<open>The part of \<^verbatim>\<open>sys_unlink\<close> after both inodes are locked and the entry may go.\<close>

definition unlink_entry :: "nat \<Rightarrow> nat \<Rightarrow> nat \<Rightarrow> 'a file_st_scheme \<Rightarrow> (u64, 'a file_st_scheme) out" where
  "unlink_entry dp ip off s =
     bnd (writei dp (Local (replicate 16 0)) (of_nat off) 16 s) (\<lambda>r s1.
       if r \<noteq> 16 then Panic ''unlink: writei''
       else bnd (if i_type (inodes s1 ip) = T_DIR
                 then iupdate dp (set_inode dp (\<lambda>x. x\<lparr>i_nlink := i_nlink x - 1\<rparr>) s1) else Done () s1) (\<lambda>_ s2.
            bnd (iunlockput dp s2) (\<lambda>_ s3.
            bnd (iupdate ip (set_inode ip (\<lambda>x. x\<lparr>i_nlink := i_nlink x - 1\<rparr>) s3)) (\<lambda>_ s4.
            bnd (iunlockput ip s4) (\<lambda>_ s5.
            bnd (end_op s5) (\<lambda>_ s6. Done 0 s6))))))"

definition sys_unlink :: "'a file_st_scheme \<Rightarrow> (u64, 'a file_st_scheme) out" where
  "sys_unlink s =
     bnd (argstr 0 MAXPATH s) (\<lambda>path s0. if fst path < 0 then Done (-1) s0 else
     bnd (begin_op s0) (\<lambda>_ s1.
     bnd (nameiparent (cstring (snd path)) (replicate DIRSIZ 0) s1) (\<lambda>r s2. case fst r of None \<Rightarrow> end_fail s2 | Some dp \<Rightarrow>
     bnd (ilock (Some dp) s2) (\<lambda>_ s3.
       if namecmp (snd r) (bytes ''.'') = 0 \<or> namecmp (snd r) (bytes ''..'') = 0 then put_fail dp s3
       else bnd (dirlookup dp (snd r) s3) (\<lambda>d s4. case d of None \<Rightarrow> put_fail dp s4 | Some (ip, off) \<Rightarrow>
         bnd (ilock (Some ip) s4) (\<lambda>_ s5.
           if sint (i_nlink (inodes s5 ip)) < 1 then Panic ''unlink: nlink < 1''
           else bnd (if i_type (inodes s5 ip) = T_DIR then isdirempty ip s5 else Done True s5) (\<lambda>e s6.
             if \<not> e then bnd (iunlockput ip s6) (\<lambda>_ s7. put_fail dp s7)
             else unlink_entry dp ip off s6)))))))"

section \<open>Creating and opening\<close>

definition create_fail :: "nat \<Rightarrow> nat \<Rightarrow> 'a file_st_scheme \<Rightarrow> (nat option, 'a file_st_scheme) out" where
  "create_fail dp ip s =
     bnd (iupdate ip (set_inode ip (\<lambda>x. x\<lparr>i_nlink := 0\<rparr>) s)) (\<lambda>_ s1.
     bnd (iunlockput ip s1) (\<lambda>_ s2.
     bnd (iunlockput dp s2) (\<lambda>_ s3. Done None s3)))"

text \<open>The entries \<^verbatim>\<open>.\<close> and \<^verbatim>\<open>..\<close> of a new directory; the result is negative if one fails.\<close>

definition create_dots :: "nat \<Rightarrow> nat \<Rightarrow> 'a file_st_scheme \<Rightarrow> (int, 'a file_st_scheme) out" where
  "create_dots dp ip s =
     bnd (dirlink ip (bytes ''.'') (i_inum (inodes s ip)) s) (\<lambda>r s1.
       if r < 0 then Done r s1 else dirlink ip (bytes ''..'') (i_inum (inodes s1 dp)) s1)"

text \<open>The rest of \<^verbatim>\<open>create\<close> once the new inode is locked.\<close>

definition create_new :: "nat \<Rightarrow> nat \<Rightarrow> u8 list \<Rightarrow> u16 \<Rightarrow> u16 \<Rightarrow> u16 \<Rightarrow> 'a file_st_scheme \<Rightarrow> (nat option, 'a file_st_scheme) out" where
  "create_new dp ip name ty mj mn s =
     bnd (iupdate ip (set_inode ip (\<lambda>x. x\<lparr>i_major := mj, i_minor := mn, i_nlink := 1\<rparr>) s)) (\<lambda>_ s1.
     bnd (if ty = T_DIR then create_dots dp ip s1 else Done 0 s1) (\<lambda>r s2.
       if r < 0 then create_fail dp ip s2
       else bnd (dirlink dp name (i_inum (inodes s2 ip)) s2) (\<lambda>r s3.
         if r < 0 then create_fail dp ip s3
         else bnd (if ty = T_DIR then iupdate dp (set_inode dp (\<lambda>x. x\<lparr>i_nlink := i_nlink x + 1\<rparr>) s3)
                   else Done () s3) (\<lambda>_ s4.
              bnd (iunlockput dp s4) (\<lambda>_ s5. Done (Some ip) s5)))))"

definition create :: "u8 list \<Rightarrow> u16 \<Rightarrow> u16 \<Rightarrow> u16 \<Rightarrow> 'a file_st_scheme \<Rightarrow> (nat option, 'a file_st_scheme) out" where
  "create path ty mj mn s =
     bnd (nameiparent path (replicate DIRSIZ 0) s) (\<lambda>r s1. case fst r of None \<Rightarrow> Done None s1 | Some dp \<Rightarrow>
     bnd (ilock (Some dp) s1) (\<lambda>_ s2.
     bnd (dirlookup dp (snd r) s2) (\<lambda>d s3. case d of
       Some (ip, _) \<Rightarrow>
         bnd (iunlockput dp s3) (\<lambda>_ s4.
         bnd (ilock (Some ip) s4) (\<lambda>_ s5.
           if ty = T_FILE \<and> (i_type (inodes s5 ip) = T_FILE \<or> i_type (inodes s5 ip) = T_DEVICE) then Done (Some ip) s5
           else bnd (iunlockput ip s5) (\<lambda>_ s6. Done None s6)))
     | None \<Rightarrow>
         bnd (ialloc (i_dev (inodes s3 dp)) ty s3) (\<lambda>n s4. case n of
           None \<Rightarrow> bnd (iunlockput dp s4) (\<lambda>_ s5. Done None s5)
         | Some ip \<Rightarrow> bnd (ilock (Some ip) s4) (\<lambda>_ s5. create_new dp ip (snd r) ty mj mn s5)))))"

text \<open>The inode that \<^verbatim>\<open>sys_open\<close> opens, locked; or \<open>None\<close> after the transaction has ended.\<close>

definition open_inode :: "u8 list \<Rightarrow> u32 \<Rightarrow> 'a file_st_scheme \<Rightarrow> (nat option, 'a file_st_scheme) out" where
  "open_inode path omode s =
     (if and omode O_CREATE \<noteq> 0 then
        bnd (create path T_FILE 0 0 s) (\<lambda>r s1. case r of
          None \<Rightarrow> bnd (end_op s1) (\<lambda>_ s2. Done None s2) | Some ip \<Rightarrow> Done (Some ip) s1)
      else bnd (namei path s) (\<lambda>r s1. case r of
          None \<Rightarrow> bnd (end_op s1) (\<lambda>_ s2. Done None s2)
        | Some ip \<Rightarrow> bnd (ilock (Some ip) s1) (\<lambda>_ s2.
            if i_type (inodes s2 ip) = T_DIR \<and> omode \<noteq> O_RDONLY
            then bnd (iunlockput ip s2) (\<lambda>_ s3. bnd (end_op s3) (\<lambda>_ s4. Done None s4))
            else Done (Some ip) s2)))"

definition open_file :: "nat \<Rightarrow> u32 \<Rightarrow> inode \<Rightarrow> filestruct \<Rightarrow> filestruct" where
  "open_file ip omode i x =
     (if i_type i = T_DEVICE then x\<lparr>f_type := FD_DEVICE, f_major := i_major i\<rparr> else x\<lparr>f_type := FD_INODE, f_off := 0\<rparr>)
       \<lparr>f_ip := Some ip, f_readable := (and omode O_WRONLY = 0),
        f_writable := (and omode O_WRONLY \<noteq> 0 \<or> and omode O_RDWR \<noteq> 0)\<rparr>"

definition open_fd :: "nat \<Rightarrow> u32 \<Rightarrow> nat \<Rightarrow> nat \<Rightarrow> 'a file_st_scheme \<Rightarrow> (u64, 'a file_st_scheme) out" where
  "open_fd ip omode f fd s =
     (let s1 = set_file f (open_file ip omode (inodes s ip)) s
      in bnd (if and omode O_TRUNC \<noteq> 0 \<and> i_type (inodes s1 ip) = T_FILE then itrunc ip s1 else Done () s1) (\<lambda>_ s2.
         bnd (iunlock (Some ip) s2) (\<lambda>_ s3.
         bnd (end_op s3) (\<lambda>_ s4. Done (of_nat fd) s4))))"

definition sys_open :: "'a file_st_scheme \<Rightarrow> (u64, 'a file_st_scheme) out" where
  "sys_open s =
     bnd (argint 1 s) (\<lambda>omode s0.
     bnd (argstr 0 MAXPATH s0) (\<lambda>path s1. if fst path < 0 then Done (-1) s1 else
     bnd (begin_op s1) (\<lambda>_ s2.
     bnd (open_inode (cstring (snd path)) omode s2) (\<lambda>r s3. case r of None \<Rightarrow> Done (-1) s3 | Some ip \<Rightarrow>
       if i_type (inodes s3 ip) = T_DEVICE \<and> (sint (i_major (inodes s3 ip)) < 0 \<or> sint (i_major (inodes s3 ip)) \<ge> int NDEV)
       then put_fail ip s3
       else bnd (filealloc s3) (\<lambda>a s4. case a of None \<Rightarrow> put_fail ip s4 | Some f \<Rightarrow>
         bnd (fdalloc f s4) (\<lambda>b s5. case b of
           None \<Rightarrow> bnd (fileclose f s5) (\<lambda>_ s6. put_fail ip s6)
         | Some fd \<Rightarrow> open_fd ip omode f fd s5))))))"

definition sys_mkdir :: "'a file_st_scheme \<Rightarrow> (u64, 'a file_st_scheme) out" where
  "sys_mkdir s =
     bnd (begin_op s) (\<lambda>_ s0.
     bnd (argstr 0 MAXPATH s0) (\<lambda>path s1. if fst path < 0 then end_fail s1 else
     bnd (create (cstring (snd path)) T_DIR 0 0 s1) (\<lambda>r s2. case r of None \<Rightarrow> end_fail s2 | Some ip \<Rightarrow>
     bnd (iunlockput ip s2) (\<lambda>_ s3.
     bnd (end_op s3) (\<lambda>_ s4. Done 0 s4)))))"

definition sys_mknod :: "'a file_st_scheme \<Rightarrow> (u64, 'a file_st_scheme) out" where
  "sys_mknod s =
     bnd (begin_op s) (\<lambda>_ s0.
     bnd (argint 1 s0) (\<lambda>mj s1. bnd (argint 2 s1) (\<lambda>mn s2.
     bnd (argstr 0 MAXPATH s2) (\<lambda>path s3. if fst path < 0 then end_fail s3 else
     bnd (create (cstring (snd path)) T_DEVICE (ucast mj) (ucast mn) s3) (\<lambda>r s4. case r of None \<Rightarrow> end_fail s4 | Some ip \<Rightarrow>
     bnd (iunlockput ip s4) (\<lambda>_ s5.
     bnd (end_op s5) (\<lambda>_ s6. Done 0 s6)))))))"

definition sys_chdir :: "'a file_st_scheme \<Rightarrow> (u64, 'a file_st_scheme) out" where
  "sys_chdir s =
     myproc_deref (\<lambda>p s0.
     bnd (begin_op s0) (\<lambda>_ s1.
     bnd (argstr 0 MAXPATH s1) (\<lambda>path s2. if fst path < 0 then end_fail s2 else
     bnd (namei (cstring (snd path)) s2) (\<lambda>r s3. case r of None \<Rightarrow> end_fail s3 | Some ip \<Rightarrow>
     bnd (ilock (Some ip) s3) (\<lambda>_ s4.
       if i_type (inodes s4 ip) \<noteq> T_DIR then put_fail ip s4
       else bnd (iunlock (Some ip) s4) (\<lambda>_ s5.
            bnd (case cwd (procs s5 p) of None \<Rightarrow> Panic ''kerneltrap'' | Some old \<Rightarrow> iput old s5) (\<lambda>_ s6.
            bnd (end_op s6) (\<lambda>_ s7.
              Done 0 (set_proc p (\<lambda>x. x\<lparr>cwd := Some ip\<rparr>) s7))))))))) s"

section \<open>Pipes\<close>

definition close_fds :: "nat \<Rightarrow> nat list \<Rightarrow> nat \<Rightarrow> nat \<Rightarrow> 'a file_st_scheme \<Rightarrow> (u64, 'a file_st_scheme) out" where
  "close_fds p fds rfile wfile s =
     bnd (fileclose rfile (set_proc p (\<lambda>x. x\<lparr>ofile := (\<lambda>i. if i \<in> set fds then None else ofile x i)\<rparr>) s)) (\<lambda>_ s1.
     bnd (fileclose wfile s1) (\<lambda>_ s2. Done (-1) s2))"

definition sys_pipe :: "'a file_st_scheme \<Rightarrow> (u64, 'a file_st_scheme) out" where
  "sys_pipe s =
     myproc_deref (\<lambda>p s0.
     bnd (argaddr 0 s0) (\<lambda>fdarray s1.
     bnd (pipealloc s1) (\<lambda>r s2. case r of None \<Rightarrow> Done (-1) s2 | Some (rfile, wfile) \<Rightarrow>
     bnd (fdalloc rfile s2) (\<lambda>a s3. case a of None \<Rightarrow> close_fds p [] rfile wfile s3 | Some fd0 \<Rightarrow>
     bnd (fdalloc wfile s3) (\<lambda>b s4. case b of None \<Rightarrow> close_fds p [fd0] rfile wfile s4 | Some fd1 \<Rightarrow>
     bnd (copyout (pagetable (procs s4 p)) fdarray (le_bytes 4 (of_nat fd0 :: u32)) s4) (\<lambda>c s5.
       if c < 0 then close_fds p [fd0, fd1] rfile wfile s5
       else bnd (copyout (pagetable (procs s5 p)) (fdarray + 4) (le_bytes 4 (of_nat fd1 :: u32)) s5) (\<lambda>c s6.
         if c < 0 then close_fds p [fd0, fd1] rfile wfile s6 else Done 0 s6))))))) s"

end
