(* ===== verification/Exec.thy ===== *)
theory Exec
  imports Sysfile
begin

text \<open>
  \<^verbatim>\<open>kernel/exec.c\<close> and \<^verbatim>\<open>sys_exec\<close>. The ELF headers that \<^verbatim>\<open>exec\<close> reads into local structures are the bytes read,
  with the fields at the offsets of \<^verbatim>\<open>kernel/elf.h\<close>. The argument strings are in memory at the addresses
  in \<open>argv\<close>, which lists the entries before the null pointer.
\<close>

definition ELF_MAGIC :: u32 where "ELF_MAGIC = 0x464C457F"
definition ELF_PROG_LOAD :: u32 where "ELF_PROG_LOAD = 1"

record elfhdr =
  e_magic :: u32
  e_entry :: u64
  e_phoff :: u64
  e_phnum :: u16

definition elfhdr_size :: nat where "elfhdr_size = 64"

definition get_elfhdr :: "u8 list \<Rightarrow> elfhdr" where
  "get_elfhdr bs = \<lparr>e_magic = get32 bs 0, e_entry = get64 bs 24, e_phoff = get64 bs 32, e_phnum = get16 bs 56\<rparr>"

record proghdr =
  ph_type :: u32
  ph_flags :: u32
  ph_off :: u64
  ph_vaddr :: u64
  ph_filesz :: u64
  ph_memsz :: u64

definition proghdr_size :: nat where "proghdr_size = 56"

definition get_proghdr :: "u8 list \<Rightarrow> proghdr" where
  "get_proghdr bs = \<lparr>ph_type = get32 bs 0, ph_flags = get32 bs 4, ph_off = get64 bs 8, ph_vaddr = get64 bs 16,
     ph_filesz = get64 bs 32, ph_memsz = get64 bs 40\<rparr>"

definition flags2perm :: "u32 \<Rightarrow> u64" where
  "flags2perm flags =
     (let perm = (if and flags 1 \<noteq> 0 then PTE_X else 0)
      in if and flags 2 \<noteq> 0 then or perm PTE_W else perm)"

section \<open>Loading\<close>

primrec loadseg_loop :: "u64 \<Rightarrow> u64 \<Rightarrow> nat \<Rightarrow> u32 \<Rightarrow> nat \<Rightarrow> nat list \<Rightarrow> 'a file_st_scheme \<Rightarrow> (int, 'a file_st_scheme) out" where
  "loadseg_loop pt va ip offset size0 [] s = Done 0 s"
| "loadseg_loop pt va ip offset size0 (i # is) s =
     bnd (walkaddr pt (va + of_nat i) s) (\<lambda>pa s1.
       if pa = 0 then Panic ''loadseg: address should exist''
       else let n = (if size0 - i < 4096 then size0 - i else 4096)
            in bnd (readi ip (Mem False pa) (offset + of_nat i) (of_nat n) s1) (\<lambda>r s2.
                 if fst r \<noteq> int n then Done (-1) s2 else loadseg_loop pt va ip offset size0 is s2))"

definition loadseg :: "u64 \<Rightarrow> u64 \<Rightarrow> nat \<Rightarrow> u32 \<Rightarrow> u32 \<Rightarrow> 'a file_st_scheme \<Rightarrow> (int, 'a file_st_scheme) out" where
  "loadseg pt va ip offset size0 s =
     loadseg_loop pt va ip offset (unat size0) (map (\<lambda>i. 4096 * i) [0..<(unat size0 + 4095) div 4096]) s"

text \<open>Reading into a local structure: the bytes, or \<open>None\<close> if there are not that many.\<close>

definition read_local :: "nat \<Rightarrow> u32 \<Rightarrow> nat \<Rightarrow> 'a file_st_scheme \<Rightarrow> (u8 list option, 'a file_st_scheme) out" where
  "read_local ip off n s =
     bnd (readi ip (Local []) off (of_nat n) s) (\<lambda>r s1.
       if fst r \<noteq> int n then Done None s1
       else case snd r of Local bs \<Rightarrow> Done (Some bs) s1 | Mem _ _ \<Rightarrow> Done None s1)"

text \<open>The loop over the program headers: whether all of them loaded, and \<^verbatim>\<open>sz\<close> when the loop ends.\<close>

primrec exec_load :: "u64 \<Rightarrow> nat \<Rightarrow> nat \<Rightarrow> u32 \<Rightarrow> u64 \<Rightarrow> 'a file_st_scheme \<Rightarrow> (bool \<times> u64, 'a file_st_scheme) out" where
  "exec_load pt ip 0 off size0 s = Done (True, size0) s"
| "exec_load pt ip (Suc k) off size0 s =
     bnd (read_local ip off proghdr_size s) (\<lambda>h s1. case h of None \<Rightarrow> Done (False, size0) s1 | Some bs \<Rightarrow>
       let ph = get_proghdr bs; off1 = off + of_nat proghdr_size
       in if ph_type ph \<noteq> ELF_PROG_LOAD then exec_load pt ip k off1 size0 s1
          else if ph_memsz ph < ph_filesz ph then Done (False, size0) s1
          else if ph_vaddr ph + ph_memsz ph < ph_vaddr ph then Done (False, size0) s1
          else if ph_vaddr ph mod PGSIZE \<noteq> 0 then Done (False, size0) s1
          else bnd (uvmalloc pt size0 (ph_vaddr ph + ph_memsz ph) (flags2perm (ph_flags ph)) s1) (\<lambda>size1 s2.
            if size1 = 0 then Done (False, size0) s2
            else bnd (loadseg pt (ph_vaddr ph) ip (ucast (ph_off ph)) (ucast (ph_filesz ph)) s2) (\<lambda>r s3.
              if r < 0 then Done (False, size1) s3 else exec_load pt ip k off1 size1 s3)))"

definition exec_bad :: "u64 \<Rightarrow> u64 \<Rightarrow> nat option \<Rightarrow> 'a file_st_scheme \<Rightarrow> (int, 'a file_st_scheme) out" where
  "exec_bad pt size0 ip s =
     bnd (if pt \<noteq> 0 then proc_freepagetable pt size0 s else Done () s) (\<lambda>_ s1.
     bnd (case ip of None \<Rightarrow> Done () s1 | Some i \<Rightarrow> bnd (iunlockput i s1) (\<lambda>_ s2. end_op s2)) (\<lambda>_ s3. Done (-1) s3))"

section \<open>The stack\<close>

text \<open>
  Pushing the argument strings: the stack pointer and the pointers pushed, or \<open>None\<close> if they do not fit.
\<close>

primrec push_args :: "u64 \<Rightarrow> u64 \<Rightarrow> u64 list \<Rightarrow> u64 \<Rightarrow> u64 list \<Rightarrow> 'a file_st_scheme \<Rightarrow> ((u64 \<times> u64 list) option, 'a file_st_scheme) out" where
  "push_args pt stackbase [] stp ustack s = Done (Some (stp, ustack)) s"
| "push_args pt stackbase (a # argv) stp ustack s =
     (if length ustack \<ge> MAXARG then Done None s
      else case strlen (\<lambda>i. mem s (a + of_nat i)) of None \<Rightarrow> Waits NoFuel s | Some n \<Rightarrow>
        let sp1 = stp - of_nat (n + 1); sp2 = sp1 - sp1 mod 16
        in if sp2 < stackbase then Done None s
           else bnd (copyout pt sp2 (read_bytes (mem s) a (n + 1)) s) (\<lambda>r s1.
             if r < 0 then Done None s1 else push_args pt stackbase argv sp2 (ustack @ [sp2]) s1))"

definition last_elem :: "u8 list \<Rightarrow> u8 list" where
  "last_elem path = rev (takeWhile (\<lambda>c. c \<noteq> slash) (rev path))"

text \<open>The last part of \<^verbatim>\<open>exec\<close>: the new image of process \<open>p\<close> takes the place of the old one.\<close>

definition exec_commit :: "nat \<Rightarrow> u64 \<Rightarrow> u64 \<Rightarrow> u64 \<Rightarrow> u64 \<Rightarrow> u64 \<Rightarrow> u8 list \<Rightarrow> nat \<Rightarrow> 'a file_st_scheme \<Rightarrow> (int, 'a file_st_scheme) out" where
  "exec_commit p pt size0 oldsz stp entry path argc s =
     (let s1 = tf_set p tf_a1 stp s;
          s2 = set_proc p (\<lambda>x. x\<lparr>pname := safestrcpy (pname x) (cstr (last_elem path)) name_size\<rparr>) s1;
          oldpt = pagetable (procs s2 p);
          s3 = set_proc p (\<lambda>x. x\<lparr>pagetable := pt, sz := size0\<rparr>) s2;
          s4 = tf_set p tf_sp stp (tf_set p tf_epc entry s3)
      in bnd (proc_freepagetable oldpt oldsz s4) (\<lambda>_ s5. Done (int argc) s5))"

definition exec_stack :: "nat \<Rightarrow> u64 \<Rightarrow> u64 \<Rightarrow> u64 \<Rightarrow> u8 list \<Rightarrow> u64 list \<Rightarrow> 'a file_st_scheme \<Rightarrow> (int, 'a file_st_scheme) out" where
  "exec_stack p pt size0 entry path argv s =
     (let oldsz = sz (procs s p); size1 = PGROUNDUP size0
      in bnd (uvmalloc pt size1 (size1 + 2 * PGSIZE) PTE_W s) (\<lambda>size2 s1.
        if size2 = 0 then exec_bad pt size1 None s1
        else bnd (uvmclear pt (size2 - 2 * PGSIZE) s1) (\<lambda>_ s2.
        bnd (push_args pt (size2 - PGSIZE) argv size2 [] s2) (\<lambda>r s3. case r of None \<Rightarrow> exec_bad pt size2 None s3
        | Some (stp, ustack) \<Rightarrow>
            let argc = length ustack;
                sp1 = stp - of_nat ((argc + 1) * 8); sp2 = sp1 - sp1 mod 16
            in if sp2 < size2 - PGSIZE then exec_bad pt size2 None s3
               else bnd (copyout pt sp2 (concat (map (le_bytes 8) (ustack @ [0]))) s3) (\<lambda>c s4.
                 if c < 0 then exec_bad pt size2 None s4
                 else exec_commit p pt size2 oldsz sp2 entry path argc s4)))))"

definition exec :: "u8 list \<Rightarrow> u64 list \<Rightarrow> 'a file_st_scheme \<Rightarrow> (int, 'a file_st_scheme) out" where
  "exec path argv s =
     myproc_deref (\<lambda>p s0.
     bnd (begin_op s0) (\<lambda>_ s1.
     bnd (namei path s1) (\<lambda>r s2. case r of None \<Rightarrow> bnd (end_op s2) (\<lambda>_ s3. Done (-1) s3) | Some ip \<Rightarrow>
     bnd (ilock (Some ip) s2) (\<lambda>_ s3.
     bnd (read_local ip 0 elfhdr_size s3) (\<lambda>h s4. case h of None \<Rightarrow> exec_bad 0 0 (Some ip) s4 | Some bs \<Rightarrow>
       let elf = get_elfhdr bs
       in if e_magic elf \<noteq> ELF_MAGIC then exec_bad 0 0 (Some ip) s4
          else bnd (proc_pagetable p s4) (\<lambda>pt s5.
            if pt = 0 then exec_bad 0 0 (Some ip) s5
            else bnd (exec_load pt ip (unat (e_phnum elf)) (ucast (e_phoff elf)) 0 s5) (\<lambda>l s6.
              if \<not> fst l then exec_bad pt (snd l) (Some ip) s6
              else bnd (iunlockput ip s6) (\<lambda>_ s7.
                   bnd (end_op s7) (\<lambda>_ s8.
                   myproc_deref (\<lambda>p s9. exec_stack p pt (snd l) (e_entry elf) path argv s9) s8))))))))) s"

section \<open>sys\_exec\<close>

primrec free_argv :: "u64 list \<Rightarrow> 'a file_st_scheme \<Rightarrow> (unit, 'a file_st_scheme) out" where
  "free_argv [] s = Done () s"
| "free_argv (a # argv) s = bnd (kfree a s) (\<lambda>_ s1. free_argv argv s1)"

text \<open>
  The loop that fetches the arguments, with room for \<open>k\<close> more: whether it met the null pointer, and the
  pages allocated so far.
\<close>

primrec fetch_argv :: "nat \<Rightarrow> u64 \<Rightarrow> u64 list \<Rightarrow> 'a file_st_scheme \<Rightarrow> (bool \<times> u64 list, 'a file_st_scheme) out" where
  "fetch_argv 0 uargv argv s = Done (False, argv) s"
| "fetch_argv (Suc k) uargv argv s =
     bnd (fetchaddr (uargv + 8 * of_nat (length argv)) s) (\<lambda>u s1.
       if fst u < 0 then Done (False, argv) s1
       else if snd u = 0 then Done (True, argv) s1
       else bnd (kalloc s1) (\<lambda>a s2.
         if a = 0 then Done (False, argv) s2
         else bnd (fetchstr (snd u) 4096 s2) (\<lambda>r s3.
           let s4 = s3\<lparr>mem := write_bytes (mem s3) a (snd r)\<rparr>
           in if fst r < 0 then Done (False, argv @ [a]) s4
              else fetch_argv k uargv (argv @ [a]) s4)))"

definition sys_exec :: "'a file_st_scheme \<Rightarrow> (u64, 'a file_st_scheme) out" where
  "sys_exec s =
     bnd (argaddr 1 s) (\<lambda>uargv s0.
     bnd (argstr 0 MAXPATH s0) (\<lambda>path s1. if fst path < 0 then Done (-1) s1 else
     bnd (fetch_argv MAXARG uargv [] s1) (\<lambda>r s2.
     bnd (if fst r then exec (cstring (snd path)) (snd r) s2 else Done (-1) s2) (\<lambda>ret s3.
     bnd (free_argv (snd r) s3) (\<lambda>_ s4. Done (word_of_int ret) s4)))))"

end
