(* ===== verification/Syscall.thy ===== *)
theory Syscall
  imports Exec
begin

text \<open>
  The process system calls \<^verbatim>\<open>kernel/sysproc.c\<close> and the dispatcher of \<^verbatim>\<open>kernel/syscall.c\<close>.
\<close>

section \<open>kernel/sysproc.c\<close>

definition sys_exit :: "'a file_st_scheme \<Rightarrow> (u64, 'a file_st_scheme) out" where
  "sys_exit s = bnd (argint 0 s) (\<lambda>n s1. bnd (exit n s1) (\<lambda>_ s2. Done 0 s2))"

definition sys_getpid :: "'a file_st_scheme \<Rightarrow> (u64, 'a file_st_scheme) out" where
  "sys_getpid s = myproc_deref (\<lambda>p s1. Done (scast (pid (procs s1 p))) s1) s"

definition sys_fork :: "'a file_st_scheme \<Rightarrow> (u64, 'a file_st_scheme) out" where
  "sys_fork s = bnd (fork s) (\<lambda>r s1. Done (word_of_int r) s1)"

definition sys_wait :: "'a file_st_scheme \<Rightarrow> (u64, 'a file_st_scheme) out" where
  "sys_wait s = bnd (argaddr 0 s) (\<lambda>p s1. bnd (wait p s1) (\<lambda>r s2. Done (word_of_int r) s2))"

text \<open>\<^verbatim>\<open>sys_sbrk\<close> after its argument has been fetched.\<close>

definition sbrk_grow :: "u32 \<Rightarrow> 'a proc_st_scheme \<Rightarrow> (u64, 'a proc_st_scheme) out" where
  "sbrk_grow n s =
     myproc_deref (\<lambda>p s1.
       let addr = sz (procs s1 p)
       in bnd (growproc n s1) (\<lambda>r s2. if r < 0 then Done (-1) s2 else Done addr s2)) s"

definition sys_sbrk :: "'a file_st_scheme \<Rightarrow> (u64, 'a file_st_scheme) out" where
  "sys_sbrk s = bnd (argint 0 s) (\<lambda>n s1. sbrk_grow n s1)"

text \<open>The loop of \<^verbatim>\<open>sys_sleep\<close>; the comparison is unsigned, since \<^verbatim>\<open>ticks\<close> is.\<close>

definition sys_sleep_loop :: "u32 \<Rightarrow> u32 \<Rightarrow> 'a file_st_scheme \<Rightarrow> (u64, 'a file_st_scheme) out" where
  "sys_sleep_loop n ticks0 s =
     (if ticks s - ticks0 < n then
        bnd (myproc_deref killed s) (\<lambda>k s1.
          if k \<noteq> 0 then bnd (release TicksLock s1) (\<lambda>_ s2. Done (-1) s2)
          else bnd (sleep TicksChan TicksLock s1) (\<lambda>_ s2. Done 0 s2))
      else bnd (release TicksLock s) (\<lambda>_ s1. Done 0 s1))"

definition sys_sleep :: "'a file_st_scheme \<Rightarrow> (u64, 'a file_st_scheme) out" where
  "sys_sleep s =
     bnd (argint 0 s) (\<lambda>n s1.
     bnd (acquire TicksLock s1) (\<lambda>_ s2. sys_sleep_loop n (ticks s2) s2))"

definition sys_kill :: "'a file_st_scheme \<Rightarrow> (u64, 'a file_st_scheme) out" where
  "sys_kill s = bnd (argint 0 s) (\<lambda>n s1. bnd (kill n s1) (\<lambda>r s2. Done (word_of_int r) s2))"

definition sys_uptime :: "'a file_st_scheme \<Rightarrow> (u64, 'a file_st_scheme) out" where
  "sys_uptime s =
     bnd (acquire TicksLock s) (\<lambda>_ s1.
       let xticks = ticks s1 in bnd (release TicksLock s1) (\<lambda>_ s2. Done (ucast xticks) s2))"

definition sys_hello :: "'a file_st_scheme \<Rightarrow> (u64, 'a file_st_scheme) out" where
  "sys_hello s = bnd (argint 0 s) (\<lambda>n s1. bnd (print_hello n s1) (\<lambda>_ s2. Done 0 s2))"

section \<open>kernel/syscall.h and the dispatcher\<close>

definition SYS_fork :: nat where "SYS_fork = 1"
definition SYS_exit :: nat where "SYS_exit = 2"
definition SYS_wait :: nat where "SYS_wait = 3"
definition SYS_pipe :: nat where "SYS_pipe = 4"
definition SYS_read :: nat where "SYS_read = 5"
definition SYS_kill :: nat where "SYS_kill = 6"
definition SYS_exec :: nat where "SYS_exec = 7"
definition SYS_fstat :: nat where "SYS_fstat = 8"
definition SYS_chdir :: nat where "SYS_chdir = 9"
definition SYS_dup :: nat where "SYS_dup = 10"
definition SYS_getpid :: nat where "SYS_getpid = 11"
definition SYS_sbrk :: nat where "SYS_sbrk = 12"
definition SYS_sleep :: nat where "SYS_sleep = 13"
definition SYS_uptime :: nat where "SYS_uptime = 14"
definition SYS_open :: nat where "SYS_open = 15"
definition SYS_write :: nat where "SYS_write = 16"
definition SYS_mknod :: nat where "SYS_mknod = 17"
definition SYS_unlink :: nat where "SYS_unlink = 18"
definition SYS_link :: nat where "SYS_link = 19"
definition SYS_mkdir :: nat where "SYS_mkdir = 20"
definition SYS_close :: nat where "SYS_close = 21"
definition SYS_hello :: nat where "SYS_hello = 22"

lemmas sys_numbers = SYS_fork_def SYS_exit_def SYS_wait_def SYS_pipe_def SYS_read_def SYS_kill_def SYS_exec_def
  SYS_fstat_def SYS_chdir_def SYS_dup_def SYS_getpid_def SYS_sbrk_def SYS_sleep_def SYS_uptime_def SYS_open_def
  SYS_write_def SYS_mknod_def SYS_unlink_def SYS_link_def SYS_mkdir_def SYS_close_def SYS_hello_def

definition syscalls :: "(nat \<times> ('a file_st_scheme \<Rightarrow> (u64, 'a file_st_scheme) out)) list" where
  "syscalls =
     [(SYS_fork, sys_fork), (SYS_exit, sys_exit), (SYS_wait, sys_wait), (SYS_pipe, sys_pipe), (SYS_read, sys_read),
      (SYS_kill, sys_kill), (SYS_exec, sys_exec), (SYS_fstat, sys_fstat), (SYS_chdir, sys_chdir), (SYS_dup, sys_dup),
      (SYS_getpid, sys_getpid), (SYS_sbrk, sys_sbrk), (SYS_sleep, sys_sleep), (SYS_uptime, sys_uptime),
      (SYS_open, sys_open), (SYS_write, sys_write), (SYS_mknod, sys_mknod), (SYS_unlink, sys_unlink),
      (SYS_link, sys_link), (SYS_mkdir, sys_mkdir), (SYS_close, sys_close), (SYS_hello, sys_hello)]"

text \<open>The table has an entry for each index below \<^verbatim>\<open>NELEM(syscalls)\<close>; a missing one is null.\<close>

definition syscall :: "'a file_st_scheme \<Rightarrow> (unit, 'a file_st_scheme) out" where
  "syscall s =
     myproc_deref (\<lambda>p s1.
       let num = sint (ucast (tf_get p tf_a7 s1) :: u32)
       in case (if num > 0 then map_of syscalls (nat num) else None) of
            Some f \<Rightarrow> bnd (f s1) (\<lambda>r s2. Done () (tf_set p tf_a0 r s2))
          | None \<Rightarrow>
              bnd (printf (Some (bytes ''%d %s: unknown sys call %d'' @ [10]))
                 [VInt (pid (procs s1 p)), VStr (Some (cstring (pname (procs s1 p)))), VInt (word_of_int num)] s1) (\<lambda>_ s2.
                Done () (tf_set p tf_a0 (-1) s2))) s"

end
