(* ===== verification/Trap.thy ===== *)
theory Trap
  imports Syscall
begin

text \<open>
  Traps and interrupts: \<^verbatim>\<open>kernel/trap.c\<close>, \<^verbatim>\<open>kernel/plic.c\<close>, \<^verbatim>\<open>forkret\<close> of \<^verbatim>\<open>kernel/proc.c\<close> and \<^verbatim>\<open>kernel/main.c\<close>.

  The interrupts that the PLIC reports are an input list; the writes to its registers are a trace. The
  addresses of the assembly code (\<^verbatim>\<open>kernelvec\<close>, \<^verbatim>\<open>uservec\<close>, \<^verbatim>\<open>userret\<close>) and of \<^verbatim>\<open>usertrap\<close> are fields of the state.
  \<^verbatim>\<open>usertrapret\<close> ends in a jump, which its result describes: the address and its argument. After a
  \<^verbatim>\<open>yield\<close>, the rest of \<^verbatim>\<open>usertrap\<close> is \<^verbatim>\<open>usertrapret\<close> and that of \<^verbatim>\<open>kerneltrap\<close> is \<open>kerneltrap_end\<close>.
\<close>

record trap_st = file_st +
  plic_in :: "u32 list"
  plic_wr :: "(u64 \<times> u32) list"
  kernelvec :: u64
  uservec :: u64
  userret :: u64
  usertrap_addr :: u64
  first :: bool
  started :: bool

section \<open>Registers\<close>

definition csr_of :: "'a machine_scheme \<Rightarrow> csr" where
  "csr_of s = csrs s (tp s)"

definition set_csr :: "(csr \<Rightarrow> csr) \<Rightarrow> 'a machine_scheme \<Rightarrow> 'a machine_scheme" where
  "set_csr f s = s\<lparr>csrs := (csrs s)(tp s := f (csrs s (tp s)))\<rparr>"

definition r_sepc :: "'a machine_scheme \<Rightarrow> u64" where "r_sepc s = sepc (csr_of s)"
definition w_sepc :: "u64 \<Rightarrow> 'a machine_scheme \<Rightarrow> 'a machine_scheme" where "w_sepc x s = set_csr (\<lambda>c. c\<lparr>sepc := x\<rparr>) s"
definition r_scause :: "'a machine_scheme \<Rightarrow> u64" where "r_scause s = scause (csr_of s)"
definition r_stval :: "'a machine_scheme \<Rightarrow> u64" where "r_stval s = stval (csr_of s)"
definition w_stvec :: "u64 \<Rightarrow> 'a machine_scheme \<Rightarrow> 'a machine_scheme" where "w_stvec x s = set_csr (\<lambda>c. c\<lparr>stvec := x\<rparr>) s"
definition r_satp :: "'a machine_scheme \<Rightarrow> u64" where "r_satp s = satp (csr_of s)"
definition r_sip :: "'a machine_scheme \<Rightarrow> u64" where "r_sip s = sip (csr_of s)"
definition w_sip :: "u64 \<Rightarrow> 'a machine_scheme \<Rightarrow> 'a machine_scheme" where "w_sip x s = set_csr (\<lambda>c. c\<lparr>sip := x\<rparr>) s"
definition r_tp :: "'a machine_scheme \<Rightarrow> u64" where "r_tp s = of_nat (tp s)"

section \<open>kernel/plic.c\<close>

definition PLIC_SENABLE :: "nat \<Rightarrow> u64" where "PLIC_SENABLE hart = PLIC + 0x2080 + of_nat hart * 0x100"
definition PLIC_SPRIORITY :: "nat \<Rightarrow> u64" where "PLIC_SPRIORITY hart = PLIC + 0x201000 + of_nat hart * 0x2000"
definition PLIC_SCLAIM :: "nat \<Rightarrow> u64" where "PLIC_SCLAIM hart = PLIC + 0x201004 + of_nat hart * 0x2000"

definition plic_write :: "u64 \<Rightarrow> u32 \<Rightarrow> 'a trap_st_scheme \<Rightarrow> 'a trap_st_scheme" where
  "plic_write a v s = s\<lparr>plic_wr := plic_wr s @ [(a, v)]\<rparr>"

definition plicinit :: "'a trap_st_scheme \<Rightarrow> 'a trap_st_scheme" where
  "plicinit s = plic_write (PLIC + of_int (VIRTIO0_IRQ * 4)) 1 (plic_write (PLIC + of_int (UART0_IRQ * 4)) 1 s)"

definition plicinithart :: "'a trap_st_scheme \<Rightarrow> 'a trap_st_scheme" where
  "plicinithart s =
     (let hart = cpuid s
      in plic_write (PLIC_SPRIORITY hart) 0
           (plic_write (PLIC_SENABLE hart) (or (push_bit (nat UART0_IRQ) 1) (push_bit (nat VIRTIO0_IRQ) 1)) s))"

text \<open>Reading the claim register takes the next pending interrupt; without one it reads 0.\<close>

definition plic_claim :: "'a trap_st_scheme \<Rightarrow> u32 \<times> 'a trap_st_scheme" where
  "plic_claim s = (case plic_in s of [] \<Rightarrow> (0, s) | irq # rest \<Rightarrow> (irq, s\<lparr>plic_in := rest\<rparr>))"

definition plic_complete :: "u32 \<Rightarrow> 'a trap_st_scheme \<Rightarrow> 'a trap_st_scheme" where
  "plic_complete irq s = plic_write (PLIC_SCLAIM (cpuid s)) irq s"

section \<open>Interrupts\<close>

definition trapinit :: "'a trap_st_scheme \<Rightarrow> 'a trap_st_scheme" where
  "trapinit s = initlock TicksLock ''time'' s"

definition trapinithart :: "'a trap_st_scheme \<Rightarrow> 'a trap_st_scheme" where
  "trapinithart s = w_stvec (kernelvec s) s"

definition clockintr :: "'a trap_st_scheme \<Rightarrow> (unit, 'a trap_st_scheme) out" where
  "clockintr s =
     bnd (acquire TicksLock s) (\<lambda>_ s1.
     bnd (wakeup (Some TicksChan) (s1\<lparr>ticks := ticks s1 + 1\<rparr>)) (\<lambda>_ s2. release TicksLock s2))"

definition devintr :: "'a trap_st_scheme \<Rightarrow> (nat, 'a trap_st_scheme) out" where
  "devintr s =
     (let scause = r_scause s
      in if and scause 0x8000000000000000 \<noteq> 0 \<and> and scause 0xff = 9 then
           let (irq, s1) = plic_claim s
           in bnd (if sint irq = UART0_IRQ then uartintr s1
                   else if sint irq = VIRTIO0_IRQ then virtio_disk_intr s1
                   else if irq \<noteq> 0 then printf (Some (bytes ''unexpected interrupt irq=%d'' @ [10])) [VInt irq] s1
                   else Done () s1) (\<lambda>_ s2.
              Done 1 (if irq \<noteq> 0 then plic_complete irq s2 else s2))
         else if scause = 0x8000000000000001 then
           bnd (if cpuid s = 0 then clockintr s else Done () s) (\<lambda>_ s1. Done 2 (w_sip (and (r_sip s1) (not 2)) s1))
         else Done 0 s)"

definition kerneltrap_end :: "u64 \<Rightarrow> u64 \<Rightarrow> 'a trap_st_scheme \<Rightarrow> 'a trap_st_scheme" where
  "kerneltrap_end spc sst s = w_sstatus sst (w_sepc spc s)"

definition kerneltrap :: "'a trap_st_scheme \<Rightarrow> (unit, 'a trap_st_scheme) out" where
  "kerneltrap s =
     (let spc = r_sepc s; sst = r_sstatus s; cause = r_scause s
      in if and sst SSTATUS_SPP = 0 then Panic ''kerneltrap: not from supervisor mode''
         else if intr_get s then Panic ''kerneltrap: interrupts enabled''
         else bnd (devintr s) (\<lambda>dev s1.
           if dev = 0 then
             bnd (printf (Some (bytes ''scause %p'' @ [10])) [VPtr cause] s1) (\<lambda>_ s2.
             bnd (printf (Some (bytes ''sepc=%p stval=%p'' @ [10])) [VPtr (r_sepc s2), VPtr (r_stval s2)] s2) (\<lambda>_ s3.
               Panic ''kerneltrap''))
           else bnd (if dev = 2 then
                       bnd (myproc s1) (\<lambda>me s2. case me of
                         None \<Rightarrow> Done () s2
                       | Some p \<Rightarrow> if pstate (procs s2 p) = RUNNING then yield s2 else Done () s2)
                     else Done () s1) (\<lambda>_ s3.
             Done () (kerneltrap_end spc sst s3))))"

section \<open>To and from user space\<close>

definition usertrapret :: "'a trap_st_scheme \<Rightarrow> (u64 \<times> u64, 'a trap_st_scheme) out" where
  "usertrapret s =
     myproc_deref (\<lambda>p s0.
       let s1 = intr_off s0;
           s2 = w_stvec (TRAMPOLINE + (uservec s1 - trampoline s1)) s1;
           s3 = tf_set p tf_kernel_satp (r_satp s2) s2;
           s4 = tf_set p tf_kernel_sp (kstack (procs s3 p) + PGSIZE) s3;
           s5 = tf_set p tf_kernel_trap (usertrap_addr s4) s4;
           s6 = tf_set p tf_kernel_hartid (r_tp s5) s5;
           s7 = w_sstatus (or (and (r_sstatus s6) (not SSTATUS_SPP)) SSTATUS_SPIE) s6;
           s8 = w_sepc (tf_get p tf_epc s7) s7
       in Done (TRAMPOLINE + (userret s8 - trampoline s8), MAKE_SATP (pagetable (procs s8 p))) s8) s"

definition exit_if_killed :: "nat \<Rightarrow> 'a trap_st_scheme \<Rightarrow> (unit, 'a trap_st_scheme) out" where
  "exit_if_killed p s = bnd (killed p s) (\<lambda>k s1. if k \<noteq> 0 then exit (-1) s1 else Done () s1)"

text \<open>The three kinds of trap from user space; the result is \<^verbatim>\<open>which_dev\<close>.\<close>

definition usertrap_handle :: "nat \<Rightarrow> 'a trap_st_scheme \<Rightarrow> (nat, 'a trap_st_scheme) out" where
  "usertrap_handle p s =
     (if r_scause s = 8 then
        bnd (exit_if_killed p s) (\<lambda>_ s1.
        bnd (syscall (intr_on (tf_set p tf_epc (tf_get p tf_epc s1 + 4) s1))) (\<lambda>_ s2. Done 0 s2))
      else bnd (devintr s) (\<lambda>dev s1.
        if dev \<noteq> 0 then Done dev s1
        else bnd (printf (Some (bytes ''usertrap(): unexpected scause %p pid=%d'' @ [10]))
                    [VPtr (r_scause s1), VInt (pid (procs s1 p))] s1) (\<lambda>_ s2.
             bnd (printf (Some (bytes ''            sepc=%p stval=%p'' @ [10])) [VPtr (r_sepc s2), VPtr (r_stval s2)] s2) (\<lambda>_ s3.
             bnd (setkilled p s3) (\<lambda>_ s4. Done 0 s4)))))"

definition usertrap :: "'a trap_st_scheme \<Rightarrow> (u64 \<times> u64, 'a trap_st_scheme) out" where
  "usertrap s =
     (if and (r_sstatus s) SSTATUS_SPP \<noteq> 0 then Panic ''usertrap: not from user mode''
      else myproc_deref (\<lambda>p s1.
        bnd (usertrap_handle p (tf_set p tf_epc (r_sepc s1) s1)) (\<lambda>dev s2.
        bnd (exit_if_killed p s2) (\<lambda>_ s3.
        bnd (if dev = 2 then yield s3 else Done () s3) (\<lambda>_ s4. usertrapret s4)))) (w_stvec (kernelvec s) s))"

definition forkret :: "'a trap_st_scheme \<Rightarrow> (u64 \<times> u64, 'a trap_st_scheme) out" where
  "forkret s =
     bnd (myproc_deref (\<lambda>p s1. release (ProcLock p) s1) s) (\<lambda>_ s1.
     bnd (if first s1 then fsinit ROOTDEV (s1\<lparr>first := False\<rparr>) else Done () s1) (\<lambda>_ s2.
       usertrapret s2))"

section \<open>kernel/main.c\<close>

text \<open>\<^verbatim>\<open>main\<close> up to the call of \<^verbatim>\<open>scheduler\<close>. The other harts spin until the first has started.\<close>

definition main_boot :: "'a trap_st_scheme \<Rightarrow> (unit, 'a trap_st_scheme) out" where
  "main_boot s =
     (let s1 = printfinit (consoleinit s)
      in bnd (printf (Some [10]) [] s1) (\<lambda>_ s2.
         bnd (printf (Some (bytes ''xv6 kernel is booting'' @ [10])) [] s2) (\<lambda>_ s3.
         bnd (printf (Some [10]) [] s3) (\<lambda>_ s4.
         bnd (kinit s4) (\<lambda>_ s5.
         bnd (kvminit s5) (\<lambda>_ s6.
         let s7 = fileinit (iinit (binit (plicinithart (plicinit (trapinithart (trapinit (procinit (kvminithart s6))))))))
         in bnd (virtio_disk_init s7) (\<lambda>_ s8.
            bnd (userinit s8) (\<lambda>_ s9. Done () (s9\<lparr>started := True\<rparr>)))))))))"

definition main_other :: "'a trap_st_scheme \<Rightarrow> (unit, 'a trap_st_scheme) out" where
  "main_other s =
     (if \<not> started s then Waits Frozen s
      else bnd (printf (Some (bytes ''hart %d starting'' @ [10])) [VInt (of_nat (cpuid s))] s) (\<lambda>_ s1.
        Done () (plicinithart (trapinithart (kvminithart s1)))))"

definition main :: "'a trap_st_scheme \<Rightarrow> (unit, 'a trap_st_scheme) out" where
  "main s = (if cpuid s = 0 then main_boot s else main_other s)"

end
