(* ===== verification/Asm.thy ===== *)
theory Asm
  imports Procfs
begin

text \<open>
  The assembly code of the kernel, \<^verbatim>\<open>entry.S\<close>, \<^verbatim>\<open>swtch.S\<close>, \<^verbatim>\<open>kernelvec.S\<close> and \<^verbatim>\<open>trampoline.S\<close>, as lists of
  instructions with their RISC-V meaning, and the machine-mode C code of \<^verbatim>\<open>start.c\<close>. The C code that the assembly
  calls is a parameter of the definitions that use it. Address translation is the parameter \<open>xl\<close>, from the value of
  \<^verbatim>\<open>satp\<close> and a virtual address to a physical one; machine mode does not translate.
\<close>

section \<open>Instructions\<close>

datatype reg = RA | SP | GP | TP | T0 | T1 | T2 | T3 | T4 | T5 | T6
  | S0 | S1 | S2 | S3 | S4 | S5 | S6 | S7 | S8 | S9 | S10 | S11
  | A0 | A1 | A2 | A3 | A4 | A5 | A6 | A7

datatype csrname = Mhartid | Mstatus | Mepc | Medeleg | Mideleg | Mie | Mtvec | Mscratch | Pmpaddr0 | Pmpcfg0
  | Sstatus | Sepc | Sie | Sip | Sscratch | Satp

datatype privilege = ModeU | ModeS | ModeM

record hart =
  regs :: "reg \<Rightarrow> u64"
  ctl :: "csrname \<Rightarrow> u64"
  hmode :: privilege
  hpc :: u64
  hmem :: memory

type_synonym translation = "u64 \<Rightarrow> u64 \<Rightarrow> u64"

datatype instr =
    Sd reg int reg        (* sd r, off(b) *)
  | Ld reg int reg        (* ld r, off(b) *)
  | Addi reg reg int
  | Add reg reg reg
  | Mul reg reg reg
  | Li reg u64            (* li and la *)
  | Csrr reg csrname
  | Csrw csrname reg
  | Csrrw reg csrname reg
  | Sfence
  | Jr reg                (* jr r, and ret for ra *)
  | Sret
  | Mret

definition set_reg :: "reg \<Rightarrow> u64 \<Rightarrow> hart \<Rightarrow> hart" where
  "set_reg r v h = h\<lparr>regs := (regs h)(r := v)\<rparr>"

definition set_ctl :: "csrname \<Rightarrow> u64 \<Rightarrow> hart \<Rightarrow> hart" where
  "set_ctl c v h = h\<lparr>ctl := (ctl h)(c := v)\<rparr>"

definition phys :: "translation \<Rightarrow> hart \<Rightarrow> u64 \<Rightarrow> u64" where
  "phys xl h a = (if hmode h = ModeM then a else xl (ctl h Satp) a)"

text \<open>
  \<^verbatim>\<open>sret\<close> goes to \<^verbatim>\<open>sepc\<close> in the mode of bit 8 of \<^verbatim>\<open>sstatus\<close>, with \<^verbatim>\<open>SIE\<close> from \<^verbatim>\<open>SPIE\<close>; \<^verbatim>\<open>mret\<close> goes to \<^verbatim>\<open>mepc\<close> in the
  mode of bits 11 and 12 of \<^verbatim>\<open>mstatus\<close>, with \<^verbatim>\<open>MIE\<close> (bit 3) from \<^verbatim>\<open>MPIE\<close> (bit 7).
\<close>

definition mode_of_mpp :: "u64 \<Rightarrow> privilege" where
  "mode_of_mpp x = (let m = take_bit 2 (drop_bit 11 x) in if m = 0 then ModeU else if m = 1 then ModeS else ModeM)"

definition do_sret :: "hart \<Rightarrow> hart" where
  "do_sret h =
     (let x = ctl h Sstatus
      in h\<lparr>hpc := ctl h Sepc, hmode := (if bit x 8 then ModeS else ModeU),
           ctl := (ctl h)(Sstatus := unset_bit 8 (set_bit 5 (if bit x 5 then set_bit 1 x else unset_bit 1 x)))\<rparr>)"

definition do_mret :: "hart \<Rightarrow> hart" where
  "do_mret h =
     (let x = ctl h Mstatus
      in h\<lparr>hpc := ctl h Mepc, hmode := mode_of_mpp x,
           ctl := (ctl h)(Mstatus := unset_bit 11 (unset_bit 12 (set_bit 7
                    (if bit x 7 then set_bit 3 x else unset_bit 3 x))))\<rparr>)"

fun asm_step :: "translation \<Rightarrow> instr \<Rightarrow> hart \<Rightarrow> hart" where
  "asm_step xl (Sd r off b) h = h\<lparr>hmem := store64 (hmem h) (phys xl h (regs h b + of_int off)) (regs h r)\<rparr>"
| "asm_step xl (Ld r off b) h = set_reg r (load64 (hmem h) (phys xl h (regs h b + of_int off))) h"
| "asm_step xl (Addi r a i) h = set_reg r (regs h a + of_int i) h"
| "asm_step xl (Add r a b) h = set_reg r (regs h a + regs h b) h"
| "asm_step xl (Mul r a b) h = set_reg r (regs h a * regs h b) h"
| "asm_step xl (Li r v) h = set_reg r v h"
| "asm_step xl (Csrr r c) h = set_reg r (ctl h c) h"
| "asm_step xl (Csrw c r) h = set_ctl c (regs h r) h"
| "asm_step xl (Csrrw r c a) h = set_ctl c (regs h a) (set_reg r (ctl h c) h)"
| "asm_step xl Sfence h = h"
| "asm_step xl (Jr r) h = h\<lparr>hpc := regs h r\<rparr>"
| "asm_step xl Sret h = do_sret h"
| "asm_step xl Mret h = do_mret h"

primrec asm_run :: "translation \<Rightarrow> instr list \<Rightarrow> hart \<Rightarrow> hart" where
  "asm_run xl [] h = h"
| "asm_run xl (i # is) h = asm_run xl is (asm_step xl i h)"

section \<open>The code\<close>

text \<open>\<^verbatim>\<open>_entry\<close> up to \<^verbatim>\<open>call start\<close>.\<close>

definition entry_code :: "u64 \<Rightarrow> instr list" where
  "entry_code stack0 =
     [Li SP stack0, Li A0 (1024 * 4), Csrr A1 Mhartid, Addi A1 A1 1, Mul A0 A0 A1, Add SP SP A0]"

definition swtch_code :: "instr list" where
  "swtch_code =
     [Sd RA 0 A0, Sd SP 8 A0, Sd S0 16 A0, Sd S1 24 A0, Sd S2 32 A0, Sd S3 40 A0, Sd S4 48 A0, Sd S5 56 A0,
      Sd S6 64 A0, Sd S7 72 A0, Sd S8 80 A0, Sd S9 88 A0, Sd S10 96 A0, Sd S11 104 A0,
      Ld RA 0 A1, Ld SP 8 A1, Ld S0 16 A1, Ld S1 24 A1, Ld S2 32 A1, Ld S3 40 A1, Ld S4 48 A1, Ld S5 56 A1,
      Ld S6 64 A1, Ld S7 72 A1, Ld S8 80 A1, Ld S9 88 A1, Ld S10 96 A1, Ld S11 104 A1,
      Jr RA]"

definition kernelvec_save :: "instr list" where
  "kernelvec_save =
     [Addi SP SP (- 256),
      Sd RA 0 SP, Sd SP 8 SP, Sd GP 16 SP, Sd TP 24 SP, Sd T0 32 SP, Sd T1 40 SP, Sd T2 48 SP, Sd S0 56 SP,
      Sd S1 64 SP, Sd A0 72 SP, Sd A1 80 SP, Sd A2 88 SP, Sd A3 96 SP, Sd A4 104 SP, Sd A5 112 SP, Sd A6 120 SP,
      Sd A7 128 SP, Sd S2 136 SP, Sd S3 144 SP, Sd S4 152 SP, Sd S5 160 SP, Sd S6 168 SP, Sd S7 176 SP,
      Sd S8 184 SP, Sd S9 192 SP, Sd S10 200 SP, Sd S11 208 SP, Sd T3 216 SP, Sd T4 224 SP, Sd T5 232 SP,
      Sd T6 240 SP]"

definition kernelvec_restore :: "instr list" where
  "kernelvec_restore =
     [Ld RA 0 SP, Ld SP 8 SP, Ld GP 16 SP, Ld T0 32 SP, Ld T1 40 SP, Ld T2 48 SP, Ld S0 56 SP,
      Ld S1 64 SP, Ld A0 72 SP, Ld A1 80 SP, Ld A2 88 SP, Ld A3 96 SP, Ld A4 104 SP, Ld A5 112 SP, Ld A6 120 SP,
      Ld A7 128 SP, Ld S2 136 SP, Ld S3 144 SP, Ld S4 152 SP, Ld S5 160 SP, Ld S6 168 SP, Ld S7 176 SP,
      Ld S8 184 SP, Ld S9 192 SP, Ld S10 200 SP, Ld S11 208 SP, Ld T3 216 SP, Ld T4 224 SP, Ld T5 232 SP,
      Ld T6 240 SP,
      Addi SP SP 256,
      Sret]"

text \<open>The trap code around \<^verbatim>\<open>call kerneltrap\<close>; the call with its \<^verbatim>\<open>ra\<close> is the parameter.\<close>

definition kernelvec_code :: "translation \<Rightarrow> (hart \<Rightarrow> hart) \<Rightarrow> hart \<Rightarrow> hart" where
  "kernelvec_code xl call_kerneltrap h =
     asm_run xl kernelvec_restore (call_kerneltrap (asm_run xl kernelvec_save h))"

definition timervec_code :: "instr list" where
  "timervec_code =
     [Csrrw A0 Mscratch A0, Sd A1 0 A0, Sd A2 8 A0, Sd A3 16 A0,
      Ld A1 24 A0, Ld A2 32 A0, Ld A3 0 A1, Add A3 A3 A2, Sd A3 0 A1,
      Li A1 2, Csrw Sip A1,
      Ld A3 16 A0, Ld A2 8 A0, Ld A1 0 A0, Csrrw A0 Mscratch A0,
      Mret]"

definition uservec_code :: "instr list" where
  "uservec_code =
     [Csrw Sscratch A0, Li A0 TRAPFRAME,
      Sd RA 40 A0, Sd SP 48 A0, Sd GP 56 A0, Sd TP 64 A0, Sd T0 72 A0, Sd T1 80 A0, Sd T2 88 A0, Sd S0 96 A0,
      Sd S1 104 A0, Sd A1 120 A0, Sd A2 128 A0, Sd A3 136 A0, Sd A4 144 A0, Sd A5 152 A0, Sd A6 160 A0,
      Sd A7 168 A0, Sd S2 176 A0, Sd S3 184 A0, Sd S4 192 A0, Sd S5 200 A0, Sd S6 208 A0, Sd S7 216 A0,
      Sd S8 224 A0, Sd S9 232 A0, Sd S10 240 A0, Sd S11 248 A0, Sd T3 256 A0, Sd T4 264 A0, Sd T5 272 A0,
      Sd T6 280 A0,
      Csrr T0 Sscratch, Sd T0 112 A0,
      Ld SP 8 A0, Ld TP 32 A0, Ld T0 16 A0, Ld T1 0 A0,
      Sfence, Csrw Satp T1, Sfence,
      Jr T0]"

definition userret_code :: "instr list" where
  "userret_code =
     [Sfence, Csrw Satp A0, Sfence,
      Li A0 TRAPFRAME,
      Ld RA 40 A0, Ld SP 48 A0, Ld GP 56 A0, Ld TP 64 A0, Ld T0 72 A0, Ld T1 80 A0, Ld T2 88 A0, Ld S0 96 A0,
      Ld S1 104 A0, Ld A1 120 A0, Ld A2 128 A0, Ld A3 136 A0, Ld A4 144 A0, Ld A5 152 A0, Ld A6 160 A0,
      Ld A7 168 A0, Ld S2 176 A0, Ld S3 184 A0, Ld S4 192 A0, Ld S5 200 A0, Ld S6 208 A0, Ld S7 216 A0,
      Ld S8 224 A0, Ld S9 232 A0, Ld S10 240 A0, Ld S11 248 A0, Ld T3 256 A0, Ld T4 264 A0, Ld T5 272 A0,
      Ld T6 280 A0,
      Ld A0 112 A0,
      Sret]"

section \<open>Saving and restoring registers\<close>

text \<open>A frame says at which offset each register is kept; \<open>Sd\<close> and \<open>Ld\<close> of a frame as programs.\<close>

definition saves :: "reg \<Rightarrow> (reg \<times> int) list \<Rightarrow> instr list" where
  "saves b fr = map (\<lambda>(r, off). Sd r off b) fr"

definition loads :: "reg \<Rightarrow> (reg \<times> int) list \<Rightarrow> instr list" where
  "loads b fr = map (\<lambda>(r, off). Ld r off b) fr"

lemma asm_run_append [simp]: "asm_run xl (is @ js) h = asm_run xl js (asm_run xl is h)"
  by (induction "is" arbitrary: h) simp_all

text \<open>\<open>n\<close> bytes at the virtual address \<open>va\<close> are mapped, in one piece and aligned, at the physical address \<open>pa\<close>.\<close>

definition frame_at :: "translation \<Rightarrow> hart \<Rightarrow> u64 \<Rightarrow> u64 \<Rightarrow> nat \<Rightarrow> bool" where
  "frame_at xl h va pa n \<longleftrightarrow> aligned8 pa \<and> unat pa + n \<le> 2 ^ 64 \<and>
     (\<forall>i < n. phys xl h (va + of_nat i) = pa + of_nat i)"

lemma frame_at_cong: "hmode g = hmode h \<Longrightarrow> ctl g Satp = ctl h Satp \<Longrightarrow> frame_at xl g va pa n = frame_at xl h va pa n"
  by (simp only: frame_at_def phys_def)

definition slots_ok :: "nat \<Rightarrow> (reg \<times> int) list \<Rightarrow> bool" where
  "slots_ok n fr \<longleftrightarrow> distinct (map snd fr) \<and> distinct (map fst fr) \<and> list_all (\<lambda>(r, off). 0 \<le> off \<and> off + 8 \<le> int n \<and> 8 dvd off) fr"

lemma frame_phys: "frame_at xl h va pa n \<Longrightarrow> 0 \<le> off \<Longrightarrow> off + 8 \<le> int n \<Longrightarrow> phys xl h (va + of_int off) = pa + of_int off"
  unfolding frame_at_def by (metis nat_less_iff of_nat_nat order_less_le_trans zero_less_numeral less_add_same_cancel1)

lemma unat_slot:
  "unat (pa :: u64) + n \<le> 2 ^ 64 \<Longrightarrow> 0 \<le> off \<Longrightarrow> off + 8 \<le> int n \<Longrightarrow> unat (pa + of_int off) = unat pa + nat off"
proof -
  assume a: "unat pa + n \<le> 2 ^ 64" "0 \<le> off" "off + 8 \<le> int n"
  have e: "(of_int off :: u64) = of_nat (nat off)" using a(2) by simp
  have "unat pa + nat off < 2 ^ 64" using a by linarith
  then show ?thesis unfolding e by (subst unat_add_small) (auto simp: unat_of_nat_small)
qed

lemma slot_aligned:
  assumes "aligned8 pa" "unat pa + n \<le> 2 ^ 64" "0 \<le> off" "off + 8 \<le> int n" "8 dvd off"
  shows "aligned8 (pa + of_int off)"
proof -
  have "8 dvd nat off" using assms(3,5) by (metis int_dvd_int_iff nat_0_le of_nat_numeral)
  then show ?thesis using assms(1) unat_slot [OF assms(2-4)] unfolding aligned8_def by (simp add: dvd_eq_mod_eq_0 mod_add_eq [symmetric])
qed

lemma slot_inj:
  assumes "unat (pa :: u64) + n \<le> 2 ^ 64" "0 \<le> a" "a + 8 \<le> int n" "0 \<le> b" "b + 8 \<le> int n" "a \<noteq> b"
  shows "pa + of_int a \<noteq> pa + of_int b"
  using unat_slot [OF assms(1-3)] unat_slot [OF assms(1,4,5)] assms by (metis add_left_cancel eq_nat_nat_iff)

text \<open>What the saves of a frame do to memory.\<close>

definition save_mem :: "u64 \<Rightarrow> (reg \<times> int) list \<Rightarrow> (reg \<Rightarrow> u64) \<Rightarrow> memory \<Rightarrow> memory" where
  "save_mem pa fr rs m = fold (\<lambda>(r, off) m. store64 m (pa + of_int off) (rs r)) fr m"

lemma saves_run:
  "frame_at xl h (regs h b) pa n \<Longrightarrow> slots_ok n fr \<Longrightarrow>
   asm_run xl (saves b fr) h = h\<lparr>hmem := save_mem pa fr (regs h) (hmem h)\<rparr>"
proof (induction fr arbitrary: h)
  case Nil
  then show ?case by (simp add: saves_def save_mem_def)
next
  case (Cons x fr)
  obtain r off where x: "x = (r, off)" by (cases x)
  have p: "phys xl h (regs h b + of_int off) = pa + of_int off"
    using Cons.prems frame_phys [OF Cons.prems(1)] by (simp add: slots_ok_def x)
  let ?h = "h\<lparr>hmem := store64 (hmem h) (pa + of_int off) (regs h r)\<rparr>"
  have "frame_at xl ?h (regs ?h b) pa n" using Cons.prems(1) frame_at_cong [of ?h h] by simp
  with Cons show ?case by (simp add: saves_def save_mem_def x p slots_ok_def)
qed

lemma save_mem_other:
  "aligned8 pa \<Longrightarrow> unat pa + n \<le> 2 ^ 64 \<Longrightarrow> slots_ok n fr \<Longrightarrow> aligned8 a \<Longrightarrow> a \<notin> (\<lambda>(r, off). pa + of_int off) ` set fr \<Longrightarrow>
   load64 (save_mem pa fr rs m) a = load64 m a"
proof (induction fr arbitrary: m)
  case Nil
  then show ?case by (simp add: save_mem_def)
next
  case (Cons x fr)
  obtain r off where x: "x = (r, off)" by (cases x)
  have al: "aligned8 (pa + of_int off)" using slot_aligned [OF Cons.prems(1,2)] Cons.prems(3) by (simp add: slots_ok_def x)
  from Cons have "load64 (save_mem pa fr rs (store64 m (pa + of_int off) (rs r))) a = load64 (store64 m (pa + of_int off) (rs r)) a"
    by (simp add: slots_ok_def)
  moreover have "\<dots> = load64 m a" using Cons.prems(4,5) al by (intro dword.load_store_other) (auto simp: x)
  ultimately show ?case by (simp add: save_mem_def x)
qed

lemma save_mem_slot:
  "aligned8 pa \<Longrightarrow> unat pa + n \<le> 2 ^ 64 \<Longrightarrow> slots_ok n fr \<Longrightarrow> (r, off) \<in> set fr \<Longrightarrow>
   load64 (save_mem pa fr rs m) (pa + of_int off) = rs r"
proof (induction fr arbitrary: m)
  case (Cons x fr)
  obtain q k where x: "x = (q, k)" by (cases x)
  have ok: "slots_ok n fr" using Cons.prems(3) by (simp add: slots_ok_def)
  show ?case
  proof (cases "(r, off) \<in> set fr")
    case True
    with Cons ok show ?thesis by (simp add: save_mem_def x)
  next
    case False
    then have e: "q = r" "k = off" using Cons.prems(4) x by auto
    have b: "0 \<le> off" "off + 8 \<le> int n" "8 dvd off" using Cons.prems(3) by (simp_all add: slots_ok_def x e)
    have "pa + of_int off \<notin> (\<lambda>(r, off). pa + of_int off) ` set fr"
    proof
      assume "pa + of_int off \<in> (\<lambda>(r, off). pa + of_int off) ` set fr"
      then obtain s j where s: "(s, j) \<in> set fr" "pa + of_int off = pa + of_int j" by auto
      have j: "0 \<le> j" "j + 8 \<le> int n" "off \<noteq> j"
        using Cons.prems(3) s(1) by (auto simp: slots_ok_def x e list_all_iff rev_image_eqI)
      show False using slot_inj [OF Cons.prems(2) b(1,2) j] s(2) by simp
    qed
    from save_mem_other [OF Cons.prems(1,2) ok slot_aligned [OF Cons.prems(1,2) b] this]
    show ?thesis by (simp add: save_mem_def x e dword.load_store_same)
  qed
qed simp

text \<open>What the loads of a frame do to the registers.\<close>

definition load_regs :: "u64 \<Rightarrow> (reg \<times> int) list \<Rightarrow> memory \<Rightarrow> (reg \<Rightarrow> u64) \<Rightarrow> reg \<Rightarrow> u64" where
  "load_regs pa fr m rs r = (case map_of fr r of None \<Rightarrow> rs r | Some off \<Rightarrow> load64 m (pa + of_int off))"

lemma loads_run:
  "frame_at xl h (regs h b) pa n \<Longrightarrow> slots_ok n fr \<Longrightarrow>
   (\<forall>off. map_of fr b = Some off \<longrightarrow> load64 (hmem h) (pa + of_int off) = regs h b) \<Longrightarrow>
   asm_run xl (loads b fr) h = h\<lparr>regs := load_regs pa fr (hmem h) (regs h)\<rparr>"
proof (induction fr arbitrary: h)
  case Nil
  have "load_regs pa [] (hmem h) (regs h) = regs h" by (rule ext) (simp add: load_regs_def)
  then show ?case by (simp add: loads_def)
next
  case (Cons x fr)
  obtain r off where x: "x = (r, off)" by (cases x)
  have p: "phys xl h (regs h b + of_int off) = pa + of_int off"
    using Cons.prems frame_phys [OF Cons.prems(1)] by (simp add: slots_ok_def x)
  let ?h = "set_reg r (load64 (hmem h) (pa + of_int off)) h"
  have b: "regs ?h b = regs h b" using Cons.prems(3) by (auto simp: set_reg_def x)
  have at: "frame_at xl ?h (regs ?h b) pa n" using Cons.prems(1) frame_at_cong [of ?h h] unfolding b by (simp add: set_reg_def)
  have ok: "slots_ok n fr" and r: "map_of fr r = None" using Cons.prems(2) by (auto simp: slots_ok_def x map_of_eq_None_iff)
  have own: "\<forall>off. map_of fr b = Some off \<longrightarrow> load64 (hmem ?h) (pa + of_int off) = regs ?h b"
    using Cons.prems(3) r unfolding b by (auto simp: x set_reg_def split: if_splits)
  have "load_regs pa fr (hmem ?h) (regs ?h) = load_regs pa (x # fr) (hmem h) (regs h)"
    by (rule ext) (auto simp: load_regs_def x set_reg_def r split: option.split)
  with Cons.IH [OF at ok own] show ?case by (simp add: loads_def x p) (simp add: set_reg_def)
qed


section \<open>Context switches\<close>

definition context_slots :: "(reg \<times> int) list" where
  "context_slots =
     [(RA, 0), (SP, 8), (S0, 16), (S1, 24), (S2, 32), (S3, 40), (S4, 48), (S5, 56), (S6, 64), (S7, 72), (S8, 80),
      (S9, 88), (S10, 96), (S11, 104)]"

text \<open>\<^verbatim>\<open>struct context\<close> in memory, and the registers it is for.\<close>

definition read_context :: "memory \<Rightarrow> u64 \<Rightarrow> swtch_context" where
  "read_context m a =
     \<lparr>ra = load64 m a, sp = load64 m (a + 8), callee_saved = map (\<lambda>i. load64 m (a + of_int (8 * i + 16))) [0..11]\<rparr>"

definition hart_context :: "hart \<Rightarrow> swtch_context" where
  "hart_context h = \<lparr>ra = regs h RA, sp = regs h SP,
     callee_saved = map (regs h) [S0, S1, S2, S3, S4, S5, S6, S7, S8, S9, S10, S11]\<rparr>"

lemma swtch_code_frames: "swtch_code = saves A0 context_slots @ loads A1 context_slots @ [Jr RA]"
  by (simp add: swtch_code_def saves_def loads_def context_slots_def)

lemma context_slots_ok: "slots_ok 112 context_slots"
  by (simp add: slots_ok_def context_slots_def)

lemma read_context_slots:
  "read_context m a = \<lparr>ra = load64 m (a + of_int 0), sp = load64 m (a + of_int 8),
     callee_saved = map (\<lambda>off. load64 m (a + of_int off)) [16, 24, 32, 40, 48, 56, 64, 72, 80, 88, 96, 104]\<rparr>"
  by (simp add: read_context_def upto_rec1)

lemma swtch_switches:
  assumes old: "frame_at xl h (regs h A0) old 112" and new: "frame_at xl h (regs h A1) new 112"
    and apart: "unat old + 112 \<le> unat new \<or> unat new + 112 \<le> unat old"
  defines "t \<equiv> asm_run xl swtch_code h"
  shows "read_context (hmem t) old = hart_context h"
    and "hart_context t = read_context (hmem h) new"
    and "hpc t = ra (read_context (hmem h) new)"
    and "\<And>r. r \<notin> fst ` set context_slots \<Longrightarrow> regs t r = regs h r"
proof -
  have o: "aligned8 old" "unat old + 112 \<le> 2 ^ 64" using old by (simp_all add: frame_at_def)
  have n: "aligned8 new" "unat new + 112 \<le> 2 ^ 64" using new by (simp_all add: frame_at_def)
  let ?m = "save_mem old context_slots (regs h) (hmem h)"
  let ?h = "h\<lparr>hmem := ?m\<rparr>"
  have f: "frame_at xl ?h (regs ?h A1) new 112" using new frame_at_cong [of ?h h] by simp
  have t: "t = ?h\<lparr>regs := load_regs new context_slots ?m (regs h), hpc := load_regs new context_slots ?m (regs h) RA\<rparr>"
    unfolding t_def swtch_code_frames using saves_run [OF old context_slots_ok] loads_run [OF f context_slots_ok]
    by (simp add: context_slots_def)
  have keep: "load64 ?m (new + of_int off) = load64 (hmem h) (new + of_int off)" if "0 \<le> off" "off + 8 \<le> 112" "8 dvd off" for off
  proof (rule save_mem_other [OF o context_slots_ok slot_aligned [OF n]])
    have "new + of_int off \<noteq> old + of_int j" if j: "0 \<le> j" "j + 8 \<le> 112" for j
    proof -
      have "unat (new + of_int off) = unat new + nat off" "unat (old + of_int j) = unat old + nat j"
        using unat_slot [OF n(2), of off] unat_slot [OF o(2), of j] that \<open>0 \<le> off\<close> \<open>off + 8 \<le> 112\<close> by simp_all
      moreover have "nat off < 112" "nat j < 112" using that \<open>off + 8 \<le> 112\<close> by simp_all
      ultimately have "unat (new + of_int off) \<noteq> unat (old + of_int j)" using apart by linarith
      then show ?thesis by auto
    qed
    then show "new + of_int off \<notin> (\<lambda>(r, off). old + of_int off) ` set context_slots"
      using context_slots_ok by (auto simp: slots_ok_def list_all_iff)
  qed (use that in auto)
  define m where "m = ?m"
  have slot: "list_all (\<lambda>(r, off). load64 m (old + of_int off) = regs h r) context_slots"
    using save_mem_slot [OF o context_slots_ok] by (auto simp: list_all_iff m_def)
  have keep: "list_all (\<lambda>(r, off). load64 m (new + of_int off) = load64 (hmem h) (new + of_int off)) context_slots"
    using keep context_slots_ok by (auto simp: list_all_iff slots_ok_def m_def)
  note t = t [folded m_def]
  show "read_context (hmem t) old = hart_context h"
    using slot by (simp add: t read_context_slots hart_context_def context_slots_def)
  show "hart_context t = read_context (hmem h) new"
    using keep by (simp add: t read_context_slots hart_context_def load_regs_def context_slots_def)
  show "hpc t = ra (read_context (hmem h) new)"
    using keep by (simp add: t read_context_slots load_regs_def context_slots_def)
  show "regs t r = regs h r" if "r \<notin> fst ` set context_slots" for r
    using that map_of_eq_None_iff [of context_slots r] by (simp add: t load_regs_def)
qed


lemma frame_at_id: "aligned8 a \<Longrightarrow> unat a + n \<le> 2 ^ 64 \<Longrightarrow> frame_at (\<lambda>_ v. v) h a a n"
  by (simp add: frame_at_def phys_def)

text \<open>
  Property C34. A context switch is resumed: \<^verbatim>\<open>swtch(old, new)\<close> continues at the return address and with the stack and the
  callee-saved registers of \<open>new\<close>; when later, on whatever hart, \<^verbatim>\<open>swtch\<close> is called with the context \<open>old\<close> as its second
  argument and that context has not been changed, it returns where the first call was made from, with the registers of that
  call.
\<close>

theorem swtch_resumes:
  assumes "frame_at xl h (regs h A0) old 112" "frame_at xl h (regs h A1) new 112"
    and "unat old + 112 \<le> unat new \<or> unat new + 112 \<le> unat old"
    and "frame_at yl g (regs g A0) cur 112" "frame_at yl g (regs g A1) old 112"
    and "unat old + 112 \<le> unat cur \<or> unat cur + 112 \<le> unat old"
    and "read_context (hmem g) old = read_context (hmem (asm_run xl swtch_code h)) old"
  shows "hart_context (asm_run xl swtch_code h) = read_context (hmem h) new \<and>
    hpc (asm_run xl swtch_code h) = ra (read_context (hmem h) new) \<and>
    hart_context (asm_run yl swtch_code g) = hart_context h \<and> hpc (asm_run yl swtch_code g) = regs h RA"
proof -
  have "unat cur + 112 \<le> unat old \<or> unat old + 112 \<le> unat cur" using assms(6) by blast
  from swtch_switches(2,3) [OF assms(4,5) this] swtch_switches(1-3) [OF assms(1-3)] assms(7)
  show ?thesis by (simp add: hart_context_def)
qed

definition demo_hart :: hart where
  "demo_hart = \<lparr>regs = (\<lambda>_. 7)(RA := 0x80000100, SP := 0x9000, A0 := 0x1000, A1 := 0x2000), ctl = (\<lambda>_. 0), hmode = ModeS,
     hpc = 0x80000000, hmem = (\<lambda>_. 0)\<rparr>"

theorem swtch_resumes_witness:
  "hpc (asm_run (\<lambda>_ v. v) swtch_code
     (set_reg A0 0x2000 (set_reg A1 0x1000 (asm_run (\<lambda>_ v. v) swtch_code demo_hart)))) = 0x80000100"
proof -
  let ?h = "asm_run (\<lambda>_ v. v) swtch_code demo_hart"
  let ?g = "set_reg A0 0x2000 (set_reg A1 0x1000 ?h)"
  have f: "frame_at (\<lambda>_ v. v) h 0x1000 0x1000 112" "frame_at (\<lambda>_ v. v) h 0x2000 0x2000 112" for h
    by (rule frame_at_id; simp add: aligned8_def)+
  have r: "regs demo_hart A0 = 0x1000" "regs demo_hart A1 = 0x2000" "regs ?g A0 = 0x2000" "regs ?g A1 = 0x1000"
    "regs demo_hart RA = 0x80000100" "hmem ?g = hmem ?h"
    by (simp_all add: demo_hart_def set_reg_def)
  from swtch_resumes [of "\<lambda>_ v. v" demo_hart "0x1000" "0x2000" "\<lambda>_ v. v" ?g "0x2000", unfolded r, OF f _ f(2) f(1)]
  show ?thesis by simp
qed

section \<open>Traps from kernel code\<close>

text \<open>The words at the offsets from \<open>a\<close> to \<open>b\<close> of the block at \<open>pa\<close> are the same in two memories.\<close>

definition same_words :: "u64 \<Rightarrow> int \<Rightarrow> int \<Rightarrow> memory \<Rightarrow> memory \<Rightarrow> bool" where
  "same_words pa a b m n \<longleftrightarrow> (\<forall>off. a \<le> off \<and> off < b \<and> 8 dvd off \<longrightarrow> load64 m (pa + of_int off) = load64 n (pa + of_int off))"

lemma load_regs_saved:
  assumes "aligned8 pa" "unat pa + n \<le> 2 ^ 64" "slots_ok n fr" "map_of fr r = Some off"
    and "load64 m (pa + of_int off) = load64 (save_mem pa fr rs m0) (pa + of_int off)"
  shows "load64 m (pa + of_int off) = rs r"
  using save_mem_slot [OF assms(1-3) map_of_SomeD [OF assms(4)]] assms(5) by simp

lemma slots_words:
  "slots_ok n fr \<Longrightarrow> same_words pa 0 (int n) m m' \<Longrightarrow> map_of fr r = Some off \<Longrightarrow>
   load64 m (pa + of_int off) = load64 m' (pa + of_int off)"
  unfolding same_words_def slots_ok_def by (drule map_of_SomeD) (force simp: list_all_iff)

definition kernelvec_slots :: "(reg \<times> int) list" where
  "kernelvec_slots =
     [(RA, 0), (SP, 8), (GP, 16), (TP, 24), (T0, 32), (T1, 40), (T2, 48), (S0, 56), (S1, 64), (A0, 72), (A1, 80), (A2, 88),
      (A3, 96), (A4, 104), (A5, 112), (A6, 120), (A7, 128), (S2, 136), (S3, 144), (S4, 152), (S5, 160), (S6, 168),
      (S7, 176), (S8, 184), (S9, 192), (S10, 200), (S11, 208), (T3, 216), (T4, 224), (T5, 232), (T6, 240)]"

lemma kernelvec_frames:
  "kernelvec_save = Addi SP SP (- 256) # saves SP kernelvec_slots"
  "kernelvec_restore = loads SP (filter (\<lambda>x. fst x \<noteq> TP) kernelvec_slots) @ [Addi SP SP 256, Sret]"
  by (simp_all add: kernelvec_save_def kernelvec_restore_def saves_def loads_def kernelvec_slots_def)

lemma kernelvec_slots_ok: "slots_ok 248 kernelvec_slots" "slots_ok 248 (filter (\<lambda>x. fst x \<noteq> TP) kernelvec_slots)"
  by (simp_all add: slots_ok_def kernelvec_slots_def)

lemma kernelvec_slots_all: "r \<noteq> TP \<Longrightarrow> \<exists>off. map_of kernelvec_slots r = Some off \<and>
    map_of (filter (\<lambda>x. fst x \<noteq> TP) kernelvec_slots) r = Some off"
  by (cases r) (simp_all add: kernelvec_slots_def)

lemma kernelvec_slots_TP: "map_of (filter (\<lambda>x. fst x \<noteq> TP) kernelvec_slots) TP = None"
  by (simp add: kernelvec_slots_def)

text \<open>
  Property C36. A trap taken in kernel code is transparent: whatever \<^verbatim>\<open>kerneltrap\<close> does to the registers, if it returns with
  its stack pointer and leaves the frame of \<^verbatim>\<open>kernelvec\<close> alone, every register but \<^verbatim>\<open>tp\<close> has its old value when
  \<^verbatim>\<open>kernelvec\<close> leaves; \<^verbatim>\<open>tp\<close> is that of the hart on which \<^verbatim>\<open>kerneltrap\<close> returned, and execution goes on at \<^verbatim>\<open>sepc\<close>.
\<close>

theorem kernelvec_transparent:
  assumes "frame_at xl h (regs h SP - 256) pa 248"
    and "regs c SP = regs h SP - 256" "frame_at xl c (regs h SP - 256) pa 248"
    and "same_words pa 0 248 (hmem c) (hmem (asm_run xl kernelvec_save h))"
    and "call_kerneltrap (asm_run xl kernelvec_save h) = c"
  shows "regs (kernelvec_code xl call_kerneltrap h) = (regs h)(TP := regs c TP) \<and>
    hpc (kernelvec_code xl call_kerneltrap h) = ctl c Sepc \<and>
    hmode (kernelvec_code xl call_kerneltrap h) = (if bit (ctl c Sstatus) 8 then ModeS else ModeU)"
proof -
  let ?fr = "filter (\<lambda>x. fst x \<noteq> TP) kernelvec_slots"
  let ?rs = "(regs h)(SP := regs h SP - 256)"
  have p: "aligned8 pa" "unat pa + 248 \<le> 2 ^ 64" using assms(1) by (simp_all add: frame_at_def)
  have f: "frame_at xl (set_reg SP (regs h SP - 256) h) (regs (set_reg SP (regs h SP - 256) h) SP) pa 248"
    using assms(1) frame_at_cong [of "set_reg SP (regs h SP - 256) h" h] by (simp add: set_reg_def)
  have m: "hmem (asm_run xl kernelvec_save h) = save_mem pa kernelvec_slots ?rs (hmem h)"
    unfolding kernelvec_frames using saves_run [OF f kernelvec_slots_ok(1)] by (simp add: set_reg_def)
  have ld: "load64 (hmem c) (pa + of_int off) = ?rs r" if "map_of kernelvec_slots r = Some off" for r off
    using load_regs_saved [OF p kernelvec_slots_ok(1) that] slots_words [OF kernelvec_slots_ok(1) _ that] assms(4)
    unfolding m by (metis of_nat_numeral)
  have f2: "frame_at xl c (regs c SP) pa 248" using assms(2,3) by simp
  have own: "\<forall>off. map_of ?fr SP = Some off \<longrightarrow> load64 (hmem c) (pa + of_int off) = regs c SP"
    using kernelvec_slots_all [of SP] ld [of SP] assms(2) by auto
  let ?l = "load_regs pa ?fr (hmem c) (regs c)"
  have r: "kernelvec_code xl call_kerneltrap h = do_sret (c\<lparr>regs := ?l(SP := ?l SP + 256)\<rparr>)"
    unfolding kernelvec_code_def assms(5) kernelvec_frames(2) using loads_run [OF f2 kernelvec_slots_ok(2) own]
    by (simp add: set_reg_def)
  have l: "?l r = (if r = TP then regs c TP else ?rs r)" for r
    using kernelvec_slots_all [of r] kernelvec_slots_TP ld [of r] by (auto simp: load_regs_def)
  have "?l(SP := ?l SP + 256) = (regs h)(TP := regs c TP)" by (rule ext) (simp add: l)
  with r show ?thesis by (simp add: do_sret_def Let_def)
qed

lemma saves_keep: "regs (asm_run xl (saves b fr) h) = regs h" "hmode (asm_run xl (saves b fr) h) = hmode h"
  "ctl (asm_run xl (saves b fr) h) = ctl h"
  by (induction fr arbitrary: h) (auto simp: saves_def)

lemma kernelvec_save_regs: "regs (asm_run xl kernelvec_save h) SP = regs h SP - 256"
  unfolding kernelvec_frames by (simp add: saves_keep set_reg_def)

theorem kernelvec_transparent_witness:
  "regs (kernelvec_code (\<lambda>_ v. v) (\<lambda>s. set_reg T0 99 (set_reg TP 3 (set_ctl Sepc 0x80000004 s))) demo_hart) =
     (regs demo_hart)(TP := 3) \<and>
   hpc (kernelvec_code (\<lambda>_ v. v) (\<lambda>s. set_reg T0 99 (set_reg TP 3 (set_ctl Sepc 0x80000004 s))) demo_hart) = 0x80000004"
proof -
  let ?c = "\<lambda>s. set_reg T0 99 (set_reg TP 3 (set_ctl Sepc 0x80000004 s))"
  let ?t = "?c (asm_run (\<lambda>_ v. v) kernelvec_save demo_hart)"
  have sp: "regs demo_hart SP - 256 = 0x8F00" by (simp add: demo_hart_def)
  have f: "frame_at (\<lambda>_ v. v) h 0x8F00 0x8F00 248" for h by (rule frame_at_id) (simp_all add: aligned8_def)
  have "regs ?t SP = 0x8F00" "regs ?t TP = 3" "ctl ?t Sepc = 0x80000004"
    using kernelvec_save_regs [of _ demo_hart] sp by (simp_all add: set_reg_def set_ctl_def)
  moreover have "same_words 0x8F00 0 248 (hmem ?t) (hmem (asm_run (\<lambda>_ v. v) kernelvec_save demo_hart))"
    by (simp add: same_words_def set_reg_def set_ctl_def)
  ultimately show ?thesis
    using kernelvec_transparent [of "\<lambda>_ v. v" demo_hart "0x8F00" ?t ?c, unfolded sp, OF f _ f] by simp
qed

section \<open>Traps from user code\<close>

definition tf_slots :: "(reg \<times> int) list" where
  "tf_slots =
     [(RA, 40), (SP, 48), (GP, 56), (TP, 64), (T0, 72), (T1, 80), (T2, 88), (S0, 96), (S1, 104), (A1, 120), (A2, 128),
      (A3, 136), (A4, 144), (A5, 152), (A6, 160), (A7, 168), (S2, 176), (S3, 184), (S4, 192), (S5, 200), (S6, 208),
      (S7, 216), (S8, 224), (S9, 232), (S10, 240), (S11, 248), (T3, 256), (T4, 264), (T5, 272), (T6, 280)]"

lemma trampoline_frames:
  "uservec_code = [Csrw Sscratch A0, Li A0 TRAPFRAME] @ saves A0 tf_slots @
     [Csrr T0 Sscratch, Sd T0 112 A0, Ld SP 8 A0, Ld TP 32 A0, Ld T0 16 A0, Ld T1 0 A0, Sfence, Csrw Satp T1, Sfence, Jr T0]"
  "userret_code = [Sfence, Csrw Satp A0, Sfence, Li A0 TRAPFRAME] @ loads A0 tf_slots @ [Ld A0 112 A0, Sret]"
  by (simp_all add: uservec_code_def userret_code_def saves_def loads_def tf_slots_def)

lemma tf_slots_ok: "slots_ok 288 (tf_slots @ [(A0, 112)])" "slots_ok 288 tf_slots"
  by (simp_all add: slots_ok_def tf_slots_def)

lemma tf_slots_all: "r \<noteq> A0 \<Longrightarrow> \<exists>off. map_of tf_slots r = Some off \<and> 40 \<le> off \<and> off < 288 \<and> 8 dvd off"
  by (cases r) (simp_all add: tf_slots_def)

lemma tf_slots_A0: "map_of tf_slots A0 = None"
  by (simp add: tf_slots_def)

lemma tf_slots_low: "(r, off) \<in> set (tf_slots @ [(A0, 112)]) \<Longrightarrow> 40 \<le> off \<and> off < 288"
  by (auto simp: tf_slots_def)

lemma save_mem_cong: "(\<And>r off. (r, off) \<in> set fr \<Longrightarrow> rs r = rs' r) \<Longrightarrow> save_mem pa fr rs m = save_mem pa fr rs' m"
  unfolding save_mem_def by (rule fold_cong) auto

lemma save_mem_snoc: "store64 (save_mem pa fr rs m) (pa + of_int off) (rs r) = save_mem pa (fr @ [(r, off)]) rs m"
  by (simp add: save_mem_def)

text \<open>The registers, the control registers and the memory with which \<^verbatim>\<open>uservec\<close> enters \<^verbatim>\<open>usertrap\<close>.\<close>

lemma uservec_run:
  assumes f: "frame_at xl h TRAPFRAME pa 288"
  defines "t \<equiv> asm_run xl uservec_code h"
  shows "hmem t = save_mem pa (tf_slots @ [(A0, 112)]) (regs h) (hmem h)"
    and "regs t SP = load64 (hmem h) (pa + tf_kernel_sp)" "regs t TP = load64 (hmem h) (pa + tf_kernel_hartid)"
    and "ctl t Satp = load64 (hmem h) (pa + tf_kernel_satp)" "hpc t = load64 (hmem h) (pa + tf_kernel_trap)"
proof -
  have p: "aligned8 pa" "unat pa + 288 \<le> 2 ^ 64" using f by (simp_all add: frame_at_def)
  let ?h = "set_reg A0 TRAPFRAME (set_ctl Sscratch (regs h A0) h)"
  have f1: "frame_at xl ?h (regs ?h A0) pa 288"
    using f frame_at_cong [of ?h h] by (simp add: set_reg_def set_ctl_def)
  define m where "m = save_mem pa (tf_slots @ [(A0, 112)]) (regs h) (hmem h)"
  have s: "asm_run xl (saves A0 tf_slots) ?h = ?h\<lparr>hmem := save_mem pa tf_slots (regs ?h) (hmem h)\<rparr>"
    using saves_run [OF f1 tf_slots_ok(2)] by (simp add: set_reg_def set_ctl_def)
  have "save_mem pa tf_slots (regs ?h) (hmem h) = save_mem pa tf_slots (regs h) (hmem h)"
    by (rule save_mem_cong) (auto simp: set_reg_def set_ctl_def tf_slots_def)
  then have m: "store64 (save_mem pa tf_slots (regs ?h) (hmem h)) (pa + 112) (regs h A0) = m"
    using save_mem_snoc [of pa tf_slots "regs h" "hmem h" 112 A0] by (simp add: m_def)
  have at: "phys xl g (TRAPFRAME + of_int off) = pa + of_int off"
    if "hmode g = hmode h" "ctl g Satp = ctl h Satp" "0 \<le> off" "off + 8 \<le> 288" for g off
    using that frame_phys [of xl g TRAPFRAME pa 288 off] frame_at_cong [of g h] f by simp
  note at = at [of _ 0, simplified] at [of _ 8, simplified] at [of _ 16, simplified] at [of _ 32, simplified]
    at [of _ 112, simplified]
  have k: "load64 m (pa + of_int off) = load64 (hmem h) (pa + of_int off)" if "0 \<le> off" "off < 40" "8 dvd off" for off
  proof -
    have "pa + of_int off \<noteq> pa + of_int j" if "(r, j) \<in> set (tf_slots @ [(A0, 112)])" for r j
    proof (rule slot_inj [OF p(2)])
      have "j + 8 \<le> 288" using that tf_slots_ok(1) unfolding slots_ok_def list_all_iff by fastforce
      then show "j + 8 \<le> int 288" by simp
    qed (use tf_slots_low [OF that] \<open>0 \<le> off\<close> \<open>off < 40\<close> in auto)
    then have "pa + of_int off \<notin> (\<lambda>(r, off). pa + of_int off) ` set (tf_slots @ [(A0, 112)])" by fast
    then show ?thesis unfolding m_def
      using save_mem_other [OF p tf_slots_ok(1) slot_aligned [OF p], of off] that by simp
  qed
  let ?g = "?h\<lparr>hmem := m, regs := (regs ?h)(T0 := regs h A0)\<rparr>"
  have g: "asm_run xl [Csrr T0 Sscratch, Sd T0 112 A0] (?h\<lparr>hmem := save_mem pa tf_slots (regs ?h) (hmem h)\<rparr>) = ?g"
    unfolding m [symmetric] by (simp add: set_reg_def set_ctl_def at)
  have t: "t = asm_run xl [Ld SP 8 A0, Ld TP 32 A0, Ld T0 16 A0, Ld T1 0 A0, Sfence, Csrw Satp T1, Sfence, Jr T0] ?g"
    unfolding g [symmetric] s [symmetric] t_def trampoline_frames by simp
  have "hmem t = m" "regs t SP = load64 m (pa + 8)" "regs t TP = load64 m (pa + 32)" "ctl t Satp = load64 m pa"
    "hpc t = load64 m (pa + 16)"
    unfolding t by (simp_all add: set_reg_def set_ctl_def at)
  then show "hmem t = save_mem pa (tf_slots @ [(A0, 112)]) (regs h) (hmem h)"
    "regs t SP = load64 (hmem h) (pa + tf_kernel_sp)" "regs t TP = load64 (hmem h) (pa + tf_kernel_hartid)"
    "ctl t Satp = load64 (hmem h) (pa + tf_kernel_satp)" "hpc t = load64 (hmem h) (pa + tf_kernel_trap)"
    using k [of 0] k [of 8] k [of 16] k [of 32]
    by (simp_all add: m_def tf_kernel_sp_def tf_kernel_hartid_def tf_kernel_satp_def tf_kernel_trap_def)
qed


lemma userret_run:
  assumes f: "frame_at xl (set_ctl Satp (regs u A0) u) TRAPFRAME pa 288"
  shows "asm_run xl userret_code u =
    do_sret (u\<lparr>ctl := (ctl u)(Satp := regs u A0),
               regs := load_regs pa (tf_slots @ [(A0, 112)]) (hmem u) (regs u)\<rparr>)"
proof -
  let ?u = "set_reg A0 TRAPFRAME (set_ctl Satp (regs u A0) u)"
  have f1: "frame_at xl ?u (regs ?u A0) pa 288"
    using f frame_at_cong [of ?u "set_ctl Satp (regs u A0) u"] by (simp add: set_reg_def)
  have p: "phys xl g (TRAPFRAME + 112) = pa + 112" if "hmode g = hmode u" "ctl g Satp = regs u A0" for g
    using frame_phys [of xl g TRAPFRAME pa 288 112] frame_at_cong [of g "set_ctl Satp (regs u A0) u"] f that
    by (simp add: set_ctl_def)
  let ?l = "load_regs pa tf_slots (hmem u) ((regs u)(A0 := TRAPFRAME))"
  have l: "asm_run xl (loads A0 tf_slots) ?u = ?u\<lparr>regs := ?l\<rparr>"
    using loads_run [OF f1 tf_slots_ok(2)] by (simp add: tf_slots_A0 set_reg_def set_ctl_def)
  have "?l(A0 := load64 (hmem u) (pa + 112)) = load_regs pa (tf_slots @ [(A0, 112)]) (hmem u) (regs u)"
  proof
    fix r show "(?l(A0 := load64 (hmem u) (pa + 112))) r = load_regs pa (tf_slots @ [(A0, 112)]) (hmem u) (regs u) r"
      using tf_slots_all [of r] tf_slots_A0 by (cases "r = A0") (auto simp: load_regs_def map_add_def)
  qed
  moreover have "?l A0 = TRAPFRAME" by (simp add: load_regs_def tf_slots_A0)
  ultimately have "asm_run xl [Ld A0 112 A0, Sret] (?u\<lparr>regs := ?l\<rparr>) =
    do_sret (u\<lparr>ctl := (ctl u)(Satp := regs u A0), regs := load_regs pa (tf_slots @ [(A0, 112)]) (hmem u) (regs u)\<rparr>)"
    by (simp add: set_reg_def set_ctl_def p)
  then show ?thesis unfolding trampoline_frames by (simp add: l)
qed

text \<open>
  Property C35. A trap from user code keeps the registers of the program: \<^verbatim>\<open>uservec\<close> enters \<^verbatim>\<open>usertrap\<close> with the kernel's stack,
  hart number and page table and leaves every user register in the trap frame, the system call number where \<^verbatim>\<open>syscall\<close> looks
  for it; when \<^verbatim>\<open>userret\<close> is entered with the page table of the process and the saved registers still in the frame, the
  program continues at \<^verbatim>\<open>sepc\<close>, in its page table, with every register as it was.
\<close>

theorem user_registers_survive:
  assumes "frame_at xl h TRAPFRAME pa 288" "frame_at xl (set_ctl Satp (regs u A0) u) TRAPFRAME pa 288"
    and "regs u A0 = ctl h Satp" "same_words pa 40 288 (hmem u) (hmem (asm_run xl uservec_code h))"
  shows "regs (asm_run xl uservec_code h) SP = load64 (hmem h) (pa + tf_kernel_sp) \<and>
    regs (asm_run xl uservec_code h) TP = load64 (hmem h) (pa + tf_kernel_hartid) \<and>
    ctl (asm_run xl uservec_code h) Satp = load64 (hmem h) (pa + tf_kernel_satp) \<and>
    hpc (asm_run xl uservec_code h) = load64 (hmem h) (pa + tf_kernel_trap) \<and>
    load64 (hmem (asm_run xl uservec_code h)) (pa + tf_a7) = regs h A7 \<and>
    regs (asm_run xl userret_code u) = regs h \<and> ctl (asm_run xl userret_code u) Satp = ctl h Satp \<and>
    hpc (asm_run xl userret_code u) = ctl u Sepc"
proof -
  let ?fr = "tf_slots @ [(A0, 112)]"
  note run = uservec_run [OF assms(1)]
  have p: "aligned8 pa" "unat pa + 288 \<le> 2 ^ 64" using assms(1) by (simp_all add: frame_at_def)
  have "load64 (hmem (asm_run xl uservec_code h)) (pa + of_int 168) = regs h A7"
    unfolding run(1) by (rule save_mem_slot [OF p tf_slots_ok(1)]) (simp add: tf_slots_def)
  then have a7: "load64 (hmem (asm_run xl uservec_code h)) (pa + tf_a7) = regs h A7" by (simp add: tf_a7_def)
  have "\<exists>off. map_of ?fr r = Some off \<and> 40 \<le> off \<and> off < 288 \<and> 8 dvd off" for r
    using tf_slots_all [of r] tf_slots_A0 by (cases "r = A0") (auto simp: map_add_def)
  then have "load_regs pa ?fr (hmem u) (regs u) r = regs h r" for r
  proof -
    obtain off where off: "map_of ?fr r = Some off" "40 \<le> off" "off < 288" "8 dvd off"
      using \<open>\<exists>off. map_of ?fr r = Some off \<and> 40 \<le> off \<and> off < 288 \<and> 8 dvd off\<close> by blast
    have "load64 (hmem u) (pa + of_int off) = regs h r"
      using load_regs_saved [OF p tf_slots_ok(1) off(1)] assms(4) off(2-4) unfolding run(1) same_words_def by blast
    with off(1) show ?thesis by (simp add: load_regs_def)
  qed
  then have "load_regs pa ?fr (hmem u) (regs u) = regs h" ..
  with userret_run [OF assms(2)] assms(3) run(2-) a7 show ?thesis by (simp add: do_sret_def Let_def)
qed

theorem user_registers_survive_witness:
  "\<exists>u. regs u S0 \<noteq> regs demo_hart S0 \<and>
     regs (asm_run (\<lambda>p v. v - TRAPFRAME + 0x5000) userret_code u) = regs demo_hart"
proof -
  let ?xl = "\<lambda>(p :: u64) v. v - TRAPFRAME + 0x5000"
  let ?t = "asm_run ?xl uservec_code demo_hart"
  let ?u = "set_reg A0 0 (set_reg S0 1 (?t\<lparr>hmode := ModeS\<rparr>))"
  have f: "frame_at ?xl g TRAPFRAME 0x5000 288" if "hmode g = ModeS" for g
    using that by (simp add: frame_at_def phys_def aligned8_def)
  have "regs ?u A0 = ctl demo_hart Satp" "hmem ?u = hmem ?t" "hmode ?u = ModeS" "hmode demo_hart = ModeS"
    "regs ?u S0 \<noteq> regs demo_hart S0" "hmode (set_ctl Satp (regs ?u A0) ?u) = ModeS"
    by (simp_all add: set_reg_def set_ctl_def demo_hart_def)
  moreover have "same_words 0x5000 40 288 (hmem ?u) (hmem ?t)" using \<open>hmem ?u = hmem ?t\<close> by (simp add: same_words_def)
  ultimately have "regs (asm_run ?xl userret_code ?u) = regs demo_hart"
    using user_registers_survive [of ?xl demo_hart "0x5000" ?u] f by blast
  then show ?thesis using \<open>regs ?u S0 \<noteq> regs demo_hart S0\<close> by blast
qed


section \<open>Machine mode\<close>

definition r_mhartid :: "hart \<Rightarrow> u64" where "r_mhartid h = ctl h Mhartid"
definition r_mstatus :: "hart \<Rightarrow> u64" where "r_mstatus h = ctl h Mstatus"
definition w_mstatus :: "u64 \<Rightarrow> hart \<Rightarrow> hart" where "w_mstatus x h = set_ctl Mstatus x h"
definition w_mepc :: "u64 \<Rightarrow> hart \<Rightarrow> hart" where "w_mepc x h = set_ctl Mepc x h"
definition r_sie :: "hart \<Rightarrow> u64" where "r_sie h = ctl h Sie"
definition w_sie :: "u64 \<Rightarrow> hart \<Rightarrow> hart" where "w_sie x h = set_ctl Sie x h"
definition r_mie :: "hart \<Rightarrow> u64" where "r_mie h = ctl h Mie"
definition w_mie :: "u64 \<Rightarrow> hart \<Rightarrow> hart" where "w_mie x h = set_ctl Mie x h"
definition w_medeleg :: "u64 \<Rightarrow> hart \<Rightarrow> hart" where "w_medeleg x h = set_ctl Medeleg x h"
definition w_mideleg :: "u64 \<Rightarrow> hart \<Rightarrow> hart" where "w_mideleg x h = set_ctl Mideleg x h"
definition w_mtvec :: "u64 \<Rightarrow> hart \<Rightarrow> hart" where "w_mtvec x h = set_ctl Mtvec x h"
definition w_pmpcfg0 :: "u64 \<Rightarrow> hart \<Rightarrow> hart" where "w_pmpcfg0 x h = set_ctl Pmpcfg0 x h"
definition w_pmpaddr0 :: "u64 \<Rightarrow> hart \<Rightarrow> hart" where "w_pmpaddr0 x h = set_ctl Pmpaddr0 x h"
definition w_satp :: "u64 \<Rightarrow> hart \<Rightarrow> hart" where "w_satp x h = set_ctl Satp x h"
definition w_mscratch :: "u64 \<Rightarrow> hart \<Rightarrow> hart" where "w_mscratch x h = set_ctl Mscratch x h"
definition w_tp :: "u64 \<Rightarrow> hart \<Rightarrow> hart" where "w_tp x h = set_reg TP x h"

lemmas csr_access = r_mhartid_def r_mstatus_def w_mstatus_def w_mepc_def r_sie_def w_sie_def r_mie_def w_mie_def w_medeleg_def
  w_mideleg_def w_mtvec_def w_pmpcfg0_def w_pmpaddr0_def w_satp_def w_mscratch_def w_tp_def

definition MSTATUS_MPP_MASK :: u64 where "MSTATUS_MPP_MASK = push_bit 11 3"
definition MSTATUS_MPP_S :: u64 where "MSTATUS_MPP_S = push_bit 11 1"
definition MSTATUS_MIE :: u64 where "MSTATUS_MIE = push_bit 3 1"
definition SIE_SEIE :: u64 where "SIE_SEIE = push_bit 9 1"
definition SIE_STIE :: u64 where "SIE_STIE = push_bit 5 1"
definition SIE_SSIE :: u64 where "SIE_SSIE = push_bit 1 1"
definition MIE_MTIE :: u64 where "MIE_MTIE = push_bit 7 1"
definition CLINT :: u64 where "CLINT = 0x2000000"
definition CLINT_MTIMECMP :: "int \<Rightarrow> u64" where "CLINT_MTIMECMP hartid = CLINT + 0x4000 + of_int (8 * hartid)"
definition CLINT_MTIME :: u64 where "CLINT_MTIME = CLINT + 0xBFF8"

text \<open>\<^verbatim>\<open>int id = r_mhartid()\<close>.\<close>

definition hart_int :: "hart \<Rightarrow> int" where
  "hart_int h = sint (ucast (r_mhartid h) :: u32)"

text \<open>The addresses of \<^verbatim>\<open>timer_scratch\<close>, \<^verbatim>\<open>timervec\<close> and \<^verbatim>\<open>main\<close>, which the linker chooses, are arguments.\<close>

definition timerinit :: "u64 \<Rightarrow> u64 \<Rightarrow> hart \<Rightarrow> hart" where
  "timerinit timer_scratch timervec h =
     (let i = hart_int h;
          interval = 1000000;
          m1 = store64 (hmem h) (CLINT_MTIMECMP i) (load64 (hmem h) CLINT_MTIME + interval);
          scratch = timer_scratch + of_int (40 * i);
          m2 = store64 m1 (scratch + 24) (CLINT_MTIMECMP i);
          m3 = store64 m2 (scratch + 32) interval;
          h1 = w_mtvec timervec (w_mscratch scratch (h\<lparr>hmem := m3\<rparr>));
          h2 = w_mstatus (r_mstatus h1 OR MSTATUS_MIE) h1
      in w_mie (r_mie h2 OR MIE_MTIE) h2)"

definition start :: "u64 \<Rightarrow> u64 \<Rightarrow> u64 \<Rightarrow> hart \<Rightarrow> hart" where
  "start timer_scratch timervec main h =
     (let x = (r_mstatus h AND NOT MSTATUS_MPP_MASK) OR MSTATUS_MPP_S;
          h1 = w_mideleg 0xffff (w_medeleg 0xffff (w_satp 0 (w_mepc main (w_mstatus x h))));
          h2 = w_sie (r_sie h1 OR SIE_SEIE OR SIE_STIE OR SIE_SSIE) h1;
          h3 = w_pmpcfg0 0xf (w_pmpaddr0 0x3fffffffffffff h2);
          h4 = timerinit timer_scratch timervec h3
      in do_mret (w_tp (of_int (hart_int h4)) h4))"

text \<open>What \<^verbatim>\<open>timervec\<close> relies on, for the scratch area at \<open>scr\<close> and the comparison register at \<open>cmp\<close>.\<close>

definition timer_ready :: "u64 \<Rightarrow> u64 \<Rightarrow> hart \<Rightarrow> bool" where
  "timer_ready scr cmp h \<longleftrightarrow> ctl h Mscratch = scr \<and> load64 (hmem h) (scr + 24) = cmp \<and>
     load64 (hmem h) (scr + 32) = 1000000"

text \<open>The scratch area and the comparison register are aligned and apart.\<close>

definition timer_place :: "u64 \<Rightarrow> u64 \<Rightarrow> bool" where
  "timer_place scr cmp \<longleftrightarrow> aligned8 scr \<and> aligned8 cmp \<and> unat scr + 40 \<le> 2 ^ 64 \<and>
     cmp \<notin> {scr, scr + 8, scr + 16, scr + 24, scr + 32}"

lemma timer_place_slots:
  assumes "timer_place scr cmp"
  shows "list_all aligned8 [cmp, scr, scr + 8, scr + 16, scr + 24, scr + 32]"
    and "distinct [cmp, scr, scr + 8, scr + 16, scr + 24, scr + 32]"
proof -
  have s: "aligned8 scr" "aligned8 cmp" "unat scr + 40 \<le> 2 ^ 64" and c: "cmp \<notin> {scr, scr + 8, scr + 16, scr + 24, scr + 32}"
    using assms by (simp_all add: timer_place_def)
  show "list_all aligned8 [cmp, scr, scr + 8, scr + 16, scr + 24, scr + 32]"
    using slot_aligned [OF s(1,3), of 8] slot_aligned [OF s(1,3), of 16] slot_aligned [OF s(1,3), of 24]
      slot_aligned [OF s(1,3), of 32] s(1,2) by simp
  show "distinct [cmp, scr, scr + 8, scr + 16, scr + 24, scr + 32]" using c by auto
qed


lemma timervec_run:
  assumes place: "timer_place scr cmp" and ready: "timer_ready scr cmp h" and M: "hmode h = ModeM"
  defines "m \<equiv> store64 (store64 (store64 (store64 (hmem h) scr (regs h A1)) (scr + 8) (regs h A2)) (scr + 16) (regs h A3))
     cmp (load64 (hmem h) cmp + 1000000)"
  shows "asm_run xl timervec_code h = do_mret (h\<lparr>hmem := m, ctl := (ctl h)(Sip := 2)\<rparr>)"
proof -
  note al = timer_place_slots(1) [OF place, simplified] and ne = timer_place_slots(2) [OF place, simplified]
  have r: "ctl h Mscratch = scr" "load64 (hmem h) (scr + 24) = cmp" "load64 (hmem h) (scr + 32) = 1000000"
    using ready by (simp_all add: timer_ready_def)
  let ?m3 = "store64 (store64 (store64 (hmem h) scr (regs h A1)) (scr + 8) (regs h A2)) (scr + 16) (regs h A3)"
  have l: "load64 ?m3 (scr + 24) = cmp" "load64 ?m3 (scr + 32) = 1000000" "load64 ?m3 cmp = load64 (hmem h) cmp"
    "load64 m scr = regs h A1" "load64 m (scr + 8) = regs h A2" "load64 m (scr + 16) = regs h A3"
    using al ne r unfolding m_def by (auto simp: dword.load_store)
  have p: "phys xl g a = a" if "hmode g = ModeM" for g a using that by (simp add: phys_def)
  have 1: "asm_run xl (take 9 timervec_code) h =
      h\<lparr>hmem := m, regs := (regs h)(A0 := scr, A1 := cmp, A2 := 1000000, A3 := load64 (hmem h) cmp + 1000000),
        ctl := (ctl h)(Mscratch := regs h A0)\<rparr>"
    using M l(1-3) r(1) by (simp add: timervec_code_def set_reg_def set_ctl_def p m_def)
  have 2: "asm_run xl (drop 9 timervec_code) (h\<lparr>hmem := m, regs := (regs h)(A0 := scr, A1 := cmp, A2 := 1000000,
      A3 := load64 (hmem h) cmp + 1000000), ctl := (ctl h)(Mscratch := regs h A0)\<rparr>) = do_mret (h\<lparr>hmem := m, ctl := (ctl h)(Sip := 2)\<rparr>)"
    using M l(4-6) r(1) by (simp add: timervec_code_def set_reg_def set_ctl_def p fun_upd_idem fun_upd_twist)
  show ?thesis using asm_run_append [of xl "take 9 timervec_code" "drop 9 timervec_code" h] unfolding 1 2 append_take_drop_id .
qed


lemma do_mret_fields [simp]:
  "regs (do_mret h) = regs h" "hmem (do_mret h) = hmem h" "hpc (do_mret h) = ctl h Mepc"
  "hmode (do_mret h) = mode_of_mpp (ctl h Mstatus)" "c \<noteq> Mstatus \<Longrightarrow> ctl (do_mret h) c = ctl h c"
  by (simp_all add: do_mret_def Let_def)

text \<open>
  Property C37. A timer interrupt is transparent: wherever it arrives, \<^verbatim>\<open>timervec\<close> returns there with every register
  unchanged, has moved the comparison register on by one interval, has raised the software interrupt that \<^verbatim>\<open>devintr\<close> looks
  for, has left all memory but its scratch area alone, and is ready for the next interrupt.
\<close>

theorem timer_interrupt_transparent:
  assumes "timer_place scr cmp" "timer_ready scr cmp h" "hmode h = ModeM"
  shows "regs (asm_run xl timervec_code h) = regs h \<and> hpc (asm_run xl timervec_code h) = ctl h Mepc \<and>
    hmode (asm_run xl timervec_code h) = mode_of_mpp (ctl h Mstatus) \<and>
    load64 (hmem (asm_run xl timervec_code h)) cmp = load64 (hmem h) cmp + 1000000 \<and>
    ctl (asm_run xl timervec_code h) Sip = 2 \<and> timer_ready scr cmp (asm_run xl timervec_code h) \<and>
    (\<forall>a. aligned8 a \<and> a \<notin> {cmp, scr, scr + 8, scr + 16} \<longrightarrow>
       load64 (hmem (asm_run xl timervec_code h)) a = load64 (hmem h) a)"
proof -
  note al = timer_place_slots(1) [OF assms(1), simplified] and ne = timer_place_slots(2) [OF assms(1), simplified]
  show ?thesis unfolding timervec_run [OF assms] using al ne assms(2) by (auto simp: timer_ready_def dword.load_store)
qed

theorem timer_interrupt_transparent_witness:
  "regs (asm_run (\<lambda>_ v. v) timervec_code
     (demo_hart\<lparr>hmode := ModeM, ctl := (ctl demo_hart)(Mscratch := 0x1000),
       hmem := store64 (store64 (hmem demo_hart) 0x1018 0x2004000) 0x1020 1000000\<rparr>)) = regs demo_hart"
proof -
  let ?h = "demo_hart\<lparr>hmode := ModeM, ctl := (ctl demo_hart)(Mscratch := 0x1000),
       hmem := store64 (store64 (hmem demo_hart) 0x1018 0x2004000) 0x1020 1000000\<rparr>"
  have "timer_place 0x1000 0x2004000" by (simp add: timer_place_def aligned8_def)
  moreover have "timer_ready 0x1000 0x2004000 ?h"
    by (simp add: timer_ready_def dword.load_store aligned8_def)
  ultimately show ?thesis using timer_interrupt_transparent [of "0x1000" "0x2004000" ?h] by simp
qed

section \<open>Boot\<close>

lemma mpp_supervisor: "mode_of_mpp ((x AND NOT MSTATUS_MPP_MASK) OR MSTATUS_MPP_S OR MSTATUS_MIE) = ModeS"
proof -
  have "take_bit 2 (drop_bit 11 ((x AND NOT MSTATUS_MPP_MASK) OR MSTATUS_MPP_S OR MSTATUS_MIE)) = (1 :: u64)"
  proof (rule bit_word_eqI)
    fix n assume "n < LENGTH(64)"
    consider "n = 0" | "n = 1" | "2 \<le> n" by linarith
    then show "bit (take_bit 2 (drop_bit 11 ((x AND NOT MSTATUS_MPP_MASK) OR MSTATUS_MPP_S OR MSTATUS_MIE))) n = bit (1 :: u64) n"
      by cases (auto simp: MSTATUS_MPP_MASK_def MSTATUS_MPP_S_def MSTATUS_MIE_def bit_simps)
  qed
  then show ?thesis by (simp add: mode_of_mpp_def)
qed

lemma entry_run:
  "asm_run xl (entry_code stack0) h = h\<lparr>regs := (regs h)(SP := stack0 + 4096 * (r_mhartid h + 1),
     A0 := 4096 * (r_mhartid h + 1), A1 := r_mhartid h + 1)\<rparr>"
  by (simp add: entry_code_def set_reg_def r_mhartid_def fun_upd_twist)



end
