(* ===== verification/Umalloc.thy ===== *)
theory Umalloc
  imports Procfs "HOL-Library.Multiset"
begin

text \<open>
  The allocator of user programs, \<^verbatim>\<open>user/umalloc.c\<close>. The free blocks form a ring through the static header \<^verbatim>\<open>base\<close>. A
  header at address \<open>a\<close> is the pair of \<open>hptr a\<close> and \<open>hsize a\<close>; sizes count headers, of 16 bytes each. The loops have no
  counter, so they are partial functions; on a well-formed heap they are shown to return. What the allocator needs of
  \<^verbatim>\<open>sbrk\<close> is the locale \<open>program_break\<close>.
\<close>

section \<open>The code\<close>

record 'k uheap =
  hptr :: "nat \<Rightarrow> nat"
  hsize :: "nat \<Rightarrow> u32"
  freep :: nat
  krn :: 'k

text \<open>The search of \<^verbatim>\<open>free\<close> for the place of a block.\<close>

partial_function (option) free_find :: "nat \<Rightarrow> nat \<Rightarrow> (nat \<Rightarrow> nat) \<Rightarrow> nat option" where
  "free_find bp p nx =
     (if bp > p \<and> bp < nx p then Some p
      else if p \<ge> nx p \<and> (bp > p \<or> bp < nx p) then Some p
      else free_find bp (nx p) nx)"

definition free_up :: "nat \<Rightarrow> nat \<Rightarrow> 'k uheap \<Rightarrow> 'k uheap" where
  "free_up bp p s =
     (if bp + 16 * unat (hsize s bp) = hptr s p
      then s\<lparr>hsize := (hsize s)(bp := hsize s bp + hsize s (hptr s p)), hptr := (hptr s)(bp := hptr s (hptr s p))\<rparr>
      else s\<lparr>hptr := (hptr s)(bp := hptr s p)\<rparr>)"

definition free_down :: "nat \<Rightarrow> nat \<Rightarrow> 'k uheap \<Rightarrow> 'k uheap" where
  "free_down bp p s =
     (if p + 16 * unat (hsize s p) = bp
      then s\<lparr>hsize := (hsize s)(p := hsize s p + hsize s bp), hptr := (hptr s)(p := hptr s bp)\<rparr>
      else s\<lparr>hptr := (hptr s)(p := bp)\<rparr>)"

definition ufree :: "nat \<Rightarrow> 'k uheap \<Rightarrow> 'k uheap option" where
  "ufree ap s =
     (let bp = ap - 16
      in case free_find bp (freep s) (hptr s) of
           None \<Rightarrow> None
         | Some p \<Rightarrow> Some ((free_down bp p (free_up bp p s))\<lparr>freep := p\<rparr>))"

text \<open>
  \<^verbatim>\<open>nu * sizeof(Header)\<close> has 64 bits and is passed as an \<^verbatim>\<open>int\<close>. The result is the new \<^verbatim>\<open>freep\<close>, or 0.
\<close>

definition morecore :: "(int \<Rightarrow> 'k \<Rightarrow> int \<times> 'k) \<Rightarrow> u32 \<Rightarrow> 'k uheap \<Rightarrow> (nat \<times> 'k uheap) option" where
  "morecore sbrk nu0 s =
     (let nu = (if nu0 < 4096 then 4096 else nu0);
          (p, k) = sbrk (sint (word_of_int (uint nu * 16) :: u32)) (krn s);
          s1 = s\<lparr>krn := k\<rparr>
      in if p = -1 then Some (0, s1)
         else let hp = nat p
              in case ufree (hp + 16) (s1\<lparr>hsize := (hsize s1)(hp := nu)\<rparr>) of
                   None \<Rightarrow> None
                 | Some s2 \<Rightarrow> Some (freep s2, s2))"

definition malloc_take :: "u32 \<Rightarrow> nat \<Rightarrow> nat \<Rightarrow> 'k uheap \<Rightarrow> nat \<times> 'k uheap" where
  "malloc_take nunits prevp p s =
     (if hsize s p = nunits then (p + 16, s\<lparr>hptr := (hptr s)(prevp := hptr s p), freep := prevp\<rparr>)
      else let rest = hsize s p - nunits; q = p + 16 * unat rest
           in (q + 16, s\<lparr>hsize := (hsize s)(p := rest, q := nunits), freep := prevp\<rparr>))"

partial_function (option) malloc_loop ::
    "(int \<Rightarrow> 'k \<Rightarrow> int \<times> 'k) \<Rightarrow> u32 \<Rightarrow> nat \<Rightarrow> nat \<Rightarrow> 'k uheap \<Rightarrow> (nat \<times> 'k uheap) option" where
  "malloc_loop sbrk nunits prevp p s =
     (if hsize s p \<ge> nunits then Some (malloc_take nunits prevp p s)
      else if p = freep s
      then Option.bind (morecore sbrk nunits s) (\<lambda>r.
             if fst r = 0 then Some r
             else malloc_loop sbrk nunits (fst r) (hptr (snd r) (fst r)) (snd r))
      else malloc_loop sbrk nunits p (hptr s p) s)"

definition malloc_units :: "u32 \<Rightarrow> u32" where
  "malloc_units nbytes = ucast ((ucast nbytes + 16 - 1) div 16 + 1 :: u64)"

definition umalloc :: "nat \<Rightarrow> (int \<Rightarrow> 'k \<Rightarrow> int \<times> 'k) \<Rightarrow> u32 \<Rightarrow> 'k uheap \<Rightarrow> (nat \<times> 'k uheap) option" where
  "umalloc base sbrk nbytes s =
     (let nunits = malloc_units nbytes;
          s1 = (if freep s = 0
                then s\<lparr>hptr := (hptr s)(base := base), freep := base, hsize := (hsize s)(base := 0)\<rparr> else s)
      in malloc_loop sbrk nunits (freep s1) (hptr s1 (freep s1)) s1)"

section \<open>Rings\<close>

text \<open>Following the pointers from \<open>p\<close> gives the list. A ring is a path from its last element.\<close>

primrec path :: "('a \<Rightarrow> 'a) \<Rightarrow> 'a \<Rightarrow> 'a list \<Rightarrow> bool" where
  "path nx p [] \<longleftrightarrow> True"
| "path nx p (c # cs) \<longleftrightarrow> nx p = c \<and> path nx c cs"

lemma path_append: "path nx p (xs @ ys) \<longleftrightarrow> path nx p xs \<and> path nx (last (p # xs)) ys"
  by (induction xs arbitrary: p) auto

definition ring :: "('a \<Rightarrow> 'a) \<Rightarrow> 'a list \<Rightarrow> bool" where
  "ring nx as \<longleftrightarrow> path nx (last as) as"

lemma ring_split: "ring nx (xs @ p # ys) \<longleftrightarrow> path nx p ys \<and> path nx (last (p # ys)) xs \<and> nx (last (p # ys @ xs)) = p"
  by (auto simp: ring_def path_append)

lemma ring_rotate: "ring nx (xs @ p # ys) \<Longrightarrow> path nx p (ys @ xs @ [p])"
  by (auto simp: ring_split path_append)

lemma path_cong: "(\<And>a. a \<in> set (p # butlast cs) \<Longrightarrow> nx a = ny a) \<Longrightarrow> path nx p cs = path ny p cs"
proof (induction cs arbitrary: p)
  case (Cons c cs)
  show ?case
  proof (cases cs)
    case Nil
    then show ?thesis using Cons.prems by simp
  next
    case (Cons d ds)
    with Cons.prems Cons.IH [of c] show ?thesis by auto
  qed
qed simp

lemma path_upd: "x \<notin> set (p # butlast cs) \<Longrightarrow> path (nx(x := v)) p cs = path nx p cs"
  by (rule path_cong) auto


lemma ring_next: "ring nx (xs @ p # q # ys) \<Longrightarrow> nx p = q"
  by (simp add: ring_split)

lemma ring_wrap: "ring nx (b # xs) \<Longrightarrow> nx (last (b # xs)) = b"
  by (simp add: ring_def)

lemma free_find_below:
  assumes "ring nx (b # fx @ fy)" "sorted_wrt (<) (b # fx @ fy)" "\<forall>a \<in> set (b # fx). a < bp" "\<forall>a \<in> set fy. bp < a"
  shows "b # fx = us @ p # vs \<Longrightarrow> free_find bp p nx = Some (last (b # fx))"
proof (induction vs arbitrary: us p)
  case Nil
  have p: "last (b # fx) = p" "p < bp" "b \<le> p"
    using Nil assms(2,3) by (auto simp: Cons_eq_append_conv less_imp_le)
  show ?case
  proof (cases fy)
    case Nil
    then have "nx p = b" using ring_wrap [of nx b fx] assms(1) p by simp
    then show ?thesis using p by (subst free_find.simps) auto
  next
    case (Cons y ys)
    have "b # fx @ fy = us @ p # y # ys" using \<open>b # fx = us @ [p]\<close> Cons by (metis append_Cons append_assoc append_Nil)
    then have "nx p = y" using ring_next assms(1) by metis
    then show ?thesis using p assms(4) Cons by (subst free_find.simps) auto
  qed
next
  case (Cons v vs)
  have e: "b # fx @ fy = us @ p # v # vs @ fy" using Cons.prems by (metis append_Cons append_assoc)
  then have n: "nx p = v" using ring_next assms(1) by metis
  have "p < v" using assms(2) unfolding e by (simp add: sorted_wrt_append)
  moreover have "v < bp" using assms(3) unfolding Cons.prems by simp
  moreover have "free_find bp v nx = Some (last (b # fx))" using Cons.IH [of "us @ [p]" v] Cons.prems by simp
  ultimately show ?case using n by (subst free_find.simps) auto
qed

lemma free_find_above:
  assumes "ring nx (b # fx @ fy)" "sorted_wrt (<) (b # fx @ fy)" "\<forall>a \<in> set (b # fx). a < bp" "\<forall>a \<in> set fy. bp < a"
  shows "fy = us @ p # vs \<Longrightarrow> free_find bp p nx = Some (last (b # fx))"
proof (induction vs arbitrary: us p)
  case Nil
  have "nx p = b" using ring_wrap [of nx b "fx @ fy"] assms(1) Nil by simp
  moreover have "bp < p" "b < bp" using assms(3,4) Nil by auto
  moreover have "free_find bp b nx = Some (last (b # fx))" using free_find_below [OF assms, of "[]"] by simp
  ultimately show ?case by (subst free_find.simps) auto
next
  case (Cons v vs)
  have e: "b # fx @ fy = (b # fx @ us) @ p # v # vs" using Cons.prems by simp
  then have n: "nx p = v" using ring_next assms(1) by metis
  have "p < v" using assms(2) unfolding e by (simp add: sorted_wrt_append)
  moreover have "bp < p" using assms(4) Cons.prems by simp
  moreover have "free_find bp v nx = Some (last (b # fx))" using Cons.IH [of "us @ [p]" v] Cons.prems by simp
  ultimately show ?case using n by (subst free_find.simps) auto
qed

text \<open>Wherever the search starts, it ends at the last free block below \<open>bp\<close>.\<close>

lemma free_find_place:
  assumes "ring nx (b # fx @ fy)" "sorted_wrt (<) (b # fx @ fy)" "\<forall>a \<in> set (b # fx). a < bp" "\<forall>a \<in> set fy. bp < a"
    and "p \<in> set (b # fx @ fy)"
  shows "free_find bp p nx = Some (last (b # fx))"
proof (cases "p \<in> set fy")
  case True
  then obtain us vs where "fy = us @ p # vs" by (meson split_list)
  then show ?thesis by (rule free_find_above [OF assms(1-4)])
next
  case False
  then have "p \<in> set (b # fx)" using assms(5) by auto
  then obtain us vs where "b # fx = us @ p # vs" by (meson split_list)
  then show ?thesis by (rule free_find_below [OF assms(1-4)])
qed

section \<open>Tiles\<close>

text \<open>
  A heap is a row of blocks without gaps, each a number of headers and a mark whether it is free.
\<close>

type_synonym tile = "nat \<times> bool"

primrec units :: "tile list \<Rightarrow> nat" where
  "units [] = 0"
| "units (t # ts) = fst t + units ts"

primrec frees :: "nat \<Rightarrow> tile list \<Rightarrow> nat list" where
  "frees a [] = []"
| "frees a (t # ts) = (if snd t then [a] else []) @ frees (a + 16 * fst t) ts"

primrec lives :: "nat \<Rightarrow> tile list \<Rightarrow> (nat \<times> nat) list" where
  "lives a [] = []"
| "lives a (t # ts) = (if snd t then [] else [(a, fst t)]) @ lives (a + 16 * fst t) ts"

primrec tiled :: "(nat \<Rightarrow> u32) \<Rightarrow> nat \<Rightarrow> tile list \<Rightarrow> bool" where
  "tiled hs a [] \<longleftrightarrow> True"
| "tiled hs a (t # ts) \<longleftrightarrow> 0 < fst t \<and> unat (hs a) = fst t \<and> tiled hs (a + 16 * fst t) ts"

lemma units_append [simp]: "units (xs @ ys) = units xs + units ys"
  by (induction xs) auto

lemma frees_append [simp]: "frees a (xs @ ys) = frees a xs @ frees (a + 16 * units xs) ys"
  by (induction xs arbitrary: a) (auto simp: algebra_simps)

lemma lives_append [simp]: "lives a (xs @ ys) = lives a xs @ lives (a + 16 * units xs) ys"
  by (induction xs arbitrary: a) (auto simp: algebra_simps)

lemma tiled_append [simp]: "tiled hs a (xs @ ys) \<longleftrightarrow> tiled hs a xs \<and> tiled hs (a + 16 * units xs) ys"
  by (induction xs arbitrary: a) (auto simp: algebra_simps)

lemma frees_bounds: "tiled hs a ts \<Longrightarrow> x \<in> set (frees a ts) \<Longrightarrow> a \<le> x \<and> x + 16 * unat (hs x) \<le> a + 16 * units ts \<and> 0 < unat (hs x)"
  by (induction ts arbitrary: a) (fastforce split: if_splits)+

lemma frees_sorted: "tiled hs a ts \<Longrightarrow> sorted_wrt (<) (frees a ts)"
proof (induction ts arbitrary: a)
  case (Cons t ts)
  have "\<forall>x \<in> set (frees (a + 16 * fst t) ts). a < x" using Cons.prems frees_bounds [of hs "a + 16 * fst t" ts] by fastforce
  with Cons show ?case by simp
qed simp

lemma lives_bounds: "tiled hs a ts \<Longrightarrow> (x, n) \<in> set (lives a ts) \<Longrightarrow> a \<le> x \<and> x + 16 * n \<le> a + 16 * units ts \<and> 0 < n \<and> unat (hs x) = n"
  by (induction ts arbitrary: a) (fastforce split: if_splits)+

lemma tiled_cong: "tiled hs a ts \<Longrightarrow> (\<And>x. a \<le> x \<Longrightarrow> x < a + 16 * units ts \<Longrightarrow> hs x = hs' x) \<Longrightarrow> tiled hs' a ts"
  by (induction ts arbitrary: a) auto

lemma tiled_upd: "tiled hs a ts \<Longrightarrow> x < a \<or> a + 16 * units ts \<le> x \<Longrightarrow> tiled (hs(x := v)) a ts"
  by (erule tiled_cong) auto


section \<open>Well-formed heaps\<close>

lemma ring_rotate_iff: "ring nx (xs @ p # ys) \<longleftrightarrow> path nx p (ys @ xs @ [p])"
  by (auto simp: ring_split path_append)

lemma ring_remove:
  assumes "ring nx (us @ p # q # vs)" "distinct (us @ p # q # vs)"
  shows "ring (nx(p := nx q)) (us @ p # vs)"
proof -
  have r: "nx p = q" "path nx q ((vs @ us) @ [p])" using assms(1) unfolding ring_rotate_iff by simp_all
  have p: "p \<notin> set (vs @ us)" "p \<noteq> q" using assms(2) by auto
  have "path (nx(p := nx q)) p ((vs @ us) @ [p])"
  proof (cases "vs @ us")
    case Nil
    then show ?thesis using r by simp
  next
    case (Cons c cs)
    then show ?thesis using r p by (simp add: path_upd)
  qed
  then show ?thesis unfolding ring_rotate_iff by simp
qed

lemma ring_insert:
  assumes "ring nx (us @ p # vs)" "distinct (us @ p # vs)" "q \<notin> set (us @ p # vs)"
  shows "ring (nx(q := nx p, p := q)) (us @ p # q # vs)"
proof -
  have r: "path nx p ((vs @ us) @ [p])" using assms(1) unfolding ring_rotate_iff by simp
  have p: "p \<notin> set (vs @ us)" "q \<notin> set (vs @ us)" "p \<noteq> q" using assms(2,3) by auto
  have "path (nx(q := nx p, p := q)) q ((vs @ us) @ [p])"
  proof (cases "vs @ us")
    case Nil
    then show ?thesis using r p by simp
  next
    case (Cons c cs)
    then show ?thesis using r p by (simp add: path_upd)
  qed
  then show ?thesis unfolding ring_rotate_iff using p by simp
qed

definition heap_ok :: "nat \<Rightarrow> nat \<Rightarrow> tile list \<Rightarrow> 'k uheap \<Rightarrow> bool" where
  "heap_ok base lo ts s \<longleftrightarrow> 0 < base \<and> base + 16 \<le> lo \<and> units ts < 2 ^ 32 \<and>
     ring (hptr s) (base # frees lo ts) \<and> tiled (hsize s) lo ts \<and> hsize s base = 0 \<and>
     freep s \<in> set (base # frees lo ts)"

lemma heap_sorted: "heap_ok base lo ts s \<Longrightarrow> sorted_wrt (<) (base # frees lo ts)"
  using frees_sorted [of "hsize s" lo ts] frees_bounds [of "hsize s" lo ts] by (fastforce simp: heap_ok_def)

lemma heap_distinct: "heap_ok base lo ts s \<Longrightarrow> distinct (base # frees lo ts)"
  using heap_sorted strict_sorted_iff by blast

text \<open>The row of blocks after a block of \<open>n\<close> headers between \<open>xs\<close> and \<open>ys\<close> has been freed and joined with its neighbours.\<close>

fun join_up :: "nat \<Rightarrow> tile list \<Rightarrow> tile list" where
  "join_up n ((m, True) # ys) = (n + m, True) # ys"
| "join_up n ys = (n, True) # ys"

fun join_down :: "tile list \<Rightarrow> nat \<Rightarrow> tile list \<Rightarrow> tile list" where
  "join_down xs n zs =
     (if xs \<noteq> [] \<and> snd (last xs) then butlast xs @ (fst (last xs) + n, True) # zs else xs @ (n, True) # zs)"

definition joined :: "tile list \<Rightarrow> nat \<Rightarrow> tile list \<Rightarrow> tile list" where
  "joined xs n ys = (case join_up n ys of (m, f) # zs \<Rightarrow> join_down xs m zs)"

text \<open>No two free blocks are neighbours.\<close>

definition compact :: "tile list \<Rightarrow> bool" where
  "compact ts \<longleftrightarrow> successively (\<lambda>t u. \<not> (snd t \<and> snd u)) ts"

lemma compact_append: "compact (xs @ ys) \<longleftrightarrow> compact xs \<and> compact ys \<and>
    (xs \<noteq> [] \<longrightarrow> ys \<noteq> [] \<longrightarrow> \<not> (snd (last xs) \<and> snd (hd ys)))"
  by (auto simp: compact_def successively_append_iff)

lemma compact_Cons: "compact (t # ts) \<longleftrightarrow> compact ts \<and> (ts \<noteq> [] \<longrightarrow> \<not> (snd t \<and> snd (hd ts)))"
  by (auto simp: compact_def successively_Cons)

lemma compact_Nil [simp]: "compact []"
  by (simp add: compact_def)

lemma compact_join_up: "compact ys \<Longrightarrow> \<exists>m zs. join_up n ys = (m, True) # zs \<and> compact ((m, True) # zs)"
  by (cases "(n, ys)" rule: join_up.cases) (auto simp: compact_Cons)

lemma compact_joined:
  assumes "compact (xs @ (n, False) # ys)"
  shows "compact (joined xs n ys)"
proof -
  have c: "compact xs" "compact ys" using assms by (simp_all add: compact_append compact_Cons)
  obtain m zs where z: "join_up n ys = (m, True) # zs" "compact ((m, True) # zs)" using compact_join_up [OF c(2)] by blast
  show ?thesis using c(1) z by (cases xs rule: rev_cases) (auto simp: joined_def compact_append compact_Cons)
qed

text \<open>What stands after the first half of \<^verbatim>\<open>free\<close>: the block at \<open>bp\<close> with its size and its successor, not yet in the ring.\<close>

definition half_freed :: "nat \<Rightarrow> nat \<Rightarrow> tile list \<Rightarrow> nat \<Rightarrow> tile list \<Rightarrow> 'k uheap \<Rightarrow> bool" where
  "half_freed base lo xs n zs s \<longleftrightarrow> 0 < base \<and> base + 16 \<le> lo \<and> units xs + n + units zs < 2 ^ 32 \<and> hsize s base = 0 \<and>
     tiled (hsize s) lo (xs @ (n, True) # zs) \<and>
     ring ((hptr s)(last (base # frees lo xs) := lo + 16 * units xs)) (base # frees lo (xs @ (n, True) # zs))"

lemma last_split: "b # xs @ ys = butlast (b # xs) @ last (b # xs) # ys"
proof -
  have "b # xs @ ys = (butlast (b # xs) @ [last (b # xs)]) @ ys" by (subst append_butlast_last_id) simp_all
  then show ?thesis by (simp only: append_assoc append_Cons append_Nil)
qed

lemma ring_last_next: "ring nx (b # fx @ fy) \<Longrightarrow> nx (last (b # fx)) = hd (fy @ [b])"
proof (cases fy)
  case Nil
  then show "ring nx (b # fx @ fy) \<Longrightarrow> nx (last (b # fx)) = hd (fy @ [b])" using ring_wrap [of nx b fx] by simp
next
  case (Cons y ys)
  then show "ring nx (b # fx @ fy) \<Longrightarrow> nx (last (b # fx)) = hd (fy @ [b])"
    unfolding Cons last_split [of b fx] using ring_next by fastforce
qed

lemma ring_insert_last:
  assumes "ring nx (b # fx @ fy)" "distinct (b # fx @ fy)" "q \<notin> set (b # fx @ fy)"
  shows "ring (nx(q := nx (last (b # fx)), last (b # fx) := q)) (b # fx @ q # fy)"
  using assms unfolding last_split [of b fx] by (rule ring_insert)

lemma ring_remove_last:
  assumes "ring nx (b # fx @ q # fy)" "distinct (b # fx @ q # fy)"
  shows "ring (nx(last (b # fx) := nx q)) (b # fx @ fy)"
  using assms unfolding last_split [of b fx] by (rule ring_remove)

lemma frees_hd_later:
  assumes "tiled hs a ts" "ts = [] \<or> \<not> snd (hd ts)" "x \<in> set (frees a ts)"
  shows "a < x"
proof (cases ts)
  case Nil
  then show ?thesis using assms(3) by simp
next
  case (Cons t us)
  then have "x \<in> set (frees (a + 16 * fst t) us)" using assms(2,3) by simp
  then show ?thesis using frees_bounds [of hs "a + 16 * fst t" us x] assms(1) Cons by simp
qed


lemma ring_place_fresh:
  assumes "heap_ok base lo (xs @ (n, f) # ys) s"
  shows "\<forall>a \<in> set (base # frees lo xs). a < lo + 16 * units xs"
    and "\<forall>a \<in> set (frees (lo + 16 * units xs + 16 * n) ys). lo + 16 * units xs < a"
    and "distinct (base # frees lo xs @ frees (lo + 16 * units xs + 16 * n) ys)"
proof -
  have t: "tiled (hsize s) lo xs" "0 < n" "tiled (hsize s) (lo + 16 * units xs + 16 * n) ys" and b: "base + 16 \<le> lo"
    using assms by (auto simp: heap_ok_def)
  show 1: "\<forall>a \<in> set (base # frees lo xs). a < lo + 16 * units xs"
    using frees_bounds [OF t(1)] b by fastforce
  show 2: "\<forall>a \<in> set (frees (lo + 16 * units xs + 16 * n) ys). lo + 16 * units xs < a"
    using frees_bounds [OF t(3)] t(2) by fastforce
  have "distinct (base # frees lo xs)" using heap_distinct [OF assms] by auto
  moreover have "distinct (frees (lo + 16 * units xs + 16 * n) ys)" using heap_distinct [OF assms] by auto
  ultimately show "distinct (base # frees lo xs @ frees (lo + 16 * units xs + 16 * n) ys)"
    using 1 2 by fastforce
qed

lemma free_up_join:
  assumes ok: "heap_ok base lo (xs @ (n, False) # (m, True) # ys) s"
  defines "bp \<equiv> lo + 16 * units xs" and "p \<equiv> last (base # frees lo xs)"
  shows "half_freed base lo xs (n + m) ys (free_up bp p s)"
proof -
  let ?c = "bp + 16 * n" and ?fy = "frees (bp + 16 * n + 16 * m) ys"
  have h: "0 < base" "base + 16 \<le> lo" "units xs + (n + m) + units ys < 2 ^ 32" "hsize s base = 0"
    "ring (hptr s) (base # frees lo xs @ ?c # ?fy)"
    "tiled (hsize s) lo xs" "unat (hsize s bp) = n" "0 < n" "unat (hsize s ?c) = m" "0 < m"
    "tiled (hsize s) (?c + 16 * m) ys"
    using ok by (auto simp: heap_ok_def bp_def algebra_simps)
  have nx: "hptr s p = ?c" using ring_last_next [OF h(5)] by (simp add: p_def)
  have sz: "unat (hsize s bp + hsize s ?c) = n + m" using h(3,7,9) by (subst unat_add_small) auto
  have pl: "\<forall>a \<in> set (base # frees lo xs). a < bp" "\<forall>a \<in> set (?c # ?fy). bp < a"
    "distinct (base # frees lo xs @ ?c # ?fy)"
    using ring_place_fresh [OF ok] by (simp_all add: bp_def)
  have "ring ((hptr s)(p := hptr s ?c)) (base # frees lo xs @ ?fy)"
    unfolding p_def by (rule ring_remove_last [OF h(5) pl(3)])
  moreover have "distinct (base # frees lo xs @ ?fy)" "bp \<notin> set (base # frees lo xs @ ?fy)" using pl by auto
  ultimately have "ring ((hptr s)(p := hptr s ?c, bp := ((hptr s)(p := hptr s ?c)) p, p := bp)) (base # frees lo xs @ bp # ?fy)"
    unfolding p_def by (rule ring_insert_last)
  moreover have "bp \<noteq> p" using pl(1) by (auto simp: p_def)
  ultimately have r: "ring ((hptr s)(bp := hptr s ?c, p := bp)) (base # frees lo xs @ bp # ?fy)"
    by (simp add: fun_upd_twist)
  have t: "tiled ((hsize s)(bp := hsize s bp + hsize s ?c)) lo (xs @ (n + m, True) # ys)"
    using tiled_upd [OF h(6)] tiled_upd [OF h(11)] sz h(8) by (simp add: bp_def algebra_simps)
  have "free_up bp p s = s\<lparr>hsize := (hsize s)(bp := hsize s bp + hsize s ?c), hptr := (hptr s)(bp := hptr s ?c)\<rparr>"
    by (simp add: free_up_def h(7) nx)
  then show ?thesis using h(1-4) t r by (auto simp: half_freed_def bp_def p_def algebra_simps)
qed

lemma free_up_alone:
  assumes ok: "heap_ok base lo (xs @ (n, False) # ys) s" and ys: "ys = [] \<or> \<not> snd (hd ys)"
  defines "bp \<equiv> lo + 16 * units xs" and "p \<equiv> last (base # frees lo xs)"
  shows "half_freed base lo xs n ys (free_up bp p s)"
proof -
  let ?fy = "frees (bp + 16 * n) ys"
  have h: "0 < base" "base + 16 \<le> lo" "units xs + n + units ys < 2 ^ 32" "hsize s base = 0"
    "ring (hptr s) (base # frees lo xs @ ?fy)"
    "tiled (hsize s) lo xs" "unat (hsize s bp) = n" "0 < n" "tiled (hsize s) (bp + 16 * n) ys"
    using ok by (auto simp: heap_ok_def bp_def algebra_simps)
  have pl: "\<forall>a \<in> set (base # frees lo xs). a < bp" "\<forall>a \<in> set ?fy. bp < a" "distinct (base # frees lo xs @ ?fy)"
    using ring_place_fresh [OF ok] by (simp_all add: bp_def)
  have "hptr s p = hd (?fy @ [base])" using ring_last_next [OF h(5)] by (simp add: p_def)
  then have nx: "hptr s p \<noteq> bp + 16 * n"
    using frees_hd_later [OF h(9) ys, of "hd ?fy"] pl(1) h(8) by (cases ?fy) auto
  have "ring ((hptr s)(bp := hptr s p, p := bp)) (base # frees lo xs @ bp # ?fy)"
    unfolding p_def using pl by (intro ring_insert_last [OF h(5)]) auto
  then show ?thesis using h nx by (auto simp: half_freed_def free_up_def bp_def p_def)
qed


lemma half_freed_facts:
  assumes "half_freed base lo xs n zs s"
  defines "bp \<equiv> lo + 16 * units xs" and "p \<equiv> last (base # frees lo xs)"
  shows "tiled (hsize s) lo xs" "unat (hsize s bp) = n" "0 < n" "tiled (hsize s) (bp + 16 * n) zs"
    and "ring ((hptr s)(p := bp)) (base # frees lo xs @ bp # frees (bp + 16 * n) zs)" "p < bp"
    and "distinct (base # frees lo xs @ bp # frees (bp + 16 * n) zs)"
proof -
  show t: "tiled (hsize s) lo xs" "unat (hsize s bp) = n" "0 < n" "tiled (hsize s) (bp + 16 * n) zs"
    "ring ((hptr s)(p := bp)) (base # frees lo xs @ bp # frees (bp + 16 * n) zs)"
    using assms(1) by (simp_all add: half_freed_def bp_def p_def algebra_simps)
  have b: "base + 16 \<le> lo" using assms(1) by (simp add: half_freed_def)
  have "\<forall>a \<in> set (base # frees lo xs). a < bp" using frees_bounds [OF t(1)] b by (fastforce simp: bp_def)
  then show "p < bp" by (simp add: p_def)
  have "tiled (hsize s) lo (xs @ (n, True) # zs)" using t by (simp add: bp_def algebra_simps)
  from frees_sorted [OF this] frees_bounds [OF this] b
  have "sorted_wrt (<) (base # frees lo xs @ bp # frees (bp + 16 * n) zs)" by (fastforce simp: bp_def algebra_simps)
  then show "distinct (base # frees lo xs @ bp # frees (bp + 16 * n) zs)" using strict_sorted_iff by blast
qed

lemma free_down_join:
  assumes hf: "half_freed base lo (xs @ [(k, True)]) n zs s"
  defines "bp \<equiv> lo + 16 * units (xs @ [(k, True)])" and "p \<equiv> last (base # frees lo (xs @ [(k, True)]))"
  shows "heap_ok base lo (xs @ (k + n, True) # zs) ((free_down bp p s)\<lparr>freep := p\<rparr>)"
proof -
  note f = half_freed_facts [OF hf, folded bp_def p_def]
  have h: "0 < base" "base + 16 \<le> lo" "units xs + k + n + units zs < 2 ^ 32" "hsize s base = 0"
    using hf by (simp_all add: half_freed_def)
  have p: "p = lo + 16 * units xs" "bp = p + 16 * k" by (simp_all add: p_def bp_def)
  have k: "unat (hsize s p) = k" "0 < k" "tiled (hsize s) lo xs" using f(1) p(1) by simp_all
  have sz: "unat (hsize s p + hsize s bp) = k + n" using h(3) k(1) f(2) by (subst unat_add_small) auto
  have "ring (((hptr s)(p := bp))(p := ((hptr s)(p := bp)) bp)) (base # frees lo (xs @ [(k, True)]) @ frees (bp + 16 * n) zs)"
    unfolding p_def by (rule ring_remove_last [OF f(5) [unfolded p_def] f(7)])
  then have r: "ring ((hptr s)(p := hptr s bp)) (base # frees lo xs @ p # frees (bp + 16 * n) zs)"
    using f(6) by (simp add: p(1))
  have "tiled ((hsize s)(p := hsize s p + hsize s bp)) (p + 16 * (k + n)) zs"
    using tiled_upd [OF f(4)] f(3) k(2) by (simp add: p(2) algebra_simps)
  moreover have "tiled ((hsize s)(p := hsize s p + hsize s bp)) lo xs" using tiled_upd [OF k(3)] by (simp add: p(1))
  ultimately have t: "tiled ((hsize s)(p := hsize s p + hsize s bp)) lo (xs @ (k + n, True) # zs)"
    using sz k(2) by (simp add: p(1))
  have "free_down bp p s = s\<lparr>hsize := (hsize s)(p := hsize s p + hsize s bp), hptr := (hptr s)(p := hptr s bp)\<rparr>"
    by (simp add: free_down_def k(1) p(2))
  then show ?thesis using h t r by (simp add: heap_ok_def p algebra_simps)
qed

lemma free_down_alone:
  assumes hf: "half_freed base lo xs n zs s" and xs: "xs = [] \<or> \<not> snd (last xs)"
  defines "bp \<equiv> lo + 16 * units xs" and "p \<equiv> last (base # frees lo xs)"
  shows "heap_ok base lo (xs @ (n, True) # zs) ((free_down bp p s)\<lparr>freep := p\<rparr>)"
proof -
  note f = half_freed_facts [OF hf, folded bp_def p_def]
  have h: "0 < base" "base + 16 \<le> lo" "units xs + n + units zs < 2 ^ 32" "hsize s base = 0"
    using hf by (simp_all add: half_freed_def)
  have "p + 16 * unat (hsize s p) \<noteq> bp"
  proof (cases "frees lo xs = []")
    case True
    then show ?thesis using h by (simp add: p_def bp_def)
  next
    case False
    then obtain ws k where ws: "xs = ws @ [(k, False)]" using xs by (cases xs rule: rev_cases) auto
    have "p \<in> set (frees lo ws)" using False ws by (simp add: p_def)
    then have "p + 16 * unat (hsize s p) \<le> lo + 16 * units ws" using frees_bounds [of "hsize s" lo ws p] f(1) ws by simp
    then show ?thesis using f(1) ws by (simp add: bp_def)
  qed
  then have "free_down bp p s = s\<lparr>hptr := (hptr s)(p := bp)\<rparr>" by (simp add: free_down_def)
  moreover have "p \<in> set (base # frees lo xs)" unfolding p_def by (rule last_in_set) simp
  ultimately show ?thesis using h f by (auto simp: heap_ok_def bp_def)
qed

text \<open>\<^verbatim>\<open>free\<close> of a block in use returns, and the block is free and joined with its neighbours.\<close>

lemma ufree_ok:
  assumes ok: "heap_ok base lo (xs @ (n, False) # ys) s"
  shows "\<exists>t. ufree (lo + 16 * units xs + 16) s = Some t \<and> heap_ok base lo (joined xs n ys) t \<and> krn t = krn s"
proof -
  let ?bp = "lo + 16 * units xs" and ?p = "last (base # frees lo xs)"
  have "free_find ?bp (freep s) (hptr s) = Some ?p"
    using ok heap_sorted [OF ok] ring_place_fresh [OF ok] by (intro free_find_place) (auto simp: heap_ok_def algebra_simps)
  then have u: "ufree (?bp + 16) s = Some ((free_down ?bp ?p (free_up ?bp ?p s))\<lparr>freep := ?p\<rparr>)"
    by (simp add: ufree_def Let_def)
  obtain m zs where j: "join_up n ys = (m, True) # zs" "half_freed base lo xs m zs (free_up ?bp ?p s)"
  proof (cases "ys = [] \<or> \<not> snd (hd ys)")
    case True
    then have "join_up n ys = (n, True) # ys" by (cases "(n, ys)" rule: join_up.cases) auto
    with free_up_alone [OF ok True] that show ?thesis by blast
  next
    case False
    then obtain m zs where "ys = (m, True) # zs" by (cases ys) auto
    with free_up_join [of base lo xs n m zs s] ok that show ?thesis by auto
  qed
  have k: "krn ((free_down ?bp ?p (free_up ?bp ?p s))\<lparr>freep := ?p\<rparr>) = krn s" by (simp add: free_down_def free_up_def)
  show ?thesis
  proof (cases "xs \<noteq> [] \<and> snd (last xs)")
    case True
    then obtain ws i where "xs = ws @ [(i, True)]" by (cases xs rule: rev_cases) auto
    with free_down_join [of base lo ws i m zs] j u k show ?thesis by (simp add: joined_def)
  next
    case False
    then have "xs = [] \<or> \<not> snd (last xs)" by blast
    from free_down_alone [OF j(2) this] j(1) u k False show ?thesis by (auto simp: joined_def)
  qed
qed

lemma joined_row: "units (joined xs n ys) = units xs + n + units ys"
  "lives a (joined xs n ys) = lives a xs @ lives (a + 16 * units xs + 16 * n) ys"
proof -
  have u: "\<exists>m zs. join_up n ys = (m, True) # zs \<and> m + units zs = n + units ys \<and>
      (\<forall>b. lives (b + 16 * m) zs = lives (b + 16 * n) ys)"
    by (cases "(n, ys)" rule: join_up.cases) (auto simp: algebra_simps)
  then obtain m zs where z: "join_up n ys = (m, True) # zs" "m + units zs = n + units ys"
    "\<And>b. lives (b + 16 * m) zs = lives (b + 16 * n) ys" by blast
  show "units (joined xs n ys) = units xs + n + units ys"
    using z by (cases xs rule: rev_cases) (auto simp: joined_def)
  show "lives a (joined xs n ys) = lives a xs @ lives (a + 16 * units xs + 16 * n) ys"
    using z(1) z(3) [of "a + 16 * units xs"] by (cases xs rule: rev_cases) (auto simp: joined_def algebra_simps)
qed


section \<open>Taking a block\<close>

lemma path_map: "cs \<noteq> [] \<Longrightarrow> path nx p cs \<Longrightarrow> map nx (p # butlast cs) = cs"
  by (induction cs arbitrary: p) auto

lemma ring_inj: "ring nx R \<Longrightarrow> distinct R \<Longrightarrow> inj_on nx (set R)"
proof (cases R rule: rev_cases)
  case (snoc xs l)
  assume "ring nx R" "distinct R"
  then have "map nx (l # xs) = R" using path_map [of R nx l] snoc by (simp add: ring_def)
  with \<open>distinct R\<close> have "distinct (map nx (l # xs))" by simp
  then show ?thesis using snoc by (auto simp: distinct_map)
qed simp

lemma unat_diff_small: "k \<le> n \<Longrightarrow> unat (n - k :: u32) = unat n - unat k"
  by (rule unat_sub)

lemma malloc_take_ok:
  assumes ok: "heap_ok base lo (xs @ (n, True) # ys) s" and k: "0 < unat nunits" "unat nunits \<le> n"
    and prev: "prevp = last (base # frees lo xs)" and p: "p = lo + 16 * units xs"
  shows "\<exists>q t ts. malloc_take nunits prevp p s = (q + 16, t) \<and> heap_ok base lo ts t \<and> krn t = krn s \<and>
    units ts = units xs + n + units ys \<and> (compact (xs @ (n, True) # ys) \<longrightarrow> compact ts) \<and>
    lives lo ts = lives lo xs @ (q, unat nunits) # lives (p + 16 * n) ys"
proof -
  have h: "0 < base" "base + 16 \<le> lo" "units xs + n + units ys < 2 ^ 32" "hsize s base = 0"
    "ring (hptr s) (base # frees lo xs @ p # frees (p + 16 * n) ys)"
    "tiled (hsize s) lo xs" "unat (hsize s p) = n" "0 < n" "tiled (hsize s) (p + 16 * n) ys"
    using ok by (auto simp: heap_ok_def p algebra_simps)
  have d: "distinct (base # frees lo xs @ p # frees (p + 16 * n) ys)"
    using heap_distinct [OF ok] by (simp add: p algebra_simps)
  have pr: "prevp \<in> set (base # frees lo xs)" unfolding prev by (rule last_in_set) simp
  show ?thesis
  proof (cases "hsize s p = nunits")
    case True
    then have n: "unat nunits = n" using h(7) by simp
    let ?t = "s\<lparr>hptr := (hptr s)(prevp := hptr s p), freep := prevp\<rparr>"
    have "ring ((hptr s)(prevp := hptr s p)) (base # frees lo xs @ frees (p + 16 * n) ys)"
      unfolding prev by (rule ring_remove_last [OF h(5) d])
    then have "heap_ok base lo (xs @ (n, False) # ys) ?t"
      using h pr by (auto simp: heap_ok_def p algebra_simps)
    then show ?thesis using True n p
      by (intro exI [of _ p] exI [of _ ?t] exI [of _ "xs @ (n, False) # ys"]) (simp add: malloc_take_def compact_append compact_Cons algebra_simps)
  next
    case False
    then have lt: "unat nunits < n" using k(2) h(7) by (metis le_neq_implies_less word_unat_eqI)
    let ?r = "hsize s p - nunits"
    let ?k = "unat nunits" and ?q = "p + 16 * unat ?r"
    have r: "unat ?r = n - ?k" using lt h(7) by (subst unat_diff_small) (simp_all add: word_le_nat_alt)
    let ?t = "s\<lparr>hsize := (hsize s)(p := ?r, ?q := nunits), freep := prevp\<rparr>"
    let ?ts = "xs @ (n - ?k, True) # (?k, False) # ys"
    have q: "?q = p + 16 * (n - ?k)" "p < ?q" "?q + 16 * ?k = p + 16 * n" using r lt by auto
    have e: "p + 16 * (n - ?k) + 16 * ?k = p + 16 * n" using q by simp
    have "tiled ((hsize s)(p := ?r, ?q := nunits)) (p + 16 * n) ys"
      using h(8,9) q k(1) by (intro tiled_upd) auto
    moreover have "tiled ((hsize s)(p := ?r, ?q := nunits)) lo xs"
      using h(6) q by (intro tiled_upd) (auto simp: p)
    ultimately have "tiled ((hsize s)(p := ?r, ?q := nunits)) lo ?ts"
      using q r lt k(1) by (simp add: p [symmetric] e)
    moreover have "base \<noteq> p" "base \<noteq> ?q" using d q h(2) p by auto
    ultimately have "heap_ok base lo ?ts ?t"
      using h pr q lt by (auto simp: heap_ok_def p [symmetric] e)
    moreover have "lives lo ?ts = lives lo xs @ (?q, ?k) # lives (p + 16 * n) ys" using q(1) by (simp add: p [symmetric] e)
    moreover have "malloc_take nunits prevp p s = (?q + 16, ?t)" using False by (simp add: malloc_take_def Let_def)
    moreover have "krn ?t = krn s" "units ?ts = units xs + n + units ys" using lt by simp_all
    moreover have "compact (xs @ (n, True) # ys) \<longrightarrow> compact ?ts" by (auto simp: compact_append compact_Cons)
    ultimately show ?thesis by blast
  qed
qed


section \<open>The search for a block\<close>

lemma malloc_walk_found:
  assumes "cs \<noteq> []" "path (hptr s) prevp cs" "last cs = freep s" "distinct cs" "\<exists>c \<in> set cs. nunits \<le> hsize s c"
  shows "\<exists>us c vs. cs = us @ c # vs \<and> nunits \<le> hsize s c \<and>
    malloc_loop sbrk nunits prevp (hd cs) s = Some (malloc_take nunits (last (prevp # us)) c s)"
  using assms
proof (induction cs arbitrary: prevp)
  case (Cons c cs)
  show ?case
  proof (cases "nunits \<le> hsize s c")
    case True
    then have "malloc_loop sbrk nunits prevp (hd (c # cs)) s = Some (malloc_take nunits (last (prevp # [])) c s)"
      by (subst malloc_loop.simps) simp
    with True show ?thesis by blast
  next
    case False
    then have ne: "cs \<noteq> []" using Cons.prems(5) by auto
    then have "c \<noteq> freep s" using Cons.prems(3,4) by (metis distinct.simps(2) last.simps last_in_set)
    then have step: "malloc_loop sbrk nunits prevp (hd (c # cs)) s = malloc_loop sbrk nunits c (hd cs) s"
      using False Cons.prems(2) ne by (subst malloc_loop.simps) (cases cs; simp)
    from ne False Cons.prems obtain us d vs where d: "cs = us @ d # vs" "nunits \<le> hsize s d"
      "malloc_loop sbrk nunits c (hd cs) s = Some (malloc_take nunits (last (c # us)) d s)"
      using Cons.IH [of c] by auto
    have "malloc_loop sbrk nunits prevp (hd (c # cs)) s = Some (malloc_take nunits (last (prevp # c # us)) d s)"
      using d(3) step by simp
    then show ?thesis using d(1,2) by (metis append_Cons)
  qed
qed simp

lemma malloc_walk_none:
  assumes "cs \<noteq> []" "path (hptr s) prevp cs" "last cs = freep s" "distinct cs" "\<forall>c \<in> set cs. \<not> nunits \<le> hsize s c"
  shows "malloc_loop sbrk nunits prevp (hd cs) s = Option.bind (morecore sbrk nunits s) (\<lambda>r.
     if fst r = 0 then Some r else malloc_loop sbrk nunits (fst r) (hptr (snd r) (fst r)) (snd r))"
  using assms
proof (induction cs arbitrary: prevp)
  case (Cons c cs)
  show ?case
  proof (cases "cs = []")
    case True
    then show ?thesis using Cons.prems by (subst malloc_loop.simps) simp
  next
    case False
    then have "c \<noteq> freep s" using Cons.prems(3,4) by (metis distinct.simps(2) last.simps last_in_set)
    then have "malloc_loop sbrk nunits prevp (hd (c # cs)) s = malloc_loop sbrk nunits c (hd cs) s"
      using False Cons.prems(2,5) by (subst malloc_loop.simps) (cases cs; simp)
    then show ?thesis using Cons.IH [of c] Cons.prems False by simp
  qed
qed simp

lemma frees_split: "x \<in> set (frees a ts) \<Longrightarrow> \<exists>xs n ys. ts = xs @ (n, True) # ys \<and> x = a + 16 * units xs"
proof (induction ts arbitrary: a)
  case (Cons t ts)
  show ?case
  proof (cases "snd t \<and> x = a")
    case True
    then have "t # ts = [] @ (fst t, True) # ts \<and> x = a + 16 * units []" by (simp add: prod_eq_iff)
    then show ?thesis by blast
  next
    case False
    then have "x \<in> set (frees (a + 16 * fst t) ts)" using Cons.prems by (auto split: if_splits)
    then obtain xs n ys where "ts = xs @ (n, True) # ys" "x = a + 16 * fst t + 16 * units xs" using Cons.IH by blast
    then have "t # ts = (t # xs) @ (n, True) # ys \<and> x = a + 16 * units (t # xs)" by simp
    then show ?thesis by blast
  qed
qed simp

text \<open>If a free block is large enough, \<^verbatim>\<open>malloc\<close> takes its block from the first such one after \<^verbatim>\<open>freep\<close>.\<close>

lemma malloc_search:
  assumes ok: "heap_ok base lo ts s" and big: "\<exists>c \<in> set (frees lo ts). nunits \<le> hsize s c" and k: "0 < nunits"
  shows "\<exists>q t ts' us vs. malloc_loop sbrk nunits (freep s) (hptr s (freep s)) s = Some (q + 16, t) \<and> heap_ok base lo ts' t \<and>
    krn t = krn s \<and> units ts' = units ts \<and> (compact ts \<longrightarrow> compact ts') \<and> lives lo ts = us @ vs \<and> lives lo ts' = us @ (q, unat nunits) # vs"
proof -
  let ?R = "base # frees lo ts"
  have r: "ring (hptr s) ?R" "freep s \<in> set ?R" "hsize s base = 0" using ok by (simp_all add: heap_ok_def)
  obtain as bs where R: "?R = as @ freep s # bs" using split_list [OF r(2)] by blast
  let ?cs = "bs @ as @ [freep s]"
  have p: "path (hptr s) (freep s) ?cs" using r(1) unfolding R by (rule ring_rotate)
  have set: "set ?cs = set ?R" unfolding R by auto
  have d: "distinct ?cs" using heap_distinct [OF ok] unfolding R by auto
  have nx: "hptr s (freep s) = hd ?cs" using p by (cases ?cs) auto
  obtain us c vs where f: "?cs = us @ c # vs" "nunits \<le> hsize s c"
    "malloc_loop sbrk nunits (freep s) (hd ?cs) s = Some (malloc_take nunits (last (freep s # us)) c s)"
  proof -
    have "\<exists>c \<in> set ?cs. nunits \<le> hsize s c" using big unfolding set by auto
    moreover have "?cs \<noteq> []" "last ?cs = freep s" by simp_all
    ultimately show ?thesis
      using malloc_walk_found [OF _ p _ d, of nunits sbrk] by (elim meta_impE exE conjE) (assumption | rule that)+
  qed
  have "c \<in> set ?R" using f(1) set by (metis in_set_conv_decomp)
  moreover have "c \<noteq> base" using f(2) k r(3) by auto
  ultimately obtain xs n ys where ts: "ts = xs @ (n, True) # ys" "c = lo + 16 * units xs" using frees_split by fastforce
  have n: "unat (hsize s c) = n" using ok ts by (simp add: heap_ok_def)
  have "path (hptr s) (freep s) (us @ [c])" using p unfolding f(1) by (simp add: path_append)
  then have h1: "hptr s (last (freep s # us)) = c" by (simp add: path_append)
  have h2: "hptr s (last (base # frees lo xs)) = c"
    using ring_last_next [of "hptr s" base "frees lo xs"] r(1) ts by simp
  have m1: "last (freep s # us) \<in> set ?R"
    using last_in_set [of "freep s # us"] f(1) set r(2) by (metis list.discI set_ConsD Un_iff set_append)
  have m2: "last (base # frees lo xs) \<in> set ?R"
    using last_in_set [of "base # frees lo xs"] ts(1) by auto
  have prev: "last (freep s # us) = last (base # frees lo xs)"
    using inj_onD [OF ring_inj [OF r(1) heap_distinct [OF ok]] _ m1 m2] h1 h2 by simp
  have "0 < unat nunits" "unat nunits \<le> n" using k f(2) n by (simp_all add: word_le_nat_alt word_less_nat_alt)
  from malloc_take_ok [OF ok [unfolded ts(1)] this prev ts(2)] obtain q t ts' where t:
    "malloc_take nunits (last (freep s # us)) c s = (q + 16, t)" "heap_ok base lo ts' t" "krn t = krn s"
    "units ts' = units xs + n + units ys" "lives lo ts' = lives lo xs @ (q, unat nunits) # lives (c + 16 * n) ys"
    "compact (xs @ (n, True) # ys) \<longrightarrow> compact ts'" by blast
  have "lives lo ts = lives lo xs @ lives (c + 16 * n) ys" "units ts' = units ts" using ts t(4) by simp_all
  moreover have "malloc_loop sbrk nunits (freep s) (hptr s (freep s)) s = Some (q + 16, t)"
    unfolding nx f(3) t(1) ..
  ultimately show ?thesis using t(2,3,5,6) ts(1) by blast
qed


lemma unat_malloc_units: "unat (malloc_units nb) = (unat nb + 15) div 16 + 1"
proof -
  have nb: "unat nb < 2 ^ 32" using unsigned_less [of nb, where 'a = nat] by simp
  have u: "unat (ucast nb :: u64) = unat nb" using nb by (simp add: unsigned_ucast_eq unsigned_take_bit_eq take_bit_nat_eq_self)
  have e: "(ucast nb + 16 - 1 :: u64) = ucast nb + 15" by simp
  have a: "unat (ucast nb + 15 :: u64) = unat nb + 15" using nb u by (subst unat_add_small) auto
  have d: "unat ((ucast nb + 15) div 16 :: u64) = (unat nb + 15) div 16" using a by (simp add: unat_div_distrib)
  have "unat ((ucast nb + 15) div 16 + 1 :: u64) = (unat nb + 15) div 16 + 1" using nb d by (subst unat_add_small) auto
  then show ?thesis unfolding malloc_units_def e
    using nb by (simp add: unsigned_ucast_eq unsigned_take_bit_eq take_bit_nat_eq_self)
qed

text \<open>The heap before the first \<^verbatim>\<open>malloc\<close> has no ring yet.\<close>

definition heap_state :: "nat \<Rightarrow> nat \<Rightarrow> tile list \<Rightarrow> 'k uheap \<Rightarrow> bool" where
  "heap_state base lo ts s \<longleftrightarrow> heap_ok base lo ts s \<or> freep s = 0 \<and> ts = [] \<and> 0 < base \<and> base + 16 \<le> lo"

lemma heap_start:
  "0 < base \<Longrightarrow> base + 16 \<le> lo \<Longrightarrow>
   heap_ok base lo [] (s\<lparr>hptr := (hptr s)(base := base), freep := base, hsize := (hsize s)(base := 0)\<rparr>)"
  by (simp add: heap_ok_def ring_def)

lemma heap_ok_freep: "heap_ok base lo ts s \<Longrightarrow> freep s \<noteq> 0"
  using frees_bounds [of "hsize s" lo ts "freep s"] by (auto simp: heap_ok_def)

lemma lives_split: "(x, n) \<in> set (lives a ts) \<Longrightarrow> \<exists>xs ys. ts = xs @ (n, False) # ys \<and> x = a + 16 * units xs"
proof (induction ts arbitrary: a)
  case (Cons t ts)
  show ?case
  proof (cases "\<not> snd t \<and> x = a \<and> n = fst t")
    case True
    then have "t # ts = [] @ (n, False) # ts \<and> x = a + 16 * units []" by (simp add: prod_eq_iff)
    then show ?thesis by blast
  next
    case False
    then have "(x, n) \<in> set (lives (a + 16 * fst t) ts)" using Cons.prems by (auto split: if_splits)
    then obtain xs ys where "ts = xs @ (n, False) # ys" "x = a + 16 * fst t + 16 * units xs" using Cons.IH by blast
    then have "t # ts = (t # xs) @ (n, False) # ys \<and> x = a + 16 * units (t # xs)" by simp
    then show ?thesis by blast
  qed
qed simp

text \<open>Blocks in use do not overlap.\<close>

definition blocks_apart :: "nat \<times> nat \<Rightarrow> nat \<times> nat \<Rightarrow> bool" where
  "blocks_apart x y \<longleftrightarrow> fst x + 16 * snd x \<le> fst y \<or> fst y + 16 * snd y \<le> fst x"

lemma lives_apart: "tiled hs a ts \<Longrightarrow> sorted_wrt blocks_apart (lives a ts)"
proof (induction ts arbitrary: a)
  case (Cons t ts)
  have "blocks_apart (a, fst t) y" if "y \<in> set (lives (a + 16 * fst t) ts)" for y
    using that lives_bounds [of hs "a + 16 * fst t" ts "fst y" "snd y"] Cons.prems by (simp add: blocks_apart_def)
  with Cons show ?case by simp
qed simp

lemma sorted_wrt_perm:
  assumes "symp P" shows "mset xs = mset ys \<Longrightarrow> sorted_wrt P xs \<Longrightarrow> sorted_wrt P ys"
proof (induction xs arbitrary: ys)
  case (Cons x xs)
  then have "x \<in> set ys" by (metis list.set_intros(1) set_mset_mset)
  then obtain us vs where ys: "ys = us @ x # vs" by (meson split_list)
  have m: "mset xs = mset (us @ vs)" using Cons.prems(1) ys by simp
  have "sorted_wrt P (us @ vs)" using Cons.IH [OF m] Cons.prems(2) by simp
  moreover have "\<forall>y \<in> set (us @ vs). P x y" using Cons.prems(2) mset_eq_setD [OF m] by auto
  ultimately show ?case using assms unfolding ys by (auto simp: sorted_wrt_append symp_def)
qed simp

section \<open>Growing the heap\<close>

text \<open>
  What \<^verbatim>\<open>malloc\<close> relies on: a successful \<^verbatim>\<open>sbrk\<close> returns the old break and moves it by its argument, a failing one returns -1
  and leaves it; the break stays small enough for sizes of 32 bits.
\<close>

locale program_break =
  fixes sbrk :: "int \<Rightarrow> 'k \<Rightarrow> int \<times> 'k" and brk :: "'k \<Rightarrow> nat" and fine :: "'k \<Rightarrow> bool"
  assumes sbrk_moves: "fine k \<Longrightarrow> 0 < n \<Longrightarrow> n < 2 ^ 31 \<Longrightarrow> sbrk n k = (r, k') \<Longrightarrow>
      fine k' \<and> (r = - 1 \<and> brk k' = brk k \<or> r = int (brk k) \<and> brk k' = brk k + nat n)"
    and brk_small: "fine k \<Longrightarrow> brk k < 2 ^ 36"

lemma heap_extend:
  assumes "heap_ok base lo ts s" "0 < unat nu" "units ts + unat nu < 2 ^ 32"
  shows "heap_ok base lo (ts @ [(unat nu, False)]) (s\<lparr>krn := k, hsize := (hsize s)(lo + 16 * units ts := nu)\<rparr>)"
proof -
  have t: "tiled (hsize s) lo ts" "base + 16 \<le> lo" using assms(1) by (simp_all add: heap_ok_def)
  have "tiled ((hsize s)(lo + 16 * units ts := nu)) lo ts" using tiled_upd [OF t(1)] by simp
  then show ?thesis using assms t(2) by (simp add: heap_ok_def)
qed

lemma joined_last: "\<exists>ws k. joined xs n [] = ws @ [(k, True)] \<and> n \<le> k"
proof (cases "xs \<noteq> [] \<and> snd (last xs)")
  case True
  then show ?thesis by (intro exI [of _ "butlast xs"] exI [of _ "fst (last xs) + n"]) (simp add: joined_def)
next
  case False
  then show ?thesis by (intro exI [of _ xs] exI [of _ n]) (auto simp: joined_def)
qed

lemma morecore_arg: "unat (nu :: u32) < 2 ^ 27 \<Longrightarrow> sint (nu * 16) = 16 * uint nu"
proof -
  assume "unat nu < 2 ^ 27"
  then have "int (unat nu) < int (2 ^ 27)" by (simp only: of_nat_less_iff)
  then have u: "uint nu < 134217728" by simp
  have "0 \<le> uint nu" by simp
  then have "- 134217728 \<le> uint nu" by linarith
  with u have "sint (word_of_int (uint nu * 16) :: u32) = uint nu * 16"
    unfolding sint_sbintrunc' by (intro signed_take_bit_int_eq_self) simp_all
  then show ?thesis by simp
qed

context program_break begin

lemma morecore_ok:
  assumes ok: "heap_ok base lo ts s" and k: "fine (krn s)" "brk (krn s) = lo + 16 * units ts" and nu: "unat nu0 < 2 ^ 27"
  shows "(\<exists>t. morecore sbrk nu0 s = Some (0, t) \<and> heap_ok base lo ts t \<and> fine (krn t) \<and> brk (krn t) = lo + 16 * units ts) \<or>
    (\<exists>t ts'. morecore sbrk nu0 s = Some (freep t, t) \<and> freep t \<noteq> 0 \<and> heap_ok base lo ts' t \<and> fine (krn t) \<and>
       brk (krn t) = lo + 16 * units ts' \<and> lives lo ts' = lives lo ts \<and> (compact ts \<longrightarrow> compact ts') \<and>
       (\<exists>c \<in> set (frees lo ts'). nu0 \<le> hsize t c))"
proof -
  define nu where "nu = (if nu0 < 4096 then 4096 else nu0)"
  have n: "unat nu < 2 ^ 27" "0 < unat nu" "nu0 \<le> nu" using nu by (auto simp: nu_def word_less_nat_alt word_le_nat_alt)
  obtain r k' where r: "sbrk (int (16 * unat nu)) (krn s) = (r, k')" by fastforce
  have law: "fine k' \<and> (r = - 1 \<and> brk k' = brk (krn s) \<or> r = int (brk (krn s)) \<and> brk k' = brk (krn s) + 16 * unat nu)"
  proof -
    have "16 * unat nu < 2 ^ 31" using n(1) by simp
    then have "int (16 * unat nu) < int (2 ^ 31)" by (simp only: of_nat_less_iff)
    then have i: "int (16 * unat nu) < 2 ^ 31" by simp
    have "0 < 16 * unat nu" using n(2) by simp
    then have "0 < int (16 * unat nu)" by (simp only: of_nat_0_less_iff)
    from sbrk_moves [OF k(1) this i r] show ?thesis by (simp only: nat_int)
  qed
  show ?thesis
  proof (cases "r = - 1")
    case True
    then have "morecore sbrk nu0 s = Some (0, s\<lparr>krn := k'\<rparr>)"
      using r by (simp add: morecore_def nu_def [symmetric] morecore_arg [OF n(1)] Let_def)
    moreover have "heap_ok base lo ts (s\<lparr>krn := k'\<rparr>)" using ok by (simp add: heap_ok_def)
    ultimately show ?thesis using True law k(2) by auto
  next
    case False
    then have hp: "nat r = lo + 16 * units ts" "brk k' = lo + 16 * (units ts + unat nu)" using law k(2) by auto
    then have small: "units ts + unat nu < 2 ^ 32" using brk_small [of k'] law by simp
    let ?s = "s\<lparr>krn := k', hsize := (hsize s)(lo + 16 * units ts := nu)\<rparr>"
    have "heap_ok base lo (ts @ (unat nu, False) # []) ?s" using heap_extend [OF ok n(2) small] by simp
    from ufree_ok [OF this] obtain t where t: "ufree (lo + 16 * units ts + 16) ?s = Some t"
      "heap_ok base lo (joined ts (unat nu) []) t" "krn t = k'" by auto
    have m: "morecore sbrk nu0 s = Some (freep t, t)"
      using False r t(1) hp(1) by (simp add: morecore_def nu_def [symmetric] morecore_arg [OF n(1)] Let_def)
    obtain ws i where w: "joined ts (unat nu) [] = ws @ [(i, True)]" "unat nu \<le> i" using joined_last by blast
    have c: "lo + 16 * units ws \<in> set (frees lo (joined ts (unat nu) []))" "nu0 \<le> hsize t (lo + 16 * units ws)"
      using w t(2) n(3) by (auto simp: heap_ok_def word_le_nat_alt)
    have "0 < freep t" using t(2) frees_bounds [of "hsize t" lo "joined ts (unat nu) []" "freep t"] by (auto simp: heap_ok_def)
    moreover have "compact ts \<longrightarrow> compact (joined ts (unat nu) [])"
      using compact_joined [of ts "unat nu" "[]"] by (auto simp: compact_append compact_Cons)
    ultimately show ?thesis using m t(2,3) law hp(2) c joined_row(1) [of ts "unat nu" "[]"] joined_row(2) [of lo ts "unat nu" "[]"] by auto
  qed
qed

lemma malloc_loop_ok:
  assumes ok: "heap_ok base lo ts s" and k: "fine (krn s)" "brk (krn s) = lo + 16 * units ts"
    and n: "0 < nunits" "unat nunits < 2 ^ 27"
  shows "(\<exists>t. malloc_loop sbrk nunits (freep s) (hptr s (freep s)) s = Some (0, t) \<and> heap_ok base lo ts t \<and>
       fine (krn t) \<and> brk (krn t) = lo + 16 * units ts) \<or>
    (\<exists>q t ts' us vs. malloc_loop sbrk nunits (freep s) (hptr s (freep s)) s = Some (q + 16, t) \<and> heap_ok base lo ts' t \<and>
       fine (krn t) \<and> brk (krn t) = lo + 16 * units ts' \<and> (compact ts \<longrightarrow> compact ts') \<and>
       lives lo ts = us @ vs \<and> lives lo ts' = us @ (q, unat nunits) # vs)"
proof (cases "\<exists>c \<in> set (frees lo ts). nunits \<le> hsize s c")
  case True
  from malloc_search [OF ok True n(1), of sbrk] k show ?thesis by (metis (no_types, lifting))
next
  case False
  have r: "ring (hptr s) (base # frees lo ts)" "freep s \<in> set (base # frees lo ts)" "hsize s base = 0"
    using ok by (simp_all add: heap_ok_def)
  obtain as bs where R: "base # frees lo ts = as @ freep s # bs" using split_list [OF r(2)] by blast
  let ?cs = "bs @ as @ [freep s]"
  have p: "path (hptr s) (freep s) ?cs" using r(1) unfolding R by (rule ring_rotate)
  have set: "set ?cs = set (base # frees lo ts)" unfolding R by auto
  have d: "distinct ?cs" using heap_distinct [OF ok] unfolding R by auto
  have nx: "hptr s (freep s) = hd ?cs" using p by (cases ?cs) auto
  have "\<forall>c \<in> set ?cs. \<not> nunits \<le> hsize s c" using False r(3) n(1) unfolding set by auto
  from malloc_walk_none [OF _ p _ d this, of sbrk]
  have m: "malloc_loop sbrk nunits (freep s) (hptr s (freep s)) s = Option.bind (morecore sbrk nunits s) (\<lambda>r.
     if fst r = 0 then Some r else malloc_loop sbrk nunits (fst r) (hptr (snd r) (fst r)) (snd r))" by (simp add: nx)
  from morecore_ok [OF ok k n(2)] show ?thesis
  proof (elim disjE exE conjE)
    fix t assume "morecore sbrk nunits s = Some (0, t)" "heap_ok base lo ts t" "fine (krn t)" "brk (krn t) = lo + 16 * units ts"
    then show ?thesis using m by auto
  next
    fix t ts' assume t: "morecore sbrk nunits s = Some (freep t, t)" "freep t \<noteq> 0" "heap_ok base lo ts' t" "fine (krn t)"
      "brk (krn t) = lo + 16 * units ts'" "lives lo ts' = lives lo ts" "compact ts \<longrightarrow> compact ts'"
      "\<exists>c \<in> set (frees lo ts'). nunits \<le> hsize t c"
    have e: "malloc_loop sbrk nunits (freep s) (hptr s (freep s)) s = malloc_loop sbrk nunits (freep t) (hptr t (freep t)) t"
      unfolding m t(1) using t(2) by simp
    from malloc_search [OF t(3,8) n(1), of sbrk] t(4-7) show ?thesis unfolding e by (metis (no_types, lifting))
  qed
qed

end


section \<open>Programs that allocate\<close>

text \<open>
  A program calls \<^verbatim>\<open>malloc\<close>, and \<^verbatim>\<open>free\<close> on one of the blocks it holds. It keeps the pointers \<^verbatim>\<open>malloc\<close> returned, with the
  sizes it asked for; a failed \<^verbatim>\<open>malloc\<close> leaves it without a block.
\<close>

datatype heap_op = HMalloc u32 | HFree nat

primrec heap_run :: "nat \<Rightarrow> (int \<Rightarrow> 'k \<Rightarrow> int \<times> 'k) \<Rightarrow> heap_op list \<Rightarrow> 'k uheap \<Rightarrow> (nat \<times> u32) list \<Rightarrow>
    ('k uheap \<times> (nat \<times> u32) list) option" where
  "heap_run base sbrk [] s L = Some (s, L)"
| "heap_run base sbrk (a # acts) s L =
     (case a of
        HMalloc nb \<Rightarrow> Option.bind (umalloc base sbrk nb s) (\<lambda>r.
          heap_run base sbrk acts (snd r) (if fst r = 0 then L else (fst r, nb) # L))
      | HFree i \<Rightarrow>
          if i < length L
          then Option.bind (ufree (fst (L ! i)) s) (\<lambda>t. heap_run base sbrk acts t (take i L @ drop (Suc i) L))
          else heap_run base sbrk acts s L)"

definition block_of :: "nat \<times> u32 \<Rightarrow> nat \<times> nat" where
  "block_of b = (fst b - 16, unat (malloc_units (snd b)))"

fun small_op :: "heap_op \<Rightarrow> bool" where
  "small_op (HMalloc nb) \<longleftrightarrow> nb \<le> 0x7FFFFFE0"
| "small_op (HFree i) \<longleftrightarrow> True"

lemma small_units: "nb \<le> 0x7FFFFFE0 \<Longrightarrow> 0 < malloc_units nb \<and> unat (malloc_units nb) < 2 ^ 27"
proof -
  assume "nb \<le> 0x7FFFFFE0"
  then have "unat nb \<le> 0x7FFFFFE0" by (simp add: word_le_nat_alt)
  then show ?thesis using unat_malloc_units [of nb] by (simp add: word_less_nat_alt)
qed

lemma mset_remove_nth: "i < length L \<Longrightarrow> mset L = add_mset (L ! i) (mset (take i L @ drop (Suc i) L))"
  by (metis id_take_nth_drop mset_append mset.simps(2) union_mset_add_mset_right)

definition client :: "nat \<Rightarrow> nat \<Rightarrow> tile list \<Rightarrow> 'k uheap \<Rightarrow> (nat \<times> u32) list \<Rightarrow> bool" where
  "client base lo ts s L \<longleftrightarrow> heap_state base lo ts s \<and> compact ts \<and> mset (map block_of L) = mset (lives lo ts)"

lemma client_free:
  assumes "client base lo ts s L" "i < length L"
  shows "\<exists>t ts'. ufree (fst (L ! i)) s = Some t \<and> client base lo ts' t (take i L @ drop (Suc i) L) \<and> krn t = krn s \<and>
    units ts' = units ts"
proof -
  have c: "heap_state base lo ts s" "compact ts" "mset (map block_of L) = mset (lives lo ts)" using assms(1) by (simp_all add: client_def)
  have "block_of (L ! i) \<in> set (map block_of L)" using assms(2) by simp
  then have live: "block_of (L ! i) \<in> set (lives lo ts)" using mset_eq_setD [OF c(3)] by blast
  then have ok: "heap_ok base lo ts s" using c(1) by (auto simp: heap_state_def)
  obtain x n where x: "block_of (L ! i) = (x, n)" by fastforce
  obtain xs ys where ts: "ts = xs @ (n, False) # ys" "x = lo + 16 * units xs" using lives_split [of x n lo ts] live x by auto
  have "0 < lo" using ok by (simp add: heap_ok_def)
  then have ap: "fst (L ! i) = lo + 16 * units xs + 16" using x ts(2) by (auto simp: block_of_def)
  from ufree_ok [OF ok [unfolded ts(1)]] obtain t where t: "ufree (fst (L ! i)) s = Some t"
    "heap_ok base lo (joined xs n ys) t" "krn t = krn s" unfolding ap by auto
  have "mset (map block_of L) = add_mset (x, n) (mset (map block_of (take i L @ drop (Suc i) L)))"
    using mset_remove_nth [OF assms(2)] x by (metis image_mset_add_mset mset_map)
  then have "mset (map block_of (take i L @ drop (Suc i) L)) = mset (lives lo (joined xs n ys))"
    using c(3) ts joined_row(2) [of lo xs n ys] by simp
  then have "client base lo (joined xs n ys) t (take i L @ drop (Suc i) L)"
    using t(2) compact_joined c(2) unfolding ts(1) client_def heap_state_def by blast
  then show ?thesis using t(1,3) joined_row(1) [of xs n ys] ts(1) by auto
qed

context program_break begin

lemma client_malloc:
  assumes "client base lo ts s L" "fine (krn s)" "brk (krn s) = lo + 16 * units ts" "nb \<le> 0x7FFFFFE0"
  shows "\<exists>r t ts'. umalloc base sbrk nb s = Some (r, t) \<and> fine (krn t) \<and> brk (krn t) = lo + 16 * units ts' \<and>
    client base lo ts' t (if r = 0 then L else (r, nb) # L)"
proof -
  have c: "heap_state base lo ts s" "compact ts" "mset (map block_of L) = mset (lives lo ts)" using assms(1) by (simp_all add: client_def)
  let ?n = "malloc_units nb"
  define s1 where "s1 = (if freep s = 0
    then s\<lparr>hptr := (hptr s)(base := base), freep := base, hsize := (hsize s)(base := 0)\<rparr> else s)"
  have ok: "heap_ok base lo ts s1" and k: "krn s1 = krn s"
    using c(1) heap_start [of base lo s] heap_ok_freep [of base lo ts s] by (auto simp: heap_state_def s1_def)
  have u: "umalloc base sbrk nb s = malloc_loop sbrk ?n (freep s1) (hptr s1 (freep s1)) s1"
    by (simp add: umalloc_def s1_def Let_def)
  from malloc_loop_ok [OF ok assms(2,3) [folded k] small_units [OF assms(4), THEN conjunct1] small_units [OF assms(4), THEN conjunct2]]
  show ?thesis
  proof (elim disjE exE conjE)
    fix t assume "malloc_loop sbrk ?n (freep s1) (hptr s1 (freep s1)) s1 = Some (0, t)" "heap_ok base lo ts t" "fine (krn t)"
      "brk (krn t) = lo + 16 * units ts"
    then show ?thesis using u c by (auto simp: client_def heap_state_def)
  next
    fix q t ts' us vs assume t: "malloc_loop sbrk ?n (freep s1) (hptr s1 (freep s1)) s1 = Some (q + 16, t)" "heap_ok base lo ts' t"
      "fine (krn t)" "brk (krn t) = lo + 16 * units ts'" "compact ts \<longrightarrow> compact ts'" "lives lo ts = us @ vs"
      "lives lo ts' = us @ (q, unat ?n) # vs"
    then have "client base lo ts' t ((q + 16, nb) # L)" using c by (simp add: client_def heap_state_def block_of_def)
    then show ?thesis using t(1,3,4) u by (intro exI [of _ "q + 16"] exI [of _ t] exI [of _ ts']) simp
  qed
qed

lemma heap_run_ok:
  "client base lo ts s L \<Longrightarrow> fine (krn s) \<Longrightarrow> brk (krn s) = lo + 16 * units ts \<Longrightarrow> list_all small_op acts \<Longrightarrow>
   \<exists>t ts' L'. heap_run base sbrk acts s L = Some (t, L') \<and> client base lo ts' t L' \<and> fine (krn t) \<and>
     brk (krn t) = lo + 16 * units ts'"
proof (induction acts arbitrary: s L ts)
  case (Cons a acts)
  show ?case
  proof (cases a)
    case (HMalloc nb)
    then have "nb \<le> 0x7FFFFFE0" using Cons.prems(4) by simp
    from client_malloc [OF Cons.prems(1-3) this] obtain r t ts' where "umalloc base sbrk nb s = Some (r, t)" "fine (krn t)"
      "brk (krn t) = lo + 16 * units ts'" "client base lo ts' t (if r = 0 then L else (r, nb) # L)" by blast
    with Cons.IH [of ts' t "if r = 0 then L else (r, nb) # L"] Cons.prems(4) HMalloc show ?thesis by auto
  next
    case (HFree i)
    show ?thesis
    proof (cases "i < length L")
      case True
      from client_free [OF Cons.prems(1) True] obtain t ts' where "ufree (fst (L ! i)) s = Some t"
        "client base lo ts' t (take i L @ drop (Suc i) L)" "krn t = krn s" "units ts' = units ts" by blast
      with Cons.IH [of ts' t "take i L @ drop (Suc i) L"] Cons.prems(2-4) HFree True show ?thesis by auto
    next
      case False
      then show ?thesis using Cons HFree by auto
    qed
  qed
qed auto

end


text \<open>What the invariant says about the blocks that a program holds.\<close>

lemma block_room: "unat nb + 16 \<le> 16 * unat (malloc_units nb)"
  using unat_malloc_units [of nb] by simp

lemma client_block:
  assumes "client base lo ts s L" "i < length L"
  shows "lo + 16 \<le> fst (L ! i)" "fst (L ! i) + unat (snd (L ! i)) \<le> lo + 16 * units ts"
proof -
  have m: "mset (map block_of L) = mset (lives lo ts)" using assms(1) by (simp add: client_def)
  then have l: "block_of (L ! i) \<in> set (lives lo ts)" using assms(2) mset_eq_setD [OF m] by (metis length_map nth_map nth_mem)
  then have t: "tiled (hsize s) lo ts" "0 < lo" using assms(1) by (auto simp: client_def heap_state_def heap_ok_def)
  from l have "(fst (L ! i) - 16, unat (malloc_units (snd (L ! i)))) \<in> set (lives lo ts)" by (simp add: block_of_def)
  from lives_bounds [OF t(1) this] t(2) block_room [of "snd (L ! i)"]
  show "lo + 16 \<le> fst (L ! i)" "fst (L ! i) + unat (snd (L ! i)) \<le> lo + 16 * units ts" by auto
qed

lemma client_apart:
  assumes c: "client base lo ts s L" and ij: "i < length L" "j < length L" "i \<noteq> j"
  shows "fst (L ! i) + unat (snd (L ! i)) + 16 \<le> fst (L ! j) \<or> fst (L ! j) + unat (snd (L ! j)) + 16 \<le> fst (L ! i)"
proof -
  have m: "mset (lives lo ts) = mset (map block_of L)" using c by (simp add: client_def)
  have "tiled (hsize s) lo ts" using c by (auto simp: client_def heap_state_def heap_ok_def)
  then have s: "sorted_wrt blocks_apart (map block_of L)"
    using sorted_wrt_perm [OF _ m] lives_apart by (auto simp: symp_def blocks_apart_def)
  have *: "blocks_apart (block_of (L ! a)) (block_of (L ! b))" if "a < b" "b < length L" for a b
    using sorted_wrt_nth_less [OF s that(1)] that by simp
  have "blocks_apart (block_of (L ! i)) (block_of (L ! j))"
    using * [of i j] * [of j i] ij by (cases "i < j") (auto simp: blocks_apart_def)
  then show ?thesis
    using client_block(1) [OF c ij(1)] client_block(1) [OF c ij(2)] block_room [of "snd (L ! i)"] block_room [of "snd (L ! j)"]
    by (auto simp: blocks_apart_def block_of_def)
qed

text \<open>When the program holds nothing, all the heap is one free block.\<close>

lemma client_empty:
  assumes "client base lo ts s []"
  shows "units ts = 0 \<or> units ts = unat (hsize s lo)"
proof -
  have l: "lives lo ts = []" and c: "compact ts" and t: "tiled (hsize s) lo ts"
    using assms by (auto simp: client_def heap_state_def heap_ok_def)
  show ?thesis
  proof (cases ts)
    case (Cons u us)
    then have u: "snd u" "lives (lo + 16 * fst u) us = []" using l by (auto split: if_splits)
    have "us = []"
    proof (cases us)
      case (Cons v vs)
      then show ?thesis using u c \<open>ts = u # us\<close> by (auto simp: compact_Cons split: if_splits)
    qed simp
    then show ?thesis using Cons t by simp
  qed simp
qed


text \<open>
  Why the sizes are bounded: for a request of \<^verbatim>\<open>0x7ffffff0\<close> bytes the argument of \<^verbatim>\<open>sbrk\<close> wraps to a negative number, and the
  kernel would shrink the process.
\<close>

lemma malloc_huge_argument: "sint (word_of_int (uint (malloc_units 0x7FFFFFF0) * 16) :: u32) = - 2147483648"
  by (simp add: malloc_units_def)

end
