(* ===== verification/Sbrk.thy ===== *)
theory Sbrk
  imports Usermem Vmgrow Syscall Umalloc
begin

text \<open>
  The kernel's side of \<^verbatim>\<open>malloc\<close>: \<^verbatim>\<open>sys_sbrk\<close> with \<^verbatim>\<open>growproc\<close>, \<^verbatim>\<open>uvmalloc\<close> and \<^verbatim>\<open>kalloc\<close> below it satisfies the interface
  \<open>program_break\<close> of the allocator, so a program that allocates on the modelled kernel is safe.
\<close>

definition sbrk_call :: "int \<Rightarrow> 'a proc_st_scheme \<Rightarrow> int \<times> 'a proc_st_scheme" where
  "sbrk_call n s = (case sbrk_grow (word_of_int n) s of Done r t \<Rightarrow> (sint r, t) | _ \<Rightarrow> (-1, s))"

definition proc_break :: "nat \<Rightarrow> 'a proc_st_scheme \<Rightarrow> nat" where
  "proc_break p s = unat (sz (procs s p))"

definition npages :: "nat \<Rightarrow> 'a proc_st_scheme \<Rightarrow> nat" where
  "npages p s = (proc_break p s + 4095) div 4096"

text \<open>
  Process \<open>p\<close> runs on the hart with a well-formed page table; the pages of its memory have frames of their own, and between
  them and the trap frame nothing is mapped.
\<close>

definition user_space :: "u64 \<Rightarrow> nat \<Rightarrow> u64 set \<Rightarrow> 'a proc_st_scheme \<Rightarrow> bool" where
  "user_space e p P s \<longleftrightarrow> c_proc (mycpu s) = Some p \<and> vm_ok e P 2 (pagetable (procs s p)) s \<and> npages p s < 2 ^ 26 - 1 \<and>
     own_frames e (P \<union> tables 2 (mem s) (pagetable (procs s p))) 0 (npages p s) (pte (mem s) (pagetable (procs s p))) \<and>
     (\<forall>vb < MAXVA. npages p s \<le> pgno vb \<and> pgno vb < 2 ^ 26 - 2 \<longrightarrow> \<not> pte_valid (pte (mem s) (pagetable (procs s p)) vb))"

lemma kframe_proc:
  assumes "kframe s t"
  shows "procs t = procs s" "c_proc (mycpu t) = c_proc (mycpu s)" "cpu_ok t = cpu_ok s"
proof -
  obtain b m f where t: "t = (if b then settle s else s)\<lparr>mem := m, freelist := f\<rparr>" using assms by (auto simp: kframe_def)
  show "procs t = procs s" "c_proc (mycpu t) = c_proc (mycpu s)" "cpu_ok t = cpu_ok s"
    unfolding t by (cases b; simp add: settle_def intr_defs cpu_defs cpu_ok_def)+
qed

lemma vm_ok_cpu: "vm_ok e P l pt s \<Longrightarrow> cpu_ok s"
  by (auto simp: vm_ok_def kmem_abs_def)

lemma vm_ok_procs: "vm_ok e P l pt (set_proc p f s) = vm_ok e P l pt s"
  by (simp add: vm_ok_def kmem_abs_def set_proc_def kmem_ok_def page_ok_def)


lemma vm_ok_settle: "vm_ok e P l pt (settle s) = vm_ok e P l pt s"
  by (simp add: vm_ok_def kmem_abs_def kmem_ok_def page_ok_def)

lemma user_space_settle: "user_space e p P (settle s) = user_space e p P s"
  by (simp add: user_space_def vm_ok_settle npages_def proc_break_def)

lemma pgno_0 [simp]: "pgno 0 = 0"
  by (simp add: pgno_def)

lemma own_frames_0:
  "own_frames e X 0 n F \<longleftrightarrow>
     (\<forall>vb < MAXVA. pgno vb < n \<longrightarrow> ram_page e (PTE2PA (F vb)) \<and> PTE2PA (F vb) \<notin> X) \<and>
     (\<forall>vb < MAXVA. \<forall>vc < MAXVA. pgno vb < n \<and> pgno vc < n \<and> PTE2PA (F vb) = PTE2PA (F vc) \<longrightarrow> pgno vb = pgno vc)"
  unfolding own_frames_def range_frames_def by auto

lemma own_framesD:
  assumes "own_frames e X va n F" "vb < MAXVA" "pgno va \<le> pgno vb" "pgno vb < pgno va + n"
  shows "ram_page e (PTE2PA (F vb))" "PTE2PA (F vb) \<notin> X" "PTE2PA (F vb) \<in> range_frames va n F"
proof -
  show "PTE2PA (F vb) \<in> range_frames va n F" using assms(2-4) unfolding range_frames_def by blast
  with assms(1) show "ram_page e (PTE2PA (F vb))" "PTE2PA (F vb) \<notin> X" by (simp_all add: own_frames_def)
qed

text \<open>Every page of the process has a frame of its own, so physical memory bounds its size.\<close>

lemma page_va: "i < 2 ^ 26 \<Longrightarrow> pgno (of_nat (4096 * i)) = i \<and> (of_nat (4096 * i) :: u64) < MAXVA"
proof -
  assume i: "i < 2 ^ 26"
  then have "unat (of_nat (4096 * i) :: u64) = 4096 * i" by (intro unat_of_nat_small) simp
  then have "pgno (of_nat (4096 * i)) = i" by (simp add: pgno_def)
  with i show ?thesis by (simp add: pgno_MAXVA)
qed

lemma npages_bound:
  assumes "user_space e p P s"
  shows "npages p s \<le> 557056"
proof -
  let ?F = "pte (mem s) (pagetable (procs s p))" and ?n = "npages p s"
  define f where "f i = unat (PTE2PA (?F (of_nat (4096 * i)))) div 4096" for i
  have n: "?n < 2 ^ 26" and own: "own_frames e (P \<union> tables 2 (mem s) (pagetable (procs s p))) 0 ?n ?F"
    using assms by (simp_all add: user_space_def)
  have va: "pgno (of_nat (4096 * i)) = i" "(of_nat (4096 * i) :: u64) < MAXVA" if "i < ?n" for i
    using page_va [of i] that n by simp_all
  have ram: "ram_page e (PTE2PA (?F (of_nat (4096 * i))))" if "i < ?n" for i
    using own va [OF that] that unfolding own_frames_0 by metis
  have inj: "inj_on f {..< ?n}"
  proof (rule inj_onI)
    fix i j assume ij: "i \<in> {..< ?n}" "j \<in> {..< ?n}" "f i = f j"
    have "unat (PTE2PA (?F (of_nat (4096 * i)))) = unat (PTE2PA (?F (of_nat (4096 * j))))"
      using ij ram [of i] ram [of j] by (auto simp: f_def ram_page_def)
    then have "PTE2PA (?F (of_nat (4096 * i))) = PTE2PA (?F (of_nat (4096 * j)))" by (rule word_unat_eqI)
    then have "pgno (of_nat (4096 * i)) = pgno (of_nat (4096 * j))"
      using own va [of i] va [of j] ij(1,2) unfolding own_frames_0 by (metis lessThan_iff)
    then show "i = j" using va [of i] va [of j] ij(1,2) by simp
  qed
  have "f ` {..< ?n} \<subseteq> {..< 557056}"
  proof
    fix x assume "x \<in> f ` {..< ?n}"
    then obtain i where i: "i < ?n" "x = f i" by auto
    have "unat (PTE2PA (?F (of_nat (4096 * i)))) < 0x88000000"
      using ram [OF i(1)] by (simp add: ram_page_def unat_less_iff layout)
    then show "x \<in> {..< 557056}" using i(2) by (simp add: f_def)
  qed
  from card_inj_on_le [OF inj this] show ?thesis by simp
qed

lemma break_bound: "user_space e p P s \<Longrightarrow> proc_break p s \<le> 557056 * 4096"
  using npages_bound [of e p P s] by (simp add: npages_def)

lemma pgno_roundup: "unat a < 2 ^ 40 \<Longrightarrow> pgno (PGROUNDUP a) = (unat a + 4095) div 4096"
  by (simp add: pgno_def unat_PGROUNDUP)

text \<open>The state after a growth by \<open>n\<close> bytes.\<close>

lemma user_space_grown:
  assumes us: "user_space e p P s" and g: "growth e P s pt base N perm P' t"
    and pt: "pt = pagetable (procs s p)" and base: "pgno base = npages p s"
    and N: "npages p s + N = (unat newsz + 4095) div 4096" "(unat newsz + 4095) div 4096 < 2 ^ 26 - 1"
  shows "user_space e p P' (set_proc p (\<lambda>x. x\<lparr>sz := newsz\<rparr>) t)"
proof -
  let ?F = "pte (mem s) pt" and ?G = "pte (mem t) pt" and ?n = "npages p s"
  let ?u = "set_proc p (\<lambda>x. x\<lparr>sz := newsz\<rparr>) t"
  have fr: "procs t = procs s" "c_proc (mycpu t) = c_proc (mycpu s)" and ok: "vm_ok e P' 2 pt t"
    using g kframe_proc by (auto simp: growth_def)
  have u: "npages p ?u = ?n + N" "pagetable (procs ?u p) = pt" "mem ?u = mem t" "c_proc (mycpu ?u) = c_proc (mycpu s)"
    using N(1) fr by (simp_all add: npages_def proc_break_def set_proc_def pt cpu_defs)
  have out: "?G vb = ?F vb" if "vb < MAXVA" "\<not> (?n \<le> pgno vb \<and> pgno vb < ?n + N)" for vb
    using g that by (auto simp: growth_def base)
  have T: "tables 2 (mem t) pt \<union> P' \<subseteq> tables 2 (mem s) pt \<union> P"
    "range_frames base N ?G \<subseteq> tables 2 (mem s) pt \<union> P" using g by (auto simp: growth_def)
  have o1: "own_frames e (P \<union> tables 2 (mem s) pt) 0 ?n ?F" and o2: "own_frames e (P' \<union> tables 2 (mem t) pt) base N ?G"
    using us g by (simp_all add: user_space_def growth_def pt)
  have low: "ram_page e (PTE2PA (?G vb))" "PTE2PA (?G vb) \<notin> P \<union> tables 2 (mem s) pt" "?G vb = ?F vb"
    if "vb < MAXVA" "pgno vb < ?n" for vb
    using that out [of vb] o1 unfolding own_frames_0 by simp_all
  have high: "ram_page e (PTE2PA (?G vb))" "PTE2PA (?G vb) \<notin> P' \<union> tables 2 (mem t) pt" "PTE2PA (?G vb) \<in> tables 2 (mem s) pt \<union> P"
    if "vb < MAXVA" "?n \<le> pgno vb" "pgno vb < ?n + N" for vb
    using own_framesD [OF o2 that(1)] that(2,3) T(2) unfolding base by blast+
  have own: "own_frames e (P' \<union> tables 2 (mem t) pt) 0 (?n + N) ?G"
    unfolding own_frames_0
  proof (intro conjI allI impI)
    fix vb assume v: "vb < MAXVA" "pgno vb < ?n + N"
    show "ram_page e (PTE2PA (?G vb))" using low(1) high(1) v by (cases "pgno vb < ?n") simp_all
    show "PTE2PA (?G vb) \<notin> P' \<union> tables 2 (mem t) pt"
      using low(2) [OF v(1)] high(2) [OF v(1)] v T(1) by (cases "pgno vb < ?n") auto
  next
    fix vb vc assume v: "vb < MAXVA" "vc < MAXVA"
      and w: "pgno vb < ?n + N \<and> pgno vc < ?n + N \<and> PTE2PA (?G vb) = PTE2PA (?G vc)"
    have cross: False if "x < MAXVA" "y < MAXVA" "pgno x < ?n" "?n \<le> pgno y" "pgno y < ?n + N" "PTE2PA (?G x) = PTE2PA (?G y)" for x y
      using low(2) [OF that(1,3)] high(3) [OF that(2,4,5)] that(6) by auto
    show "pgno vb = pgno vc"
    proof (cases "pgno vb < ?n")
      case True
      then have "pgno vc < ?n" using cross [of vb vc] v w by (meson not_less)
      then show ?thesis using True o1 v w low(3) unfolding own_frames_0 by metis
    next
      case False
      then have "?n \<le> pgno vc" using cross [of vc vb] v w by (metis not_less)
      then show ?thesis using False o2 v w unfolding own_frames_def base by (meson not_less)
    qed
  qed
  have free: "\<not> pte_valid (?G vb)" if "vb < MAXVA" "?n + N \<le> pgno vb" "pgno vb < 2 ^ 26 - 2" for vb
    using us that out [of vb] by (auto simp: user_space_def pt)
  show ?thesis using us ok own free N u unfolding user_space_def by (simp add: vm_ok_procs)
qed


lemma user_space_ungrown:
  assumes us: "user_space e p P s" and g: "ungrown e P s pt base j P' t"
    and pt: "pt = pagetable (procs s p)" and base: "pgno base = npages p s"
  shows "user_space e p P' t" "proc_break p t = proc_break p s"
proof -
  let ?F = "pte (mem s) pt" and ?G = "pte (mem t) pt" and ?n = "npages p s"
  have fr: "procs t = procs s" "c_proc (mycpu t) = c_proc (mycpu s)" and ok: "vm_ok e P' 2 pt t"
    using g kframe_proc by (auto simp: ungrown_def)
  have T: "P' \<union> tables 2 (mem t) pt = P \<union> tables 2 (mem s) pt" using g by (auto simp: ungrown_def)
  have G: "?G vb = (if ?n \<le> pgno vb \<and> pgno vb < ?n + j then 0 else ?F vb)" if "vb < MAXVA" for vb
    using g that by (simp add: ungrown_def clear_range_def base)
  show br: "proc_break p t = proc_break p s" by (simp add: proc_break_def fr(1))
  have n: "npages p t = ?n" by (simp add: npages_def br)
  have o1: "own_frames e (P \<union> tables 2 (mem s) pt) 0 ?n ?F" using us by (simp add: user_space_def pt)
  have low: "?G vb = ?F vb" if "vb < MAXVA" "pgno vb < ?n" for vb using G that by simp
  have "own_frames e (P' \<union> tables 2 (mem t) pt) 0 ?n ?G" using o1 low unfolding own_frames_0 T by (metis (no_types, lifting))
  moreover have "\<not> pte_valid (?G vb)" if "vb < MAXVA" "?n \<le> pgno vb" "pgno vb < 2 ^ 26 - 2" for vb
    using us that G [OF that(1)] by (auto simp: user_space_def pt)
  ultimately show "user_space e p P' t"
    using us ok fr n pt by (simp add: user_space_def)
qed

lemma sint_small: "0 < n \<Longrightarrow> n < 2 ^ 31 \<Longrightarrow> sint (word_of_int n :: u32) = n"
  unfolding sint_sbintrunc' by (rule signed_take_bit_int_eq_self) simp_all

lemma unat_word_small: "0 < n \<Longrightarrow> n < 2 ^ 31 \<Longrightarrow> unat (word_of_int n :: u64) = nat n"
proof -
  assume n: "0 < n" "n < 2 ^ 31"
  have "(word_of_int n :: u64) = of_nat (nat n)" using n by simp
  moreover have "nat n < 2 ^ 64" using n by (simp add: nat_less_iff)
  ultimately show ?thesis using unat_of_nat_small [of "nat n", where 'w = 64] by simp
qed

lemma sint_unat_small: "unat (x :: u64) \<le> 557056 * 4096 \<Longrightarrow> sint x = int (unat x)"
proof -
  assume "unat x \<le> 557056 * 4096"
  then have "unat x < 2 ^ 63" by simp
  then have "int (unat x) < int (2 ^ 63)" by (simp only: of_nat_less_iff)
  then have "int (unat x) < 2 ^ 63" by simp
  moreover have "- (2 ^ 63) \<le> int (unat x)" by (rule order_trans [OF _ of_nat_0_le_iff]) simp
  ultimately have "signed_take_bit 63 (int (unat x)) = int (unat x)" by (intro signed_take_bit_int_eq_self) auto
  then show ?thesis by (simp add: sint_uint)
qed

text \<open>A positive \<^verbatim>\<open>sbrk\<close>, with all it calls.\<close>

lemma sbrk_call_cases:
  assumes us: "user_space e p P s" and n: "0 < n" "n < 2 ^ 31"
  shows "\<exists>t P'. user_space e p P' t \<and> (sbrk_call n s = (- 1, t) \<and> proc_break p t = proc_break p s \<or>
    sbrk_call n s = (int (proc_break p s), t) \<and> proc_break p t = proc_break p s + nat n)"
proof -
  let ?s = "settle s" and ?pt = "pagetable (procs s p)" and ?sz = "sz (procs s p)"
  let ?new = "?sz + word_of_int n"
  have us': "user_space e p P ?s" using us by (simp add: user_space_settle)
  have cpu: "cpu_ok s" "c_proc (mycpu s) = Some p" using us vm_ok_cpu by (auto simp: user_space_def)
  have sz: "unat ?sz \<le> 557056 * 4096" using break_bound [OF us] by (simp add: proc_break_def)
  have "nat n < 2 ^ 31" using n by (simp add: nat_less_iff)
  then have nw: "unat ?new = unat ?sz + nat n" "nat n < 2 ^ 31" using sz unat_word_small [OF n] by (simp_all add: unat_add_small)
  have e: "sbrk_grow (word_of_int n) s = bnd (uvmalloc ?pt ?sz ?new PTE_W ?s) (\<lambda>sz1 s2.
      if sz1 = 0 then Done (- 1) s2 else Done ?sz (set_proc p (\<lambda>x. x\<lparr>sz := sz1\<rparr>) s2))"
  proof -
    have "cpu_ok ?s" "c_proc (mycpu ?s) = Some p" "settle ?s = ?s" using cpu by simp_all
    moreover have "(scast (word_of_int n :: u32) :: u64) = word_of_int n"
      using sint_small [OF n] by (simp add: scast_eq)
    ultimately show ?thesis
      using cpu sint_small [OF n] n(1)
      by (simp add: sbrk_grow_def growproc_def myproc_deref_eq bnd_assoc Let_def if_distrib [of "\<lambda>m. bnd m f" for f] cong: if_cong)
  qed
  have old: "pgno (PGROUNDUP ?sz) = npages p ?s" using sz by (simp add: pgno_roundup npages_def proc_break_def)
  have np: "npages p ?s \<le> (unat ?new + 4095) div 4096" "(unat ?new + 4095) div 4096 < 2 ^ 26 - 2"
    using nw sz by (auto simp: npages_def proc_break_def intro!: div_le_mono)
  let ?N = "(unat ?new + 4095) div 4096 - pgno (PGROUNDUP ?sz)"
  have le: "?sz \<le> ?new" "?new \<le> MAXVA" using nw sz by (simp_all add: unat_le_iff layout)
  have ok: "vm_ok e P 2 ?pt ?s" using us' by (simp add: user_space_def)
  have free: "\<forall>vb < MAXVA. pgno (PGROUNDUP ?sz) \<le> pgno vb \<and> pgno vb < pgno (PGROUNDUP ?sz) + ?N \<longrightarrow>
      \<not> pte_valid (pte (mem ?s) ?pt vb)"
    using us' np old by (auto simp: user_space_def)
  have "unat PTE_W < 1024" by (simp add: layout)
  from uvmalloc_grows [OF ok le this refl free] obtain r t P' where t: "uvmalloc ?pt ?sz ?new PTE_W ?s = Done r t"
    and c: "r = ?new \<and> growth e P ?s ?pt (PGROUNDUP ?sz) ?N (PTE_R OR PTE_U OR PTE_W) P' t \<or>
     r = 0 \<and> (\<exists>j < ?N. ungrown e P ?s ?pt (PGROUNDUP ?sz) j P' t)" by blast
  from c show ?thesis
  proof (elim disjE conjE exE)
    assume g: "r = ?new" "growth e P ?s ?pt (PGROUNDUP ?sz) ?N (PTE_R OR PTE_U OR PTE_W) P' t"
    let ?t = "set_proc p (\<lambda>x. x\<lparr>sz := ?new\<rparr>) t"
    have "user_space e p P' ?t" using user_space_grown [OF us' g(2) _ old, of ?new] np old by simp
    moreover have "?new \<noteq> 0" using nw n by auto
    moreover have "sint ?sz = int (unat ?sz)" using sz by (rule sint_unat_small)
    ultimately show ?thesis using e t g(1) nw by (auto simp: sbrk_call_def proc_break_def set_proc_def)
  next
    fix j assume g: "r = 0" "ungrown e P ?s ?pt (PGROUNDUP ?sz) j P' t"
    from user_space_ungrown [OF us' g(2) _ old] have "user_space e p P' t" "proc_break p t = proc_break p s"
      by (simp_all add: proc_break_def)
    then show ?thesis using e t g(1) by (auto simp: sbrk_call_def)
  qed
qed


interpretation kbrk: program_break sbrk_call "proc_break p" "\<lambda>s. \<exists>P. user_space e p P s" for e p
proof
  show "(\<exists>P. user_space e p P k') \<and> (r = - 1 \<and> proc_break p k' = proc_break p k \<or>
      r = int (proc_break p k) \<and> proc_break p k' = proc_break p k + nat n)"
    if "\<exists>P. user_space e p P k" "0 < n" "n < 2 ^ 31" "sbrk_call n k = (r, k')" for k n r k'
    using sbrk_call_cases [OF _ that(2,3), of e p _ k] that(1,4) by fastforce
  show "proc_break p k < 2 ^ 36" if "\<exists>P. user_space e p P k" for k
    using break_bound [of e p _ k] that by fastforce
qed


text \<open>A process with one page of memory.\<close>

definition demo_user :: proc_st where
  "demo_user = demo_procs\<lparr>mem := demo_mem, freelist := 0, kend := 0x80021D00,
     cpus := (\<lambda>_. quiet_cpu\<lparr>c_proc := Some 0\<rparr>),
     procs := (\<lambda>_. demo_proc\<lparr>sz := 0x1000, pagetable := 0x80100000\<rparr>)\<rparr>"

lemma demo_user_space: "user_space 0x80021D00 0 {} demo_user"
proof -
  have ram: "ram_page 0x80021D00 p" if "p \<in> {0x80100000, 0x80101000, 0x80102000, 0x80103000}" for p
    using that by (elim insertE emptyE) (simp_all add: ram_page_def layout)
  have f: "mem demo_user = demo_mem" "pagetable (procs demo_user 0) = 0x80100000" "npages 0 demo_user = 1"
    "c_proc (mycpu demo_user) = Some 0" "kend demo_user = 0x80021D00" "cpu_ok demo_user" "free_lock demo_user KmemLock"
    "freelist demo_user = 0"
    by (simp_all add: demo_user_def npages_def proc_break_def cpu_defs cpu_ok_def quiet_cpu_def free_lock_def demo_procs_def
        intr_defs)
  have "vm_ok 0x80021D00 {} 2 0x80100000 demo_user"
    using demo_ptree demo_tables2 ram f by (simp add: vm_ok_def kmem_abs_def kmem_ok_def)
  moreover have "own_frames 0x80021D00 ({} \<union> tables 2 demo_mem 0x80100000) 0 1 (pte demo_mem 0x80100000)"
    unfolding own_frames_0 using demo_pte demo_flags demo_tables2 ram by auto
  moreover have "\<not> pte_valid (pte demo_mem 0x80100000 vb)" if "vb < MAXVA" "1 \<le> pgno vb" for vb
    using demo_pte [OF that(1)] that(2) by simp
  ultimately show ?thesis using f by (simp add: user_space_def)
qed


end
