(* ===== verification/User.thy ===== *)
theory User
  imports Printf
begin

text \<open>
  User programs as the kernel sees them. A program runs against the answers the kernel gives to its system
  calls, which are an input of the model, and leaves the list of the calls it made.

  \<^item> \<open>u_in fd\<close> is what reads of the descriptor deliver: a list of pieces, each the bytes that arrive together or an
    error. A read takes at most the bytes it asks for from the first piece; it returns 0 when nothing is left.
  \<^item> \<open>u_werr\<close> holds the results of the next writes; a write returns its length when none is given.
  \<^item> \<open>u_ans\<close> holds the results of the other calls, with the values they store through pointers. A program whose answers
    are used up waits in its call.
\<close>

section \<open>System calls of a user program\<close>

datatype call =
    CFork
  | CWait
  | CPipe
  | CWrite int "u8 list"
  | CClose int
  | CKill int
  | CExec "u8 list" "u8 list list"
  | COpen "u8 list" int
  | CMknod "u8 list" int int
  | CUnlink "u8 list"
  | CFstat int
  | CLink "u8 list" "u8 list"
  | CMkdir "u8 list"
  | CChdir "u8 list"
  | CDup int
  | CSbrk int
  | CSleep int
  | CHello int

datatype answer = Ans int "int list"

record user =
  u_in :: "int \<Rightarrow> u8 list option list"
  u_werr :: "int list"
  u_ans :: "answer list"
  u_calls :: "call list"

datatype ('a, 's) uout = URet 'a 's | UExit int 's | UStop 's

primrec ubnd :: "('a, 's) uout \<Rightarrow> ('a \<Rightarrow> 's \<Rightarrow> ('b, 's) uout) \<Rightarrow> ('b, 's) uout" where
  "ubnd (URet x s) f = f x s"
| "ubnd (UExit n s) f = UExit n s"
| "ubnd (UStop s) f = UStop s"

lemma ubnd_cong [fundef_cong]:
  "m = m' \<Longrightarrow> (\<And>x s. m' = URet x s \<Longrightarrow> f x s = f' x s) \<Longrightarrow> ubnd m f = ubnd m' f'"
  by (cases m') auto

lemma ubnd_assoc: "ubnd (ubnd m f) g = ubnd m (\<lambda>x s. ubnd (f x s) g)"
  by (cases m) auto

definition u_read :: "int \<Rightarrow> nat \<Rightarrow> 'a user_scheme \<Rightarrow> (int \<times> u8 list) \<times> 'a user_scheme" where
  "u_read fd n s =
     (case u_in s fd of
        [] \<Rightarrow> ((0, []), s)
      | None # ps \<Rightarrow> ((-1, []), s\<lparr>u_in := (u_in s)(fd := ps)\<rparr>)
      | Some bs # ps \<Rightarrow>
          if length bs \<le> n then ((int (length bs), bs), s\<lparr>u_in := (u_in s)(fd := ps)\<rparr>)
          else ((int n, take n bs), s\<lparr>u_in := (u_in s)(fd := Some (drop n bs) # ps)\<rparr>))"

definition u_write :: "int \<Rightarrow> u8 list \<Rightarrow> 'a user_scheme \<Rightarrow> int \<times> 'a user_scheme" where
  "u_write fd bs s =
     (let s1 = s\<lparr>u_calls := u_calls s @ [CWrite fd bs]\<rparr>
      in case u_werr s of [] \<Rightarrow> (int (length bs), s1) | r # rs \<Rightarrow> (r, s1\<lparr>u_werr := rs\<rparr>))"

definition u_call :: "call \<Rightarrow> 'a user_scheme \<Rightarrow> (int \<times> int list, 'a user_scheme) uout" where
  "u_call c s =
     (let s1 = s\<lparr>u_calls := u_calls s @ [c]\<rparr>
      in case u_ans s of [] \<Rightarrow> UStop s1 | Ans r vs # as \<Rightarrow> URet (r, vs) (s1\<lparr>u_ans := as\<rparr>))"

text \<open>The bytes and pieces that are still to be read; every read of at least one byte from a piece makes it smaller.\<close>

definition unread :: "int \<Rightarrow> 'a user_scheme \<Rightarrow> nat" where
  "unread fd s = sum_list (map (\<lambda>p. case p of None \<Rightarrow> 1 | Some bs \<Rightarrow> Suc (length bs)) (u_in s fd))"

lemma u_read_unread: "u_read fd n s = ((r, bs), t) \<Longrightarrow> 0 < r \<Longrightarrow> unread fd t < unread fd s"
  by (auto simp: u_read_def unread_def split: list.splits option.splits if_splits)

lemma u_read_length: "u_read fd n s = ((r, bs), t) \<Longrightarrow> 0 \<le> r \<Longrightarrow> r = int (length bs) \<and> length bs \<le> n"
  by (auto simp: u_read_def split: list.splits option.splits if_splits)

text \<open>A text delivered in pieces, none of them empty or an error, and then the end of the file.\<close>

definition delivers :: "'a user_scheme \<Rightarrow> int \<Rightarrow> u8 list \<Rightarrow> bool" where
  "delivers s fd xs \<longleftrightarrow> (\<exists>ps. u_in s fd = map Some ps \<and> [] \<notin> set ps \<and> concat ps = xs)"

lemma delivers_read:
  assumes "delivers s fd xs" "0 < n"
  shows "\<exists>ys t. u_read fd n s = ((int (length ys), ys), t) \<and> length ys \<le> n \<and> (ys = [] \<longleftrightarrow> xs = []) \<and>
    (\<exists>zs. xs = ys @ zs \<and> delivers t fd zs) \<and> u_calls t = u_calls s \<and> u_werr t = u_werr s \<and> u_ans t = u_ans s \<and>
    (\<forall>f. f \<noteq> fd \<longrightarrow> u_in t f = u_in s f)"
proof -
  obtain ps where ps: "u_in s fd = map Some ps" "[] \<notin> set ps" "concat ps = xs" using assms(1) by (auto simp: delivers_def)
  show ?thesis
  proof (cases ps)
    case Nil
    then show ?thesis using ps assms(1) by (auto simp: u_read_def)
  next
    case (Cons p qs)
    show ?thesis
    proof (cases "length p \<le> n")
      case True
      then show ?thesis using Cons ps by (auto simp: u_read_def delivers_def)
    next
      case False
      let ?t = "s\<lparr>u_in := (u_in s)(fd := Some (drop n p) # map Some qs)\<rparr>"
      have "delivers ?t fd (drop n p @ concat qs)"
        unfolding delivers_def using False Cons ps by (intro exI [of _ "drop n p # qs"]) auto
      moreover have "xs = take n p @ drop n p @ concat qs" using ps Cons by auto
      moreover have "take n p \<noteq> []" "xs \<noteq> []" using assms(2) False ps Cons by auto
      moreover have "u_read fd n s = ((int (length (take n p)), take n p), ?t)" using False Cons ps by (simp add: u_read_def)
      moreover have "length (take n p) \<le> n" by simp
      ultimately show ?thesis by (intro exI [of _ "take n p"] exI [of _ ?t]) auto
    qed
  qed
qed

lemma delivers_readE:
  assumes "delivers s fd xs" "0 < n"
  obtains ys t zs where "u_read fd n s = ((int (length ys), ys), t)" "length ys \<le> n" "ys = [] \<longleftrightarrow> xs = []" "xs = ys @ zs"
    "delivers t fd zs" "u_calls t = u_calls s" "u_werr t = u_werr s"
  using delivers_read [OF assms] by blast

end
