(* ===== verification/Ulib.thy ===== *)
theory Ulib
  imports User Sysfile
begin

text \<open>
  \<^verbatim>\<open>user/ulib.c\<close>. A pointer into an array is the list of the bytes from there to the end of the array; a
  read past the end gives NUL. Operations that write into an array return the array.
\<close>

section \<open>Strings\<close>

definition hd0 :: "u8 list \<Rightarrow> u8" where
  "hd0 xs = (case xs of [] \<Rightarrow> 0 | x # _ \<Rightarrow> x)"

fun u_strcpy :: "u8 list \<Rightarrow> u8 list \<Rightarrow> u8 list" where
  "u_strcpy [] t = []"
| "u_strcpy (x # s) [] = 0 # s"
| "u_strcpy (x # s) (c # t) = (if c \<noteq> 0 then c # u_strcpy s t else 0 # s)"

fun u_strcmp :: "u8 list \<Rightarrow> u8 list \<Rightarrow> int" where
  "u_strcmp [] q = - uint (hd0 q)"
| "u_strcmp (x # p) q = (if x \<noteq> 0 \<and> x = hd0 q then u_strcmp p (tl q) else uint x - uint (hd0 q))"

fun u_strlen :: "u8 list \<Rightarrow> nat" where
  "u_strlen [] = 0"
| "u_strlen (x # s) = (if x \<noteq> 0 then Suc (u_strlen s) else 0)"

fun u_strchr :: "u8 list \<Rightarrow> u8 \<Rightarrow> nat option" where
  "u_strchr [] c = None"
| "u_strchr (x # s) c = (if x = 0 then None else if x = c then Some 0 else map_option Suc (u_strchr s c))"

fun atoi_loop :: "u32 \<Rightarrow> u8 list \<Rightarrow> u32" where
  "atoi_loop n [] = n"
| "atoi_loop n (c # s) = (if 48 \<le> c \<and> c \<le> 57 then atoi_loop (n * 10 + ucast c - 48) s else n)"

definition u_atoi :: "u8 list \<Rightarrow> u32" where
  "u_atoi s = atoi_loop 0 s"

section \<open>Blocks of memory\<close>

definition u_memset :: "u8 list \<Rightarrow> int \<Rightarrow> nat \<Rightarrow> u8 list" where
  "u_memset dst c n = fold (\<lambda>i d. d[i := of_int c]) [0..<n] dst"

fun umove_up :: "nat \<Rightarrow> nat \<Rightarrow> nat \<Rightarrow> u8 list \<Rightarrow> u8 list" where
  "umove_up d s 0 a = a"
| "umove_up d s (Suc n) a = umove_up (d + 1) (s + 1) n (a[d := a ! s])"

fun umove_down :: "nat \<Rightarrow> nat \<Rightarrow> nat \<Rightarrow> u8 list \<Rightarrow> u8 list" where
  "umove_down d s 0 a = a"
| "umove_down d s (Suc n) a = umove_down (d - 1) (s - 1) n (a[d - 1 := a ! (s - 1)])"

text \<open>\<^verbatim>\<open>memmove\<close> within one array; the pointers are offsets.\<close>

definition u_memmove :: "nat \<Rightarrow> nat \<Rightarrow> int \<Rightarrow> u8 list \<Rightarrow> u8 list" where
  "u_memmove vdst vsrc n a =
     (if vsrc > vdst then umove_up vdst vsrc (nat n) a
      else if n \<le> 0 then a else umove_down (vdst + nat n) (vsrc + nat n) (nat n) a)"

definition u_memcpy :: "nat \<Rightarrow> nat \<Rightarrow> u32 \<Rightarrow> u8 list \<Rightarrow> u8 list" where
  "u_memcpy dst src n a = u_memmove dst src (sint n) a"

fun u_memcmp :: "u8 list \<Rightarrow> u8 list \<Rightarrow> nat \<Rightarrow> int" where
  "u_memcmp s1 s2 0 = 0"
| "u_memcmp s1 s2 (Suc n) =
     (if hd0 s1 \<noteq> hd0 s2 then uint (hd0 s1) - uint (hd0 s2) else u_memcmp (tl s1) (tl s2) n)"

section \<open>Input and files\<close>

text \<open>The loop of \<^verbatim>\<open>gets\<close>; \<open>k\<close> is how many more bytes fit.\<close>

fun gets_loop :: "nat \<Rightarrow> nat \<Rightarrow> u8 list \<Rightarrow> 'a user_scheme \<Rightarrow> (nat \<times> u8 list) \<times> 'a user_scheme" where
  "gets_loop 0 i buf s = ((i, buf), s)"
| "gets_loop (Suc k) i buf s =
     (case u_read 0 1 s of ((cc, bs), s1) \<Rightarrow>
        if cc < 1 then ((i, buf), s1)
        else let c = hd0 bs; buf1 = buf[i := c]
             in if c = 10 \<or> c = 13 then ((i + 1, buf1), s1) else gets_loop k (i + 1) buf1 s1)"

definition u_gets :: "u8 list \<Rightarrow> int \<Rightarrow> 'a user_scheme \<Rightarrow> u8 list \<times> 'a user_scheme" where
  "u_gets buf nbuf s = (case gets_loop (nat (nbuf - 1)) 0 buf s of ((i, buf1), s1) \<Rightarrow> (buf1[i := 0], s1))"

definition u_stat :: "u8 list \<Rightarrow> 'a user_scheme \<Rightarrow> (int \<times> int list, 'a user_scheme) uout" where
  "u_stat n s =
     ubnd (u_call (COpen n (uint O_RDONLY)) s) (\<lambda>(fd, _) s1.
       if fd < 0 then URet (-1, []) s1
       else ubnd (u_call (CFstat fd) s1) (\<lambda>(r, st) s2. ubnd (u_call (CClose fd) s2) (\<lambda>_ s3. URet (r, st) s3)))"

section \<open>Lemmas\<close>

lemma u_strlen_le: "u_strlen s \<le> length s"
  by (induction s) auto

lemma u_strlen_take: "0 \<notin> set (take (u_strlen s) s)"
  by (induction s) auto

lemma u_strlen_app: "0 \<notin> set xs \<Longrightarrow> u_strlen (xs @ ys) = length xs + u_strlen ys"
  by (induction xs) auto

lemma u_strlen_str [simp]: "0 \<notin> set xs \<Longrightarrow> u_strlen xs = length xs" "0 \<notin> set xs \<Longrightarrow> u_strlen (xs @ 0 # ys) = length xs"
  using u_strlen_app [of xs "[]"] u_strlen_app [of xs "0 # ys"] by simp_all

lemma u_strcpy_str:
  "0 \<notin> set t \<Longrightarrow> length t < length s \<Longrightarrow> u_strcpy s (t @ 0 # z) = t @ 0 # drop (Suc (length t)) s"
proof (induction t arbitrary: s)
  case Nil
  then show ?case by (cases s) simp_all
next
  case (Cons c t)
  then show ?case by (cases s) simp_all
qed

lemma u_strchr_None: "0 \<notin> set xs \<Longrightarrow> u_strchr (xs @ 0 # ys) c = None \<longleftrightarrow> c \<notin> set xs"
  by (induction xs) auto

lemma u_strchr_Some: "0 \<notin> set xs \<Longrightarrow> c \<noteq> 0 \<Longrightarrow> c \<notin> set xs \<Longrightarrow> u_strchr (xs @ c # ys) c = Some (length xs)"
  by (induction xs) auto

lemma u_strcmp_str:
  assumes "0 \<notin> set p" "0 \<notin> set q"
  shows "u_strcmp p q = 0 \<longleftrightarrow> p = q"
  using assms
proof (induction p arbitrary: q)
  case Nil
  then show ?case by (cases q) (auto simp: hd0_def uint_0_iff)
next
  case (Cons x p)
  then show ?case by (cases q) (auto simp: hd0_def uint_0_iff dest: word_uint_eqI)
qed

text \<open>\<^verbatim>\<open>memmove\<close> moves the bytes the source had before the call, also when the blocks overlap.\<close>

lemma umove_up_eq:
  "d \<le> s \<Longrightarrow> s + n \<le> length a \<Longrightarrow> umove_up d s n a = take d a @ take n (drop s a) @ drop (d + n) a"
proof (induction n arbitrary: d s a)
  case (Suc n)
  have "umove_up d s (Suc n) a = take (d + 1) (a[d := a ! s]) @ take n (drop (s + 1) (a[d := a ! s])) @ drop (d + 1 + n) (a[d := a ! s])"
    using Suc by simp
  also have "take (d + 1) (a[d := a ! s]) = take d a @ [a ! s]"
    using Suc.prems by (simp add: take_Suc_conv_app_nth)
  also have "take n (drop (s + 1) (a[d := a ! s])) = take n (drop (s + 1) a)" using Suc.prems by simp
  also have "drop (d + 1 + n) (a[d := a ! s]) = drop (d + Suc n) a" by simp
  also have "[a ! s] @ take n (drop (s + 1) a) = take (Suc n) (drop s a)"
    using Suc.prems by (simp add: Cons_nth_drop_Suc [symmetric])
  ultimately show ?case by simp
qed simp

lemma umove_down_eq:
  "s \<le> d \<Longrightarrow> d + n \<le> length a \<Longrightarrow> umove_down (d + n) (s + n) n a = take d a @ take n (drop s a) @ drop (d + n) a"
proof (induction n arbitrary: a)
  case (Suc n)
  let ?b = "a[d + n := a ! (s + n)]"
  have "umove_down (d + Suc n) (s + Suc n) (Suc n) a = take d ?b @ take n (drop s ?b) @ drop (d + n) ?b"
    using Suc by simp
  also have "take d ?b = take d a" by simp
  also have "take n (drop s ?b) = take n (drop s a)"
    using Suc.prems by (intro nth_equalityI) (auto simp: nth_list_update)
  also have "drop (d + n) ?b = a ! (s + n) # drop (d + Suc n) a"
    using Suc.prems by (simp add: upd_conv_take_nth_drop min_def)
  also have "take n (drop s a) @ a ! (s + n) # drop (d + Suc n) a = take (Suc n) (drop s a) @ drop (d + Suc n) a"
    using Suc.prems by (simp add: take_Suc_conv_app_nth)
  ultimately show ?case by simp
qed simp

lemma u_memmove_eq:
  assumes "d + n \<le> length a" "s + n \<le> length a"
  shows "u_memmove d s (int n) a = take d a @ take n (drop s a) @ drop (d + n) a"
  using assms umove_up_eq [of d s n a] umove_down_eq [of s d n a] by (auto simp: u_memmove_def)

end
