(* ===== verification/Uprintf.thy ===== *)
theory Uprintf
  imports Ulib
begin

text \<open>
  \<^verbatim>\<open>user/printf.c\<close>: formatted output of user programs, one \<^verbatim>\<open>write\<close> of one byte at a time.
\<close>

section \<open>Definitions\<close>

definition u_digits :: "u8 list" where
  "u_digits = bytes ''0123456789ABCDEF''"

definition u_putc :: "int \<Rightarrow> u8 \<Rightarrow> 'a user_scheme \<Rightarrow> 'a user_scheme" where
  "u_putc fd c s = snd (u_write fd [c] s)"

primrec u_puts :: "int \<Rightarrow> u8 list \<Rightarrow> 'a user_scheme \<Rightarrow> 'a user_scheme" where
  "u_puts fd [] s = s"
| "u_puts fd (c # cs) s = u_puts fd cs (u_putc fd c s)"

text \<open>The \<^verbatim>\<open>do\<close> loop of \<^verbatim>\<open>printint\<close>, least significant digit first.\<close>

function u_rev_digits :: "nat \<Rightarrow> nat \<Rightarrow> u8 list" where
  "u_rev_digits base x =
     u_digits ! (x mod base) # (if base < 2 \<or> x div base = 0 then [] else u_rev_digits base (x div base))"
  by pat_completeness auto
termination
  by (relation "measure snd") (auto simp: div_step)

declare u_rev_digits.simps [simp del]

definition u_printint :: "int \<Rightarrow> u32 \<Rightarrow> nat \<Rightarrow> bool \<Rightarrow> 'a user_scheme \<Rightarrow> 'a user_scheme" where
  "u_printint fd xx base sg s =
     (let neg = (sg \<and> sint xx < 0);
          x = (if neg then - xx else xx);
          buf = u_rev_digits base (unat x) @ (if neg then bytes ''-'' else [])
      in u_puts fd (rev buf) s)"

primrec u_hex_digits :: "nat \<Rightarrow> u64 \<Rightarrow> u8 list" where
  "u_hex_digits 0 x = []"
| "u_hex_digits (Suc n) x = u_digits ! unat (drop_bit 60 x) # u_hex_digits n (push_bit 4 x)"

definition u_printptr :: "int \<Rightarrow> u64 \<Rightarrow> 'a user_scheme \<Rightarrow> 'a user_scheme" where
  "u_printptr fd x s = u_puts fd (bytes ''0x'' @ u_hex_digits 16 x) s"

text \<open>The conversion for the character \<open>c\<close> after a percent sign, and the arguments that are left.\<close>

definition u_conv :: "int \<Rightarrow> u8 \<Rightarrow> vararg list \<Rightarrow> 'a user_scheme \<Rightarrow> vararg list \<times> 'a user_scheme" where
  "u_conv fd c ap s =
     (if c = 0x64 then (tl ap, u_printint fd (va_int ap) 10 True s)
      else if c = 0x6c then (tl ap, u_printint fd (ucast (va_ptr ap)) 10 False s)
      else if c = 0x78 then (tl ap, u_printint fd (va_int ap) 16 False s)
      else if c = 0x70 then (tl ap, u_printptr fd (va_ptr ap) s)
      else if c = 0x73 then
        (tl ap, u_puts fd (case va_str ap of None \<Rightarrow> bytes ''(null)'' | Some t \<Rightarrow> t) s)
      else if c = 0x63 then (tl ap, u_putc fd (ucast (va_int ap)) s)
      else if c = 0x25 then (ap, u_putc fd c s)
      else (ap, u_putc fd c (u_putc fd 0x25 s)))"

fun vprintf_loop :: "int \<Rightarrow> bool \<Rightarrow> u8 list \<Rightarrow> vararg list \<Rightarrow> 'a user_scheme \<Rightarrow> 'a user_scheme" where
  "vprintf_loop fd st [] ap s = s"
| "vprintf_loop fd False (c # fmt) ap s =
     (if c = 0x25 then vprintf_loop fd True fmt ap s else vprintf_loop fd False fmt ap (u_putc fd c s))"
| "vprintf_loop fd True (c # fmt) ap s =
     (case u_conv fd c ap s of (ap1, s1) \<Rightarrow> vprintf_loop fd False fmt ap1 s1)"

definition u_vprintf :: "int \<Rightarrow> u8 list \<Rightarrow> vararg list \<Rightarrow> 'a user_scheme \<Rightarrow> 'a user_scheme" where
  "u_vprintf fd fmt ap s = vprintf_loop fd False fmt ap s"

definition u_fprintf :: "int \<Rightarrow> string \<Rightarrow> vararg list \<Rightarrow> 'a user_scheme \<Rightarrow> 'a user_scheme" where
  "u_fprintf fd fmt ap s = u_vprintf fd (bytes fmt) ap s"

definition u_printf :: "string \<Rightarrow> vararg list \<Rightarrow> 'a user_scheme \<Rightarrow> 'a user_scheme" where
  "u_printf fmt ap s = u_vprintf 1 (bytes fmt) ap s"

section \<open>What is written\<close>

lemma u_putc_writes: "u_werr s = [] \<Longrightarrow> u_putc fd c s = s\<lparr>u_calls := u_calls s @ [CWrite fd [c]]\<rparr>"
  by (simp add: u_putc_def u_write_def)

lemma u_puts_writes: "u_werr s = [] \<Longrightarrow> u_puts fd cs s = s\<lparr>u_calls := u_calls s @ map (\<lambda>c. CWrite fd [c]) cs\<rparr>"
  by (induction cs arbitrary: s) (simp_all add: u_putc_writes)

lemma u_puts_werr [simp]: "u_werr s = [] \<Longrightarrow> u_werr (u_putc fd c s) = []" "u_werr s = [] \<Longrightarrow> u_werr (u_puts fd cs s) = []"
  by (simp_all add: u_putc_writes u_puts_writes)

lemma u_puts_app: "u_puts fd (xs @ ys) s = u_puts fd ys (u_puts fd xs s)"
  by (induction xs arbitrary: s) simp_all

text \<open>The decimal digits are those of the kernel's \<^verbatim>\<open>printint\<close>.\<close>

lemma u_digits_10: "k < 10 \<Longrightarrow> u_digits ! k = digits ! k"
proof -
  assume "k < 10"
  then have "k \<in> {0, 1, 2, 3, 4, 5, 6, 7, 8, 9}" by auto
  then show ?thesis by (auto simp: u_digits_def digits_def bytes_def)
qed

lemma u_rev_digits_10: "u_rev_digits 10 x = rev_digits 10 x"
proof (induction x rule: less_induct)
  case (less x)
  show ?case
  proof (cases "x div 10 = 0")
    case False
    then have "u_rev_digits 10 (x div 10) = rev_digits 10 (x div 10)" by (intro less.IH) (simp add: div_less_dividend)
    then show ?thesis by (subst u_rev_digits.simps, subst rev_digits.simps) (simp add: u_digits_10)
  qed (subst u_rev_digits.simps, subst rev_digits.simps, simp add: u_digits_10)
qed

text \<open>Formats whose conversions the kernel's \<^verbatim>\<open>printf\<close> treats alike: not the four that only one of the two knows or that differ.\<close>

fun common_fmt :: "u8 list \<Rightarrow> bool" where
  "common_fmt [] = True"
| "common_fmt [c] = True"
| "common_fmt (c # d # fmt) = (if c \<noteq> 0x25 then common_fmt (d # fmt) else d \<notin> {0x6c, 0x63, 0x78, 0x70} \<and> common_fmt fmt)"

lemma vprintf_writes:
  "u_werr s = [] \<Longrightarrow> common_fmt fmt \<Longrightarrow> vprintf_loop fd False fmt ap s = u_puts fd (format_text fmt ap) s"
proof (induction fmt ap arbitrary: s rule: format_text.induct)
  case (3 c d fmt ap)
  show ?case
  proof (cases "c = 0x25")
    case False
    then show ?thesis using 3(1,8,9) by simp
  next
    case True
    have "u_printint fd x 10 True s = u_puts fd (rev (printint_buf x 10 True)) s" for x
      by (simp add: u_printint_def printint_buf_def Let_def u_rev_digits_10)
    then show ?thesis using True 3 by (simp add: u_conv_def u_puts_app)
  qed
qed simp_all


definition new_user :: user where
  "new_user = \<lparr>u_in = (\<lambda>_. []), u_werr = [], u_ans = [], u_calls = []\<rparr>"


end
