(* ===== verification/Grep.thy ===== *)
theory Grep
  imports Uprintf
begin

text \<open>
  \<^verbatim>\<open>user/grep.c\<close>: the pattern matcher against a declarative meaning of patterns, and the loop that reads
  its input in pieces against the lines of the whole input.
\<close>

section \<open>The matcher\<close>

function (sequential) matchhere :: "u8 list \<Rightarrow> u8 list \<Rightarrow> bool"
  and matchstar :: "u8 \<Rightarrow> u8 list \<Rightarrow> u8 list \<Rightarrow> bool" where
  "matchhere re tx =
     (if hd0 re = 0 then True
      else if hd0 (tl re) = 0x2a then matchstar (hd0 re) (tl (tl re)) tx
      else if hd0 re = 0x24 \<and> hd0 (tl re) = 0 then hd0 tx = 0
      else if hd0 tx \<noteq> 0 \<and> (hd0 re = 0x2e \<or> hd0 re = hd0 tx) then matchhere (tl re) (tl tx)
      else False)"
| "matchstar c re tx =
     (if matchhere re tx then True
      else if hd0 tx \<noteq> 0 \<and> (hd0 tx = c \<or> c = 0x2e) then matchstar c re (tl tx)
      else False)"
  by pat_completeness auto
termination
proof (relation "measure (\<lambda>x. case x of Inl (re, t) \<Rightarrow> 2 * (length re + length t) | Inr (c, re, t) \<Rightarrow> Suc (2 * (length re + length t)))")
  fix re t :: "u8 list"
  assume "hd0 (tl re) = 0x2a"
  then have "2 \<le> length re" by (cases re) (auto simp: hd0_def Suc_le_eq split: list.splits)
  then show "(Inr (hd0 re, tl (tl re), t), Inl (re, t)) \<in> measure (\<lambda>x. case x of Inl (re, t) \<Rightarrow> 2 * (length re + length t)
    | Inr (c, re, t) \<Rightarrow> Suc (2 * (length re + length t)))" by simp
next
  fix re t :: "u8 list"
  assume "hd0 re \<noteq> 0"
  then obtain c cs where "re = c # cs" by (cases re) (auto simp: hd0_def)
  then show "(Inl (tl re, tl t), Inl (re, t)) \<in> measure (\<lambda>x. case x of Inl (re, t) \<Rightarrow> 2 * (length re + length t)
    | Inr (c, re, t) \<Rightarrow> Suc (2 * (length re + length t)))" by simp
next
  fix c :: u8 and re t :: "u8 list"
  assume "hd0 t \<noteq> 0 \<and> (hd0 t = c \<or> c = 0x2e)"
  then have "0 < length t" by (auto simp: hd0_def)
  then show "(Inr (c, re, tl t), Inr (c, re, t)) \<in> measure (\<lambda>x. case x of Inl (re, t) \<Rightarrow> 2 * (length re + length t)
    | Inr (c, re, t) \<Rightarrow> Suc (2 * (length re + length t)))" by simp
qed simp_all

declare matchhere.simps [simp del] matchstar.simps [simp del]

text \<open>The \<^verbatim>\<open>do\<close> loop of \<^verbatim>\<open>match\<close> tries every suffix, the empty one included.\<close>

function match_loop :: "u8 list \<Rightarrow> u8 list \<Rightarrow> bool" where
  "match_loop re tx = (if matchhere re tx then True else if hd0 tx \<noteq> 0 then match_loop re (tl tx) else False)"
  by pat_completeness auto
termination
  by (relation "measure (length \<circ> snd)") (auto simp: hd0_def split: list.splits)

declare match_loop.simps [simp del]

definition grep_match :: "u8 list \<Rightarrow> u8 list \<Rightarrow> bool" where
  "grep_match re tx = (if hd0 re = 0x5e then matchhere (tl re) tx else match_loop re tx)"

section \<open>The program\<close>

definition GREP_BUF :: nat where
  "GREP_BUF = 1024"

lemma u_strchr_bound: "u_strchr xs c = Some k \<Longrightarrow> k < length xs"
  by (induction xs arbitrary: k) (auto split: if_splits)

text \<open>The inner loop, over the complete lines in the buffer from \<open>p\<close> on.\<close>

function grep_lines :: "u8 list \<Rightarrow> nat \<Rightarrow> u8 list \<Rightarrow> 'a user_scheme \<Rightarrow> nat \<times> u8 list \<times> 'a user_scheme" where
  "grep_lines pattern p buf s =
     (case u_strchr (drop p buf) 10 of
        None \<Rightarrow> (p, buf, s)
      | Some k \<Rightarrow>
          let q = p + k; buf1 = buf[q := 0]
          in if grep_match pattern (drop p buf1)
             then let buf2 = buf1[q := 10]
                  in grep_lines pattern (q + 1) buf2 (snd (u_write 1 (take (q + 1 - p) (drop p buf2)) s))
             else grep_lines pattern (q + 1) buf1 s)"
  by pat_completeness auto
termination
  by (relation "measure (\<lambda>(pattern, p, buf, s). length buf - p)") (auto dest: u_strchr_bound)

declare grep_lines.simps [simp del]

lemma u_write_in [simp]: "u_in (snd (u_write fd bs s)) = u_in s"
  by (simp add: u_write_def Let_def split: list.splits)

lemma grep_lines_in: "u_in (snd (snd (grep_lines pattern p buf s))) = u_in s"
proof (induction pattern p buf s rule: grep_lines.induct)
  case (1 pattern p buf s)
  show ?case
  proof (cases "u_strchr (drop p buf) 10")
    case None
    then show ?thesis by (simp add: grep_lines.simps)
  next
    case (Some k)
    then show ?thesis using 1 [OF Some refl refl] by (subst grep_lines.simps) (simp add: Let_def)
  qed
qed

lemma grep_lines_unread:
  assumes "u_read fd k s = ((n, bs), s1)" "0 < n" "grep_lines pattern p buf s1 = (q, buf1, s2)"
  shows "unread fd s2 < unread fd s"
proof -
  have "unread fd s2 = unread fd s1" using grep_lines_in [of pattern p buf s1] assms(3) by (simp add: unread_def)
  then show ?thesis using u_read_unread [OF assms(1,2)] by simp
qed

function grep_loop :: "u8 list \<Rightarrow> int \<Rightarrow> nat \<Rightarrow> u8 list \<Rightarrow> 'a user_scheme \<Rightarrow> u8 list \<times> 'a user_scheme" where
  "grep_loop pattern fd m buf s =
     (case u_read fd (GREP_BUF - m - 1) s of ((n, bs), s1) \<Rightarrow>
        if n > 0 then
          let m1 = m + nat n;
              buf1 = (take m buf @ bs @ drop m1 buf)[m1 := 0]
          in case grep_lines pattern 0 buf1 s1 of (p, buf2, s2) \<Rightarrow>
               if m1 > 0 then grep_loop pattern fd (m1 - p) (u_memmove 0 p (int (m1 - p)) buf2) s2
               else grep_loop pattern fd m1 buf2 s2
        else (buf, s1))"
  by pat_completeness auto
termination
  by (relation "measure (\<lambda>(pattern, fd, m, buf, s). unread fd s)") (auto dest: grep_lines_unread [OF sym _ sym])

declare grep_loop.simps [simp del]

definition grep :: "u8 list \<Rightarrow> int \<Rightarrow> u8 list \<Rightarrow> 'a user_scheme \<Rightarrow> u8 list \<times> 'a user_scheme" where
  "grep pattern fd buf s = grep_loop pattern fd 0 buf s"

fun grep_files :: "u8 list \<Rightarrow> u8 list list \<Rightarrow> u8 list \<Rightarrow> 'a user_scheme \<Rightarrow> (unit, 'a user_scheme) uout" where
  "grep_files pattern [] buf s = UExit 0 s"
| "grep_files pattern (f # fs) buf s =
     ubnd (u_call (COpen f 0) s) (\<lambda>(fd, _) s1.
       if fd < 0 then UExit 1 (u_printf (''grep: cannot open %s'' @ [CHR 0x0A]) [VStr (Some f)] s1)
       else case grep pattern fd buf s1 of (buf1, s2) \<Rightarrow>
              ubnd (u_call (CClose fd) s2) (\<lambda>_ s3. grep_files pattern fs buf1 s3))"

definition grep_main :: "u8 list list \<Rightarrow> 'a user_scheme \<Rightarrow> (unit, 'a user_scheme) uout" where
  "grep_main argv s =
     (if length argv \<le> 1 then UExit 1 (u_fprintf 2 (''usage: grep pattern [file ...]'' @ [CHR 0x0A]) [] s)
      else let pattern = argv ! 1
           in if length argv \<le> 2 then UExit 0 (snd (grep pattern 0 (replicate GREP_BUF 0) s))
              else grep_files pattern (drop 2 argv) (replicate GREP_BUF 0) s)"

section \<open>What a pattern means\<close>

text \<open>
  A pattern is a list of items: one byte, any number of bytes, or the end of the line; a dot stands for
  every byte. \<open>matches_at ps mid rest\<close>: the items match \<open>mid\<close> when \<open>rest\<close> follows.
\<close>

datatype item = One u8 | Many u8 | Finish

fun items :: "u8 list \<Rightarrow> item list" where
  "items [] = []"
| "items [c] = (if c = 0x24 then [Finish] else [One c])"
| "items (c # d # re) = (if d = 0x2a then Many c # items re else One c # items (d # re))"

definition sat :: "u8 \<Rightarrow> u8 \<Rightarrow> bool" where
  "sat c x \<longleftrightarrow> c = 0x2e \<or> c = x"

inductive matches_at :: "item list \<Rightarrow> u8 list \<Rightarrow> u8 list \<Rightarrow> bool" where
  at_end: "matches_at [] [] rest"
| at_one: "sat c x \<Longrightarrow> matches_at ps mid rest \<Longrightarrow> matches_at (One c # ps) (x # mid) rest"
| at_many: "list_all (sat c) w \<Longrightarrow> matches_at ps mid rest \<Longrightarrow> matches_at (Many c # ps) (w @ mid) rest"
| at_finish: "matches_at [Finish] [] []"

inductive_simps matches_at_Nil: "matches_at [] mid rest"
inductive_simps matches_at_One: "matches_at (One c # ps) mid rest"
inductive_simps matches_at_Many: "matches_at (Many c # ps) mid rest"
inductive_simps matches_at_Finish: "matches_at (Finish # ps) mid rest"

definition prefix_matches :: "item list \<Rightarrow> u8 list \<Rightarrow> bool" where
  "prefix_matches ps tx \<longleftrightarrow> (\<exists>mid rest. tx = mid @ rest \<and> matches_at ps mid rest)"

lemma prefix_matches_simps:
  "prefix_matches [] tx"
  "prefix_matches (One c # ps) tx \<longleftrightarrow> (\<exists>x t. tx = x # t \<and> sat c x \<and> prefix_matches ps t)"
  "prefix_matches (Many c # ps) tx \<longleftrightarrow> (\<exists>w t. tx = w @ t \<and> list_all (sat c) w \<and> prefix_matches ps t)"
  "prefix_matches [Finish] tx \<longleftrightarrow> tx = []"
proof -
  show "prefix_matches [] tx" unfolding prefix_matches_def by (intro exI [of _ "[]"] exI [of _ tx]) (simp add: matches_at_Nil)
  show "prefix_matches (One c # ps) tx \<longleftrightarrow> (\<exists>x t. tx = x # t \<and> sat c x \<and> prefix_matches ps t)"
    unfolding prefix_matches_def matches_at_One by (metis append_Cons)
  show "prefix_matches (Many c # ps) tx \<longleftrightarrow> (\<exists>w t. tx = w @ t \<and> list_all (sat c) w \<and> prefix_matches ps t)"
    unfolding prefix_matches_def matches_at_Many by (metis append.assoc)
  show "prefix_matches [Finish] tx \<longleftrightarrow> tx = []"
    unfolding prefix_matches_def matches_at_Finish by auto
qed

lemma many_step:
  "prefix_matches (Many c # ps) tx \<longleftrightarrow>
   prefix_matches ps tx \<or> (\<exists>x t. tx = x # t \<and> sat c x \<and> prefix_matches (Many c # ps) t)" (is "?L \<longleftrightarrow> ?R")
proof
  assume ?L
  then obtain w t where w: "tx = w @ t" "list_all (sat c) w" "prefix_matches ps t" by (auto simp: prefix_matches_simps)
  show ?R
  proof (cases w)
    case (Cons x v)
    then have "tx = x # (v @ t)" "sat c x" "prefix_matches (Many c # ps) (v @ t)" using w by (auto simp: prefix_matches_simps)
    then show ?thesis by blast
  qed (use w in simp)
next
  assume ?R
  then show ?L
  proof (elim disjE exE conjE)
    assume "prefix_matches ps tx"
    then show ?L by (auto simp: prefix_matches_simps intro: exI [of _ "[]"])
  next
    fix x t assume "tx = x # t" "sat c x" "prefix_matches (Many c # ps) t"
    then show ?L by (auto simp: prefix_matches_simps) (metis append_Cons list.pred_inject(2))
  qed
qed

text \<open>A C string ends at the first NUL.\<close>

definition str :: "u8 list \<Rightarrow> u8 list" where
  "str xs = takeWhile (\<lambda>x. x \<noteq> 0) xs"

lemma str_hd0: "hd0 xs = 0 \<longleftrightarrow> str xs = []" "hd0 xs \<noteq> 0 \<Longrightarrow> str xs = hd0 xs # str (tl xs)"
  by (cases xs, simp_all add: str_def hd0_def)+

lemma str_nul [simp]: "0 \<notin> set xs \<Longrightarrow> str (xs @ 0 # ys) = xs" "0 \<notin> set xs \<Longrightarrow> str xs = xs"
  unfolding str_def by (induction xs) simp_all

lemma matcher_meaning:
  "matchhere re tx \<longleftrightarrow> prefix_matches (items (str re)) (str tx)"
  "matchstar c re tx \<longleftrightarrow> prefix_matches (Many c # items (str re)) (str tx)"
proof (induction re tx and c re tx rule: matchhere_matchstar.induct)
  case (1 re tx)
  show ?case
  proof (cases "hd0 re = 0")
    case True
    then show ?thesis using str_hd0(1) [of re] by (simp add: matchhere.simps prefix_matches_simps)
  next
    case c: False
    have re: "str re = hd0 re # str (tl re)" using c by (rule str_hd0(2))
    show ?thesis
    proof (cases "hd0 (tl re) = 0x2a")
      case True
      then have "str re = hd0 re # 0x2a # str (tl (tl re))" using re str_hd0(2) [of "tl re"] by simp
      then show ?thesis using 1(1) [OF c True] c True by (simp add: matchhere.simps)
    next
      case star: False
      show ?thesis
      proof (cases "hd0 re = 0x24 \<and> hd0 (tl re) = 0")
        case True
        then have "items (str re) = [Finish]" using re str_hd0(1) [of "tl re"] by simp
        then show ?thesis using True by (simp add: matchhere.simps prefix_matches_simps str_hd0(1) [of tx])
      next
        case False
        have it: "items (str re) = One (hd0 re) # items (str (tl re))"
          using re star False str_hd0(1) [of "tl re"] str_hd0(2) [of "tl re"] by (cases "str (tl re)") auto
        have "matchhere re tx \<longleftrightarrow> hd0 tx \<noteq> 0 \<and> sat (hd0 re) (hd0 tx) \<and> matchhere (tl re) (tl tx)"
          using c star False by (subst matchhere.simps) (auto simp: sat_def)
        also have "\<dots> \<longleftrightarrow> prefix_matches (items (str re)) (str tx)"
          using 1(2) [OF c star False] str_hd0(1) [of tx] str_hd0(2) [of tx]
          by (cases "hd0 tx = 0") (auto simp: it prefix_matches_simps sat_def)
        finally show ?thesis .
      qed
    qed
  qed
next
  case (2 c re tx)
  have "matchstar c re tx \<longleftrightarrow> matchhere re tx \<or> hd0 tx \<noteq> 0 \<and> sat c (hd0 tx) \<and> matchstar c re (tl tx)"
    by (subst matchstar.simps) (auto simp: sat_def)
  also have "\<dots> \<longleftrightarrow> prefix_matches (items (str re)) (str tx) \<or>
      (\<exists>x t. str tx = x # t \<and> sat c x \<and> prefix_matches (Many c # items (str re)) t)"
  proof (cases "matchhere re tx")
    case False
    then show ?thesis
      using 2 str_hd0(1) [of tx] str_hd0(2) [of tx] by (cases "hd0 tx = 0") (auto simp: sat_def)
  qed (use 2(1) in simp)
  also have "\<dots> \<longleftrightarrow> prefix_matches (Many c # items (str re)) (str tx)" by (rule many_step [symmetric])
  finally show ?case .
qed

lemma match_loop_meaning: "match_loop re tx \<longleftrightarrow> (\<exists>a b. str tx = a @ b \<and> prefix_matches (items (str re)) b)"
proof (induction re tx rule: match_loop.induct)
  case (1 re tx)
  show ?case
  proof (cases "hd0 tx = 0")
    case True
    then show ?thesis using str_hd0(1) [of tx] by (subst match_loop.simps) (auto simp: matcher_meaning)
  next
    case False
    then have tx: "str tx = hd0 tx # str (tl tx)" by (rule str_hd0(2))
    have "match_loop re tx \<longleftrightarrow> prefix_matches (items (str re)) (str tx) \<or> match_loop re (tl tx)"
      using False by (subst match_loop.simps) (simp add: matcher_meaning)
    also have "match_loop re (tl tx) \<longleftrightarrow> (\<exists>a b. str (tl tx) = a @ b \<and> prefix_matches (items (str re)) b)"
      if "\<not> prefix_matches (items (str re)) (str tx)" using 1 False that by (simp add: matcher_meaning)
    then have "prefix_matches (items (str re)) (str tx) \<or> match_loop re (tl tx) \<longleftrightarrow>
      (\<exists>a b. str tx = a @ b \<and> prefix_matches (items (str re)) b)"
      unfolding tx by (auto simp: Cons_eq_append_conv)
    finally show ?thesis .
  qed
qed

text \<open>
  Property C30. The matcher implements the meaning of patterns: \<^verbatim>\<open>match(re, text)\<close> returns true exactly if some
  part of the text matches the items of the pattern (a byte, a dot for any byte, a star for any number of the byte before it, a
  final dollar for the end of the text), and with a leading caret exactly if a part at the beginning of the text does.
\<close>

theorem grep_match_meaning:
  "grep_match re tx \<longleftrightarrow>
   (if hd0 re = 0x5e then \<exists>mid rest. str tx = mid @ rest \<and> matches_at (items (str (tl re))) mid rest
    else \<exists>before mid rest. str tx = before @ mid @ rest \<and> matches_at (items (str re)) mid rest)"
proof -
  have "(\<exists>a b. str tx = a @ b \<and> prefix_matches ps b) \<longleftrightarrow> (\<exists>before mid rest. str tx = before @ mid @ rest \<and> matches_at ps mid rest)" for ps
    unfolding prefix_matches_def by blast
  then show ?thesis by (simp add: grep_match_def matcher_meaning match_loop_meaning prefix_matches_def)
qed

section \<open>Lines\<close>

text \<open>The complete lines of a text, without their newlines, and the bytes after the last newline.\<close>

fun lines_of :: "u8 list \<Rightarrow> u8 list \<Rightarrow> u8 list list \<times> u8 list" where
  "lines_of acc [] = ([], acc)"
| "lines_of acc (x # xs) =
     (if x = 10 then (case lines_of [] xs of (ls, r) \<Rightarrow> (acc # ls, r)) else lines_of (acc @ [x]) xs)"

lemma lines_of_acc: "10 \<notin> set ys \<Longrightarrow> lines_of acc (ys @ xs) = lines_of (acc @ ys) xs"
  by (induction ys arbitrary: acc) auto

lemma lines_of_line: "10 \<notin> set l \<Longrightarrow> lines_of [] (l @ 10 # xs) = (case lines_of [] xs of (ls, r) \<Rightarrow> (l # ls, r))"
  using lines_of_acc [of l "[]"] by simp

lemma lines_of_none: "10 \<notin> set l \<Longrightarrow> lines_of [] l = ([], l)"
  using lines_of_acc [of l "[]" "[]"] by simp

lemma lines_of_app:
  "lines_of acc (xs @ ys) = (case lines_of acc xs of (ls, r) \<Rightarrow> case lines_of r ys of (ls', r') \<Rightarrow> (ls @ ls', r'))"
  by (induction acc xs rule: lines_of.induct) (auto split: prod.splits)

lemma lines_of_no_newline: "10 \<notin> set acc \<Longrightarrow> lines_of acc xs = (ls, r) \<Longrightarrow> 10 \<notin> set r"
  by (induction acc xs arbitrary: ls r rule: lines_of.induct) (auto split: prod.splits if_splits)

lemma lines_of_length: "lines_of acc xs = (ls, r) \<Longrightarrow> length r \<le> length acc + length xs \<and> set r \<subseteq> set acc \<union> set xs"
  by (induction acc xs arbitrary: ls r rule: lines_of.induct) (fastforce split: prod.splits if_splits)+

definition grep_out :: "u8 list \<Rightarrow> u8 list list \<Rightarrow> call list" where
  "grep_out pattern ls = map (\<lambda>l. CWrite 1 (l @ [10])) (filter (grep_match pattern) ls)"

text \<open>One pass over a buffer that holds \<open>xs\<close>, a NUL and other bytes, after the part already done.\<close>

lemma grep_match_nul: "0 \<notin> set l \<Longrightarrow> grep_match pattern (l @ 0 # z) = grep_match pattern l"
  by (simp add: grep_match_meaning)

lemma grep_lines_eq:
  assumes "0 \<notin> set xs" "u_werr s = []" "lines_of [] xs = (ls, r)"
  shows "\<exists>b. grep_lines pattern (length a) (a @ xs @ 0 # z) s =
    (length a + length xs - length r, b @ r @ 0 # z, s\<lparr>u_calls := u_calls s @ grep_out pattern ls\<rparr>) \<and>
    length b = length a + length xs - length r \<and> length r \<le> length xs"
  using assms
proof (induction xs arbitrary: a s ls rule: length_induct)
  case (1 xs)
  show ?case
  proof (cases "10 \<in> set xs")
    case False
    then have "ls = []" "r = xs" using lines_of_none 1(4) by auto
    then show ?thesis using u_strchr_None [OF 1(2), of z 10] False
      by (intro exI [of _ a]) (simp add: grep_lines.simps grep_out_def)
  next
    case True
    then obtain l ys where xs: "xs = l @ 10 # ys" "10 \<notin> set l" by (meson split_list_first)
    obtain ls' where ls: "ls = l # ls'" "lines_of [] ys = (ls', r)"
      using 1(4) lines_of_line [OF xs(2)] by (auto simp: xs(1) split: prod.splits)
    have z0: "0 \<notin> set l" "0 \<notin> set ys" using 1(2) xs(1) by auto
    have chr: "u_strchr (drop (length a) (a @ xs @ 0 # z)) 10 = Some (length l)"
      using u_strchr_Some [OF z0(1) _ xs(2)] xs(1) by simp
    let ?m = "grep_match pattern l"
    let ?c = "if ?m then 10 else 0 :: u8"
    let ?s = "if ?m then s\<lparr>u_calls := u_calls s @ [CWrite 1 (l @ [10])]\<rparr> else s"
    have up: "(a @ l @ 10 # ys @ 0 # z)[length a + length l := x] = a @ l @ x # ys @ 0 # z" for x
      using list_update_append [of "a @ l" "10 # ys @ 0 # z" "length a + length l" x] by simp
    have up2: "(a @ l @ 0 # ys @ 0 # z)[length a + length l := 10] = a @ l @ 10 # ys @ 0 # z"
      using list_update_append [of "a @ l" "0 # ys @ 0 # z" "length a + length l" 10] by simp
    have step: "grep_lines pattern (length a) (a @ xs @ 0 # z) s =
      grep_lines pattern (length (a @ l @ [?c])) ((a @ l @ [?c]) @ ys @ 0 # z) ?s"
      using chr 1(3) z0 by (subst grep_lines.simps) (simp add: xs(1) up up2 grep_match_nul u_write_def Let_def)
    have ok: "u_werr ?s = []" using 1(3) by simp
    have "length ys < length xs" using xs(1) by simp
    from 1(1) [rule_format, OF this z0(2) ok ls(2), of "a @ l @ [?c]"] obtain b where
      b: "grep_lines pattern (length (a @ l @ [?c])) ((a @ l @ [?c]) @ ys @ 0 # z) ?s =
        (length (a @ l @ [?c]) + length ys - length r, b @ r @ 0 # z, ?s\<lparr>u_calls := u_calls ?s @ grep_out pattern ls'\<rparr>)"
      "length b = length (a @ l @ [?c]) + length ys - length r" "length r \<le> length ys" by blast
    have "?s\<lparr>u_calls := u_calls ?s @ grep_out pattern ls'\<rparr> = s\<lparr>u_calls := u_calls s @ grep_out pattern ls\<rparr>"
      by (simp add: grep_out_def ls(1))
    then show ?thesis using step b xs(1) by (intro exI [of _ b]) simp
  qed
qed

lemma lines_of_first: "lines_of acc xs = (ls, r) \<Longrightarrow> length acc \<le> length (hd (ls @ [r]))"
  by (induction acc xs arbitrary: ls r rule: lines_of.induct) (fastforce split: prod.splits if_splits)+

definition short_lines :: "u8 list list \<times> u8 list \<Rightarrow> bool" where
  "short_lines p \<longleftrightarrow> list_all (\<lambda>l. length l < GREP_BUF - 1) (fst p @ [snd p])"

lemma grep_loop_eq:
  assumes "delivers s fd xs" "u_werr s = []" "length buf = GREP_BUF" "take m buf = acc" "length acc = m" "0 \<notin> set (acc @ xs)"
    "10 \<notin> set acc" "lines_of acc xs = (ls, r)" "short_lines (ls, r)"
  shows "u_calls (snd (grep_loop pattern fd m buf s)) = u_calls s @ grep_out pattern ls"
  using assms
proof (induction xs arbitrary: s buf m acc ls rule: length_induct)
  case (1 xs)
  have acc: "length acc < GREP_BUF - 1" using lines_of_first [OF 1(9)] 1(10) by (cases ls) (auto simp: short_lines_def)
  then have room: "0 < GREP_BUF - m - 1" using 1(6) by simp
  obtain ys t zs where rd: "u_read fd (GREP_BUF - m - 1) s = ((int (length ys), ys), t)" "length ys \<le> GREP_BUF - m - 1"
    "ys = [] \<longleftrightarrow> xs = []" "xs = ys @ zs" "delivers t fd zs" "u_calls t = u_calls s" "u_werr t = u_werr s"
    using delivers_read [OF 1(2), of "GREP_BUF - m - 1"] room by blast
  show ?case
  proof (cases "xs = []")
    case True
    then have "ls = []" using 1(9) by simp
    then show ?thesis using rd(1,3,6) True by (subst grep_loop.simps) (simp add: grep_out_def)
  next
    case False
    let ?m = "m + length ys" and ?z = "drop (Suc (m + length ys)) buf"
    obtain ls1 r1 where l1: "lines_of acc ys = (ls1, r1)" by fastforce
    obtain ls2 where l2: "lines_of r1 zs = (ls2, r)" "ls = ls1 @ ls2"
      using 1(9) lines_of_app [of acc ys zs] by (auto simp: rd(4) l1 split: prod.splits)
    have fits: "?m < GREP_BUF" using rd(2) acc 1(6) by simp
    have buf1: "(take m buf @ ys @ drop ?m buf)[?m := 0] = [] @ (acc @ ys) @ 0 # ?z"
      using fits 1(4-6) by (simp add: list_update_append Cons_nth_drop_Suc [symmetric])
    have n0: "0 \<notin> set (acc @ ys)" using 1(7) rd(4) by auto
    have "lines_of [] (acc @ ys) = (ls1, r1)" using lines_of_acc [OF 1(8), of "[]" ys] l1 by simp
    from grep_lines_eq [OF n0 _ this, of t pattern "[]" ?z] obtain b where
      b: "grep_lines pattern 0 ([] @ (acc @ ys) @ 0 # ?z) t = (?m - length r1, b @ r1 @ 0 # ?z, t\<lparr>u_calls := u_calls t @ grep_out pattern ls1\<rparr>)"
      "length b = ?m - length r1" "length r1 \<le> ?m" using 1(3,6) rd(7) by auto
    let ?t = "t\<lparr>u_calls := u_calls t @ grep_out pattern ls1\<rparr>" and ?b = "b @ r1 @ 0 # ?z"
    have len: "length ?b = GREP_BUF" using b fits 1(4) by simp
    let ?b2 = "u_memmove 0 (?m - length r1) (int (length r1)) ?b"
    have b2: "?b2 = take (length r1) (drop (?m - length r1) ?b) @ drop (length r1) ?b"
      using u_memmove_eq [of 0 "length r1" ?b "?m - length r1"] len b fits by simp
    have "grep_loop pattern fd m buf s = grep_loop pattern fd (length r1) ?b2 ?t"
      using rd(1,3) False b 1(4) by (subst grep_loop.simps) (simp add: buf1 [simplified] Let_def)
    moreover have "u_calls (snd (grep_loop pattern fd (length r1) ?b2 ?t)) = u_calls ?t @ grep_out pattern ls2"
    proof (rule 1(1) [rule_format, of zs ?t ?b2 "length r1" r1])
      show "length zs < length xs" using rd(3,4) False by simp
      show "delivers ?t fd zs" using rd(5) by (simp add: delivers_def)
      show "u_werr ?t = []" using rd(7) 1(3) by simp
      show "length ?b2 = GREP_BUF" using b2 len b by simp
      show "take (length r1) ?b2 = r1" using b2 b by simp
      show "0 \<notin> set (r1 @ zs)" using lines_of_length [OF l1] 1(7) rd(4) by auto
      show "10 \<notin> set r1" using lines_of_no_newline [OF 1(8) l1] .
      show "lines_of r1 zs = (ls2, r)" by (rule l2(1))
      show "short_lines (ls2, r)" using 1(10) l2(2) by (simp add: short_lines_def)
    qed simp
    ultimately show ?thesis using rd(6) l2(2) by (simp add: grep_out_def)
  qed
qed

text \<open>
  Property C31. \<^verbatim>\<open>grep\<close> writes exactly the lines that match: for an input without NUL bytes whose lines
  fit the buffer (at most 1022 bytes), however the kernel cuts it into reads, the calls are one write to standard output for
  each newline-terminated line that the pattern matches, in the order of the input. Bytes after the last newline are not written.
\<close>

theorem grep_writes_matching_lines:
  assumes "delivers s fd xs" and "u_werr s = []" and "length buf = GREP_BUF" and "0 \<notin> set xs" and "short_lines (lines_of [] xs)"
  shows "u_calls (snd (grep pattern fd buf s)) =
    u_calls s @ map (\<lambda>l. CWrite 1 (l @ [10])) (filter (grep_match pattern) (fst (lines_of [] xs)))"
  using grep_loop_eq [of s fd xs buf 0 "[]" "fst (lines_of [] xs)" "snd (lines_of [] xs)" pattern] assms
  by (simp add: grep_def grep_out_def)

theorem grep_writes_matching_lines_witness:
  "u_calls (snd (grep (bytes ''^b*c$'') 0 (replicate GREP_BUF 0)
     (new_user\<lparr>u_in := (\<lambda>_. [Some (bytes ''bb''), Some (bytes ''c'' @ [10] @ bytes ''ab''), Some (bytes ''c'' @ [10] @ bytes ''c'')])\<rparr>))) =
   [CWrite 1 (bytes ''bbc'' @ [10])]"
  (is "u_calls (snd (grep _ 0 _ ?s)) = _")
proof -
  have d: "delivers ?s 0 (bytes ''bbc'' @ [10] @ bytes ''abc'' @ [10] @ bytes ''c'')"
    unfolding delivers_def by (intro exI [of _ "[bytes ''bb'', bytes ''c'' @ [10] @ bytes ''ab'', bytes ''c'' @ [10] @ bytes ''c'']"])
      (simp add: bytes_def)
  have l: "lines_of [] (bytes ''bbc'' @ [10] @ bytes ''abc'' @ [10] @ bytes ''c'') = ([bytes ''bbc'', bytes ''abc''], bytes ''c'')"
    by (simp add: bytes_def)
  have m: "grep_match (bytes ''^b*c$'') (bytes ''bbc'')" "\<not> grep_match (bytes ''^b*c$'') (bytes ''abc'')"
    by (simp_all add: grep_match_def matchhere.simps matchstar.simps bytes_def hd0_def)
  have "0 \<notin> set (bytes ''bbc'' @ [10] @ bytes ''abc'' @ [10] @ bytes ''c'')" by (simp add: bytes_def)
  from grep_writes_matching_lines [OF d _ _ this, of "replicate GREP_BUF 0"] show ?thesis
    unfolding l using m by (simp add: short_lines_def GREP_BUF_def new_user_def) (simp add: bytes_def)
qed

end
