(* ===== verification/Uprogs.thy ===== *)
theory Uprogs
  imports Grep
begin

text \<open>
  The small programs of \<^verbatim>\<open>user/\<close>: cat, echo, wc, ls, kill, ln, mkdir, rm, zombie, test1, init, forktest and stressfs.
  A program's arguments are the list \<open>argv\<close>; its result is how it leaves, by \<^verbatim>\<open>exit\<close>.
\<close>

section \<open>Loops that wait for the kernel\<close>

lemma u_call_ans: "u_call c s = URet x t \<Longrightarrow> length (u_ans t) < length (u_ans s)"
  by (auto simp: u_call_def Let_def split: list.splits answer.splits)

lemma u_putc_ans [simp]: "u_ans (u_putc fd c s) = u_ans s" "u_in (u_putc fd c s) = u_in s"
  by (auto simp: u_putc_def u_write_def Let_def split: list.splits)

lemma u_puts_ans [simp]: "u_ans (u_puts fd cs s) = u_ans s" "u_in (u_puts fd cs s) = u_in s"
  by (induction cs arbitrary: s) simp_all

lemma vprintf_ans [simp]: "u_ans (vprintf_loop fd st fmt ap s) = u_ans s" "u_in (vprintf_loop fd st fmt ap s) = u_in s"
  by (induction fd st fmt ap s rule: vprintf_loop.induct)
    (auto simp: u_conv_def u_printint_def u_printptr_def Let_def split: prod.splits if_splits)

lemma u_fprintf_ans [simp]:
  "u_ans (u_fprintf fd fmt ap s) = u_ans s" "u_in (u_fprintf fd fmt ap s) = u_in s"
  "u_ans (u_printf fmt ap s) = u_ans s" "u_in (u_printf fmt ap s) = u_in s"
  by (simp_all add: u_fprintf_def u_printf_def u_vprintf_def)

lemma unread_same: "u_in t = u_in s \<Longrightarrow> unread fd t = unread fd s"
  by (simp only: unread_def)

lemma unread_printf [simp]: "unread fd (u_printf fmt ap s) = unread fd s" "unread fd (u_fprintf fd' fmt ap s) = unread fd s"
  by (rule unread_same; simp)+

lemma u_copy_unread:
  assumes "u_read fd k s = ((n, bs), s1)" "0 < n" "u_write fd' cs s1 = (r, s2)"
  shows "unread fd s2 < unread fd s"
proof -
  have "u_in s2 = u_in s1" using u_write_in [of fd' cs s1] assms(3) by simp
  then show ?thesis using u_read_unread [OF assms(1,2)] by (simp add: unread_def)
qed

definition nl :: "string \<Rightarrow> string" where
  "nl m = m @ [CHR 0x0A]"

section \<open>cat, echo, wc\<close>

function cat :: "int \<Rightarrow> 'a user_scheme \<Rightarrow> (unit, 'a user_scheme) uout" where
  "cat fd s =
     (case u_read fd 512 s of ((n, bs), s1) \<Rightarrow>
        if n > 0 then
          case u_write 1 bs s1 of (r, s2) \<Rightarrow>
            if r \<noteq> n then UExit 1 (u_fprintf 2 (nl ''cat: write error'') [] s2) else cat fd s2
        else if n < 0 then UExit 1 (u_fprintf 2 (nl ''cat: read error'') [] s1)
        else URet () s1)"
  by pat_completeness auto
termination
  by (relation "measure (\<lambda>(fd, s). unread fd s)") (auto dest: u_copy_unread [OF sym _ sym])

declare cat.simps [simp del]

fun cat_files :: "u8 list list \<Rightarrow> 'a user_scheme \<Rightarrow> (unit, 'a user_scheme) uout" where
  "cat_files [] s = UExit 0 s"
| "cat_files (f # fs) s =
     ubnd (u_call (COpen f 0) s) (\<lambda>(fd, _) s1.
       if fd < 0 then UExit 1 (u_fprintf 2 (nl ''cat: cannot open %s'') [VStr (Some f)] s1)
       else ubnd (cat fd s1) (\<lambda>_ s2. ubnd (u_call (CClose fd) s2) (\<lambda>_ s3. cat_files fs s3)))"

definition cat_main :: "u8 list list \<Rightarrow> 'a user_scheme \<Rightarrow> (unit, 'a user_scheme) uout" where
  "cat_main argv s =
     (if length argv \<le> 1 then ubnd (cat 0 s) (\<lambda>_ s1. UExit 0 s1) else cat_files (tl argv) s)"

fun echo_loop :: "u8 list list \<Rightarrow> 'a user_scheme \<Rightarrow> 'a user_scheme" where
  "echo_loop [] s = s"
| "echo_loop (a # as) s =
     (let s1 = snd (u_write 1 (take (u_strlen a) a) s)
      in echo_loop as (snd (u_write 1 (if as \<noteq> [] then [32] else [10]) s1)))"

definition echo_main :: "u8 list list \<Rightarrow> 'a user_scheme \<Rightarrow> (unit, 'a user_scheme) uout" where
  "echo_main argv s = UExit 0 (echo_loop (tl argv) s)"

record wc_st =
  wc_l :: u32
  wc_w :: u32
  wc_c :: u32
  wc_inword :: bool

definition wc_byte :: "u8 \<Rightarrow> wc_st \<Rightarrow> wc_st" where
  "wc_byte b k =
     (let k1 = k\<lparr>wc_c := wc_c k + 1\<rparr>;
          k2 = (if b = 10 then k1\<lparr>wc_l := wc_l k1 + 1\<rparr> else k1)
      in if u_strchr [32, 13, 9, 10, 11] b \<noteq> None then k2\<lparr>wc_inword := False\<rparr>
         else if \<not> wc_inword k2 then k2\<lparr>wc_w := wc_w k2 + 1, wc_inword := True\<rparr>
         else k2)"

function wc_loop :: "int \<Rightarrow> wc_st \<Rightarrow> 'a user_scheme \<Rightarrow> (wc_st \<times> int) \<times> 'a user_scheme" where
  "wc_loop fd k s =
     (case u_read fd 512 s of ((n, bs), s1) \<Rightarrow>
        if n > 0 then wc_loop fd (fold wc_byte bs k) s1 else ((k, n), s1))"
  by pat_completeness auto
termination
  by (relation "measure (\<lambda>(fd, k, s). unread fd s)") (auto dest: u_read_unread [OF sym])

declare wc_loop.simps [simp del]

definition wc :: "int \<Rightarrow> u8 list \<Rightarrow> 'a user_scheme \<Rightarrow> (unit, 'a user_scheme) uout" where
  "wc fd nm s =
     (case wc_loop fd \<lparr>wc_l = 0, wc_w = 0, wc_c = 0, wc_inword = False\<rparr> s of ((k, n), s1) \<Rightarrow>
        if n < 0 then UExit 1 (u_printf (nl ''wc: read error'') [] s1)
        else URet () (u_printf (nl ''%d %d %d %s'') [VInt (wc_l k), VInt (wc_w k), VInt (wc_c k), VStr (Some nm)] s1))"

fun wc_files :: "u8 list list \<Rightarrow> 'a user_scheme \<Rightarrow> (unit, 'a user_scheme) uout" where
  "wc_files [] s = UExit 0 s"
| "wc_files (f # fs) s =
     ubnd (u_call (COpen f 0) s) (\<lambda>(fd, _) s1.
       if fd < 0 then UExit 1 (u_printf (nl ''wc: cannot open %s'') [VStr (Some f)] s1)
       else ubnd (wc fd f s1) (\<lambda>_ s2. ubnd (u_call (CClose fd) s2) (\<lambda>_ s3. wc_files fs s3)))"

definition wc_main :: "u8 list list \<Rightarrow> 'a user_scheme \<Rightarrow> (unit, 'a user_scheme) uout" where
  "wc_main argv s =
     (if length argv \<le> 1 then ubnd (wc 0 [] s) (\<lambda>_ s1. UExit 0 s1) else wc_files (tl argv) s)"

section \<open>ls\<close>

definition nth0 :: "u8 list \<Rightarrow> nat \<Rightarrow> u8" where
  "nth0 xs i = (if i < length xs then xs ! i else 0)"

text \<open>The index after the last slash at or before \<open>n\<close>.\<close>

primrec fmt_start :: "u8 list \<Rightarrow> nat \<Rightarrow> nat" where
  "fmt_start path 0 = (if nth0 path 0 \<noteq> 0x2f then 0 else 1)"
| "fmt_start path (Suc n) = (if nth0 path (Suc n) \<noteq> 0x2f then fmt_start path n else Suc (Suc n))"

definition fmtname :: "u8 list \<Rightarrow> u8 list" where
  "fmtname path =
     (let p = drop (fmt_start path (u_strlen path)) path; n = u_strlen p
      in if n \<ge> DIRSIZ then take n p else take n p @ replicate (DIRSIZ - n) 32)"

text \<open>The \<^verbatim>\<open>struct stat\<close> in an answer to \<^verbatim>\<open>fstat\<close>: device, inode number, type, links, size.\<close>

fun stat_of :: "int list \<Rightarrow> fstat" where
  "stat_of [d, i, t, n, z] = \<lparr>st_dev = of_int d, st_ino = of_int i, st_type = of_int t, st_nlink = of_int n, st_size = of_int z\<rparr>"
| "stat_of _ = \<lparr>st_dev = 0, st_ino = 0, st_type = 0, st_nlink = 0, st_size = 0\<rparr>"

lemma u_call_in: "u_call c s = URet x t \<Longrightarrow> u_in t = u_in s"
  by (auto simp: u_call_def Let_def split: list.splits answer.splits)

lemma u_stat_in: "u_stat n s = URet x t \<Longrightarrow> u_in t = u_in s"
proof -
  have ret: "ubnd m f = URet y v \<Longrightarrow> \<exists>z u. m = URet z u \<and> f z u = URet y v"
    for m :: "(int \<times> int list, 'a user_scheme) uout" and f y v by (cases m) auto
  assume "u_stat n s = URet x t"
  then obtain fd vs s1 where 1: "u_call (COpen n (uint O_RDONLY)) s = URet (fd, vs) s1"
    "(if fd < 0 then URet (-1, []) s1 else ubnd (u_call (CFstat fd) s1) (\<lambda>(r, st) s2. ubnd (u_call (CClose fd) s2) (\<lambda>_ s3. URet (r, st) s3))) = URet x t"
    unfolding u_stat_def by (auto dest!: ret)
  show "u_in t = u_in s"
  proof (cases "fd < 0")
    case False
    then show ?thesis using 1 by (auto dest!: ret u_call_in)
  qed (use 1 in \<open>auto dest: u_call_in\<close>)
qed

lemma ls_dir_unread:
  assumes "u_read fd 16 s = ((16, de), s1)" "u_stat n s1 = URet x s2"
  shows "unread fd s2 < unread fd s"
  using u_read_unread [OF assms(1)] unread_same [OF u_stat_in [OF assms(2)], of fd] by simp

function ls_dir :: "u8 list \<Rightarrow> int \<Rightarrow> 'a user_scheme \<Rightarrow> (unit, 'a user_scheme) uout" where
  "ls_dir path fd s =
     (case u_read fd 16 s of ((n, de), s1) \<Rightarrow>
        if n \<noteq> 16 then URet () s1
        else if hd0 de = 0 \<and> hd0 (tl de) = 0 then ls_dir path fd s1
        else let buf = path @ [0x2f] @ str (take DIRSIZ (drop 2 de))
             in ubnd (u_stat buf s1) (\<lambda>x s2. case x of (r, vs) \<Rightarrow>
                  if r < 0 then ls_dir path fd (u_printf (nl ''ls: cannot stat %s'') [VStr (Some buf)] s2)
                  else let st = stat_of vs
                       in ls_dir path fd (u_printf (nl ''%s %d %d %d'')
                            [VStr (Some (fmtname buf)), VInt (scast (st_type st)), VInt (st_ino st), VInt (ucast (st_size st))] s2)))"
  by pat_completeness auto
termination
  by (relation "measure (\<lambda>(path, fd, s). unread fd s)")
    (auto dest: u_read_unread [OF sym] ls_dir_unread [OF sym])

declare ls_dir.simps [simp del]

definition ls :: "u8 list \<Rightarrow> 'a user_scheme \<Rightarrow> (unit, 'a user_scheme) uout" where
  "ls path s =
     ubnd (u_call (COpen path 0) s) (\<lambda>(fd, _) s1.
       if fd < 0 then URet () (u_fprintf 2 (nl ''ls: cannot open %s'') [VStr (Some path)] s1)
       else ubnd (u_call (CFstat fd) s1) (\<lambda>(r, vs) s2.
         if r < 0 then ubnd (u_call (CClose fd) (u_fprintf 2 (nl ''ls: cannot stat %s'') [VStr (Some path)] s2)) (\<lambda>_ s3. URet () s3)
         else let st = stat_of vs
              in ubnd (if st_type st = T_DEVICE \<or> st_type st = T_FILE then
                         URet () (u_printf (nl ''%s %d %d %l'')
                           [VStr (Some (fmtname path)), VInt (scast (st_type st)), VInt (st_ino st), VPtr (st_size st)] s2)
                       else if st_type st = T_DIR then
                         if u_strlen path + 1 + DIRSIZ + 1 > 512 then URet () (u_printf (nl ''ls: path too long'') [] s2)
                         else ls_dir path fd s2
                       else URet () s2) (\<lambda>_ s3. ubnd (u_call (CClose fd) s3) (\<lambda>_ s4. URet () s4))))"

fun ls_all :: "u8 list list \<Rightarrow> 'a user_scheme \<Rightarrow> (unit, 'a user_scheme) uout" where
  "ls_all [] s = UExit 0 s"
| "ls_all (f # fs) s = ubnd (ls f s) (\<lambda>_ s1. ls_all fs s1)"

definition ls_main :: "u8 list list \<Rightarrow> 'a user_scheme \<Rightarrow> (unit, 'a user_scheme) uout" where
  "ls_main argv s = (if length argv < 2 then ubnd (ls (bytes ''.'') s) (\<lambda>_ s1. UExit 0 s1) else ls_all (tl argv) s)"

section \<open>kill, ln, mkdir, rm, zombie, test1\<close>

fun kill_all :: "u8 list list \<Rightarrow> 'a user_scheme \<Rightarrow> (unit, 'a user_scheme) uout" where
  "kill_all [] s = UExit 0 s"
| "kill_all (a # as) s = ubnd (u_call (CKill (sint (u_atoi a))) s) (\<lambda>_ s1. kill_all as s1)"

definition kill_main :: "u8 list list \<Rightarrow> 'a user_scheme \<Rightarrow> (unit, 'a user_scheme) uout" where
  "kill_main argv s = (if length argv < 2 then UExit 1 (u_fprintf 2 (nl ''usage: kill pid...'') [] s) else kill_all (tl argv) s)"

definition ln_main :: "u8 list list \<Rightarrow> 'a user_scheme \<Rightarrow> (unit, 'a user_scheme) uout" where
  "ln_main argv s =
     (if length argv \<noteq> 3 then UExit 1 (u_fprintf 2 (nl ''Usage: ln old new'') [] s)
      else ubnd (u_call (CLink (argv ! 1) (argv ! 2)) s) (\<lambda>(r, _) s1.
        UExit 0 (if r < 0 then u_fprintf 2 (nl ''link %s %s: failed'') [VStr (Some (argv ! 1)), VStr (Some (argv ! 2))] s1 else s1)))"

fun mkdir_all :: "u8 list list \<Rightarrow> 'a user_scheme \<Rightarrow> (unit, 'a user_scheme) uout" where
  "mkdir_all [] s = UExit 0 s"
| "mkdir_all (a # as) s =
     ubnd (u_call (CMkdir a) s) (\<lambda>(r, _) s1.
       if r < 0 then UExit 0 (u_fprintf 2 (nl ''mkdir: %s failed to create'') [VStr (Some a)] s1) else mkdir_all as s1)"

definition mkdir_main :: "u8 list list \<Rightarrow> 'a user_scheme \<Rightarrow> (unit, 'a user_scheme) uout" where
  "mkdir_main argv s = (if length argv < 2 then UExit 1 (u_fprintf 2 (nl ''Usage: mkdir files...'') [] s) else mkdir_all (tl argv) s)"

fun rm_all :: "u8 list list \<Rightarrow> 'a user_scheme \<Rightarrow> (unit, 'a user_scheme) uout" where
  "rm_all [] s = UExit 0 s"
| "rm_all (a # as) s =
     ubnd (u_call (CUnlink a) s) (\<lambda>(r, _) s1.
       if r < 0 then UExit 0 (u_fprintf 2 (nl ''rm: %s failed to delete'') [VStr (Some a)] s1) else rm_all as s1)"

definition rm_main :: "u8 list list \<Rightarrow> 'a user_scheme \<Rightarrow> (unit, 'a user_scheme) uout" where
  "rm_main argv s = (if length argv < 2 then UExit 1 (u_fprintf 2 (nl ''Usage: rm files...'') [] s) else rm_all (tl argv) s)"

definition zombie_main :: "'a user_scheme \<Rightarrow> (unit, 'a user_scheme) uout" where
  "zombie_main s =
     ubnd (u_call CFork s) (\<lambda>(pid, _) s1.
     ubnd (if pid > 0 then u_call (CSleep 5) s1 else URet (0, []) s1) (\<lambda>_ s2. UExit 0 s2))"

definition test1_main :: "u8 list list \<Rightarrow> 'a user_scheme \<Rightarrow> (unit, 'a user_scheme) uout" where
  "test1_main argv s =
     (let n = (if length argv \<ge> 2 then u_atoi (argv ! 1) else 0)
      in ubnd (u_call (CHello (sint n)) (u_printf (nl ''Say hello to kernel %d'') [VInt n] s)) (\<lambda>_ s1. UExit 0 s1))"

section \<open>init\<close>

text \<open>The inner loop: wait until the shell \<open>p\<close> exits.\<close>

function init_wait :: "int \<Rightarrow> 'a user_scheme \<Rightarrow> (unit, 'a user_scheme) uout" where
  "init_wait p s =
     ubnd (u_call CWait s) (\<lambda>x s1.
       if fst x = p then URet () s1
       else if fst x < 0 then UExit 1 (u_printf (nl ''init: wait returned an error'') [] s1)
       else init_wait p s1)"
  by pat_completeness auto
termination
  by (relation "measure (\<lambda>(p, s). length (u_ans s))") (auto dest: u_call_ans)

declare init_wait.simps [simp del]

lemma init_wait_ans: "init_wait p s = URet x t \<Longrightarrow> length (u_ans t) < length (u_ans s)"
proof (induction p s rule: init_wait.induct)
  case (1 p s)
  show ?case
  proof (cases "u_call CWait s")
    case (URet y s1)
    then show ?thesis using 1 u_call_ans [OF URet] by (subst (asm) init_wait.simps) (fastforce split: if_splits)
  qed (use 1(2) in \<open>simp_all add: init_wait.simps [of p s]\<close>)
qed

function init_loop :: "'a user_scheme \<Rightarrow> (unit, 'a user_scheme) uout" where
  "init_loop s =
     ubnd (u_call CFork (u_printf (nl ''init: starting sh'') [] s)) (\<lambda>x s1.
       if fst x < 0 then UExit 1 (u_printf (nl ''init: fork failed'') [] s1)
       else if fst x = 0 then
         ubnd (u_call (CExec (bytes ''sh'') [bytes ''sh'']) s1) (\<lambda>_ s2. UExit 1 (u_printf (nl ''init: exec sh failed'') [] s2))
       else ubnd (init_wait (fst x) s1) (\<lambda>_ s2. init_loop s2))"
  by pat_completeness auto
termination
  by (relation "measure (\<lambda>s. length (u_ans s))") (auto dest!: u_call_ans init_wait_ans)

declare init_loop.simps [simp del]

definition init_main :: "'a user_scheme \<Rightarrow> (unit, 'a user_scheme) uout" where
  "init_main s =
     ubnd (u_call (COpen (bytes ''console'') (uint O_RDWR)) s) (\<lambda>(r, _) s1.
     ubnd (if r < 0 then
             ubnd (u_call (CMknod (bytes ''console'') (int CONSOLE) 0) s1) (\<lambda>_ s2. u_call (COpen (bytes ''console'') (uint O_RDWR)) s2)
           else URet (r, []) s1) (\<lambda>_ s3.
     ubnd (u_call (CDup 0) s3) (\<lambda>_ s4.
     ubnd (u_call (CDup 0) s4) (\<lambda>_ s5. init_loop s5))))"

section \<open>forktest and stressfs\<close>

definition ft_print :: "string \<Rightarrow> 'a user_scheme \<Rightarrow> 'a user_scheme" where
  "ft_print m s = snd (u_write 1 (bytes m) s)"

text \<open>The loop that forks, \<open>k\<close> more times at most; it returns how many children there are.\<close>

fun ft_fork :: "nat \<Rightarrow> nat \<Rightarrow> 'a user_scheme \<Rightarrow> (nat, 'a user_scheme) uout" where
  "ft_fork 0 n s = URet n s"
| "ft_fork (Suc k) n s =
     ubnd (u_call CFork s) (\<lambda>(p, _) s1.
       if p < 0 then URet n s1 else if p = 0 then UExit 0 s1 else ft_fork k (n + 1) s1)"

fun ft_wait :: "nat \<Rightarrow> 'a user_scheme \<Rightarrow> (unit, 'a user_scheme) uout" where
  "ft_wait 0 s = URet () s"
| "ft_wait (Suc n) s =
     ubnd (u_call CWait s) (\<lambda>(p, _) s1.
       if p < 0 then UExit 1 (ft_print (nl ''wait stopped early'') s1) else ft_wait n s1)"

definition forktest :: "'a user_scheme \<Rightarrow> (unit, 'a user_scheme) uout" where
  "forktest s =
     ubnd (ft_fork 1000 0 (ft_print (nl ''fork test'') s)) (\<lambda>n s1.
       if n = 1000 then UExit 1 (ft_print (nl ''fork claimed to work N times!'') s1)
       else ubnd (ft_wait n s1) (\<lambda>_ s2. ubnd (u_call CWait s2) (\<lambda>(p, _) s3.
              if p \<noteq> -1 then UExit 1 (ft_print (nl ''wait got too many'') s3)
              else URet () (ft_print (nl ''fork test OK'') s3))))"

definition forktest_main :: "'a user_scheme \<Rightarrow> (unit, 'a user_scheme) uout" where
  "forktest_main s = ubnd (forktest s) (\<lambda>_ s1. UExit 0 s1)"

fun sfs_fork :: "nat \<Rightarrow> nat \<Rightarrow> 'a user_scheme \<Rightarrow> (nat, 'a user_scheme) uout" where
  "sfs_fork 0 i s = URet i s"
| "sfs_fork (Suc k) i s = ubnd (u_call CFork s) (\<lambda>(p, _) s1. if p > 0 then URet i s1 else sfs_fork k (i + 1) s1)"

primrec sfs_write :: "nat \<Rightarrow> int \<Rightarrow> u8 list \<Rightarrow> 'a user_scheme \<Rightarrow> 'a user_scheme" where
  "sfs_write 0 fd d s = s"
| "sfs_write (Suc k) fd d s = sfs_write k fd d (snd (u_write fd d s))"

primrec sfs_read :: "nat \<Rightarrow> int \<Rightarrow> 'a user_scheme \<Rightarrow> 'a user_scheme" where
  "sfs_read 0 fd s = s"
| "sfs_read (Suc k) fd s = sfs_read k fd (snd (u_read fd 512 s))"

definition stressfs_main :: "'a user_scheme \<Rightarrow> (unit, 'a user_scheme) uout" where
  "stressfs_main s =
     (let d = u_memset (replicate 512 0) 97 512
      in ubnd (sfs_fork 4 0 (u_printf (nl ''stressfs starting'') [] s)) (\<lambda>i s1.
         let s2 = u_printf (nl ''write %d'') [VInt (of_nat i)] s1;
             path = (bytes ''stressfs0'')[8 := 48 + of_nat i]
         in ubnd (u_call (COpen path (uint (or O_CREATE O_RDWR))) s2) (\<lambda>(fd, _) s3.
            ubnd (u_call (CClose fd) (sfs_write 20 fd d s3)) (\<lambda>_ s4.
            ubnd (u_call (COpen path (uint O_RDONLY)) (u_printf (nl ''read'') [] s4)) (\<lambda>(fd2, _) s5.
            ubnd (u_call (CClose fd2) (sfs_read 20 fd2 s5)) (\<lambda>_ s6.
            ubnd (u_call CWait s6) (\<lambda>_ s7. UExit 0 s7)))))))"

section \<open>What cat and wc do\<close>

lemma pos512: "0 < (512 :: nat)"
  by simp

lemma cat_copies:
  assumes "delivers s fd xs" "u_werr s = []"
  shows "\<exists>t ps. cat fd s = URet () t \<and> u_calls t = u_calls s @ map (CWrite 1) ps \<and> concat ps = xs"
  using assms
proof (induction xs arbitrary: s rule: length_induct)
  case (1 xs)
  obtain ys t zs where rd: "u_read fd 512 s = ((int (length ys), ys), t)" "length ys \<le> 512" "ys = [] \<longleftrightarrow> xs = []" "xs = ys @ zs"
    "delivers t fd zs" "u_calls t = u_calls s" "u_werr t = u_werr s"
    by (rule delivers_readE [OF 1(2) pos512])
  show ?case
  proof (cases "xs = []")
    case True
    then show ?thesis using rd(1,3,6) by (subst cat.simps) (auto intro: exI [of _ "[]"])
  next
    case False
    let ?u = "t\<lparr>u_calls := u_calls t @ [CWrite 1 ys]\<rparr>"
    have step: "cat fd s = cat fd ?u" using rd(1,3,7) 1(3) False by (subst cat.simps) (simp add: u_write_def)
    have "delivers ?u fd zs" "u_werr ?u = []" using rd(5,7) 1(3) by (simp_all add: delivers_def)
    moreover have "length zs < length xs" using rd(3,4) False by simp
    ultimately obtain v ps where "cat fd ?u = URet () v" "u_calls v = u_calls ?u @ map (CWrite 1) ps" "concat ps = zs"
      using 1(1) by blast
    then show ?thesis using step rd(4,6) by (intro exI [of _ v] exI [of _ "ys # ps"]) simp
  qed
qed

lemma wc_loop_counts:
  assumes "delivers s fd xs"
  shows "\<exists>t. wc_loop fd k s = ((fold wc_byte xs k, 0), t) \<and> u_calls t = u_calls s \<and> u_werr t = u_werr s"
  using assms
proof (induction xs arbitrary: s k rule: length_induct)
  case (1 xs)
  obtain ys t zs where rd: "u_read fd 512 s = ((int (length ys), ys), t)" "length ys \<le> 512" "ys = [] \<longleftrightarrow> xs = []" "xs = ys @ zs"
    "delivers t fd zs" "u_calls t = u_calls s" "u_werr t = u_werr s"
    by (rule delivers_readE [OF 1(2) pos512])
  show ?case
  proof (cases "xs = []")
    case True
    then show ?thesis using rd(1,3,6,7) by (subst wc_loop.simps) simp
  next
    case False
    then have step: "wc_loop fd k s = wc_loop fd (fold wc_byte ys k) t" using rd(1,3) by (subst wc_loop.simps) simp
    have len: "length zs < length xs" using rd(3,4) False by simp
    obtain u where "wc_loop fd (fold wc_byte ys k) t = ((fold wc_byte zs (fold wc_byte ys k), 0), u)" "u_calls u = u_calls t"
      "u_werr u = u_werr t" using 1(1) [rule_format, OF len rd(5), of "fold wc_byte ys k"] by blast
    then show ?thesis using step rd(4,6,7) by simp
  qed
qed

text \<open>Words: maximal runs of bytes that are not white space.\<close>

definition blank :: "u8 \<Rightarrow> bool" where
  "blank b \<longleftrightarrow> b \<in> {32, 13, 9, 10, 11}"

fun words_of :: "u8 list \<Rightarrow> nat" where
  "words_of [] = 0"
| "words_of [b] = (if blank b then 0 else 1)"
| "words_of (b # c # bs) = (if \<not> blank b \<and> blank c then 1 else 0) + words_of (c # bs)"

lemma wc_blank: "u_strchr [32, 13, 9, 10, 11] b \<noteq> None \<longleftrightarrow> blank b"
  by (auto simp: blank_def)

lemma fold_wc:
  "fold wc_byte xs k = \<lparr>wc_l = wc_l k + of_nat (length (filter (\<lambda>b. b = 10) xs)),
     wc_w = wc_w k + of_nat (words_of xs) - (if wc_inword k \<and> xs \<noteq> [] \<and> \<not> blank (hd xs) then 1 else 0),
     wc_c = wc_c k + of_nat (length xs), wc_inword = (if xs = [] then wc_inword k else \<not> blank (last xs))\<rparr>"
proof (induction xs arbitrary: k)
  case (Cons b xs)
  have bl: "wc_byte b k = \<lparr>wc_l = wc_l k + (if b = 10 then 1 else 0),
      wc_w = wc_w k + (if \<not> blank b \<and> \<not> wc_inword k then 1 else 0), wc_c = wc_c k + 1, wc_inword = \<not> blank b\<rparr>"
    unfolding wc_byte_def wc_blank by (rule wc_st.equality) (auto simp: Let_def blank_def)
  show ?case
  proof (cases xs)
    case (Cons c cs)
    then show ?thesis unfolding fold.simps comp_apply Cons.IH bl
      by (cases "blank b"; cases "blank c"; cases "wc_inword k") simp_all
  qed (simp add: bl)
next
  case Nil
  show ?case by (rule wc_st.equality) simp_all
qed

text \<open>
  Property C39. \<^verbatim>\<open>wc\<close> counts right and \<^verbatim>\<open>cat\<close> copies: however the kernel cuts an input into reads,
  \<^verbatim>\<open>wc\<close> prints the number of newlines, of words (maximal runs of bytes that are not white space) and of
  bytes of the whole input, each as a 32-bit value, and \<^verbatim>\<open>cat\<close> writes the bytes of the input to standard output.
\<close>

theorem wc_cat_whole_input:
  assumes "delivers s fd xs" and "u_werr s = []"
  shows "\<exists>t v ps. wc fd nm s = URet () t \<and>
      u_calls t = u_calls s @ map (\<lambda>c. CWrite 1 [c]) (format_text (bytes (nl ''%d %d %d %s''))
        [VInt (of_nat (length (filter (\<lambda>b. b = 10) xs))), VInt (of_nat (words_of xs)), VInt (of_nat (length xs)), VStr (Some nm)]) \<and>
      cat fd s = URet () v \<and> u_calls v = u_calls s @ map (CWrite 1) ps \<and> concat ps = xs"
proof -
  let ?k = "\<lparr>wc_l = 0, wc_w = 0, wc_c = 0, wc_inword = False\<rparr>"
  obtain u where u: "wc_loop fd ?k s = ((fold wc_byte xs ?k, 0), u)" "u_calls u = u_calls s" "u_werr u = u_werr s"
    using wc_loop_counts [OF assms(1)] by blast
  have "common_fmt (bytes (nl ''%d %d %d %s''))" by (simp add: bytes_def nl_def)
  then have p: "u_printf (nl ''%d %d %d %s'') ap u = u\<lparr>u_calls := u_calls u @ map (\<lambda>c. CWrite 1 [c]) (format_text (bytes (nl ''%d %d %d %s'')) ap)\<rparr>" for ap
    unfolding u_printf_def u_vprintf_def using vprintf_writes [of u "bytes (nl ''%d %d %d %s'')" 1 ap] u_puts_writes [of u] u(3) assms(2) by simp
  have "fold wc_byte xs ?k = \<lparr>wc_l = of_nat (length (filter (\<lambda>b. b = 10) xs)), wc_w = of_nat (words_of xs), wc_c = of_nat (length xs),
      wc_inword = (if xs = [] then False else \<not> blank (last xs))\<rparr>" by (simp add: fold_wc)
  then have "\<exists>t. wc fd nm s = URet () t \<and> u_calls t = u_calls s @ map (\<lambda>c. CWrite 1 [c]) (format_text (bytes (nl ''%d %d %d %s''))
        [VInt (of_nat (length (filter (\<lambda>b. b = 10) xs))), VInt (of_nat (words_of xs)), VInt (of_nat (length xs)), VStr (Some nm)])"
    using u by (simp add: wc_def p)
  then show ?thesis using cat_copies [OF assms] by blast
qed

theorem wc_cat_whole_input_witness:
  "\<exists>t v ps. wc 0 [] (new_user\<lparr>u_in := (\<lambda>_. [Some (bytes ''a b''), Some (bytes ''c'' @ [10])])\<rparr>) = URet () t \<and>
     u_calls t = map (\<lambda>c. CWrite 1 [c]) (bytes (nl ''1 2 5 '')) \<and>
     cat 0 (new_user\<lparr>u_in := (\<lambda>_. [Some (bytes ''a b''), Some (bytes ''c'' @ [10])])\<rparr>) = URet () v \<and>
     u_calls v = map (CWrite 1) ps \<and> concat ps = bytes ''a bc'' @ [10]"
  (is "\<exists>t v ps. wc 0 [] ?s = _ \<and> _")
proof -
  have d: "delivers ?s 0 (bytes ''a bc'' @ [10])"
    unfolding delivers_def by (intro exI [of _ "[bytes ''a b'', bytes ''c'' @ [10]]"]) (simp add: bytes_def)
  have x: "length (filter (\<lambda>b. b = 10) (bytes ''a bc'' @ [10])) = 1" "words_of (bytes ''a bc'' @ [10]) = 2" "length (bytes ''a bc'' @ [10]) = 5"
    by (simp_all add: bytes_def blank_def)
  have f: "format_text (bytes (nl ''%d %d %d %s'')) [VInt (of_nat 1), VInt (of_nat 2), VInt (of_nat 5), VStr (Some [])] = bytes (nl ''1 2 5 '')"
    by (simp add: bytes_def nl_def printint_buf_def rev_digits.simps [of 10 "Suc 0"] rev_digits.simps [of 10 2] rev_digits.simps [of 10 5] digits_def)
  from wc_cat_whole_input [OF d, of "[]"] show ?thesis unfolding x f by (simp add: new_user_def)
qed

end
