(* ===== verification/Sh.thy ===== *)
theory Sh
  imports Uprogs
begin

text \<open>
  The parser of the shell, \<^verbatim>\<open>user/sh.c\<close>. A pointer into the command line is the list of the bytes from it to the end
  \<^verbatim>\<open>es\<close> of the line, so \<^verbatim>\<open>s < es\<close> says that the list is not empty, and two pointers are equal if the
  lists are. The parser gives a command and the rest of the line, or it calls \<^verbatim>\<open>panic\<close> with a message, or it reports
  what is left over; \<open>PFuel\<close> says that the fuel for its recursion was used up.
\<close>

section \<open>Commands\<close>

type_synonym span = "u8 list \<times> u8 list"

datatype cmd =
    EXEC "span list"
  | REDIR cmd span int int
  | PIPE cmd cmd
  | LIST cmd cmd
  | BACK cmd

definition MAXARGS :: nat where
  "MAXARGS = 10"

datatype 'a pres = POk 'a "u8 list" | PErr string | PLeft "u8 list" | PFuel

primrec pbnd :: "'a pres \<Rightarrow> ('a \<Rightarrow> u8 list \<Rightarrow> 'b pres) \<Rightarrow> 'b pres" where
  "pbnd (POk x s) f = f x s"
| "pbnd (PErr m) f = PErr m"
| "pbnd (PLeft r) f = PLeft r"
| "pbnd PFuel f = PFuel"

section \<open>Tokens\<close>

definition whitespace :: "u8 list" where
  "whitespace = [32, 9, 13, 10, 11]"

definition symbols :: "u8 list" where
  "symbols = bytes ''<|>&;()''"

definition is_ws :: "u8 \<Rightarrow> bool" where
  "is_ws c \<longleftrightarrow> u_strchr whitespace c \<noteq> None"

definition is_sym :: "u8 \<Rightarrow> bool" where
  "is_sym c \<longleftrightarrow> u_strchr symbols c \<noteq> None"

definition skip_ws :: "u8 list \<Rightarrow> u8 list" where
  "skip_ws s = dropWhile is_ws s"

definition skip_word :: "u8 list \<Rightarrow> u8 list" where
  "skip_word s = dropWhile (\<lambda>c. \<not> is_ws c \<and> \<not> is_sym c) s"

text \<open>\<^verbatim>\<open>gettoken\<close> returns the kind of the token, its beginning and end, and moves the pointer.\<close>

definition gettoken :: "u8 list \<Rightarrow> u8 \<times> span \<times> u8 list" where
  "gettoken ps =
     (let s = skip_ws ps; q = s; c = hd0 s;
          (ret, s1) =
            (if c = 0 then (c, s)
             else if c \<in> {0x7c, 0x28, 0x29, 0x3b, 0x26, 0x3c} then (c, tl s)
             else if c = 0x3e then (if hd0 (tl s) = 0x3e then (0x2b, tl (tl s)) else (c, tl s))
             else (0x61, skip_word s))
      in (ret, (q, s1), skip_ws s1))"

definition peek :: "u8 list \<Rightarrow> string \<Rightarrow> bool \<times> u8 list" where
  "peek ps toks = (let s = skip_ws ps in (hd0 s \<noteq> 0 \<and> u_strchr (bytes toks) (hd0 s) \<noteq> None, s))"

lemma skip_ws_length: "length (skip_ws s) \<le> length s"
  by (simp add: skip_ws_def length_dropWhile_le)

lemma hd0_pos: "hd0 s \<noteq> 0 \<Longrightarrow> 0 < length s"
  by (auto simp: hd0_def)

lemma gettoken_length: "gettoken ps = (r, qe, s) \<Longrightarrow> length s \<le> length ps"
proof -
  have "length (skip_ws (tl (tl (skip_ws ps)))) \<le> length ps" "length (skip_ws (tl (skip_ws ps))) \<le> length ps"
    "length (skip_ws (skip_word (skip_ws ps))) \<le> length ps" "length (skip_ws (skip_ws ps)) \<le> length ps"
    by (rule order_trans [OF skip_ws_length], use skip_ws_length [of ps] length_dropWhile_le [of "\<lambda>c. \<not> is_ws c \<and> \<not> is_sym c" "skip_ws ps"]
        in \<open>simp add: skip_word_def\<close>)+
  then show "gettoken ps = (r, qe, s) \<Longrightarrow> length s \<le> length ps" by (auto simp: gettoken_def Let_def split: if_splits)
qed

text \<open>A token that \<^verbatim>\<open>peek\<close> has seen is consumed.\<close>

lemma peek_gettoken:
  assumes "peek ps toks = (True, s)" "set (bytes toks) \<subseteq> set symbols" "gettoken s = (r, qe, t)"
  shows "length t < length ps"
proof -
  have s: "s = skip_ws ps" "hd0 s \<noteq> 0" "u_strchr (bytes toks) (hd0 s) \<noteq> None" using assms(1) by (auto simp: peek_def Let_def)
  have in_set: "u_strchr xs c \<noteq> None \<Longrightarrow> c \<in> set xs" for xs :: "u8 list" and c by (induction xs) (auto split: if_splits)
  have sym: "hd0 s \<in> set symbols" using in_set [OF s(3)] assms(2) by blast
  have "\<not> is_ws x" if "x \<in> set symbols" for x using that by (auto simp: is_ws_def whitespace_def symbols_def bytes_def)
  then have "skip_ws s = s" using sym s(2) by (cases s) (auto simp: skip_ws_def hd0_def)
  moreover have "hd0 s \<in> {0x7c, 0x28, 0x29, 0x3b, 0x26, 0x3c, 0x3e}" using sym by (auto simp: symbols_def bytes_def)
  ultimately have "t = skip_ws (tl s) \<or> t = skip_ws (tl (tl s))"
    using assms(3) s(2) by (auto simp: gettoken_def Let_def split: if_splits)
  moreover have "length (skip_ws (tl s)) < length s" "length (skip_ws (tl (tl s))) < length s"
    using skip_ws_length [of "tl s"] skip_ws_length [of "tl (tl s)"] hd0_pos [OF s(2)] by (cases s; simp)+
  ultimately have "length t < length s" by auto
  then show ?thesis using skip_ws_length [of ps] s(1) by simp
qed

lemma peek_length: "peek ps toks = (b, s) \<Longrightarrow> length s \<le> length ps"
  using skip_ws_length [of ps] by (auto simp: peek_def Let_def)

lemma peek_amp: "peek ps ''&'' = (True, s) \<Longrightarrow> gettoken s = (r, qe, t) \<Longrightarrow> length t < length ps"
  by (rule peek_gettoken) (auto simp: symbols_def bytes_def)

lemma peek_redir:
  "peek ps ''<>'' = (True, s) \<Longrightarrow> gettoken s = (r, qe, t) \<Longrightarrow> gettoken t = (k, f, u) \<Longrightarrow> length u < length ps"
  by (rule le_less_trans [OF gettoken_length peek_gettoken [of ps "''<>''"]]) (simp_all add: symbols_def bytes_def)

section \<open>The grammar\<close>

text \<open>The loop of \<^verbatim>\<open>parseline\<close> over ampersands.\<close>

function parse_backs :: "cmd \<Rightarrow> u8 list \<Rightarrow> cmd \<times> u8 list" where
  "parse_backs c ps =
     (case peek ps ''&'' of (b, s) \<Rightarrow>
        if b then (case gettoken s of (_, _, s1) \<Rightarrow> parse_backs (BACK c) s1) else (c, s))"
  by pat_completeness auto
termination
  by (relation "measure (length \<circ> snd)") (auto dest: peek_amp [OF sym sym])

declare parse_backs.simps [simp del]

definition redir_of :: "u8 \<Rightarrow> cmd \<Rightarrow> span \<Rightarrow> cmd" where
  "redir_of tok c f =
     (if tok = 0x3c then REDIR c f (uint O_RDONLY) 0
      else if tok = 0x3e then REDIR c f (uint (or (or O_WRONLY O_CREATE) O_TRUNC)) 1
      else if tok = 0x2b then REDIR c f (uint (or O_WRONLY O_CREATE)) 1
      else c)"

text \<open>
  \<^verbatim>\<open>parseredirs\<close> wraps the command it is given. In \<^verbatim>\<open>parseexec\<close> that command is still being
  filled in, so the redirections are collected as the list of their kinds and files, the outermost last.
\<close>

function redirs :: "(u8 \<times> span) list \<Rightarrow> u8 list \<Rightarrow> (u8 \<times> span) list pres" where
  "redirs rs ps =
     (case peek ps ''<>'' of (b, s) \<Rightarrow>
        if b then
          case gettoken s of (tok, _, s1) \<Rightarrow>
          case gettoken s1 of (k, f, s2) \<Rightarrow>
            if k \<noteq> 0x61 then PErr ''missing file for redirection''
            else redirs (rs @ [(tok, f)]) s2
        else POk rs s)"
  by pat_completeness auto
termination
  by (relation "measure (length \<circ> snd)") (auto dest: peek_redir [OF sym sym sym])

declare redirs.simps [simp del]

definition wrap :: "(u8 \<times> span) list \<Rightarrow> cmd \<Rightarrow> cmd" where
  "wrap rs c = foldl (\<lambda>d (tok, f). redir_of tok d f) c rs"

definition parseredirs :: "cmd \<Rightarrow> u8 list \<Rightarrow> cmd pres" where
  "parseredirs c ps = pbnd (redirs [] ps) (\<lambda>rs s. POk (wrap rs c) s)"

text \<open>The loop of \<^verbatim>\<open>parseexec\<close> over the arguments.\<close>

function parse_args :: "span list \<Rightarrow> (u8 \<times> span) list \<Rightarrow> u8 list \<Rightarrow> (span list \<times> (u8 \<times> span) list) pres" where
  "parse_args av rs ps =
     (case peek ps ''|)&;'' of (b, s) \<Rightarrow>
        if b then POk (av, rs) s
        else case gettoken s of (tok, qe, s1) \<Rightarrow>
          if tok = 0 then POk (av, rs) s1
          else if tok \<noteq> 0x61 then PErr ''syntax''
          else if length av + 1 \<ge> MAXARGS then PErr ''too many args''
          else case redirs rs s1 of
                 POk rs1 s2 \<Rightarrow> parse_args (av @ [qe]) rs1 s2
               | PErr m \<Rightarrow> PErr m
               | PLeft r \<Rightarrow> PLeft r
               | PFuel \<Rightarrow> PFuel)"
  by pat_completeness auto
termination
  by (relation "measure (\<lambda>(av, rs, ps). MAXARGS - length av)") auto

declare parse_args.simps [simp del]

fun parseline :: "nat \<Rightarrow> u8 list \<Rightarrow> cmd pres"
  and parsepipe :: "nat \<Rightarrow> u8 list \<Rightarrow> cmd pres"
  and parseblock :: "nat \<Rightarrow> u8 list \<Rightarrow> cmd pres"
  and parseexec :: "nat \<Rightarrow> u8 list \<Rightarrow> cmd pres" where
  "parseline 0 ps = PFuel"
| "parseline (Suc n) ps =
     pbnd (parsepipe n ps) (\<lambda>c s.
       case parse_backs c s of (c1, s1) \<Rightarrow>
       case peek s1 '';'' of (b, s2) \<Rightarrow>
         if b then (case gettoken s2 of (_, _, s3) \<Rightarrow> pbnd (parseline n s3) (\<lambda>d s4. POk (LIST c1 d) s4))
         else POk c1 s2)"
| "parsepipe 0 ps = PFuel"
| "parsepipe (Suc n) ps =
     pbnd (parseexec n ps) (\<lambda>c s.
       case peek s ''|'' of (b, s1) \<Rightarrow>
         if b then (case gettoken s1 of (_, _, s2) \<Rightarrow> pbnd (parsepipe n s2) (\<lambda>d s3. POk (PIPE c d) s3))
         else POk c s1)"
| "parseblock 0 ps = PFuel"
| "parseblock (Suc n) ps =
     (case peek ps ''('' of (b, s) \<Rightarrow>
        if \<not> b then PErr ''parseblock''
        else case gettoken s of (_, _, s1) \<Rightarrow>
          pbnd (parseline n s1) (\<lambda>c s2.
            case peek s2 '')'' of (b2, s3) \<Rightarrow>
              if \<not> b2 then PErr ''syntax - missing )''
              else case gettoken s3 of (_, _, s4) \<Rightarrow> parseredirs c s4))"
| "parseexec 0 ps = PFuel"
| "parseexec (Suc n) ps =
     (case peek ps ''('' of (b, s) \<Rightarrow>
        if b then parseblock n s
        else pbnd (redirs [] s) (\<lambda>rs s1.
             pbnd (parse_args [] rs s1) (\<lambda>(av, rs1) s2. POk (wrap rs1 (EXEC av)) s2)))"

text \<open>The offset of a pointer in a line of length \<open>n\<close>; \<^verbatim>\<open>nulterminate\<close> stores a NUL at the end of every string.\<close>

definition put_nul :: "nat \<Rightarrow> u8 list \<Rightarrow> u8 list \<Rightarrow> u8 list" where
  "put_nul n p buf = buf[n - length p := 0]"

primrec nulterminate :: "nat \<Rightarrow> cmd \<Rightarrow> u8 list \<Rightarrow> u8 list" where
  "nulterminate n (EXEC av) buf = fold (\<lambda>(q, e). put_nul n e) av buf"
| "nulterminate n (REDIR c f m fd) buf = put_nul n (snd f) (nulterminate n c buf)"
| "nulterminate n (PIPE l r) buf = nulterminate n r (nulterminate n l buf)"
| "nulterminate n (LIST l r) buf = nulterminate n r (nulterminate n l buf)"
| "nulterminate n (BACK c) buf = nulterminate n c buf"

definition parse_fuel :: "u8 list \<Rightarrow> nat" where
  "parse_fuel line = 4 * length line + 4"

definition parsecmd :: "u8 list \<Rightarrow> (cmd \<times> u8 list) pres" where
  "parsecmd buf =
     (let n = u_strlen buf; line = take n buf
      in pbnd (parseline (parse_fuel line) line) (\<lambda>c s.
           case peek s '''' of (_, s1) \<Rightarrow>
             if s1 \<noteq> [] then PLeft s1
             else POk (c, nulterminate n c buf) s1))"

section \<open>Running commands\<close>

text \<open>The C string that a pointer into a line of length \<open>n\<close> points at, in the buffer.\<close>

definition string_at :: "nat \<Rightarrow> u8 list \<Rightarrow> u8 list \<Rightarrow> u8 list" where
  "string_at n buf p = str (drop (n - length p) buf)"

definition sh_panic :: "u8 list \<Rightarrow> 'a user_scheme \<Rightarrow> ('b, 'a user_scheme) uout" where
  "sh_panic m s = UExit 1 (u_fprintf 2 (nl ''%s'') [VStr (Some m)] s)"

definition fork1 :: "'a user_scheme \<Rightarrow> (int, 'a user_scheme) uout" where
  "fork1 s = ubnd (u_call CFork s) (\<lambda>(p, _) s1. if p = -1 then sh_panic (bytes ''fork'') s1 else URet p s1)"

text \<open>\<^verbatim>\<open>runcmd\<close> never returns: each case ends in an exit, or in the call of \<^verbatim>\<open>exec\<close> that succeeds.\<close>

primrec runcmd :: "nat \<Rightarrow> u8 list \<Rightarrow> cmd \<Rightarrow> 'a user_scheme \<Rightarrow> (unit, 'a user_scheme) uout" where
  "runcmd n buf (EXEC av) s =
     (if av = [] then UExit 1 s
      else let argv = map (\<lambda>(q, e). string_at n buf q) av
           in ubnd (u_call (CExec (hd argv) argv) s) (\<lambda>_ s1.
                UExit 0 (u_fprintf 2 (nl ''exec %s failed'') [VStr (Some (hd argv))] s1)))"
| "runcmd n buf (REDIR c f mode fd) s =
     ubnd (u_call (CClose fd) s) (\<lambda>_ s1.
     ubnd (u_call (COpen (string_at n buf (fst f)) mode) s1) (\<lambda>(r, _) s2.
       if r < 0 then UExit 1 (u_fprintf 2 (nl ''open %s failed'') [VStr (Some (string_at n buf (fst f)))] s2)
       else runcmd n buf c s2))"
| "runcmd n buf (LIST l r) s =
     ubnd (fork1 s) (\<lambda>p s1.
       if p = 0 then runcmd n buf l s1
       else ubnd (u_call CWait s1) (\<lambda>_ s2. runcmd n buf r s2))"
| "runcmd n buf (PIPE l r) s =
     ubnd (u_call CPipe s) (\<lambda>(x, ps) s1.
       if x < 0 then sh_panic (bytes ''pipe'') s1
       else let p0 = (if ps = [] then 0 else ps ! 0); p1 = (if length ps < 2 then 0 else ps ! 1)
            in ubnd (fork1 s1) (\<lambda>a s2.
                 if a = 0 then
                   ubnd (u_call (CClose 1) s2) (\<lambda>_ s3. ubnd (u_call (CDup p1) s3) (\<lambda>_ s4.
                   ubnd (u_call (CClose p0) s4) (\<lambda>_ s5. ubnd (u_call (CClose p1) s5) (\<lambda>_ s6. runcmd n buf l s6))))
                 else ubnd (fork1 s2) (\<lambda>b s3.
                   if b = 0 then
                     ubnd (u_call (CClose 0) s3) (\<lambda>_ s4. ubnd (u_call (CDup p0) s4) (\<lambda>_ s5.
                     ubnd (u_call (CClose p0) s5) (\<lambda>_ s6. ubnd (u_call (CClose p1) s6) (\<lambda>_ s7. runcmd n buf r s7))))
                   else ubnd (u_call (CClose p0) s3) (\<lambda>_ s4. ubnd (u_call (CClose p1) s4) (\<lambda>_ s5.
                        ubnd (u_call CWait s5) (\<lambda>_ s6. ubnd (u_call CWait s6) (\<lambda>_ s7. UExit 0 s7)))))))"
| "runcmd n buf (BACK c) s =
     ubnd (fork1 s) (\<lambda>p s1. if p = 0 then runcmd n buf c s1 else UExit 0 s1)"

definition getcmd :: "u8 list \<Rightarrow> nat \<Rightarrow> 'a user_scheme \<Rightarrow> (int \<times> u8 list) \<times> 'a user_scheme" where
  "getcmd buf nbuf s =
     (let s1 = snd (u_write 2 (bytes ''$ '') s);
          (buf1, s2) = u_gets (u_memset buf 0 nbuf) (int nbuf) s1
      in if hd0 buf1 = 0 then ((-1, buf1), s2) else ((0, buf1), s2))"

text \<open>What the child does with the line: parse it, then run the command.\<close>

definition sh_child :: "u8 list \<Rightarrow> 'a user_scheme \<Rightarrow> (unit, 'a user_scheme) uout" where
  "sh_child buf s =
     (case parsecmd buf of
        POk (c, buf1) _ \<Rightarrow> runcmd (u_strlen buf) buf1 c s
      | PErr m \<Rightarrow> sh_panic (bytes m) s
      | PLeft r \<Rightarrow> sh_panic (bytes ''syntax'') (u_fprintf 2 (nl ''leftovers: %s'') [VStr (Some r)] s)
      | PFuel \<Rightarrow> UStop s)"

definition sh_chdir :: "u8 list \<Rightarrow> 'a user_scheme \<Rightarrow> (unit, 'a user_scheme) uout" where
  "sh_chdir buf s =
     (let buf1 = buf[u_strlen buf - 1 := 0]; d = str (drop 3 buf1)
      in ubnd (u_call (CChdir d) s) (\<lambda>(r, _) s1.
           URet () (if r < 0 then u_fprintf 2 (nl ''cannot cd %s'') [VStr (Some d)] s1 else s1)))"

text \<open>One turn of the loop of \<^verbatim>\<open>main\<close> with a line; the child's turn does not come back.\<close>

definition sh_turn :: "u8 list \<Rightarrow> 'a user_scheme \<Rightarrow> (unit, 'a user_scheme) uout" where
  "sh_turn buf s =
     (if hd0 buf = 0x63 \<and> nth0 buf 1 = 0x64 \<and> nth0 buf 2 = 32 then sh_chdir buf s
      else ubnd (fork1 s) (\<lambda>p s1. if p = 0 then sh_child buf s1 else ubnd (u_call CWait s1) (\<lambda>_ s2. URet () s2)))"

primrec sh_loop :: "nat \<Rightarrow> u8 list \<Rightarrow> 'a user_scheme \<Rightarrow> (unit, 'a user_scheme) uout" where
  "sh_loop 0 buf s = UStop s"
| "sh_loop (Suc k) buf s =
     (case getcmd buf 100 s of ((r, buf1), s1) \<Rightarrow>
        if r < 0 then UExit 0 s1 else ubnd (sh_turn buf1 s1) (\<lambda>_ s2. sh_loop k buf1 s2))"

primrec open_console :: "nat \<Rightarrow> 'a user_scheme \<Rightarrow> (unit, 'a user_scheme) uout" where
  "open_console 0 s = UStop s"
| "open_console (Suc k) s =
     ubnd (u_call (COpen (bytes ''console'') (uint O_RDWR)) s) (\<lambda>(fd, _) s1.
       if fd < 0 then URet () s1
       else if fd \<ge> 3 then ubnd (u_call (CClose fd) s1) (\<lambda>_ s2. URet () s2)
       else open_console k s1)"

definition sh_main :: "'a user_scheme \<Rightarrow> (unit, 'a user_scheme) uout" where
  "sh_main s = ubnd (open_console (length (u_ans s) + 1) s) (\<lambda>_ s1. sh_loop (unread 0 s1 + 1) (replicate 100 0) s1)"

section \<open>The parser returns\<close>

lemma pbnd_POk: "pbnd m f = POk y t \<longleftrightarrow> (\<exists>x s. m = POk x s \<and> f x s = POk y t)"
  by (cases m) auto

lemma pbnd_PFuel: "pbnd m f = PFuel \<longleftrightarrow> m = PFuel \<or> (\<exists>x s. m = POk x s \<and> f x s = PFuel)"
  by (cases m) auto

lemma parse_backs_length: "parse_backs c ps = (d, s) \<Longrightarrow> length s \<le> length ps"
proof (induction c ps rule: parse_backs.induct)
  case (1 c ps)
  obtain b u where p: "peek ps ''&'' = (b, u)" by fastforce
  obtain r qe v where g: "gettoken u = (r, qe, v)" by (metis prod_cases3)
  show ?case
  proof (cases b)
    case True
    then have "parse_backs (BACK c) v = (d, s)" using 1(2) p g by (subst (asm) parse_backs.simps) simp
    then show ?thesis using 1(1) [OF p [symmetric] True g [symmetric] refl] peek_length [OF p] gettoken_length [OF g] by simp
  next
    case False
    then show ?thesis using 1(2) p peek_length [OF p] by (subst (asm) parse_backs.simps) simp
  qed
qed

lemma redirs_length:
  "redirs rs ps = POk rs1 s \<Longrightarrow> length s \<le> length ps" "redirs rs ps \<noteq> PFuel" "redirs rs ps \<noteq> PLeft r"
proof (induction rs ps arbitrary: rs1 s rule: redirs.induct)
  case (1 rs ps)
  obtain b u where p: "peek ps ''<>'' = (b, u)" by fastforce
  obtain t qe v where g: "gettoken u = (t, qe, v)" by (metis prod_cases3)
  obtain k f w where h: "gettoken v = (k, f, w)" by (metis prod_cases3)
  note step = redirs.simps [of rs ps]
  note ih = 1(1-3) [OF p [symmetric] _ g [symmetric] refl h [symmetric] refl]
  { case 1 show ?case using 1 ih(1) p g h peek_length [OF p] gettoken_length [OF g] gettoken_length [OF h]
      by (subst (asm) step) (fastforce split: if_splits) }
  { case 2 show ?case using ih(2) p g h by (subst step) simp }
  { case 3 show ?case using ih(3) p g h by (subst step) simp }
qed

lemma parse_args_length:
  "parse_args av rs ps = POk x s \<Longrightarrow> length s \<le> length ps" "parse_args av rs ps \<noteq> PFuel"
proof (induction av rs ps arbitrary: x s rule: parse_args.induct)
  case (1 av rs ps)
  obtain b u where p: "peek ps ''|)&;'' = (b, u)" by fastforce
  obtain t qe v where g: "gettoken u = (t, qe, v)" by (metis prod_cases3)
  note step = parse_args.simps [of av rs ps]
  have le: "length v \<le> length ps" using peek_length [OF p] gettoken_length [OF g] by simp
  note ih = 1(1,2) [OF p [symmetric] _ g [symmetric] refl]
  { case 1
    show ?case
    proof (cases "b \<or> t = 0")
      case True
      then show ?thesis using 1 p g le peek_length [OF p] by (subst (asm) step) (auto split: if_splits)
    next
      case False
      then obtain rs1 w where r: "redirs rs v = POk rs1 w" "parse_args (av @ [qe]) rs1 w = POk x s" "t = 0x61" "length av + 1 < MAXARGS"
        using 1 p g by (subst (asm) step) (auto split: if_splits pres.splits)
      have "length s \<le> length w" using ih(1) [OF _ _ _ _ r(1)] False r by simp
      then show ?thesis using redirs_length(1) [OF r(1)] le by simp
    qed }
  { case 2
    show ?case
    proof (cases "b \<or> t = 0 \<or> t \<noteq> 0x61 \<or> length av + 1 \<ge> MAXARGS")
      case True
      then show ?thesis using p g by (subst step) auto
    next
      case False
      then show ?thesis using ih(2) p g redirs_length(2) [of rs v] by (subst step) (auto split: pres.splits)
    qed }
qed

lemmas parse_induct = parseline_parsepipe_parseblock_parseexec.induct

lemma parse_length:
  "parseline n ps = POk c s \<Longrightarrow> length s \<le> length ps"
  "parsepipe n ps = POk c s \<Longrightarrow> length s \<le> length ps"
  "parseblock n ps = POk c s \<Longrightarrow> length s \<le> length ps"
  "parseexec n ps = POk c s \<Longrightarrow> length s \<le> length ps"
proof (induction n ps and n ps and n ps and n ps arbitrary: c s and c s and c s and c s rule: parse_induct)
  case (2 n ps)
  obtain c0 s0 where a1: "parsepipe n ps = POk c0 s0" using 2(3) by (cases "parsepipe n ps") auto
  obtain c1 s1 where a2: "parse_backs c0 s0 = (c1, s1)" by fastforce
  obtain b s2 where a3: "peek s1 '';'' = (b, s2)" by fastforce
  note a = a1 a2 a3
  have le: "length s2 \<le> length ps" using 2(1) [OF a(1)] parse_backs_length [OF a(2)] peek_length [OF a(3)] by simp
  obtain r qe s3 where g: "gettoken s2 = (r, qe, s3)" by (metis prod_cases3)
  show ?case using 2(3) a g le 2(2) [OF a(2) [symmetric] a(3) [symmetric] _ g [symmetric] refl] gettoken_length [OF g]
    by (fastforce simp: pbnd_POk split: if_splits)
next
  case (4 n ps)
  obtain c0 s0 where a1: "parseexec n ps = POk c0 s0" using 4(3) by (cases "parseexec n ps") auto
  obtain b s1 where a2: "peek s0 ''|'' = (b, s1)" by fastforce
  note a = a1 a2
  have le: "length s1 \<le> length ps" using 4(1) [OF a(1)] peek_length [OF a(2)] by simp
  obtain r qe s2 where g: "gettoken s1 = (r, qe, s2)" by (metis prod_cases3)
  show ?case using 4(3) a g le 4(2) [OF a(2) [symmetric] _ g [symmetric] refl] gettoken_length [OF g]
    by (fastforce simp: pbnd_POk split: if_splits)
next
  case (6 n ps)
  obtain b u where p: "peek ps ''('' = (b, u)" by fastforce
  obtain r qe v where g: "gettoken u = (r, qe, v)" by (metis prod_cases3)
  obtain d w where a: b "parseline n v = POk d w" using 6(2) p g by (cases b; cases "parseline n v") auto
  obtain b2 x where p2: "peek w '')'' = (b2, x)" by fastforce
  obtain r2 qe2 y where g2: "gettoken x = (r2, qe2, y)" by (metis prod_cases3)
  obtain rs where "redirs [] y = POk rs s" using 6(2) p g a p2 g2 by (auto simp: parseredirs_def pbnd_POk split: if_splits)
  then have "length s \<le> length y" by (rule redirs_length)
  moreover have "length w \<le> length v" using 6(1) [OF p [symmetric] _ g [symmetric] refl a(2)] a(1) by simp
  ultimately show ?case using peek_length [OF p] peek_length [OF p2] gettoken_length [OF g] gettoken_length [OF g2] by simp
next
  case (8 n ps)
  obtain b u where p: "peek ps ''('' = (b, u)" by fastforce
  show ?case
  proof (cases b)
    case True
    then show ?thesis using 8(2) p 8(1) [OF p [symmetric] True] peek_length [OF p] by fastforce
  next
    case False
    then obtain rs v x where "redirs [] u = POk rs v" "parse_args [] rs v = POk x s" using 8(2) p by (auto simp: pbnd_POk split: prod.splits)
    then show ?thesis using redirs_length(1) parse_args_length(1) peek_length [OF p] by fastforce
  qed
qed simp_all

text \<open>Enough fuel: every call consumes a token or goes one level down.\<close>

lemma peek_shorter: "peek ps [c] = (True, s) \<Longrightarrow> of_char c \<in> set symbols \<Longrightarrow> gettoken s = (r, qe, t) \<Longrightarrow> length t < length ps"
  by (erule peek_gettoken) (auto simp: bytes_def)

lemma syms [simp]: "59 \<in> set symbols" "124 \<in> set symbols" "40 \<in> set symbols" "41 \<in> set symbols" "38 \<in> set symbols"
  by (simp_all add: symbols_def bytes_def)

lemma parse_enough:
  "4 * length ps + 4 \<le> n \<Longrightarrow> parseline n ps \<noteq> PFuel"
  "4 * length ps + 3 \<le> n \<Longrightarrow> parsepipe n ps \<noteq> PFuel"
  "4 * length ps + 1 \<le> n \<Longrightarrow> parseblock n ps \<noteq> PFuel"
  "4 * length ps + 2 \<le> n \<Longrightarrow> parseexec n ps \<noteq> PFuel"
proof (induction n ps and n ps and n ps and n ps rule: parse_induct)
  case (2 n ps)
  have "parsepipe n ps \<noteq> PFuel" using 2(1,3) by simp
  moreover have "parseline n s3 \<noteq> PFuel" if "parsepipe n ps = POk c s" "(c1, s1) = parse_backs c s" "(True, s2) = peek s1 '';''"
    "(r, q, s3) = gettoken s2" for c s c1 s1 s2 r q s3
  proof -
    have "length s3 < length ps" using parse_length(2) [OF that(1)] parse_backs_length [OF that(2) [symmetric]]
      peek_shorter [OF that(3) [symmetric] _ that(4) [symmetric]] by simp
    then show ?thesis using 2(2) [OF that(2,3) _ that(4) refl] 2(3) by simp
  qed
  ultimately show ?case by (auto simp: pbnd_PFuel split: prod.splits if_splits)
next
  case (4 n ps)
  have "parseexec n ps \<noteq> PFuel" using 4(1,3) by simp
  moreover have "parsepipe n s2 \<noteq> PFuel" if "parseexec n ps = POk c s" "(True, s1) = peek s ''|''"
    "(r, q, s2) = gettoken s1" for c s s1 r q s2
  proof -
    have "length s2 < length ps" using parse_length(4) [OF that(1)] peek_shorter [OF that(2) [symmetric] _ that(3) [symmetric]] by simp
    then show ?thesis using 4(2) [OF that(2) _ that(3) refl] 4(3) by simp
  qed
  ultimately show ?case by (auto simp: pbnd_PFuel split: prod.splits if_splits)
next
  case (6 n ps)
  have "parseline n v \<noteq> PFuel" if "(True, u) = peek ps ''(''" "(r, q, v) = gettoken u" for u r q v
  proof -
    have "length v < length ps" using peek_shorter [OF that(1) [symmetric] _ that(2) [symmetric]] by simp
    then show ?thesis using 6(1) [OF that(1) _ that(2) refl] 6(2) by simp
  qed
  then show ?case using redirs_length(2) by (auto simp: pbnd_PFuel parseredirs_def split: prod.splits if_splits)
next
  case (8 n ps)
  have "parseblock n u \<noteq> PFuel" if "(True, u) = peek ps ''(''" for u
    using 8(1) [OF that] 8(2) peek_length [OF that [symmetric]] by simp
  then show ?case using redirs_length(2) parse_args_length(2) by (auto simp: pbnd_PFuel split: prod.splits if_splits)
qed simp_all

lemma parse_mono:
  "parseline n ps \<noteq> PFuel \<Longrightarrow> n \<le> m \<Longrightarrow> parseline m ps = parseline n ps"
  "parsepipe n ps \<noteq> PFuel \<Longrightarrow> n \<le> m \<Longrightarrow> parsepipe m ps = parsepipe n ps"
  "parseblock n ps \<noteq> PFuel \<Longrightarrow> n \<le> m \<Longrightarrow> parseblock m ps = parseblock n ps"
  "parseexec n ps \<noteq> PFuel \<Longrightarrow> n \<le> m \<Longrightarrow> parseexec m ps = parseexec n ps"
proof (induction n ps and n ps and n ps and n ps arbitrary: m and m and m and m rule: parse_induct)
  case (2 n ps)
  obtain k where m: "m = Suc k" "n \<le> k" using 2(4) by (cases m) auto
  have eq: "parsepipe k ps = parsepipe n ps" using 2(1) [OF _ m(2)] 2(3) by (auto simp: pbnd_PFuel)
  show ?case
  proof (cases "parsepipe n ps")
    case (POk c s)
    obtain c1 s1 where a2: "parse_backs c s = (c1, s1)" by fastforce
    obtain b s2 where a3: "peek s1 '';'' = (b, s2)" by fastforce
    obtain r qe s3 where g: "gettoken s2 = (r, qe, s3)" by (metis prod_cases3)
    have "b \<Longrightarrow> parseline n s3 \<noteq> PFuel" using 2(3) POk a2 a3 g by auto
    then have "b \<Longrightarrow> parseline k s3 = parseline n s3" using 2(2) [OF a2 [symmetric] a3 [symmetric] _ g [symmetric] refl _ m(2)] by blast
    then show ?thesis using eq POk a2 a3 g m(1) by simp
  qed (use eq m(1) in simp_all)
next
  case (4 n ps)
  obtain k where m: "m = Suc k" "n \<le> k" using 4(4) by (cases m) auto
  have eq: "parseexec k ps = parseexec n ps" using 4(1) [OF _ m(2)] 4(3) by (auto simp: pbnd_PFuel)
  show ?case
  proof (cases "parseexec n ps")
    case (POk c s)
    obtain b s1 where a2: "peek s ''|'' = (b, s1)" by fastforce
    obtain r qe s2 where g: "gettoken s1 = (r, qe, s2)" by (metis prod_cases3)
    have "b \<Longrightarrow> parsepipe n s2 \<noteq> PFuel" using 4(3) POk a2 g by auto
    then have "b \<Longrightarrow> parsepipe k s2 = parsepipe n s2" using 4(2) [OF a2 [symmetric] _ g [symmetric] refl _ m(2)] by blast
    then show ?thesis using eq POk a2 g m(1) by simp
  qed (use eq m(1) in simp_all)
next
  case (6 n ps)
  obtain k where m: "m = Suc k" "n \<le> k" using 6(3) by (cases m) auto
  obtain b u where p: "peek ps ''('' = (b, u)" by fastforce
  obtain r qe v where g: "gettoken u = (r, qe, v)" by (metis prod_cases3)
  have "b \<Longrightarrow> parseline n v \<noteq> PFuel" using 6(2) p g by (auto simp: pbnd_PFuel)
  then have "b \<Longrightarrow> parseline k v = parseline n v" using 6(1) [OF p [symmetric] _ g [symmetric] refl _ m(2)] by blast
  then show ?case using p g m(1) by simp
next
  case (8 n ps)
  obtain k where m: "m = Suc k" "n \<le> k" using 8(3) by (cases m) auto
  obtain b u where p: "peek ps ''('' = (b, u)" by fastforce
  have "b \<Longrightarrow> parseblock k u = parseblock n u" using 8(1) [OF p [symmetric] _ _ m(2)] 8(2) p by auto
  then show ?case using p m(1) by simp
qed simp_all

text \<open>
  Property C27. The shell's parser returns on every line: the recursion of \<^verbatim>\<open>parseline\<close>, \<^verbatim>\<open>parsepipe\<close>,
  \<^verbatim>\<open>parseexec\<close> and \<^verbatim>\<open>parseblock\<close> ends, as four calls for each byte of the line and four more are enough, and more
  fuel gives the same result. So \<^verbatim>\<open>parsecmd\<close> gives a command, calls \<^verbatim>\<open>panic\<close>, or reports what is left over.
\<close>

theorem parsecmd_returns:
  "parsecmd buf \<noteq> PFuel \<and> parseline (parse_fuel line + k) line = parseline (parse_fuel line) line"
proof
  have enough: "parseline (parse_fuel l) l \<noteq> PFuel" for l by (rule parse_enough) (simp add: parse_fuel_def)
  show "parsecmd buf \<noteq> PFuel" using enough by (auto simp: parsecmd_def Let_def pbnd_PFuel split: prod.splits if_splits)
  show "parseline (parse_fuel line + k) line = parseline (parse_fuel line) line" by (rule parse_mono(1) [OF enough]) simp
qed

end
