(* ===== verification/Shparse.thy ===== *)
theory Shparse
  imports Sh
begin

text \<open>
  What the parser of the shell gives: the strings of a command are the words of the line, and printing a command and
  parsing the line gives the command back.
\<close>

section \<open>The strings of a command\<close>

text \<open>
  A word of the line: a stretch of bytes that are neither white space nor symbols, up to one that is or to the end.
\<close>

definition word_byte :: "u8 \<Rightarrow> bool" where
  "word_byte c \<longleftrightarrow> c \<noteq> 0 \<and> \<not> is_ws c \<and> \<not> is_sym c"

definition word_span :: "u8 list \<Rightarrow> span \<Rightarrow> bool" where
  "word_span line p \<longleftrightarrow> (\<exists>a w. line = a @ w @ snd p \<and> fst p = w @ snd p \<and> list_all word_byte w \<and> w \<noteq> [] \<and>
     (snd p = [] \<or> \<not> word_byte (hd (snd p))))"

definition span_text :: "span \<Rightarrow> u8 list" where
  "span_text p = take (length (fst p) - length (snd p)) (fst p)"

primrec spans :: "cmd \<Rightarrow> span list" where
  "spans (EXEC av) = av"
| "spans (REDIR c f m fd) = spans c @ [f]"
| "spans (PIPE l r) = spans l @ spans r"
| "spans (LIST l r) = spans l @ spans r"
| "spans (BACK c) = spans c"

definition suff :: "u8 list \<Rightarrow> u8 list \<Rightarrow> bool" where
  "suff line s \<longleftrightarrow> (\<exists>a. line = a @ s)"

lemma suff_dropWhile: "suff line s \<Longrightarrow> suff line (dropWhile P s)"
  unfolding suff_def by (metis append.assoc takeWhile_dropWhile_id)

lemma suff_tl: "suff line s \<Longrightarrow> suff line (tl s)"
  unfolding suff_def by (metis append.assoc append_Cons append_Nil list.collapse list.sel(2))

lemma suff_refl [simp]: "suff line line"
  by (simp add: suff_def)

lemma suff_gettoken: "suff line ps \<Longrightarrow> gettoken ps = (r, qe, s) \<Longrightarrow> suff line s"
  by (auto simp: gettoken_def Let_def skip_ws_def skip_word_def suff_dropWhile suff_tl split: if_splits)

lemma suff_peek: "suff line ps \<Longrightarrow> peek ps toks = (b, s) \<Longrightarrow> suff line s"
  by (auto simp: peek_def Let_def skip_ws_def suff_dropWhile)

lemma is_sym_iff: "is_sym c \<longleftrightarrow> c \<in> {0x3c, 0x7c, 0x3e, 0x26, 0x3b, 0x28, 0x29}"
  by (auto simp: is_sym_def symbols_def bytes_def)

lemma gettoken_word:
  assumes "suff line ps" "0 \<notin> set line" "gettoken ps = (0x61, qe, s)"
  shows "word_span line qe"
proof -
  let ?s = "skip_ws ps" and ?P = "\<lambda>c. \<not> is_ws c \<and> \<not> is_sym c"
  let ?w = "takeWhile ?P ?s" and ?e = "dropWhile ?P ?s"
  have qe: "qe = (?s, ?e)" and c: "hd0 ?s \<noteq> 0" "\<not> is_sym (hd0 ?s)"
    using assms(3) by (auto simp: gettoken_def Let_def skip_word_def is_sym_iff split: if_splits)
  obtain a where a: "line = a @ ?s" using suff_dropWhile [OF assms(1)] by (auto simp: suff_def skip_ws_def)
  have z: "0 \<notin> set ?s" using a assms(2) by (metis Un_iff set_append)
  have "?s \<noteq> []" "hd ?s = hd0 ?s" using c(1) by (auto simp: hd0_def split: list.splits)
  moreover have "\<not> is_ws (hd ?s)" using hd_dropWhile [of is_ws ps] calculation(1) by (simp add: skip_ws_def)
  ultimately have "?w \<noteq> []" using c(2) by (cases ?s) auto
  moreover have "list_all word_byte ?w" using z by (auto simp: list_all_iff word_byte_def dest: set_takeWhileD)
  moreover have "?e = [] \<or> \<not> word_byte (hd ?e)" using hd_dropWhile [of ?P ?s] by (auto simp: word_byte_def)
  moreover have "?s = ?w @ ?e" "line = a @ ?w @ ?e" using a by simp_all
  ultimately show ?thesis unfolding word_span_def qe fst_conv snd_conv by blast
qed

definition words_in :: "u8 list \<Rightarrow> (u8 \<times> span) list \<Rightarrow> bool" where
  "words_in line rs \<longleftrightarrow> list_all (\<lambda>(t, f). word_span line f) rs"

lemma redirs_words:
  assumes "0 \<notin> set line"
  shows "suff line ps \<Longrightarrow> words_in line rs \<Longrightarrow> redirs rs ps = POk rs1 s \<Longrightarrow> words_in line rs1 \<and> suff line s"
proof (induction rs ps rule: redirs.induct)
  case (1 rs ps)
  obtain b u where p: "peek ps ''<>'' = (b, u)" by fastforce
  obtain t qe v where g: "gettoken u = (t, qe, v)" by (metis prod_cases3)
  obtain k f w where h: "gettoken v = (k, f, w)" by (metis prod_cases3)
  note su = suff_peek [OF 1(2) p]
  note sv = suff_gettoken [OF su g]
  show ?case
  proof (cases b)
    case True
    then have k: "k = 0x61" "redirs (rs @ [(t, f)]) w = POk rs1 s" using 1(4) p g h by (subst (asm) redirs.simps, simp split: if_splits)+
    have "words_in line (rs @ [(t, f)])" using 1(3) gettoken_word [OF sv assms] h k(1) by (simp add: words_in_def)
    then show ?thesis using 1(1) [OF p [symmetric] True g [symmetric] refl h [symmetric] refl _ suff_gettoken [OF sv h] _ k(2)] k(1) by simp
  next
    case False
    then show ?thesis using 1(3,4) p su by (subst (asm) redirs.simps) simp
  qed
qed

lemma parse_args_words:
  assumes "0 \<notin> set line"
  shows "suff line ps \<Longrightarrow> list_all (word_span line) av \<Longrightarrow> words_in line rs \<Longrightarrow> parse_args av rs ps = POk (av1, rs1) s \<Longrightarrow>
    list_all (word_span line) av1 \<and> words_in line rs1 \<and> suff line s"
proof (induction av rs ps rule: parse_args.induct)
  case (1 av rs ps)
  obtain b u where p: "peek ps ''|)&;'' = (b, u)" by fastforce
  obtain t qe v where g: "gettoken u = (t, qe, v)" by (metis prod_cases3)
  note su = suff_peek [OF 1(2) p]
  note sv = suff_gettoken [OF su g]
  note step = parse_args.simps [of av rs ps]
  show ?case
  proof (cases "b \<or> t = 0")
    case True
    then show ?thesis using 1(3-5) p g su sv by (subst (asm) step) (auto split: if_splits)
  next
    case False
    then obtain rs2 w where r: "redirs rs v = POk rs2 w" "parse_args (av @ [qe]) rs2 w = POk (av1, rs1) s" "t = 0x61" "length av + 1 < MAXARGS"
      using 1(5) p g by (subst (asm) step) (auto split: if_splits pres.splits)
    note rw = redirs_words [OF assms sv 1(4) r(1)]
    have "list_all (word_span line) (av @ [qe])" using 1(3) gettoken_word [OF su assms] g r(3) by simp
    then show ?thesis using 1(1) [OF p [symmetric] _ g [symmetric] refl _ _ _ r(1)] False r rw by simp
  qed
qed

lemma parse_backs_spans:
  "suff line ps \<Longrightarrow> parse_backs c ps = (d, s) \<Longrightarrow> spans d = spans c \<and> suff line s"
proof (induction c ps rule: parse_backs.induct)
  case (1 c ps)
  obtain b u where p: "peek ps ''&'' = (b, u)" by fastforce
  obtain r qe v where g: "gettoken u = (r, qe, v)" by (metis prod_cases3)
  note su = suff_peek [OF 1(2) p]
  show ?case
  proof (cases b)
    case True
    then have "parse_backs (BACK c) v = (d, s)" using 1(3) p g by (subst (asm) parse_backs.simps) simp
    then show ?thesis using 1(1) [OF p [symmetric] True g [symmetric] refl suff_gettoken [OF su g]] by simp
  next
    case False
    then show ?thesis using 1(3) p su by (subst (asm) parse_backs.simps) simp
  qed
qed

lemma spans_redir: "set (spans (redir_of t c f)) \<subseteq> insert f (set (spans c))"
  by (auto simp: redir_of_def)

lemma spans_wrap: "list_all P (spans c) \<Longrightarrow> list_all (\<lambda>(t, f). P f) rs \<Longrightarrow> list_all P (spans (wrap rs c))"
proof (induction rs arbitrary: c)
  case (Cons x rs)
  obtain t f where x: "x = (t, f)" by (cases x)
  have "list_all P (spans (redir_of t c f))" using Cons.prems x spans_redir [of t c f] by (auto simp: list_all_iff)
  then show ?case using Cons.IH [of "redir_of t c f"] Cons.prems x by (simp add: wrap_def)
qed (simp add: wrap_def)

abbreviation good_cmd :: "u8 list \<Rightarrow> cmd \<Rightarrow> u8 list \<Rightarrow> bool" where
  "good_cmd line c s \<equiv> list_all (word_span line) (spans c) \<and> suff line s"

lemma parse_words:
  assumes "0 \<notin> set line"
  shows "suff line ps \<Longrightarrow> parseline n ps = POk c s \<Longrightarrow> good_cmd line c s"
    "suff line ps \<Longrightarrow> parsepipe n ps = POk c s \<Longrightarrow> good_cmd line c s"
    "suff line ps \<Longrightarrow> parseblock n ps = POk c s \<Longrightarrow> good_cmd line c s"
    "suff line ps \<Longrightarrow> parseexec n ps = POk c s \<Longrightarrow> good_cmd line c s"
proof (induction n ps and n ps and n ps and n ps arbitrary: c s and c s and c s and c s rule: parse_induct)
  case (2 n ps)
  obtain c0 s0 where a1: "parsepipe n ps = POk c0 s0" using 2(4) by (cases "parsepipe n ps") auto
  obtain c1 s1 where a2: "parse_backs c0 s0 = (c1, s1)" by fastforce
  obtain b s2 where a3: "peek s1 '';'' = (b, s2)" by fastforce
  obtain r qe s3 where g: "gettoken s2 = (r, qe, s3)" by (metis prod_cases3)
  have 0: "good_cmd line c0 s0" by (rule 2(1) [OF 2(3) a1])
  then have 1: "good_cmd line c1 s1" using parse_backs_spans [OF _ a2, of line] by simp
  then have s2: "suff line s2" using suff_peek [OF _ a3] by blast
  note ih = 2(2) [OF a2 [symmetric] a3 [symmetric] _ g [symmetric] refl suff_gettoken [OF s2 g]]
  show ?case
  proof (cases b)
    case True
    then obtain d where d: "parseline n s3 = POk d s" "c = LIST c1 d" using 2(4) a1 a2 a3 g by (auto simp: pbnd_POk)
    show ?thesis using ih [OF True d(1)] 1 d(2) by simp
  qed (use 2(4) a1 a2 a3 1 s2 in simp)
next
  case (4 n ps)
  obtain c0 s0 where a1: "parseexec n ps = POk c0 s0" using 4(4) by (cases "parseexec n ps") auto
  obtain b s1 where a2: "peek s0 ''|'' = (b, s1)" by fastforce
  obtain r qe s2 where g: "gettoken s1 = (r, qe, s2)" by (metis prod_cases3)
  have 0: "good_cmd line c0 s0" by (rule 4(1) [OF 4(3) a1])
  then have s1: "suff line s1" using suff_peek [OF _ a2] by blast
  note ih = 4(2) [OF a2 [symmetric] _ g [symmetric] refl suff_gettoken [OF s1 g]]
  show ?case
  proof (cases b)
    case True
    then obtain d where d: "parsepipe n s2 = POk d s" "c = PIPE c0 d" using 4(4) a1 a2 g by (auto simp: pbnd_POk)
    show ?thesis using ih [OF True d(1)] 0 d(2) by simp
  qed (use 4(4) a1 a2 0 s1 in simp)
next
  case (6 n ps)
  obtain b u where p: "peek ps ''('' = (b, u)" by fastforce
  obtain r qe v where g: "gettoken u = (r, qe, v)" by (metis prod_cases3)
  obtain d w where a: b "parseline n v = POk d w" using 6(3) p g by (cases b; cases "parseline n v") auto
  obtain b2 x where p2: "peek w '')'' = (b2, x)" by fastforce
  obtain r2 qe2 y where g2: "gettoken x = (r2, qe2, y)" by (metis prod_cases3)
  obtain rs where rs: "redirs [] y = POk rs s" "c = wrap rs d" using 6(3) p g a p2 g2 by (auto simp: parseredirs_def pbnd_POk split: if_splits)
  have d: "good_cmd line d w"
    using 6(1) [OF p [symmetric] _ g [symmetric] refl suff_gettoken [OF suff_peek [OF 6(2) p] g] a(2)] a(1) by simp
  have y: "suff line y" using d suff_gettoken [OF suff_peek [OF _ p2] g2] by blast
  show ?case using redirs_words [OF assms y _ rs(1)] d rs(2) spans_wrap [of "word_span line" d rs] by (simp add: words_in_def)
next
  case (8 n ps)
  obtain b u where p: "peek ps ''('' = (b, u)" by fastforce
  note su = suff_peek [OF 8(2) p]
  show ?case
  proof (cases b)
    case True
    then show ?thesis using 8(1) [OF p [symmetric] True su] 8(3) p by simp
  next
    case False
    then obtain rs v av rs1 where r: "redirs [] u = POk rs v" "parse_args [] rs v = POk (av, rs1) s" "c = wrap rs1 (EXEC av)"
      using 8(3) p by (auto simp: pbnd_POk)
    have "words_in line rs \<and> suff line v" using redirs_words [OF assms su _ r(1)] by (simp add: words_in_def)
    then have "list_all (word_span line) av \<and> words_in line rs1 \<and> suff line s" using parse_args_words [OF assms _ _ _ r(2)] by simp
    then show ?thesis using r(3) spans_wrap [of "word_span line" "EXEC av" rs1] by (simp add: words_in_def)
  qed
qed simp_all

text \<open>The NULs are all at the ends of words.\<close>

lemma nulterminate_fold: "nulterminate n c buf = fold (\<lambda>p. put_nul n (snd p)) (spans c) buf"
proof (induction c arbitrary: buf)
  case (EXEC av)
  then show ?case by (simp add: case_prod_beta')
qed simp_all

lemma fold_put_nul:
  "length (fold (\<lambda>p. put_nul n (snd p)) ps buf) = length buf \<and>
   (\<forall>i < length buf. fold (\<lambda>p. put_nul n (snd p)) ps buf ! i = (if \<exists>p \<in> set ps. i = n - length (snd p) then 0 else buf ! i))"
proof (induction ps arbitrary: buf)
  case (Cons p ps)
  have l: "length (put_nul n (snd p) buf) = length buf" by (simp add: put_nul_def)
  show ?case using Cons.IH [of "put_nul n (snd p) buf"] by (auto simp: l nth_list_update) (auto simp: put_nul_def nth_list_update)
qed simp

lemma word_span_at:
  assumes "word_span line p"
  obtains k where "k = length line - length (fst p)" "k + length (span_text p) = length line - length (snd p)"
    "\<And>j. j < length (span_text p) \<Longrightarrow> k + j < length line \<and> line ! (k + j) = span_text p ! j \<and> word_byte (span_text p ! j)"
    "length line - length (snd p) = length line \<or> length line - length (snd p) < length line \<and> \<not> word_byte (line ! (length line - length (snd p)))"
proof -
  obtain a w where w: "line = a @ w @ snd p" "fst p = w @ snd p" "list_all word_byte w" "snd p = [] \<or> \<not> word_byte (hd (snd p))"
    using assms by (auto simp: word_span_def)
  have t: "span_text p = w" using w(2) by (simp add: span_text_def)
  show ?thesis
  proof (rule that [of "length a"])
    show "j < length (span_text p) \<Longrightarrow> length a + j < length line \<and> line ! (length a + j) = span_text p ! j \<and> word_byte (span_text p ! j)" for j
      using w t by (auto simp: nth_append list_all_length)
    have "line ! (length a + length w) = hd (snd p)" if "snd p \<noteq> []" using that w(1) by (simp add: nth_append hd_conv_nth)
    then show "length line - length (snd p) = length line \<or> length line - length (snd p) < length line \<and> \<not> word_byte (line ! (length line - length (snd p)))"
      using w(1,4) by (cases "snd p") auto
  qed (use w t in simp_all)
qed

lemma nulterminate_strings:
  assumes line: "line = take n buf" "n \<le> length buf" "list_all (word_span line) (spans c)" and p: "p \<in> set (spans c)"
  shows "string_at n (nulterminate n c buf) (fst p) = span_text p"
proof -
  let ?b = "nulterminate n c buf"
  have n: "length line = n" using line by simp
  have b: "length ?b = length buf" "\<And>i. i < length buf \<Longrightarrow> ?b ! i = (if \<exists>p \<in> set (spans c). i = n - length (snd p) then 0 else buf ! i)"
    using fold_put_nul [of n "spans c" buf] by (simp_all add: nulterminate_fold)
  have at: "word_span line q" if "q \<in> set (spans c)" for q using line(3) that by (simp add: list_all_iff)
  obtain k where k: "k = n - length (fst p)" "k + length (span_text p) = n - length (snd p)"
    "\<And>j. j < length (span_text p) \<Longrightarrow> k + j < n \<and> line ! (k + j) = span_text p ! j \<and> word_byte (span_text p ! j)"
    using word_span_at [OF at [OF p]] unfolding n by metis
  have same: "?b ! (k + j) = span_text p ! j" if j: "j < length (span_text p)" for j
  proof -
    have "k + j \<noteq> n - length (snd q)" if "q \<in> set (spans c)" for q
      using word_span_at [OF at [OF that]] k(3) [OF j] unfolding n by (metis less_irrefl)
    moreover have "k + j < length buf" "buf ! (k + j) = span_text p ! j" using k(3) [OF j] line(1,2) by auto
    ultimately show ?thesis using b(2) [of "k + j"] by auto
  qed
  let ?l = "length (span_text p)"
  have kl: "k + ?l \<le> length buf" using k(2) line(2) by simp
  have "take ?l (drop k ?b) = span_text p" by (rule nth_equalityI) (use b(1) kl same in auto)
  then have d: "drop k ?b = span_text p @ drop (k + ?l) ?b" by (metis append_take_drop_id drop_drop add.commute)
  have z: "0 \<notin> set (span_text p)" using k(3) by (auto simp: in_set_conv_nth word_byte_def)
  have "drop (k + ?l) ?b = [] \<or> hd (drop (k + ?l) ?b) = 0"
  proof (cases "k + ?l < length buf")
    case True
    then have "?b ! (k + ?l) = 0" using b(2) [OF True] k(2) p by auto
    then show ?thesis using True b(1) by (simp add: hd_drop_conv_nth)
  qed (use b(1) in simp)
  then have "str (drop k ?b) = span_text p"
    using str_nul(1) [OF z, of "tl (drop (k + ?l) ?b)"] str_nul(2) [OF z] d by (metis append_Nil2 list.collapse)
  then show ?thesis using k(1) by (simp add: string_at_def)
qed

text \<open>
  Property C29. The strings of a parsed command are the words of the line: if \<^verbatim>\<open>parsecmd\<close> succeeds, every argument
  and file name of the command is a word of the line (a maximal stretch from its beginning of bytes that are neither white space
  nor symbols), and the C string at it in the buffer that \<^verbatim>\<open>nulterminate\<close> leaves is exactly that word, although all words
  share the one buffer.
\<close>

theorem parsecmd_strings:
  assumes "parsecmd buf = POk (c, buf1) s" and "p \<in> set (spans c)"
  shows "word_span (take (u_strlen buf) buf) p \<and> string_at (u_strlen buf) buf1 (fst p) = span_text p"
proof -
  let ?n = "u_strlen buf"
  let ?line = "take ?n buf"
  obtain s0 where r: "parseline (parse_fuel ?line) ?line = POk c s0" "buf1 = nulterminate ?n c buf"
    using assms(1) by (cases "parseline (parse_fuel ?line) ?line") (auto simp: parsecmd_def Let_def case_prod_beta split: if_splits)
  have w: "list_all (word_span ?line) (spans c)" using parse_words(1) [OF u_strlen_take suff_refl r(1)] by simp
  then have "word_span ?line p" using assms(2) by (simp add: list_all_iff)
  then show ?thesis using nulterminate_strings [OF refl u_strlen_le w assms(2)] r(2) by simp
qed

section \<open>Printing and parsing\<close>

text \<open>Commands as their users think of them, and how they are written, with parentheses where the grammar needs them.\<close>

datatype sh =
    SExec "u8 list list"
  | SRedir sh u8 "u8 list"
  | SPipe sh sh
  | SBack sh
  | SList sh sh

primrec texts :: "cmd \<Rightarrow> sh" where
  "texts (EXEC av) = SExec (map span_text av)"
| "texts (REDIR c f m fd) = SRedir (texts c) (if m = uint O_RDONLY then 0x3c else if m = uint (or (or O_WRONLY O_CREATE) O_TRUNC) then 0x3e else 0x2b) (span_text f)"
| "texts (PIPE l r) = SPipe (texts l) (texts r)"
| "texts (BACK c) = SBack (texts c)"
| "texts (LIST l r) = SList (texts l) (texts r)"

datatype tok = Word "u8 list" | Sym u8

fun tok_bytes :: "tok \<Rightarrow> u8 list" where
  "tok_bytes (Word w) = w"
| "tok_bytes (Sym c) = (if c = 0x2b then [0x3e, 0x3e] else [c])"

fun tok_kind :: "tok \<Rightarrow> u8" where
  "tok_kind (Word w) = 0x61"
| "tok_kind (Sym c) = c"

fun tok_ok :: "tok \<Rightarrow> bool" where
  "tok_ok (Word w) = (w \<noteq> [] \<and> list_all word_byte w)"
| "tok_ok (Sym c) = (c \<in> {0x7c, 0x28, 0x29, 0x3b, 0x26, 0x3c, 0x3e, 0x2b})"

definition paren :: "bool \<Rightarrow> tok list \<Rightarrow> tok list" where
  "paren b ts = (if b then Sym 0x28 # ts @ [Sym 0x29] else ts)"

primrec prt :: "sh \<Rightarrow> nat \<Rightarrow> tok list" where
  "prt (SExec ws) d = map Word ws"
| "prt (SRedir c k f) d = prt c 0 @ [Sym k, Word f]"
| "prt (SPipe l r) d = paren (d < 1) (prt l 0 @ Sym 0x7c # prt r 1)"
| "prt (SBack c) d = paren (d < 2) (prt c 2 @ [Sym 0x26])"
| "prt (SList l r) d = paren (d < 3) (prt l 2 @ Sym 0x3b # prt r 3)"

primrec sh_ok :: "sh \<Rightarrow> bool" where
  "sh_ok (SExec ws) = (length ws < MAXARGS \<and> list_all (\<lambda>w. tok_ok (Word w)) ws)"
| "sh_ok (SRedir c k f) = (sh_ok c \<and> k \<in> {0x3c, 0x3e, 0x2b} \<and> tok_ok (Word f))"
| "sh_ok (SPipe l r) = (sh_ok l \<and> sh_ok r)"
| "sh_ok (SBack c) = sh_ok c"
| "sh_ok (SList l r) = (sh_ok l \<and> sh_ok r)"

definition render :: "tok list \<Rightarrow> u8 list" where
  "render ts = concat (map (\<lambda>t. tok_bytes t @ [32]) ts)"

lemma render_simps [simp]: "render [] = []" "render (t # ts) = tok_bytes t @ 32 # render ts" "render (ts @ us) = render ts @ render us"
  by (simp_all add: render_def)

lemma prt_ok: "sh_ok c \<Longrightarrow> list_all tok_ok (prt c d)"
  by (induction c arbitrary: d) (auto simp: paren_def list_all_iff)

text \<open>Tokens come back one by one.\<close>

lemma tok_first: "tok_ok t \<Longrightarrow> \<exists>x xs. tok_bytes t = x # xs \<and> \<not> is_ws x \<and> x \<noteq> 0"
proof (cases t)
  case (Word w)
  then show "tok_ok t \<Longrightarrow> ?thesis" by (cases w) (simp_all add: word_byte_def)
qed (auto simp: is_ws_def whitespace_def)

lemma skip_ws_render: "list_all tok_ok ts \<Longrightarrow> skip_ws (render ts) = render ts"
  using tok_first [of "hd ts"] by (cases ts) (auto simp: skip_ws_def)

lemma skip_ws_space: "skip_ws (32 # xs) = skip_ws xs"
  by (simp add: skip_ws_def is_ws_def whitespace_def)

lemma gettoken_render:
  assumes "list_all tok_ok (t # ts)"
  shows "\<exists>qe. gettoken (render (t # ts)) = (tok_kind t, qe, render ts) \<and> span_text qe = tok_bytes t"
proof -
  have s: "skip_ws (render (t # ts)) = render (t # ts)" "skip_ws (32 # render ts) = render ts"
    using skip_ws_render [OF assms] skip_ws_render [of ts] assms by (simp_all add: skip_ws_space)
  show ?thesis
  proof (cases t)
    case (Word w)
    have w: "w \<noteq> []" "list_all word_byte w" using assms Word by simp_all
    have "dropWhile (\<lambda>c. \<not> is_ws c \<and> \<not> is_sym c) (w @ 32 # render ts) = 32 # render ts"
      using w(2) by (subst dropWhile_append2) (auto simp: list_all_iff word_byte_def is_ws_def whitespace_def)
    moreover have "word_byte (hd0 (w @ 32 # render ts))" using w by (cases w) (simp_all add: hd0_def)
    then have "hd0 (w @ 32 # render ts) \<noteq> 0" "hd0 (w @ 32 # render ts) \<notin> {0x3c, 0x7c, 0x3e, 0x26, 0x3b, 0x28, 0x29}"
      unfolding word_byte_def is_sym_iff by auto
    ultimately show ?thesis using s Word
      by (intro exI [of _ "(render (t # ts), 32 # render ts)"]) (simp add: gettoken_def Let_def skip_word_def span_text_def)
  next
    case (Sym c)
    then have "c \<in> {0x7c, 0x28, 0x29, 0x3b, 0x26, 0x3c, 0x3e, 0x2b}" using assms by simp
    then show ?thesis using s Sym
      by (intro exI [of _ "(render (t # ts), 32 # render ts)"]) (auto simp: gettoken_def Let_def span_text_def hd0_def)
  qed
qed

lemma peek_render:
  assumes "list_all tok_ok ts"
  shows "peek (render ts) toks = ((case ts of [] \<Rightarrow> False | t # _ \<Rightarrow> u_strchr (bytes toks) (hd (tok_bytes t)) \<noteq> None), render ts)"
  using skip_ws_render [OF assms] tok_first [of "hd ts"] assms by (cases ts) (auto simp: peek_def Let_def hd0_def)

lemma redirs_take:
  assumes "list_all tok_ok (Sym k # Word f # rest)" "k \<in> {0x3c, 0x3e, 0x2b}"
  shows "\<exists>p. redirs rs (render (Sym k # Word f # rest)) = redirs (rs @ [(k, p)]) (render rest) \<and> span_text p = f"
proof -
  obtain q where q: "gettoken (render (Sym k # Word f # rest)) = (k, q, render (Word f # rest))"
    using gettoken_render [OF assms(1)] by auto
  obtain p where p: "gettoken (render (Word f # rest)) = (0x61, p, render rest)" "span_text p = f"
    using gettoken_render [of "Word f" rest] assms(1) by auto
  have "peek (render (Sym k # Word f # rest)) ''<>'' = (True, render (Sym k # Word f # rest))"
    using peek_render [OF assms(1), of "''<>''"] assms(2) by (auto simp: bytes_def)
  then show ?thesis using q p by (intro exI [of _ p]) (subst redirs.simps, simp)
qed

definition starts :: "(tok \<Rightarrow> bool) \<Rightarrow> tok list \<Rightarrow> bool" where
  "starts P ts \<longleftrightarrow> list_all tok_ok ts \<and> (case ts of [] \<Rightarrow> True | t # _ \<Rightarrow> P t)"

lemma starts_Cons [simp]: "starts P (t # ts) \<longleftrightarrow> tok_ok t \<and> list_all tok_ok ts \<and> P t" "starts P []"
  by (auto simp: starts_def)

lemma starts_ok: "starts P ts \<Longrightarrow> list_all tok_ok ts"
  by (simp add: starts_def)

lemma word_no_sym: "tok_ok (Word w) \<Longrightarrow> set (bytes toks) \<subseteq> set symbols \<Longrightarrow> u_strchr (bytes toks) (hd w) = None"
proof -
  assume a: "tok_ok (Word w)" "set (bytes toks) \<subseteq> set symbols"
  then have "word_byte (hd w)" by (cases w) simp_all
  then have "hd w \<notin> set symbols" by (auto simp: word_byte_def is_sym_iff symbols_def bytes_def)
  moreover have "c \<notin> set xs \<Longrightarrow> u_strchr xs c = None" for xs :: "u8 list" and c by (induction xs) auto
  ultimately show ?thesis using a(2) by blast
qed

lemma peek_word: "list_all tok_ok (Word w # ts) \<Longrightarrow> set (bytes toks) \<subseteq> set symbols \<Longrightarrow>
  peek (render (Word w # ts)) toks = (False, render (Word w # ts))"
  using peek_render [of "Word w # ts" toks] word_no_sym [of w toks] by simp

lemma redirs_stop:
  assumes "starts (\<lambda>t. t \<notin> Sym ` {0x3c, 0x3e, 0x2b}) ts"
  shows "redirs rs (render ts) = POk rs (render ts)"
proof -
  have "peek (render ts) ''<>'' = (False, render ts)"
  proof (cases ts)
    case (Cons t us)
    then show ?thesis
    proof (cases t)
      case (Word w)
      then show ?thesis using Cons assms peek_word [of w us "''<>''"] by (simp add: symbols_def bytes_def)
    next
      case (Sym c)
      then have "c \<in> {0x7c, 0x28, 0x29, 0x3b, 0x26}" using Cons assms by auto
      then show ?thesis using Cons Sym assms peek_render [of ts "''<>''"] by (auto simp: bytes_def)
    qed
  qed (simp add: peek_render [of "[]", simplified])
  then show ?thesis by (subst redirs.simps) simp
qed

abbreviation ends_cmd :: "tok \<Rightarrow> bool" where
  "ends_cmd t \<equiv> t \<in> Sym ` {0x7c, 0x29, 0x26, 0x3b}"

lemma parse_args_stop:
  assumes "starts ends_cmd ts"
  shows "parse_args av rs (render ts) = POk (av, rs) (render ts)"
proof (cases ts)
  case Nil
  have "peek [] ''|)&;'' = (False, [])" using peek_render [of "[]"] by simp
  moreover have "gettoken [] = (0, ([], []), [])" by (simp add: gettoken_def skip_ws_def hd0_def)
  ultimately show ?thesis using Nil by (subst parse_args.simps) simp
next
  case (Cons t us)
  then have "peek (render ts) ''|)&;'' = (True, render ts)" using assms peek_render [of ts "''|)&;''"] by (auto simp: bytes_def)
  then show ?thesis by (subst parse_args.simps) simp
qed

lemma parse_args_word:
  assumes "list_all tok_ok (Word w # ts)" "length av + 1 < MAXARGS"
  shows "\<exists>p. parse_args av rs (render (Word w # ts)) = pbnd (redirs rs (render ts)) (\<lambda>rs1 s1. parse_args (av @ [p]) rs1 s1) \<and> span_text p = w"
proof -
  obtain p where p: "gettoken (render (Word w # ts)) = (0x61, p, render ts)" "span_text p = w"
    using gettoken_render [OF assms(1)] by auto
  have "peek (render (Word w # ts)) ''|)&;'' = (False, render (Word w # ts))"
    using assms(1) by (rule peek_word) (auto simp: symbols_def bytes_def)
  then have "parse_args av rs (render (Word w # ts)) = pbnd (redirs rs (render ts)) (\<lambda>rs1 s1. parse_args (av @ [p]) rs1 s1)"
    using p assms(2) by (subst parse_args.simps) (simp split: pres.splits)
  then show ?thesis using p(2) by blast
qed

lemma parse_args_words_run:
  assumes "list_all tok_ok (map Word ws @ rest)" "length av + length ws < MAXARGS" "ws \<noteq> []"
  shows "\<exists>ps. parse_args av rs (render (map Word ws @ rest)) = pbnd (redirs rs (render rest)) (\<lambda>rs1 s1. parse_args (av @ ps) rs1 s1) \<and>
    map span_text ps = ws"
  using assms
proof (induction ws arbitrary: av)
  case (Cons w ws)
  obtain p where p: "parse_args av rs (render (map Word (w # ws) @ rest)) =
      pbnd (redirs rs (render (map Word ws @ rest))) (\<lambda>rs1 s1. parse_args (av @ [p]) rs1 s1)" "span_text p = w"
    using parse_args_word [of w "map Word ws @ rest" av rs] Cons.prems by auto
  show ?case
  proof (cases "ws = []")
    case True
    then show ?thesis using p by (intro exI [of _ "[p]"]) simp
  next
    case False
    then obtain v vs where ws: "ws = v # vs" by (cases ws) auto
    have "redirs rs (render (map Word ws @ rest)) = POk rs (render (map Word ws @ rest))"
      using Cons.prems by (intro redirs_stop) (auto simp: ws)
    moreover obtain ps where "parse_args (av @ [p]) rs (render (map Word ws @ rest)) =
        pbnd (redirs rs (render rest)) (\<lambda>rs1 s1. parse_args ((av @ [p]) @ ps) rs1 s1)" "map span_text ps = ws"
      using Cons.IH [of "av @ [p]"] Cons.prems False by auto
    ultimately show ?thesis using p by (intro exI [of _ "p # ps"]) simp
  qed
qed simp

text \<open>What each level of the grammar does with a printed command and a rest it cannot use.\<close>

definition exec_ok :: "sh \<Rightarrow> bool" where
  "exec_ok c \<longleftrightarrow> (\<forall>rest. starts (\<lambda>t. \<exists>k. t = Sym k \<and> k \<noteq> 0x28) rest \<longrightarrow> (\<exists>n rs c0 G.
     (\<forall>m \<ge> n. parseexec m (render (prt c 0 @ rest)) = pbnd (redirs rs (render rest)) G) \<and>
     (\<forall>rs1 r. starts ends_cmd r \<longrightarrow> G rs1 (render r) = POk (wrap rs1 c0) (render r)) \<and> texts (wrap rs c0) = c))"

definition pipe_ok :: "sh \<Rightarrow> bool" where
  "pipe_ok c \<longleftrightarrow> (\<forall>rest. starts (\<lambda>t. ends_cmd t \<and> t \<noteq> Sym 0x7c) rest \<longrightarrow>
     (\<exists>n c1. (\<forall>m \<ge> n. parsepipe m (render (prt c 1 @ rest)) = POk c1 (render rest)) \<and> texts c1 = c))"

definition back_ok :: "sh \<Rightarrow> bool" where
  "back_ok c \<longleftrightarrow> (\<forall>rest. starts (\<lambda>t. ends_cmd t \<and> t \<noteq> Sym 0x7c) rest \<longrightarrow>
     (\<exists>n d s c1. (\<forall>m \<ge> n. parsepipe m (render (prt c 2 @ rest)) = POk d s) \<and> parse_backs d s = parse_backs c1 (render rest) \<and> texts c1 = c))"

definition line_ok :: "sh \<Rightarrow> bool" where
  "line_ok c \<longleftrightarrow> (\<forall>rest. starts (\<lambda>t. t = Sym 0x29) rest \<longrightarrow>
     (\<exists>n c1. (\<forall>m \<ge> n. parseline m (render (prt c 3 @ rest)) = POk c1 (render rest)) \<and> texts c1 = c))"

lemma peek_sym:
  "list_all tok_ok (Sym k # ts) \<Longrightarrow>
   peek (render (Sym k # ts)) toks = (u_strchr (bytes toks) (if k = 0x2b then 0x3e else k) \<noteq> None, render (Sym k # ts))"
  using peek_render [of "Sym k # ts" toks] by simp

lemma peek_Nil [simp]: "peek [] toks = (False, [])"
  by (simp add: peek_def skip_ws_def hd0_def)

lemma peek_ends:
  assumes "starts (\<lambda>t. ends_cmd t \<and> t \<noteq> Sym c) r" "c \<in> {0x7c, 0x29, 0x26, 0x3b}" "bytes toks = [c]"
  shows "peek (render r) toks = (False, render r)"
proof (cases r)
  case (Cons t us)
  then obtain k where k: "t = Sym k" "k \<in> {0x7c, 0x29, 0x26, 0x3b}" "k \<noteq> c" using assms(1) by auto
  have "list_all tok_ok (Sym k # us)" using Cons assms(1) k(1) by simp
  moreover have "k \<noteq> 0x2b" using k(2) by auto
  ultimately show ?thesis using peek_sym [of k us toks] assms(3) Cons k(1,3) by simp
qed simp

lemma exec_done:
  assumes "exec_ok c" "starts ends_cmd rest"
  shows "\<exists>n c1. (\<forall>m \<ge> n. parseexec m (render (prt c 0 @ rest)) = POk c1 (render rest)) \<and> texts c1 = c"
proof -
  have e: "\<exists>k. t = Sym k \<and> k \<noteq> 0x28" "t \<notin> Sym ` {0x3c, 0x3e, 0x2b}" if t: "ends_cmd t" for t
  proof -
    obtain k where "t = Sym k" "k \<in> {0x7c, 0x29, 0x26, 0x3b}" using t by blast
    then show "\<exists>k. t = Sym k \<and> k \<noteq> 0x28" "t \<notin> Sym ` {0x3c, 0x3e, 0x2b}" by (elim insertE emptyE; simp)+
  qed
  have f: "starts (\<lambda>t. \<exists>k. t = Sym k \<and> k \<noteq> 0x28) rest" "starts (\<lambda>t. t \<notin> Sym ` {0x3c, 0x3e, 0x2b}) rest"
    using assms(2) e by (cases rest; simp add: starts_def)+
  obtain n rs c0 G where g: "\<forall>m \<ge> n. parseexec m (render (prt c 0 @ rest)) = pbnd (redirs rs (render rest)) G"
    "\<forall>rs1 r. starts ends_cmd r \<longrightarrow> G rs1 (render r) = POk (wrap rs1 c0) (render r)" "texts (wrap rs c0) = c"
    using assms(1) f(1) unfolding exec_ok_def by blast
  have "redirs rs (render rest) = POk rs (render rest)" by (rule redirs_stop [OF f(2)])
  then show ?thesis using g assms(2) by (intro exI [of _ n] exI [of _ "wrap rs c0"]) simp
qed

lemma Suc_le_obtain: "(\<forall>m \<ge> n. P m) \<Longrightarrow> (\<And>k. P k \<Longrightarrow> Q (Suc k)) \<Longrightarrow> \<forall>m \<ge> Suc n. Q m"
  by (metis Suc_le_D Suc_le_mono)

lemma exec_pipe:
  assumes "exec_ok c" "prt c 1 = prt c 0"
  shows "pipe_ok c"
  unfolding pipe_ok_def
proof (intro allI impI)
  fix rest assume r: "starts (\<lambda>t. ends_cmd t \<and> t \<noteq> Sym 0x7c) rest"
  have "starts ends_cmd rest" using r by (auto simp: starts_def split: list.splits)
  from exec_done [OF assms(1) this] obtain n c1 where
    e: "\<forall>m \<ge> n. parseexec m (render (prt c 0 @ rest)) = POk c1 (render rest)" "texts c1 = c" by blast
  have p: "peek (render rest) ''|'' = (False, render rest)" using peek_ends [OF r] by (simp add: bytes_def)
  have "\<forall>m \<ge> Suc n. parsepipe m (render (prt c 1 @ rest)) = POk c1 (render rest)"
    unfolding assms(2) by (rule Suc_le_obtain [OF e(1)]) (simp add: p)
  then show "\<exists>n c1. (\<forall>m \<ge> n. parsepipe m (render (prt c 1 @ rest)) = POk c1 (render rest)) \<and> texts c1 = c" using e(2) by blast
qed

lemma pipe_back:
  assumes "pipe_ok c" "prt c 2 = prt c 1"
  shows "back_ok c"
  unfolding back_ok_def
proof (intro allI impI)
  fix rest assume "starts (\<lambda>t. ends_cmd t \<and> t \<noteq> Sym 0x7c) rest"
  then obtain n c1 where "\<forall>m \<ge> n. parsepipe m (render (prt c 2 @ rest)) = POk c1 (render rest)" "texts c1 = c"
    using assms unfolding pipe_ok_def by auto
  then show "\<exists>n d s c1. (\<forall>m \<ge> n. parsepipe m (render (prt c 2 @ rest)) = POk d s) \<and> parse_backs d s = parse_backs c1 (render rest) \<and> texts c1 = c"
    by (intro exI [of _ n] exI [of _ c1] exI [of _ "render rest"]) simp
qed

lemma backs_stop: "starts (\<lambda>t. ends_cmd t \<and> t \<noteq> Sym 0x26) r \<Longrightarrow> parse_backs c (render r) = (c, render r)"
  using peek_ends [of "0x26" r "''&''"] by (subst parse_backs.simps) (simp add: bytes_def)

lemma back_line:
  assumes "back_ok c" "prt c 3 = prt c 2"
  shows "line_ok c"
  unfolding line_ok_def
proof (intro allI impI)
  fix rest assume r: "starts (\<lambda>t. t = Sym 0x29) rest"
  have f: "starts (\<lambda>t. ends_cmd t \<and> t \<noteq> Sym 0x7c) rest" "starts (\<lambda>t. ends_cmd t \<and> t \<noteq> Sym 0x26) rest"
    "starts (\<lambda>t. ends_cmd t \<and> t \<noteq> Sym 0x3b) rest" using r by (auto simp: starts_def split: list.splits)
  obtain n d s c1 where b: "\<forall>m \<ge> n. parsepipe m (render (prt c 2 @ rest)) = POk d s" "parse_backs d s = parse_backs c1 (render rest)" "texts c1 = c"
    using assms(1) f(1) unfolding back_ok_def by blast
  have p: "peek (render rest) '';'' = (False, render rest)" using peek_ends [OF f(3)] by (simp add: bytes_def)
  have "\<forall>m \<ge> Suc n. parseline m (render (prt c 3 @ rest)) = POk c1 (render rest)"
    unfolding assms(2) by (rule Suc_le_obtain [OF b(1)]) (simp add: p b(2) backs_stop [OF f(2)])
  then show "\<exists>n c1. (\<forall>m \<ge> n. parseline m (render (prt c 3 @ rest)) = POk c1 (render rest)) \<and> texts c1 = c" using b(3) by blast
qed

text \<open>A command in parentheses, and a redirected one.\<close>

lemma line_exec:
  assumes "line_ok c" "prt c 0 = Sym 0x28 # prt c 3 @ [Sym 0x29]" "sh_ok c"
  shows "exec_ok c"
  unfolding exec_ok_def
proof (intro allI impI)
  fix rest assume r: "starts (\<lambda>t. \<exists>k. t = Sym k \<and> k \<noteq> 0x28) rest"
  let ?ts = "prt c 3 @ Sym 0x29 # rest"
  have ok: "list_all tok_ok (Sym 0x29 # rest)" "list_all tok_ok (Sym 0x28 # ?ts)"
    using prt_ok [OF assms(3), of 3] starts_ok [OF r] by simp_all
  obtain n c1 where l: "\<forall>m \<ge> n. parseline m (render ?ts) = POk c1 (render (Sym 0x29 # rest))" "texts c1 = c"
    using assms(1) ok(1) unfolding line_ok_def by (metis starts_Cons(1) list.pred_inject(2))
  have p: "peek (render (Sym 0x28 # ?ts)) ''('' = (True, render (Sym 0x28 # ?ts))" "peek (render (Sym 0x29 # rest)) '')'' = (True, render (Sym 0x29 # rest))"
    using peek_sym [OF ok(2), of "''(''"] peek_sym [OF ok(1), of "'')''"] by (simp_all add: bytes_def)
  obtain q q2 where g: "gettoken (render (Sym 0x28 # ?ts)) = (0x28, q, render ?ts)" "gettoken (render (Sym 0x29 # rest)) = (0x29, q2, render rest)"
    using gettoken_render [OF ok(2)] gettoken_render [OF ok(1)] by auto
  have "\<forall>m \<ge> Suc n. parseblock m (render (Sym 0x28 # ?ts)) = parseredirs c1 (render rest)"
    by (rule Suc_le_obtain [OF l(1)]) (simp add: p g del: render_simps)
  then have "\<forall>m \<ge> Suc (Suc n). parseexec m (render (Sym 0x28 # ?ts)) = parseredirs c1 (render rest)"
    by (rule Suc_le_obtain) (simp add: p del: render_simps)
  then have e: "\<forall>m \<ge> Suc (Suc n). parseexec m (render (prt c 0 @ rest)) = pbnd (redirs [] (render rest)) (\<lambda>rs s. POk (wrap rs c1) s)"
    by (simp add: assms(2) parseredirs_def)
  show "\<exists>n rs c0 G. (\<forall>m \<ge> n. parseexec m (render (prt c 0 @ rest)) = pbnd (redirs rs (render rest)) G) \<and>
     (\<forall>rs1 r. starts ends_cmd r \<longrightarrow> G rs1 (render r) = POk (wrap rs1 c0) (render r)) \<and> texts (wrap rs c0) = c"
    using e l(2) by (intro exI [of _ "Suc (Suc n)"] exI [of _ "[]"] exI [of _ c1] exI [of _ "\<lambda>rs s. POk (wrap rs c1) s"])
      (simp add: wrap_def)
qed

lemma texts_redir: "k \<in> {0x3c, 0x3e, 0x2b} \<Longrightarrow> texts (wrap (rs @ [(k, p)]) c) = SRedir (texts (wrap rs c)) k (span_text p)"
  by (auto simp: wrap_def redir_of_def O_RDONLY_def O_WRONLY_def O_CREATE_def O_TRUNC_def)

lemma redir_exec:
  assumes "exec_ok c" "sh_ok (SRedir c k f)"
  shows "exec_ok (SRedir c k f)"
  unfolding exec_ok_def
proof (intro allI impI)
  fix rest assume r: "starts (\<lambda>t. \<exists>k. t = Sym k \<and> k \<noteq> 0x28) rest"
  let ?ts = "Sym k # Word f # rest"
  have k: "k \<in> {0x3c, 0x3e, 0x2b}" "list_all tok_ok ?ts" using assms(2) starts_ok [OF r] by auto
  have "starts (\<lambda>t. \<exists>k. t = Sym k \<and> k \<noteq> 0x28) ?ts" using k by auto
  then obtain n rs c0 G where e: "\<forall>m \<ge> n. parseexec m (render (prt c 0 @ ?ts)) = pbnd (redirs rs (render ?ts)) G"
    "\<forall>rs1 r. starts ends_cmd r \<longrightarrow> G rs1 (render r) = POk (wrap rs1 c0) (render r)" "texts (wrap rs c0) = c"
    using assms(1) unfolding exec_ok_def by blast
  obtain p where p: "redirs rs (render ?ts) = redirs (rs @ [(k, p)]) (render rest)" "span_text p = f"
    using redirs_take [OF k(2,1)] by blast
  show "\<exists>n rs c0 G. (\<forall>m \<ge> n. parseexec m (render (prt (SRedir c k f) 0 @ rest)) = pbnd (redirs rs (render rest)) G) \<and>
     (\<forall>rs1 r. starts ends_cmd r \<longrightarrow> G rs1 (render r) = POk (wrap rs1 c0) (render r)) \<and> texts (wrap rs c0) = SRedir c k f"
    using e p texts_redir [OF k(1), of rs p c0] by (intro exI [of _ n] exI [of _ "rs @ [(k, p)]"] exI [of _ c0] exI [of _ G]) simp
qed

lemma words_exec:
  assumes "sh_ok (SExec ws)"
  shows "exec_ok (SExec ws)"
  unfolding exec_ok_def
proof (intro allI impI)
  fix rest assume r: "starts (\<lambda>t. \<exists>k. t = Sym k \<and> k \<noteq> 0x28) rest"
  let ?ts = "map Word ws @ rest"
  have ok: "list_all tok_ok ?ts" using assms starts_ok [OF r] by (auto simp: list_all_iff)
  have p: "peek (render ?ts) ''('' = (False, render ?ts)"
  proof (cases ws)
    case Nil
    then show ?thesis
    proof (cases rest)
      case (Cons t us)
      then obtain k where "t = Sym k" "k \<noteq> 0x28" using r by auto
      then show ?thesis using Nil Cons ok peek_sym [of k us "''(''"] by (simp add: bytes_def)
    qed simp
  next
    case (Cons w vs)
    then show ?thesis using ok peek_word [of w "map Word vs @ rest" "''(''"] by (simp add: symbols_def bytes_def)
  qed
  define F where "F = (\<lambda>av rs s1. pbnd (parse_args av rs s1) (\<lambda>(av, rs1) s2. POk (wrap rs1 (EXEC av)) s2))"
  have "\<exists>ps. pbnd (redirs [] (render ?ts)) (F []) = pbnd (redirs [] (render rest)) (F ps) \<and> map span_text ps = ws"
  proof (cases "ws = []")
    case False
    obtain ps where "parse_args [] [] (render ?ts) = pbnd (redirs [] (render rest)) (\<lambda>rs1 s1. parse_args ([] @ ps) rs1 s1)" "map span_text ps = ws"
      using parse_args_words_run [OF ok, of "[]" "[]"] assms False by auto
    moreover have "redirs [] (render ?ts) = POk [] (render ?ts)" using ok False by (intro redirs_stop) (cases ws; auto)
    moreover have "pbnd (pbnd m f) g = pbnd m (\<lambda>x s. pbnd (f x s) g)" for m f g by (cases m) auto
    ultimately show ?thesis by (intro exI [of _ ps]) (simp add: F_def del: render_simps)
  qed simp
  then obtain ps where ps: "pbnd (redirs [] (render ?ts)) (F []) = pbnd (redirs [] (render rest)) (F ps)" "map span_text ps = ws" by blast
  have "\<forall>m \<ge> Suc 0. parseexec m (render ?ts) = pbnd (redirs [] (render ?ts)) (F [])"
    by (rule Suc_le_obtain [of 0 "\<lambda>_. True"]) (simp_all add: p F_def del: render_simps)
  moreover have "F ps rs1 (render r) = POk (wrap rs1 (EXEC ps)) (render r)" if "starts ends_cmd r" for rs1 r
    using parse_args_stop [OF that] by (simp add: F_def)
  ultimately show "\<exists>n rs c0 G. (\<forall>m \<ge> n. parseexec m (render (prt (SExec ws) 0 @ rest)) = pbnd (redirs rs (render rest)) G) \<and>
     (\<forall>rs1 r. starts ends_cmd r \<longrightarrow> G rs1 (render r) = POk (wrap rs1 c0) (render r)) \<and> texts (wrap rs c0) = SExec ws"
    using ps by (intro exI [of _ "Suc 0"] exI [of _ "[]"] exI [of _ "EXEC ps"] exI [of _ "F ps"]) (simp add: wrap_def del: render_simps)
qed

lemma pipes_pipe:
  assumes "exec_ok l" "pipe_ok r" "sh_ok l" "sh_ok r"
  shows "pipe_ok (SPipe l r)"
  unfolding pipe_ok_def
proof (intro allI impI)
  fix rest assume r: "starts (\<lambda>t. ends_cmd t \<and> t \<noteq> Sym 0x7c) rest"
  let ?ts = "prt r 1 @ rest"
  have ok: "list_all tok_ok (Sym 0x7c # ?ts)" using prt_ok [OF assms(4)] starts_ok [OF r] by simp
  then have s: "starts ends_cmd (Sym 0x7c # ?ts)" by simp
  obtain n c1 where e: "\<forall>m \<ge> n. parseexec m (render (prt l 0 @ Sym 0x7c # ?ts)) = POk c1 (render (Sym 0x7c # ?ts))" "texts c1 = l"
    using exec_done [OF assms(1) s] by blast
  obtain k c2 where q: "\<forall>m \<ge> k. parsepipe m (render ?ts) = POk c2 (render rest)" "texts c2 = r"
    using assms(2) r unfolding pipe_ok_def by blast
  have p: "peek (render (Sym 0x7c # ?ts)) ''|'' = (True, render (Sym 0x7c # ?ts))" using peek_sym [OF ok, of "''|''"] by (simp add: bytes_def)
  obtain q where g: "gettoken (render (Sym 0x7c # ?ts)) = (0x7c, q, render ?ts)" using gettoken_render [OF ok] by auto
  have both: "\<forall>m \<ge> max n k. parseexec m (render (prt l 0 @ Sym 0x7c # ?ts)) = POk c1 (render (Sym 0x7c # ?ts)) \<and>
      parsepipe m (render ?ts) = POk c2 (render rest)" using e(1) q(1) by auto
  have "\<forall>m \<ge> Suc (max n k). parsepipe m (render (prt l 0 @ Sym 0x7c # ?ts)) = POk (PIPE c1 c2) (render rest)"
    by (rule Suc_le_obtain [OF both]) (simp add: p g del: render_simps One_nat_def)
  moreover have "texts (PIPE c1 c2) = SPipe l r" using e(2) q(2) by simp
  moreover have "prt (SPipe l r) 1 @ rest = prt l 0 @ Sym 0x7c # ?ts" by (simp add: paren_def)
  ultimately show "\<exists>n c1. (\<forall>m \<ge> n. parsepipe m (render (prt (SPipe l r) 1 @ rest)) = POk c1 (render rest)) \<and> texts c1 = SPipe l r"
    by metis
qed

lemma backs_back:
  assumes "back_ok c"
  shows "back_ok (SBack c)"
  unfolding back_ok_def
proof (intro allI impI)
  fix rest assume r: "starts (\<lambda>t. ends_cmd t \<and> t \<noteq> Sym 0x7c) rest"
  have ok: "list_all tok_ok (Sym 0x26 # rest)" using starts_ok [OF r] by simp
  then have "starts (\<lambda>t. ends_cmd t \<and> t \<noteq> Sym 0x7c) (Sym 0x26 # rest)" by simp
  then obtain n d s c1 where b: "\<forall>m \<ge> n. parsepipe m (render (prt c 2 @ Sym 0x26 # rest)) = POk d s"
    "parse_backs d s = parse_backs c1 (render (Sym 0x26 # rest))" "texts c1 = c"
    using assms unfolding back_ok_def by blast
  have p: "peek (render (Sym 0x26 # rest)) ''&'' = (True, render (Sym 0x26 # rest))" using peek_sym [OF ok, of "''&''"] by (simp add: bytes_def)
  obtain q where g: "gettoken (render (Sym 0x26 # rest)) = (0x26, q, render rest)" using gettoken_render [OF ok] by auto
  have "parse_backs c1 (render (Sym 0x26 # rest)) = parse_backs (BACK c1) (render rest)"
    by (subst parse_backs.simps) (simp add: p g del: render_simps)
  then show "\<exists>n d s c1. (\<forall>m \<ge> n. parsepipe m (render (prt (SBack c) 2 @ rest)) = POk d s) \<and>
      parse_backs d s = parse_backs c1 (render rest) \<and> texts c1 = SBack c"
    using b by (intro exI [of _ n] exI [of _ d] exI [of _ s] exI [of _ "BACK c1"]) (simp add: paren_def)
qed

lemma lists_line:
  assumes "back_ok l" "line_ok r" "sh_ok r"
  shows "line_ok (SList l r)"
  unfolding line_ok_def
proof (intro allI impI)
  fix rest assume r: "starts (\<lambda>t. t = Sym 0x29) rest"
  let ?ts = "prt r 3 @ rest"
  have ok: "list_all tok_ok (Sym 0x3b # ?ts)" using prt_ok [OF assms(3)] starts_ok [OF r] by simp
  then have s: "starts (\<lambda>t. ends_cmd t \<and> t \<noteq> Sym 0x7c) (Sym 0x3b # ?ts)" "starts (\<lambda>t. ends_cmd t \<and> t \<noteq> Sym 0x26) (Sym 0x3b # ?ts)" by simp_all
  obtain n d u c1 where b: "\<forall>m \<ge> n. parsepipe m (render (prt l 2 @ Sym 0x3b # ?ts)) = POk d u"
    "parse_backs d u = parse_backs c1 (render (Sym 0x3b # ?ts))" "texts c1 = l" using assms(1) s(1) unfolding back_ok_def by blast
  obtain k c2 where q: "\<forall>m \<ge> k. parseline m (render ?ts) = POk c2 (render rest)" "texts c2 = r"
    using assms(2) r unfolding line_ok_def by blast
  have p: "peek (render (Sym 0x3b # ?ts)) '';'' = (True, render (Sym 0x3b # ?ts))" using peek_sym [OF ok, of "'';''"] by (simp add: bytes_def)
  obtain q where g: "gettoken (render (Sym 0x3b # ?ts)) = (0x3b, q, render ?ts)" using gettoken_render [OF ok] by auto
  have both: "\<forall>m \<ge> max n k. parsepipe m (render (prt l 2 @ Sym 0x3b # ?ts)) = POk d u \<and> parseline m (render ?ts) = POk c2 (render rest)"
    using b(1) q(1) by auto
  have "\<forall>m \<ge> Suc (max n k). parseline m (render (prt l 2 @ Sym 0x3b # ?ts)) = POk (LIST c1 c2) (render rest)"
    by (rule Suc_le_obtain [OF both]) (simp add: p g b(2) backs_stop [OF s(2)] del: render_simps)
  moreover have "texts (LIST c1 c2) = SList l r" using b(3) q(2) by simp
  moreover have "prt (SList l r) 3 @ rest = prt l 2 @ Sym 0x3b # ?ts" by (simp add: paren_def)
  ultimately show "\<exists>n c1. (\<forall>m \<ge> n. parseline m (render (prt (SList l r) 3 @ rest)) = POk c1 (render rest)) \<and> texts c1 = SList l r"
    by metis
qed

lemma all_levels: "sh_ok c \<Longrightarrow> exec_ok c \<and> pipe_ok c \<and> back_ok c \<and> line_ok c"
proof (induction c)
  case (SExec ws)
  note e = words_exec [OF SExec]
  show ?case using e exec_pipe [OF e] pipe_back [OF exec_pipe [OF e]] back_line [OF pipe_back [OF exec_pipe [OF e]]] by simp
next
  case (SRedir c k f)
  note e = redir_exec [OF _ SRedir.prems]
  have c: "exec_ok c" using SRedir by simp
  show ?case using e [OF c] exec_pipe [OF e [OF c]] pipe_back [OF exec_pipe [OF e [OF c]]] back_line [OF pipe_back [OF exec_pipe [OF e [OF c]]]] by simp
next
  case (SPipe l r)
  then have p: "pipe_ok (SPipe l r)" by (intro pipes_pipe) simp_all
  note b = pipe_back [OF p]
  have line: "line_ok (SPipe l r)" by (rule back_line [OF b]) (simp_all add: paren_def)
  show ?case using p b line line_exec [OF line _ SPipe.prems] by (simp add: paren_def)
next
  case (SBack c)
  then have b: "back_ok (SBack c)" by (intro backs_back) simp
  have line: "line_ok (SBack c)" by (rule back_line [OF b]) (simp add: paren_def)
  have e: "exec_ok (SBack c)" by (rule line_exec [OF line _ SBack.prems]) (simp add: paren_def)
  show ?case using b line e exec_pipe [OF e] by (simp add: paren_def)
next
  case (SList l r)
  then have line: "line_ok (SList l r)" by (intro lists_line) simp_all
  have e: "exec_ok (SList l r)" by (rule line_exec [OF line _ SList.prems]) (simp add: paren_def)
  have p: "pipe_ok (SList l r)" by (rule exec_pipe [OF e]) (simp add: paren_def)
  show ?case using line e p pipe_back [OF p] by (simp add: paren_def)
qed

lemma render_no_nul: "list_all tok_ok ts \<Longrightarrow> 0 \<notin> set (render ts)"
proof (induction ts)
  case (Cons t ts)
  then show ?case by (cases t) (auto simp: list_all_iff word_byte_def)
qed simp

lemma print_parse:
  assumes "sh_ok c"
  shows "\<exists>c1 buf. parsecmd (render (prt c 3) @ 0 # z) = POk (c1, buf) [] \<and> texts c1 = c"
proof -
  let ?l = "render (prt c 3)"
  have z: "0 \<notin> set ?l" by (rule render_no_nul [OF prt_ok [OF assms]])
  obtain n c1 where n: "\<forall>m \<ge> n. parseline m ?l = POk c1 []" "texts c1 = c"
    using all_levels [OF assms] starts_Cons(2) unfolding line_ok_def by (metis append_Nil2 render_simps(1))
  have "parseline (parse_fuel ?l) ?l \<noteq> PFuel" by (rule parse_enough) (simp add: parse_fuel_def)
  then have "parseline (parse_fuel ?l) ?l = parseline (max n (parse_fuel ?l)) ?l" by (intro parse_mono(1) [symmetric]) simp_all
  also have "\<dots> = POk c1 []" using n(1) by simp
  finally show ?thesis using z n(2) by (simp add: parsecmd_def Let_def)
qed

text \<open>
  Property C28. Printing and parsing: every command (programs with at most nine arguments, redirections for reading, writing and
  appending, pipes, lists and background commands, nested in any way) can be written as a line, with parentheses
  where the grammar needs them, and \<^verbatim>\<open>parsecmd\<close> of that line gives the command back.
\<close>

theorem parsecmd_print:
  assumes "sh_ok c"
  shows "\<exists>c1 buf. parsecmd (render (prt c 3) @ 0 # z) = POk (c1, buf) [] \<and> texts c1 = c"
  using assms by (rule print_parse)

definition demo_sh :: sh where
  "demo_sh = SList (SBack (SRedir (SExec [bytes ''cat'', bytes ''a'']) 0x3e (bytes ''b'')))
     (SPipe (SRedir (SList (SExec [bytes ''ls'']) (SExec [bytes ''wc''])) 0x3c (bytes ''c'')) (SExec [bytes ''grep'', bytes ''x'']))"

lemma demo_sh_ok: "sh_ok demo_sh"
  by (simp add: demo_sh_def MAXARGS_def bytes_def word_byte_def is_ws_def whitespace_def is_sym_iff)

theorem parsecmd_print_witness:
  "\<exists>c1 buf. parsecmd (render (prt demo_sh 3) @ [0]) = POk (c1, buf) [] \<and> texts c1 = demo_sh \<and>
     render (prt demo_sh 3) = bytes ''cat a > b & ; ( ls ; wc ) < c | grep x ''"
proof -
  have "render (prt demo_sh 3) = bytes ''cat a > b & ; ( ls ; wc ) < c | grep x ''" by (simp add: demo_sh_def paren_def bytes_def)
  then show ?thesis using parsecmd_print [OF demo_sh_ok, of "[]"] by simp
qed

theorem parsecmd_strings_witness:
  "\<exists>av buf. parsecmd (bytes ''ls x '' @ [0]) = POk (EXEC av, buf) [] \<and>
     map (\<lambda>p. string_at 5 buf (fst p)) av = [bytes ''ls'', bytes ''x'']"
proof -
  let ?c = "SExec [bytes ''ls'', bytes ''x'']"
  have ok: "sh_ok ?c" by (simp add: MAXARGS_def bytes_def word_byte_def is_ws_def whitespace_def is_sym_iff)
  have b: "render (prt ?c 3) @ [0] = bytes ''ls x '' @ [0]" "u_strlen (bytes ''ls x '' @ [0]) = 5" by (simp_all add: bytes_def)
  obtain c1 buf where c: "parsecmd (bytes ''ls x '' @ [0]) = POk (c1, buf) []" "texts c1 = ?c"
    using print_parse [OF ok, of "[]"] unfolding b(1) by blast
  then obtain av where av: "c1 = EXEC av" "map span_text av = [bytes ''ls'', bytes ''x'']" by (cases c1) auto
  have "string_at 5 buf (fst p) = span_text p" if "p \<in> set av" for p
    using parsecmd_strings [OF c(1), of p] that av(1) b(2) by simp
  then have "map (\<lambda>p. string_at 5 buf (fst p)) av = map span_text av" by simp
  then show ?thesis using c(1) av by auto
qed

end
