(* ===== verification/Spec2Isabelle.thy ===== *)
theory Spec2Isabelle
  imports Vmgrow Usermem Commit Fsblocks Fairness Trap Asm Sbrk Shparse
begin

text \<open>
  A verification library for the xv6 kernel for RISC-V and its user programs, the C code under \<^verbatim>\<open>src/kernel\<close> and
  \<^verbatim>\<open>src/user\<close>. This theory is its root; it imports every other theory.

  \<^bold>\<open>The program.\<close> The kernel boots (\<^verbatim>\<open>main.c\<close>) on several harts, allocates physical pages
  (\<^verbatim>\<open>kalloc.c\<close>), builds page tables (\<^verbatim>\<open>vm.c\<close>), runs processes (\<^verbatim>\<open>proc.c\<close>) that synchronise by spin locks
  (\<^verbatim>\<open>spinlock.c\<close>) and sleep locks (\<^verbatim>\<open>sleeplock.c\<close>), and serves system calls (\<^verbatim>\<open>syscall.c\<close>, \<^verbatim>\<open>sysproc.c\<close>,
  \<^verbatim>\<open>sysfile.c\<close>, \<^verbatim>\<open>exec.c\<close>) that arrive as traps (\<^verbatim>\<open>trap.c\<close>, \<^verbatim>\<open>plic.c\<close>). Files (\<^verbatim>\<open>file.c\<close>, \<^verbatim>\<open>pipe.c\<close>) are inodes of
  the file system (\<^verbatim>\<open>fs.c\<close>), whose block writes go through the log (\<^verbatim>\<open>log.c\<close>), the buffer cache (\<^verbatim>\<open>bio.c\<close>) and the
  disk driver (\<^verbatim>\<open>virtio_disk.c\<close>), or the console (\<^verbatim>\<open>console.c\<close>, \<^verbatim>\<open>uart.c\<close>, \<^verbatim>\<open>printf.c\<close>). User programs (\<^verbatim>\<open>user/\<close>)
  run on a small C library and the system calls.

  \<^bold>\<open>State.\<close> The state of the kernel is one extensible record. Each layer adds its globals:
  \<open>machine\<close> (harts, registers, spin locks; Spinlock), \<open>kmem_st\<close> (memory and the free list; Kalloc), \<open>vm_st\<close> (the
  kernel page table; Vm), \<open>con_st\<close> (UART and \<^verbatim>\<open>printf\<close>; Printf), \<open>proc_st\<close> (process table, sleep locks; Proc), \<open>tty_st\<close>
  (console and transmit rings; Console), \<open>disk_st\<close> (buffers, driver, device; Virtio), \<open>log_st\<close> (Log), \<open>fs_st\<close> (super block
  and inode table; Fs), \<open>file_st\<close> (open files and pipes; File), \<open>trap_st\<close> (Trap). An operation is a function on the record
  scheme of its layer, so the layers above call it unchanged.

  \<^bold>\<open>Outcomes.\<close> Running kernel code ends in \<open>Done x s\<close>, in \<open>Panic msg\<close>, or in \<open>Waits c s\<close>: it spins, sleeps or has
  given the hart to another thread. Code after a context switch is a definition of its own (\<open>sleep_resume\<close>,
  \<open>yield_resume\<close>, \<open>scheduler_back\<close>, the loops of \<^verbatim>\<open>begin_op\<close>, \<^verbatim>\<open>piperead\<close>, \<^verbatim>\<open>pipewrite\<close>, \<^verbatim>\<open>consoleread\<close>, \<^verbatim>\<open>uartputc\<close>). A
  user program ends in \<open>URet\<close>, \<open>UExit\<close>, or in \<open>UStop\<close> when the answers of the kernel are used up (User).

  \<^bold>\<open>Devices and other inputs.\<close> The readings of the UART status register, the bytes received, the interrupts of the PLIC and
  the registers of the disk are input lists or functions in the state; writes to device registers are traces. The
  disk is the state field \<open>device\<close>; the properties that need it assume \<open>good_device\<close>, the behaviour that the virtio
  specification documents for one request, which the function \<open>serve\<close> has. User programs run against the answers that
  the kernel gives to their calls, an input.

  \<^bold>\<open>Theories and what they show.\<close>

  \<^item> Prelude, Layout, Memory, Kstring: outcomes, step systems, the constants of \<^verbatim>\<open>param.h\<close>, \<^verbatim>\<open>memlayout.h\<close> and \<^verbatim>\<open>riscv.h\<close>,
    little-endian memory (locale \<open>word_store\<close>), and \<^verbatim>\<open>string.c\<close>; \<^verbatim>\<open>memmove\<close> is right for overlapping blocks.
  \<^item> Spinlock: \<^verbatim>\<open>spinlock.c\<close>. The steps of \<^verbatim>\<open>acquire\<close> and \<^verbatim>\<open>release\<close> between which other harts run are separate
    definitions; a step relation interleaves them, and an invariant (locale \<open>step_invariant\<close>) gives mutual exclusion and
    that no hart panics. Balanced \<^verbatim>\<open>push_off\<close> and \<^verbatim>\<open>pop_off\<close> restore the interrupt state.
  \<^item> Kalloc: the page allocator, with the free list inside the free pages, implements the locale \<open>page_allocator\<close> of sets of
    pages; no page is lost or handed out twice, and \<^verbatim>\<open>kinit\<close> frees exactly the pages it should.
  \<^item> Vm, Pagetable, Vmspec, Vmgrow, Usermem: \<^verbatim>\<open>vm.c\<close>. A page table in memory is a tree whose meaning is a function from
    addresses to entries; \<^verbatim>\<open>uvmalloc\<close> is all or nothing, \<^verbatim>\<open>copyout\<close> and \<^verbatim>\<open>copyin\<close> move exactly the bytes of user memory.
  \<^item> Printf, Ring, Console: console output sends exactly the formatted text; the rings of \<^verbatim>\<open>uart.c\<close> and \<^verbatim>\<open>console.c\<close> implement
    the queue locale \<open>fifo\<close>; \<^verbatim>\<open>consoleintr\<close> refines a line editor.
  \<^item> Proc, Sched, Fairness: \<^verbatim>\<open>proc.c\<close> and \<^verbatim>\<open>sleeplock.c\<close>. Interleavings of \<^verbatim>\<open>sleep\<close> and \<^verbatim>\<open>wakeup\<close> lose no wakeup, and no two
    harts run the same process; one pass of \<^verbatim>\<open>scheduler\<close> runs every process that was \<^verbatim>\<open>RUNNABLE\<close>; \<^verbatim>\<open>kill\<close> on every branch.
  \<^item> Virtio, Diskio, Bio, Cache: a disk request moves exactly its block; the buffer cache presents the disk as a
    function from block numbers to contents (\<open>cache\<close>), and each operation is specified by what it does to it.
  \<^item> Blockdata, Log, Commit: \<^verbatim>\<open>log.c\<close>. A commit installs exactly the logged blocks; whenever the machine stops during a commit,
    the recovery of the next boot leaves all of the transaction's writes or none.
  \<^item> Fs, File, Procfs, Sysfile, Exec, Syscall, Trap: \<^verbatim>\<open>fs.c\<close>, \<^verbatim>\<open>file.c\<close>, \<^verbatim>\<open>pipe.c\<close>, the file parts of \<^verbatim>\<open>proc.c\<close>, the system
    calls, \<^verbatim>\<open>exec.c\<close>, \<^verbatim>\<open>trap.c\<close>, \<^verbatim>\<open>plic.c\<close> and \<^verbatim>\<open>main.c\<close>, every operation of them.
  \<^item> Fsblocks: reading a block and changing one through the log inside an operation. \<^verbatim>\<open>balloc\<close> gives out the lowest free block,
    zeroed, and \<^verbatim>\<open>bfree\<close> undoes it on the bitmap exactly; that the bitmap marks itself and the log as used, as \<^verbatim>\<open>mkfs\<close> lays
    them out, is a hypothesis. The branch of \<^verbatim>\<open>balloc\<close> that finds no free block is in the model without a theorem.
  \<^item> Asm: \<^verbatim>\<open>entry.S\<close>, \<^verbatim>\<open>swtch.S\<close>, \<^verbatim>\<open>kernelvec.S\<close>, \<^verbatim>\<open>trampoline.S\<close> as programs of a small RISC-V machine, and \<^verbatim>\<open>start.c\<close>.
    Context switches are resumed, traps from user code and from kernel code and timer interrupts keep the registers, and a
    hart reaches \<^verbatim>\<open>main\<close> in supervisor mode.
  \<^item> User, Ulib, Uprintf, Grep, Uprogs, Sh, Shparse: the user programs. The matcher of \<^verbatim>\<open>grep\<close> has the declared meaning of its
    patterns, \<^verbatim>\<open>grep\<close>, \<^verbatim>\<open>wc\<close> and \<^verbatim>\<open>cat\<close> are right however the kernel cuts their input; the parser of the shell returns, gives
    back every command that was printed, and its strings are the words of the line.
  \<^item> Umalloc, Sbrk: \<^verbatim>\<open>user/umalloc.c\<close> keeps its heap a row of blocks, the free ones in a ring, whatever the program allocates
    and frees; it needs of \<^verbatim>\<open>sbrk\<close> the locale \<open>program_break\<close>, which \<^verbatim>\<open>sys_sbrk\<close> with \<^verbatim>\<open>growproc\<close> and \<^verbatim>\<open>uvmalloc\<close> is shown to satisfy.

  \<^bold>\<open>Fuel and bounds.\<close> Loops over a structure in memory that the code follows without a counter have fuel that a
  well-formed structure does not use up: three levels in \<open>freewalk\<close>, \<open>NBUF + 1\<close> rounds in the scans of \<^verbatim>\<open>bget\<close>. The
  parser of the shell has four calls for each byte of the line and four more, which is proved to be enough. The loops of
  \<^verbatim>\<open>malloc\<close> and \<^verbatim>\<open>free\<close> are partial functions that are shown to return. Loops over input end when the input does, and
  have a termination proof.

  \<^bold>\<open>Not modelled.\<close> The C code of the kernel does not run on the
  machine of Asm: \<^verbatim>\<open>swtch\<close> in C code is the outcome \<open>Waits Switched\<close>. \<^verbatim>\<open>initcode.S\<close> and the generated \<^verbatim>\<open>usys.S\<close> only issue
  system calls.
  \<^verbatim>\<open>ramdisk.c\<close> is not part of the build and uses fields that \<^verbatim>\<open>struct buf\<close> no longer has. \<^verbatim>\<open>usertests.c\<close> and
  \<^verbatim>\<open>grind.c\<close> are test drivers that only issue system calls. \<^verbatim>\<open>mkfs.c\<close> runs on the build machine and writes the image that
  the kernel then reads; \<^verbatim>\<open>defs.h\<close>, \<^verbatim>\<open>types.h\<close> and the linker scripts hold no code. Weak memory is not modelled: the interleavings are of
  sequentially consistent steps, which the fences of \<^verbatim>\<open>spinlock.c\<close> provide around critical sections.
\<close>

end
